(* ===== verification/Norn_Prelude.thy ===== *)
theory Norn_Prelude
  imports Main "HOL-Library.Word" "HOL-Library.AList" "HOL-Library.List_Lexorder"
begin

text \<open>
  The vocabulary the components share: the machine integers and byte strings of the
  Rust sources, the result type with its error values, little-endian and big-endian integer encodings, slices,
  and the association lists that stand for the hash maps. A hash map is an association list with distinct
  keys; the order of the list is one of the iteration orders the map may have.
\<close>

unbundle bit_operations_syntax

section \<open>Types\<close>

type_synonym u8 = "8 word"
type_synonym u16 = "16 word"
type_synonym u32 = "32 word"
type_synonym u64 = "64 word"
type_synonym bytes = "u8 list"

text \<open>An error is a value: \<^term>\<open>Bail\<close> stands for an \<^verbatim>\<open>Err\<close> returned to the caller,
  \<^term>\<open>Panic\<close> for an unwinding panic (a slice out of range, a failed \<^verbatim>\<open>unwrap\<close>) and
  \<^term>\<open>Eof\<close> for a stream that ends inside \<^verbatim>\<open>read_exact\<close>.\<close>

datatype error = Bail string | Panic string | Eof

type_synonym 'a result = "error + 'a"

named_theorems wire_simps \<open>unfolding the message encoders and decoders\<close>
named_theorems len_simps \<open>lengths of encodings\<close>

section \<open>Results\<close>

text \<open>The \<^verbatim>\<open>?\<close> operator.\<close>

definition and_then :: "'a result \<Rightarrow> ('a \<Rightarrow> 'b result) \<Rightarrow> 'b result" where
  "and_then r f = (case r of Inl e \<Rightarrow> Inl e | Inr x \<Rightarrow> f x)"

lemma and_then_simps [simp]:
  "and_then (Inl e) f = Inl e"
  "and_then (Inr x) f = f x"
  by (simp_all add: and_then_def)

lemma and_then_cong [fundef_cong]:
  "r = r' \<Longrightarrow> (\<And>x. r' = Inr x \<Longrightarrow> f x = g x) \<Longrightarrow> and_then r f = and_then r' g"
  by (cases r') auto

lemma and_then_Inr_iff: "and_then r f = Inr y \<longleftrightarrow> (\<exists>x. r = Inr x \<and> f x = Inr y)"
  by (cases r) auto

lemma and_then_assoc: "and_then (and_then r f) g = and_then r (\<lambda>x. and_then (f x) g)"
  by (cases r) auto

text \<open>A result that is not a panic.\<close>

definition nopanic :: "'a result \<Rightarrow> bool" where
  "nopanic r \<longleftrightarrow> (\<forall>m. r \<noteq> Inl (Panic m))"

lemma nopanic_simps [simp]:
  "nopanic (Inr x)" "nopanic (Inl (Bail m))" "nopanic (Inl Eof)" "\<not> nopanic (Inl (Panic m))"
  by (simp_all add: nopanic_def)

lemma nopanic_and_then: "nopanic (and_then r f) \<longleftrightarrow> nopanic r \<and> (\<forall>x. r = Inr x \<longrightarrow> nopanic (f x))"
  by (cases r) (auto simp: nopanic_def)

section \<open>Slices\<close>

text \<open>The indexing operations of a slice: \<^verbatim>\<open>data[i]\<close>, \<^verbatim>\<open>data[a..]\<close> and \<^verbatim>\<open>data[a..b]\<close>
  panic when the index is out of range.\<close>

definition idx :: "'a list \<Rightarrow> nat \<Rightarrow> 'a result" where
  "idx xs i = (if i < length xs then Inr (xs ! i) else Inl (Panic ''index out of bounds''))"

definition slice_from :: "'a list \<Rightarrow> nat \<Rightarrow> 'a list result" where
  "slice_from xs a = (if a \<le> length xs then Inr (drop a xs) else Inl (Panic ''slice start out of range''))"

definition slice_rng :: "'a list \<Rightarrow> nat \<Rightarrow> nat \<Rightarrow> 'a list result" where
  "slice_rng xs a b =
     (if a \<le> b \<and> b \<le> length xs then Inr (take (b - a) (drop a xs)) else Inl (Panic ''slice out of range''))"

lemma idx_Inr [simp]: "i < length xs \<Longrightarrow> idx xs i = Inr (xs ! i)"
  by (simp add: idx_def)

lemma slice_from_Inr [simp]: "a \<le> length xs \<Longrightarrow> slice_from xs a = Inr (drop a xs)"
  by (simp add: slice_from_def)

lemma slice_rng_Inr [simp]: "a \<le> b \<Longrightarrow> b \<le> length xs \<Longrightarrow> slice_rng xs a b = Inr (take (b - a) (drop a xs))"
  by (simp add: slice_rng_def)

lemma idx_Inr_iff: "idx xs i = Inr x \<longleftrightarrow> i < length xs \<and> x = xs ! i"
  by (auto simp: idx_def)

lemma slice_from_Inr_iff: "slice_from xs a = Inr ys \<longleftrightarrow> a \<le> length xs \<and> ys = drop a xs"
  by (auto simp: slice_from_def)

lemma slice_rng_Inr_iff: "slice_rng xs a b = Inr ys \<longleftrightarrow> a \<le> b \<and> b \<le> length xs \<and> ys = take (b - a) (drop a xs)"
  by (auto simp: slice_rng_def)

lemma nopanic_slices [simp]:
  "nopanic (idx xs i) \<longleftrightarrow> i < length xs"
  "nopanic (slice_from xs a) \<longleftrightarrow> a \<le> length xs"
  "nopanic (slice_rng xs a b) \<longleftrightarrow> a \<le> b \<and> b \<le> length xs"
  by (simp_all add: idx_def slice_from_def slice_rng_def nopanic_def)

text \<open>What a successful slice says about lengths, without subtraction.\<close>

lemma slice_from_InrD: "slice_from xs a = Inr ys \<Longrightarrow> length xs = a + length ys"
  by (auto simp: slice_from_Inr_iff)

lemma slice_rng_InrD: "slice_rng xs a b = Inr ys \<Longrightarrow> b = a + length ys"
  by (auto simp: slice_rng_Inr_iff)

lemma idx_InrD: "idx xs i = Inr x \<Longrightarrow> i < length xs"
  by (simp add: idx_Inr_iff)

lemmas slice_InrD = idx_InrD slice_from_InrD slice_rng_InrD

lemma drop_numeral_add_Cons [simp]: "drop (numeral k + n) (x # xs) = drop (pred_numeral k + n) xs"
  by (simp add: numeral_eq_Suc)

lemma drop_numeral_add2_Cons [simp]: "drop (numeral k + n + m) (x # xs) = drop (pred_numeral k + n + m) xs"
  by (simp add: numeral_eq_Suc)

lemmas slice_Inr_iff = idx_Inr_iff slice_from_Inr_iff slice_rng_Inr_iff

section \<open>Integers\<close>

text \<open>\<^verbatim>\<open>saturating_sub\<close> on an unsigned machine integer.\<close>

definition saturating_sub :: "'a::len word \<Rightarrow> 'a word \<Rightarrow> 'a word" where
  "saturating_sub a b = (if b \<le> a then a - b else 0)"

lemma unat_saturating_sub: "unat (saturating_sub a b) = unat a - unat b"
  by (simp add: saturating_sub_def unat_sub word_le_nat_alt not_le)

text \<open>\<^verbatim>\<open>to_le_bytes\<close> and \<^verbatim>\<open>from_le_bytes\<close>; the big-endian forms are their reversals.\<close>

definition le_bytes :: "nat \<Rightarrow> 'a::len word \<Rightarrow> bytes" where
  "le_bytes n w = map (\<lambda>i. ucast (drop_bit (8 * i) w)) [0..<n]"

primrec from_le :: "bytes \<Rightarrow> 'a::len word" where
  "from_le [] = 0"
| "from_le (b # bs) = ucast b OR push_bit 8 (from_le bs)"

definition be_bytes :: "nat \<Rightarrow> 'a::len word \<Rightarrow> bytes" where
  "be_bytes n w = rev (le_bytes n w)"

definition from_be :: "bytes \<Rightarrow> 'a::len word" where
  "from_be bs = from_le (rev bs)"

lemma length_le_bytes [simp, len_simps]: "length (le_bytes n w) = n"
  by (simp add: le_bytes_def)

lemma length_be_bytes [simp, len_simps]: "length (be_bytes n w) = n"
  by (simp add: be_bytes_def)

lemma bit_from_le:
  "bit (from_le bs :: 'a::len word) n \<longleftrightarrow>
     n < LENGTH('a) \<and> n div 8 < length bs \<and> bit (bs ! (n div 8)) (n mod 8)"
proof (induction bs arbitrary: n)
  case Nil
  then show ?case by simp
next
  case (Cons b bs)
  show ?case
  proof (cases "n < 8")
    case True
    then show ?thesis by (auto simp: bit_or_iff bit_push_bit_iff bit_ucast_iff)
  next
    case False
    then obtain m where m: "n = m + 8" by (metis add.commute le_add_diff_inverse not_less)
    have "\<not> bit b n" using False bit_imp_le_length[of b n] by auto
    moreover have "(m + 8) div 8 = Suc (m div 8)" by simp
    ultimately show ?thesis
      by (auto simp: m bit_or_iff bit_push_bit_iff bit_ucast_iff Cons.IH)
  qed
qed

lemma from_le_le_bytes:
  assumes "LENGTH('a::len) \<le> 8 * n"
  shows "from_le (le_bytes n w) = (w :: 'a word)"
proof (rule bit_eqI)
  fix i assume "possible_bit TYPE('a word) i"
  then have i: "i < LENGTH('a)" by simp
  then have "i div 8 < n" using assms by auto
  then show "bit (from_le (le_bytes n w) :: 'a word) i = bit w i"
    using i by (simp add: bit_from_le le_bytes_def bit_ucast_iff bit_drop_bit_eq)
qed

lemma from_be_be_bytes: "LENGTH('a::len) \<le> 8 * n \<Longrightarrow> from_be (be_bytes n w) = (w :: 'a word)"
  by (simp add: from_be_def be_bytes_def from_le_le_bytes)

lemma le_bytes_from_le:
  assumes "LENGTH('a::len) = 8 * length bs"
  shows "le_bytes (length bs) (from_le bs :: 'a word) = bs"
proof (rule nth_equalityI)
  fix i assume "i < length (le_bytes (length bs) (from_le bs :: 'a word))"
  then have i: "i < length bs" by simp
  show "le_bytes (length bs) (from_le bs :: 'a word) ! i = bs ! i"
  proof (rule bit_eqI)
    fix j assume "possible_bit TYPE(8 word) j"
    then have "j < 8" by simp
    then show "bit (le_bytes (length bs) (from_le bs :: 'a word) ! i) j = bit (bs ! i) j"
      using i assms by (simp add: le_bytes_def bit_ucast_iff bit_drop_bit_eq bit_from_le)
  qed
qed simp

lemma le_bytes_inj: "LENGTH('a::len) \<le> 8 * n \<Longrightarrow> le_bytes n (v :: 'a word) = le_bytes n w \<longleftrightarrow> v = w"
  by (metis from_le_le_bytes)

section \<open>Chunks of equal length\<close>

lemma take_drop_concat:
  "\<forall>x \<in> set xs. length x = k \<Longrightarrow> i < length xs \<Longrightarrow> take k (drop (i * k) (concat xs)) = xs ! i"
proof (induction xs arbitrary: i)
  case (Cons x xs)
  then show ?case by (cases i) auto
qed simp

lemma concat_take_drop: "concat (map (\<lambda>i. take k (drop (i * k) xs)) [0..<m]) = take (m * k) xs"
proof (induction m)
  case (Suc m)
  have "take (Suc m * k) xs = take (m * k) xs @ take k (drop (m * k) xs)"
    using take_add[of "m * k" k xs] by (simp add: add.commute)
  then show ?case using Suc by simp
qed simp

lemma concat_map_upt: "concat (map (\<lambda>i. map (\<lambda>j. g (i * k + j)) [0..<k]) [0..<m]) = map g [0..<m * k]"
proof (induction m)
  case (Suc m)
  have "[0..<Suc m * k] = [0..<m * k] @ map (\<lambda>j. m * k + j) [0..<k]"
    using upt_add_eq_append[of 0 "m * k" k] map_add_upt[of "m * k" k] by (simp add: add.commute)
  then show ?case using Suc by simp
qed simp

section \<open>Hash maps\<close>

text \<open>Insertion, removal and lookup are those of the association-list library; the lemmas below are the
  ones that bound the number of entries.\<close>

lemma length_update_le: "length (AList.update k v al) \<le> Suc (length al)"
  by (induction al) auto

lemma length_update_in: "k \<in> fst ` set al \<Longrightarrow> length (AList.update k v al) = length al"
  by (induction al) auto

lemma map_of_alist_update [simp]: "map_of (AList.update k v al) = (map_of al)(k \<mapsto> v)"
  by (rule update_conv')

lemma map_of_alist_delete [simp]: "map_of (AList.delete k al) = (map_of al)(k := None)"
  by (rule delete_conv')

lemma length_filter_le_trans: "length xs \<le> n \<Longrightarrow> length (filter P xs) \<le> n"
  using length_filter_le le_trans by blast

section \<open>Time\<close>

text \<open>An \<^verbatim>\<open>Instant\<close> is a number of nanoseconds; a duration too, and the difference of two instants saturates
  at zero.\<close>

type_synonym instant = int

definition duration_since :: "instant \<Rightarrow> instant \<Rightarrow> nat" where
  "duration_since now t = nat (now - t)"

definition as_millis :: "nat \<Rightarrow> nat" where
  "as_millis d = d div 1000000"

end
