(* ===== verification/Wire_Varint.thy ===== *)
theory Wire_Varint
  imports Norn_Prelude
begin

text \<open>
  The self-delimiting encodings of \<^verbatim>\<open>src/src/packet.rs\<close>: unsigned varints, source-route paths and
  length-prefixed frames. A codec that can be read off the front of a longer buffer is the interface
  \<open>prefix_codec\<close>; varints and paths provide it, and every message of the wire format relies on it.
\<close>

unbundle bit_operations_syntax

section \<open>Varints\<close>

function encode_uvarint :: "u64 \<Rightarrow> bytes \<Rightarrow> bytes" where
  "encode_uvarint v buf =
     (let byte = ucast (v AND 0x7f); v' = drop_bit 7 v in
      if v' = 0 then buf @ [byte] else encode_uvarint v' (buf @ [byte OR 0x80]))"
  by pat_completeness auto
termination
proof (relation "measure (\<lambda>(v, _). unat v)", goal_cases)
  case (2 v buf byte v')
  then have "unat v' = unat v div 128" by (simp add: drop_bit_eq_div unat_div)
  moreover have "0 < unat v'" using 2 by (metis unat_gt_0)
  ultimately show ?case by auto
qed simp

declare encode_uvarint.simps [simp del]

abbreviation uvarint :: "u64 \<Rightarrow> bytes" where
  "uvarint v \<equiv> encode_uvarint v []"

fun decode_uvarint_loop :: "u64 \<Rightarrow> nat \<Rightarrow> nat \<Rightarrow> bytes \<Rightarrow> (u64 \<times> nat) result" where
  "decode_uvarint_loop val shift i [] = Inl (Bail ''uvarint truncated'')"
| "decode_uvarint_loop val shift i (byte # data) =
     (if shift \<ge> 64 then Inl (Bail ''uvarint overflow'')
      else let val' = val OR push_bit shift (ucast (byte AND 0x7f)) in
        if byte AND 0x80 = 0 then Inr (val', i + 1)
        else decode_uvarint_loop val' (shift + 7) (i + 1) data)"

definition decode_uvarint :: "bytes \<Rightarrow> (u64 \<times> nat) result" where
  "decode_uvarint data = decode_uvarint_loop 0 0 0 data"

subsection \<open>Bytes of a varint\<close>

lemma and_7f_take_bit: "(v :: 'a::len word) AND 0x7f = take_bit 7 v"
  by (simp add: take_bit_eq_mask mask_eq_exp_minus_1)

lemma and_80_eq_0_iff: "(b :: u8) AND 0x80 = 0 \<longleftrightarrow> \<not> bit b 7"
  using bit_iff_and_push_bit_not_eq_0[of b 7] by simp

lemma bit_80_iff: "bit (0x80 :: u8) n \<longleftrightarrow> n = 7"
  using bit_push_bit_iff[of 7 "1 :: u8" n] by (auto simp: bit_1_iff dest: bit_imp_le_length)

lemma stop_byte: "(ucast (v AND 0x7f) :: u8) AND 0x80 = 0" for v :: u64
  by (simp add: and_80_eq_0_iff and_7f_take_bit bit_ucast_iff bit_take_bit_iff)

lemma more_byte: "(ucast (v AND 0x7f) OR 0x80 :: u8) AND 0x80 \<noteq> 0" for v :: u64
  by (simp add: and_80_eq_0_iff bit_or_iff bit_80_iff)

lemma stop_byte_payload: "ucast ((ucast (v AND 0x7f) :: u8) AND 0x7f) = v AND 0x7f" for v :: u64
  by (rule bit_eqI) (auto simp: and_7f_take_bit bit_ucast_iff bit_take_bit_iff)

lemma more_byte_payload: "ucast ((ucast (v AND 0x7f) OR 0x80 :: u8) AND 0x7f) = v AND 0x7f" for v :: u64
  by (rule bit_eqI) (auto simp: and_7f_take_bit bit_ucast_iff bit_take_bit_iff bit_or_iff bit_80_iff)

lemmas varint_byte = stop_byte more_byte stop_byte_payload more_byte_payload

lemma split_low7:
  "push_bit s (v AND 0x7f) OR push_bit (s + 7) (drop_bit 7 v) = push_bit s v" for v :: u64
proof (rule bit_eqI)
  fix n
  show "bit (push_bit s (v AND 0x7f) OR push_bit (s + 7) (drop_bit 7 v)) n = bit (push_bit s v) n"
  proof (cases "s + 7 \<le> n")
    case True
    then have "7 + (n - (s + 7)) = n - s" by simp
    then show ?thesis using True
      by (auto simp: and_7f_take_bit bit_or_iff bit_push_bit_iff bit_take_bit_iff bit_drop_bit_eq)
  next
    case False
    then show ?thesis
      by (auto simp: and_7f_take_bit bit_or_iff bit_push_bit_iff bit_take_bit_iff bit_drop_bit_eq)
  qed
qed

subsection \<open>Round trip\<close>

lemma encode_uvarint_append: "encode_uvarint v (xs @ ys) = xs @ encode_uvarint v ys"
proof (induction v ys rule: encode_uvarint.induct)
  case (1 v ys)
  then show ?case
    by (simp add: Let_def encode_uvarint.simps[of v])
qed

lemma encode_uvarint_buf: "encode_uvarint v buf = buf @ uvarint v"
  using encode_uvarint_append[of v buf "[]"] by simp

lemma uvarint_unfold:
  "uvarint v = (if drop_bit 7 v = 0 then [ucast (v AND 0x7f)]
                else (ucast (v AND 0x7f) OR 0x80) # uvarint (drop_bit 7 v))"
  using encode_uvarint_buf[of "drop_bit 7 v" "[ucast (v AND 0x7f) OR 0x80]"]
  by (simp add: encode_uvarint.simps[of v] Let_def)

lemma unat_drop7: "unat (drop_bit 7 v) = unat v div 128" for v :: u64
  by (simp add: drop_bit_eq_div unat_div)

lemma uvarint_induct [case_names stop more]:
  assumes stop: "\<And>v :: u64. drop_bit 7 v = 0 \<Longrightarrow> P v"
    and more: "\<And>v. drop_bit 7 v \<noteq> 0 \<Longrightarrow> P (drop_bit 7 v) \<Longrightarrow> P v"
  shows "P v"
proof (induction "unat v" arbitrary: v rule: less_induct)
  case less
  show ?case
  proof (cases "drop_bit 7 v = 0")
    case False
    then have "0 < unat (drop_bit 7 v)" by (metis unat_gt_0)
    then have "unat (drop_bit 7 v) < unat v" by (auto simp: unat_drop7)
    then show ?thesis using less more False by blast
  qed (rule stop)
qed

lemma decode_uvarint_loop_encode:
  assumes "s < 64" and "unat v < 2 ^ (64 - s)"
  shows "decode_uvarint_loop acc s i (uvarint v @ rest) =
           Inr (acc OR push_bit s v, i + length (uvarint v))"
  using assms
proof (induction v arbitrary: acc s i rule: uvarint_induct)
  case (stop v)
  then have "push_bit s (v AND 0x7f) = push_bit s v" using split_low7[of s v] by simp
  then show ?case using stop by (simp add: uvarint_unfold[of v] varint_byte Let_def)
next
  case (more v)
  have pos: "0 < unat v div 128" using more.hyps(1) by (metis unat_drop7 unat_gt_0)
  then have "128 \<le> unat v" by (simp add: div_greater_zero_iff)
  then have "(2::nat) ^ 7 < 2 ^ (64 - s)" using more.prems(2) by simp
  then have s7: "7 < 64 - s" by (rule power_less_imp_less_exp[rotated]) simp
  then have "(2::nat) ^ (64 - s) = 2 ^ (64 - (s + 7)) * 128"
    using power_add[of "2::nat" "64 - (s + 7)" 7] by simp
  then have "unat (drop_bit 7 v) < 2 ^ (64 - (s + 7))"
    using more.prems(2) by (simp add: unat_drop7 less_mult_imp_div_less)
  then show ?case
    using more s7
    by (simp add: uvarint_unfold[of v] varint_byte Let_def or.assoc split_low7 del: push_bit_and)
qed

lemma decode_uvarint_encode [simp]:
  "decode_uvarint (uvarint v @ rest) = Inr (v, length (uvarint v))"
  using decode_uvarint_loop_encode[of 0 v 0 0 rest] unsigned_less[of v, where 'a = nat] by (simp add: decode_uvarint_def)

lemma decode_uvarint_encode_all [simp]: "decode_uvarint (uvarint v) = Inr (v, length (uvarint v))"
  using decode_uvarint_encode[of v "[]"] by simp

subsection \<open>What a decode consumes\<close>

lemma decode_uvarint_loop_bounds:
  "decode_uvarint_loop val s i data = Inr (v, n) \<Longrightarrow> i < n \<and> n \<le> i + length data \<and> 7 * n \<le> 7 * i + (70 - s)"
proof (induction val s i data rule: decode_uvarint_loop.induct)
  case (2 val s i byte data)
  then show ?case by (fastforce simp: Let_def split: if_splits)
qed simp

lemma decode_uvarint_bounds:
  assumes "decode_uvarint data = Inr (v, n)"
  shows "0 < n" "n \<le> length data" "n \<le> 10"
  using decode_uvarint_loop_bounds[of 0 0 0 data v n] assms by (auto simp: decode_uvarint_def)

lemma length_uvarint_le: "length (uvarint v) \<le> 10"
  using decode_uvarint_bounds(3)[OF decode_uvarint_encode_all] .

lemma length_uvarint_pos [simp]: "0 < length (uvarint v)"
  using decode_uvarint_bounds(1)[OF decode_uvarint_encode_all] .

lemma uvarint_not_Nil [simp]: "uvarint v \<noteq> []"
  using length_uvarint_pos[of v] by fastforce

text \<open>A decode reads only the bytes it reports as consumed.\<close>

lemma decode_uvarint_loop_local:
  "decode_uvarint_loop val s i data = Inr (v, n) \<Longrightarrow>
     decode_uvarint_loop val s i (take (n - i) data @ rest) = Inr (v, n)"
proof (induction val s i data rule: decode_uvarint_loop.induct)
  case (2 val s i byte data)
  show ?case
  proof (cases "byte AND 0x80 = 0")
    case False
    with 2 have step: "decode_uvarint_loop (val OR push_bit s (ucast (byte AND 0x7f))) (s + 7) (i + 1) data = Inr (v, n)"
      and s: "s < 64" by (auto simp: Let_def split: if_splits)
    from decode_uvarint_loop_bounds[OF step] have "n - i = Suc (n - (i + 1))" by auto
    with 2 step s False show ?thesis by (simp add: Let_def)
  qed (use 2 in \<open>auto simp: Let_def split: if_splits\<close>)
qed simp

lemma decode_uvarint_local:
  "decode_uvarint data = Inr (v, n) \<Longrightarrow> decode_uvarint (take n data @ rest) = Inr (v, n)"
  using decode_uvarint_loop_local[of 0 0 0 data v n rest] by (simp add: decode_uvarint_def)

subsection \<open>A reference semantics\<close>

text \<open>The number a run of varint bytes denotes, base 128, least significant group first. The decoder
  computes it modulo $2^{64}$: the bits the tenth byte carries above bit 63 are dropped.\<close>

fun varint_nat :: "bytes \<Rightarrow> nat" where
  "varint_nat [] = 0"
| "varint_nat (b # bs) = unat b mod 128 + 128 * varint_nat bs"

fun varint_scan :: "bytes \<Rightarrow> nat option" where
  "varint_scan [] = None"
| "varint_scan (b # bs) = (if bit b 7 then map_option Suc (varint_scan bs) else Some 1)"

lemma or_push_group:
  fixes acc :: u64
  assumes "take_bit s acc = acc"
  shows "acc OR push_bit s (ucast (b AND 0x7f :: u8)) = acc + of_nat (2 ^ s * (unat b mod 128))"
proof -
  have "unat b mod 128 = unat (b AND 0x7f)"
    by (simp add: and_7f_take_bit take_bit_eq_mod unat_mod)
  then have "of_nat (unat b mod 128) = (ucast (b AND 0x7f) :: u64)"
    by (simp only:) simp
  then have "push_bit s (ucast (b AND 0x7f)) = (of_nat (2 ^ s * (unat b mod 128)) :: u64)"
    by (simp add: push_bit_eq_mult)
  moreover have "acc + push_bit s (ucast (b AND 0x7f)) = acc OR push_bit s (ucast (b AND 0x7f))"
    by (rule disjunctive_add) (metis assms bit_push_bit_iff bit_take_bit_iff not_le)
  ultimately show ?thesis by simp
qed

lemma take_bit_or_push_group:
  "take_bit s acc = acc \<Longrightarrow>
     take_bit (s + 7) (acc OR push_bit s (ucast (b AND 0x7f :: u8))) =
       acc OR push_bit s (ucast (b AND 0x7f))" for acc :: u64
proof (rule bit_eqI)
  fix n assume acc: "take_bit s acc = acc"
  have "n < s" if "bit acc n" using that bit_take_bit_iff[of s acc n] acc by simp
  then show "bit (take_bit (s + 7) (acc OR push_bit s (ucast (b AND 0x7f :: u8)))) n =
             bit (acc OR push_bit s (ucast (b AND 0x7f))) n"
    by (auto simp: and_7f_take_bit bit_or_iff bit_push_bit_iff bit_take_bit_iff bit_ucast_iff)
qed

lemma decode_uvarint_loop_ref:
  assumes "take_bit (7 * k) acc = acc" and "k \<le> 10"
  shows "decode_uvarint_loop acc (7 * k) i data =
    (case varint_scan (take (10 - k) data) of
       Some n \<Rightarrow> Inr (acc + of_nat (2 ^ (7 * k) * varint_nat (take n data)), i + n)
     | None \<Rightarrow> Inl (Bail (if length data \<le> 10 - k then ''uvarint truncated'' else ''uvarint overflow'')))"
  using assms
proof (induction data arbitrary: acc k i)
  case Nil
  then show ?case by simp
next
  case (Cons b data)
  show ?case
  proof (cases "k = 10")
    case True
    then show ?thesis by simp
  next
    case False
    define m where "m = 9 - k"
    have m: "10 - k = Suc m" "10 - Suc k = m" and k: "7 * k < 64" "Suc k \<le> 10"
      using False Cons.prems by (auto simp: m_def)
    let ?acc = "acc OR push_bit (7 * k) (ucast (b AND 0x7f))"
    have acc: "take_bit (7 * Suc k) ?acc = ?acc"
      using take_bit_or_push_group[OF Cons.prems(1)] by (simp add: add.commute)
    have plus: "?acc = acc + of_nat (2 ^ (7 * k) * (unat b mod 128))"
      by (rule or_push_group[OF Cons.prems(1)])
    note IH = Cons.IH[OF acc k(2), of "Suc i", unfolded m mult_Suc_right add.commute[of 7]]
    show ?thesis
    proof (cases "bit b 7")
      case True
      have step: "decode_uvarint_loop acc (7 * k) i (b # data) = decode_uvarint_loop ?acc (7 * k + 7) (Suc i) data"
        using True k(1) by (simp add: Let_def and_80_eq_0_iff)
      show ?thesis unfolding step IH unfolding plus
        by (cases "varint_scan (take m data)") (simp_all add: m True power_add algebra_simps)
    next
      case False
      then show ?thesis using k m by (simp add: Let_def plus and_80_eq_0_iff)
    qed
  qed
qed

lemma decode_uvarint_reference:
  "decode_uvarint data =
    (case varint_scan (take 10 data) of
       Some n \<Rightarrow> Inr (of_nat (varint_nat (take n data)), n)
     | None \<Rightarrow> Inl (Bail (if length data \<le> 10 then ''uvarint truncated'' else ''uvarint overflow'')))"
  using decode_uvarint_loop_ref[of 0 0 0 data] by (simp add: decode_uvarint_def cong: option.case_cong)

section \<open>Paths\<close>

text \<open>\<^verbatim>\<open>hop + 1\<close> is the wrapping addition of the release build.\<close>

definition encode_path :: "u64 list \<Rightarrow> bytes" where
  "encode_path path = foldl (\<lambda>buf hop. encode_uvarint (hop + 1) buf) [] path @ [0]"

function decode_path_loop :: "bytes \<Rightarrow> u64 list \<Rightarrow> nat \<Rightarrow> (u64 list \<times> nat) result" where
  "decode_path_loop data path pos =
     (if pos \<ge> length data then Inl (Bail ''path not terminated'')
      else and_then (decode_uvarint (drop pos data)) (\<lambda>(val, consumed).
        if consumed = 0 then Inl (Bail ''decode_uvarint returned zero bytes consumed'')
        else if val = 0 then Inr (path, pos + consumed)
        else if length path \<ge> 1024 then Inl (Bail ''path too long (> 1024 hops)'')
        else decode_path_loop data (path @ [val - 1]) (pos + consumed)))"
  by pat_completeness auto
termination
  by (relation "measure (\<lambda>(data, path, pos). length data - pos)") auto

declare decode_path_loop.simps [simp del]

definition decode_path :: "bytes \<Rightarrow> (u64 list \<times> nat) result" where
  "decode_path data = decode_path_loop data [] 0"

lemma encode_path_fold: "foldl (\<lambda>buf hop. encode_uvarint (hop + 1) buf) buf p = buf @ concat (map (\<lambda>h. uvarint (h + 1)) p)"
proof (induction p arbitrary: buf)
  case (Cons h p)
  have "encode_uvarint (h + 1) buf = buf @ uvarint (h + 1)" by (rule encode_uvarint_buf)
  with Cons.IH show ?case by simp
qed simp

lemma encode_path_eq: "encode_path p = concat (map (\<lambda>h. uvarint (h + 1)) p) @ [0]"
  by (simp add: encode_path_def encode_path_fold)

lemma uvarint_0: "uvarint 0 = [0]"
  by (simp add: uvarint_unfold)

lemma decode_path_loop_encode:
  assumes "pos = length pre" and "length acc + length p \<le> 1024" and "- 1 \<notin> set p"
  shows "decode_path_loop (pre @ encode_path p @ rest) acc pos = Inr (acc @ p, pos + length (encode_path p))"
  using assms
proof (induction p arbitrary: pre acc pos)
  case Nil
  have "decode_uvarint (0 # rest) = Inr (0, 1)"
    using decode_uvarint_encode[of 0 rest] by (simp add: uvarint_0)
  with Nil show ?case by (simp add: decode_path_loop.simps encode_path_eq)
next
  case (Cons h p)
  then have "h + 1 \<noteq> 0" by (metis add_eq_0_iff2 list.set_intros(1))
  have "decode_path_loop ((pre @ uvarint (h + 1)) @ encode_path p @ rest) (acc @ [h]) (pos + length (uvarint (h + 1)))
        = Inr ((acc @ [h]) @ p, pos + length (uvarint (h + 1)) + length (encode_path p))"
    using Cons.prems by (intro Cons.IH) auto
  moreover have "encode_path (h # p) = uvarint (h + 1) @ encode_path p" by (simp add: encode_path_eq)
  ultimately show ?case
    using Cons.prems \<open>h + 1 \<noteq> 0\<close> by (subst decode_path_loop.simps) simp
qed

lemma decode_path_encode:
  "length p \<le> 1024 \<Longrightarrow> - 1 \<notin> set p \<Longrightarrow> decode_path (encode_path p @ rest) = Inr (p, length (encode_path p))"
  using decode_path_loop_encode[of 0 "[]" "[]" p rest] by (simp add: decode_path_def)

lemma decode_path_loop_InrE:
  assumes "decode_path_loop data path pos = Inr (p, n)"
  obtains (stop) c where "decode_uvarint (drop pos data) = Inr (0, c)" "p = path" "n = pos + c"
  | (hop) val c where "decode_uvarint (drop pos data) = Inr (val, c)" "val \<noteq> 0" "length path < 1024"
      "decode_path_loop data (path @ [val - 1]) (pos + c) = Inr (p, n)"
  using assms decode_path_loop.simps[of data path pos]
  by (auto simp: and_then_Inr_iff split: if_splits prod.splits)

lemma decode_path_loop_bounds:
  "decode_path_loop data path pos = Inr (p, n) \<Longrightarrow> pos \<le> length data \<Longrightarrow> length path \<le> 1024 \<Longrightarrow> - 1 \<notin> set path \<Longrightarrow>
     pos < n \<and> n \<le> length data \<and> length p \<le> 1024 \<and> - 1 \<notin> set p"
proof (induction "length data - pos" arbitrary: path pos rule: less_induct)
  case less
  from less.prems(1) show ?case
  proof (cases rule: decode_path_loop_InrE)
    case (stop c)
    then show ?thesis using decode_uvarint_bounds[OF stop(1)] less.prems by auto
  next
    case (hop val c)
    note b = decode_uvarint_bounds[OF hop(1)]
    have "- 1 \<notin> set (path @ [val - 1])" using less.prems(4) hop(2) by (auto simp: eq_diff_eq)
    then have "pos + c < n \<and> n \<le> length data \<and> length p \<le> 1024 \<and> - 1 \<notin> set p"
      using hop b less.prems by (intro less.hyps[of "pos + c" "path @ [val - 1]"]) auto
    then show ?thesis using b by simp
  qed
qed

lemma decode_path_bounds:
  assumes "decode_path data = Inr (p, n)"
  shows "0 < n" "n \<le> length data" "length p \<le> 1024" "- 1 \<notin> set p"
  using decode_path_loop_bounds[of data "[]" 0 p n] assms by (auto simp: decode_path_def)

lemma decode_path_loop_cut:
  assumes "pos = length pre" and "length acc + length p \<le> 1024" and "- 1 \<notin> set p"
  shows "decode_path_loop (pre @ encode_path (p @ - 1 # q) @ rest) acc pos =
           Inr (acc @ p, pos + length (encode_path p))"
proof -
  have "encode_path (p @ - 1 # q) = encode_path p @ encode_path q"
    by (simp add: encode_path_eq uvarint_0)
  then show ?thesis using decode_path_loop_encode[OF assms, of "encode_path q @ rest"] by simp
qed

section \<open>Frames\<close>

text \<open>A reader is the bytes it will still deliver before end of file, a writer the bytes handed to it.\<close>

fun read_len :: "bytes \<Rightarrow> bytes \<Rightarrow> (bytes \<times> bytes) result" where
  "read_len len_bytes [] = Inl Eof"
| "read_len len_bytes (b # reader) =
     (let len_bytes' = len_bytes @ [b] in
      if b AND 0x80 = 0 then Inr (len_bytes', reader)
      else if length len_bytes' > 9 then Inl (Bail ''uvarint length prefix too long'')
      else read_len len_bytes' reader)"

definition read_frame :: "bytes \<Rightarrow> (bytes \<times> bytes) result" where
  "read_frame reader =
     and_then (read_len [] reader) (\<lambda>(len_bytes, reader).
     and_then (decode_uvarint len_bytes) (\<lambda>(len, _).
       if len = 0 then Inr ([], reader)
       else if len > 1024 * 1024 then Inl (Bail ''frame too large'')
       else if length reader < unat len then Inl Eof
       else Inr (take (unat len) reader, drop (unat len) reader)))"

definition write_frame :: "bytes \<Rightarrow> bytes \<Rightarrow> bytes" where
  "write_frame writer data = writer @ encode_uvarint (of_nat (length data)) [] @ data"

definition write_frames_batched :: "bytes \<Rightarrow> bytes list \<Rightarrow> bytes" where
  "write_frames_batched writer frames =
     (if frames = [] then writer
      else if length frames = 1 then write_frame writer (frames ! 0)
      else writer @ foldl (\<lambda>buf f. encode_uvarint (of_nat (length f)) buf @ f) [] frames)"

lemma read_len_uvarint:
  assumes "length acc + length (uvarint v) \<le> 10"
  shows "read_len acc (uvarint v @ rest) = Inr (acc @ uvarint v, rest)"
  using assms
proof (induction v arbitrary: acc rule: uvarint_induct)
  case (stop v)
  then show ?case by (simp add: uvarint_unfold[of v] varint_byte Let_def)
next
  case (more v)
  then have "length acc + length (uvarint (drop_bit 7 v)) \<le> 9"
    by (simp add: uvarint_unfold[of v])
  moreover from this have "length acc < 9"
    using length_uvarint_pos[of "drop_bit 7 v"] by linarith
  ultimately show ?case
    using more by (simp add: uvarint_unfold[of v] varint_byte Let_def)
qed

lemma unat_of_nat_len: "n < 2 ^ 64 \<Longrightarrow> unat (of_nat n :: u64) = n"
  by (simp add: unat_of_nat take_bit_nat_eq_self_iff unsigned_of_nat)

lemma read_frame_write_frame:
  assumes "length data \<le> 1024 * 1024"
  shows "read_frame (write_frame [] data @ rest) = Inr (data, rest)"
proof -
  let ?n = "of_nat (length data) :: u64"
  have n: "unat ?n = length data" using assms by (intro unat_of_nat_len) auto
  have "\<not> ?n > 1024 * 1024" using assms n by (simp add: word_less_nat_alt)
  moreover have "?n = 0 \<longleftrightarrow> data = []" using n by (metis length_0_conv unat_0_iff unsigned_0)
  ultimately show ?thesis
    using n read_len_uvarint[of "[]" ?n "data @ rest"] length_uvarint_le[of ?n]
    by (auto simp: read_frame_def write_frame_def)
qed

lemma read_frame_too_large:
  assumes "1024 * 1024 < length data" and "length data < 2 ^ 64"
  shows "read_frame (write_frame [] data @ rest) = Inl (Bail ''frame too large'')"
proof -
  let ?n = "of_nat (length data) :: u64"
  have n: "unat ?n = length data" using assms by (intro unat_of_nat_len) auto
  have "?n > 1024 * 1024" using assms n by (simp add: word_less_nat_alt)
  moreover from this have "?n \<noteq> 0" by auto
  ultimately show ?thesis
    using read_len_uvarint[of "[]" ?n "data @ rest"] length_uvarint_le[of ?n]
    by (simp add: read_frame_def write_frame_def)
qed

lemma batched_fold:
  "writer @ foldl (\<lambda>buf f. encode_uvarint (of_nat (length f)) buf @ f) buf frames = foldl write_frame (writer @ buf) frames"
proof (induction frames arbitrary: buf)
  case (Cons f frames)
  have "encode_uvarint (of_nat (length f)) buf = buf @ uvarint (of_nat (length f))"
    by (rule encode_uvarint_buf)
  with Cons[of "encode_uvarint (of_nat (length f)) buf @ f"] show ?case by (simp add: write_frame_def)
qed simp

lemma write_frame_fold: "foldl write_frame writer frames = writer @ foldl write_frame [] frames"
proof (induction frames arbitrary: writer)
  case (Cons f frames)
  show ?case
    using Cons[of "write_frame writer f"] Cons[of "write_frame [] f"] by (simp add: write_frame_def)
qed simp

lemma write_frames_batched_eq: "write_frames_batched writer frames = foldl write_frame writer frames"
proof (cases "length frames = 1")
  case True
  then obtain f where "frames = [f]" by (metis One_nat_def length_0_conv length_Suc_conv)
  then show ?thesis by (simp add: write_frames_batched_def)
next
  case False
  then show ?thesis using batched_fold[of writer "[]" frames] by (simp add: write_frames_batched_def)
qed

text \<open>Reading until the stream is used up, the way the connection loop does: one frame after the other.\<close>

fun read_frames :: "nat \<Rightarrow> bytes \<Rightarrow> (bytes list \<times> bytes) result" where
  "read_frames 0 reader = Inr ([], reader)"
| "read_frames (Suc n) reader =
     and_then (read_frame reader) (\<lambda>(f, reader).
     and_then (read_frames n reader) (\<lambda>(fs, reader). Inr (f # fs, reader)))"

lemma read_frames_write:
  "\<forall>f \<in> set fs. length f \<le> 1024 * 1024 \<Longrightarrow>
     read_frames (length fs) (foldl write_frame [] fs @ rest) = Inr (fs, rest)"
proof (induction fs)
  case (Cons f fs)
  have "foldl write_frame [] (f # fs) @ rest = write_frame [] f @ (foldl write_frame [] fs @ rest)"
    using write_frame_fold[of "write_frame [] f" fs] by simp
  then show ?case using Cons read_frame_write_frame[of f] by (simp del: foldl_Cons)
qed simp

section \<open>Codecs that can be read off the front of a buffer\<close>

locale prefix_codec =
  fixes enc :: "'a \<Rightarrow> bytes" and dec :: "bytes \<Rightarrow> ('a \<times> nat) result" and ok :: "'a \<Rightarrow> bool"
  assumes dec_enc: "ok x \<Longrightarrow> dec (enc x @ rest) = Inr (x, length (enc x))"
    and dec_bounds: "dec data = Inr (x, n) \<Longrightarrow> 0 < n \<and> n \<le> length data"
    and dec_ok: "dec data = Inr (x, n) \<Longrightarrow> ok x"
begin

lemma enc_prefix_free:
  assumes "ok x" "ok y" "enc x @ r = enc y @ s"
  shows "x = y \<and> r = s"
proof -
  have "Inr (x, length (enc x)) = (Inr (y, length (enc y)) :: ('a \<times> nat) result)"
    using dec_enc[OF assms(1), of r] dec_enc[OF assms(2), of s] assms(3) by simp
  then show ?thesis using assms(3) by auto
qed

lemma enc_inj_on: "inj_on enc {x. ok x}"
  using enc_prefix_free[of _ _ "[]" "[]"] by (auto intro: inj_onI)

lemma enc_not_Nil: "ok x \<Longrightarrow> enc x \<noteq> []"
  using dec_bounds[OF dec_enc[of x "[]"]] by auto

lemma enc_list_unique:
  "\<forall>x \<in> set xs. ok x \<Longrightarrow> \<forall>y \<in> set ys. ok y \<Longrightarrow> concat (map enc xs) = concat (map enc ys) \<Longrightarrow> xs = ys"
proof (induction xs arbitrary: ys)
  case Nil
  then show ?case using enc_not_Nil by (cases ys) auto
next
  case (Cons x xs)
  have "enc x \<noteq> []" using Cons.prems(1) enc_not_Nil by simp
  then obtain y ys' where ys: "ys = y # ys'" using Cons.prems(3) by (cases ys) simp_all
  have "enc x @ concat (map enc xs) = enc y @ concat (map enc ys')" using Cons.prems ys by simp
  then have "x = y \<and> concat (map enc xs) = concat (map enc ys')"
    using enc_prefix_free[of x y] Cons.prems(1,2) ys by simp
  then show ?case using Cons.IH[of ys'] Cons.prems(1,2) ys by simp
qed

end

interpretation uv: prefix_codec uvarint decode_uvarint "\<lambda>_. True"
  using decode_uvarint_bounds by unfold_locales auto

definition path_ok :: "u64 list \<Rightarrow> bool" where
  "path_ok p \<longleftrightarrow> length p \<le> 1024 \<and> - 1 \<notin> set p"

interpretation pt: prefix_codec encode_path decode_path path_ok
  using decode_path_bounds decode_path_encode
  by unfold_locales (auto simp: path_ok_def)

lemmas codec_rt = decode_uvarint_encode decode_uvarint_encode_all pt.dec_enc pt.dec_enc[of _ "[]", simplified]

section \<open>Properties\<close>

text \<open>C38. Varints. The decoder computes exactly what the format means: with at most ten bytes up to the first one without
  the continuation bit, the value is the little-endian base-128 number of those bytes modulo $2^{64}$ (excess bits of
  the tenth byte are dropped) and the count is their number; otherwise it reports truncation or overflow. The encoder's
  output is at most ten bytes and decodes to the value, whatever follows.\<close>

theorem uvarint_correct:
  "decode_uvarint data =
    (case varint_scan (take 10 data) of
       Some n \<Rightarrow> Inr (of_nat (varint_nat (take n data)), n)
     | None \<Rightarrow> Inl (Bail (if length data \<le> 10 then ''uvarint truncated'' else ''uvarint overflow''))) \<and>
   decode_uvarint (encode_uvarint v [] @ rest) = Inr (v, length (encode_uvarint v [])) \<and>
   length (encode_uvarint v []) \<le> 10"
  using decode_uvarint_reference decode_uvarint_encode length_uvarint_le by simp

text \<open>Paths. A path of at most 1024 hops, none of them \<^verbatim>\<open>u64::MAX\<close>, decodes from its encoding, with the number of
  bytes used; a hop \<^verbatim>\<open>u64::MAX\<close> wraps to the terminator, so the receiver sees the path cut before it.\<close>

theorem path_codec:
  assumes "length p \<le> 1024" "- 1 \<notin> set p"
  shows "decode_path (encode_path p @ rest) = Inr (p, length (encode_path p)) \<and>
    decode_path (encode_path (p @ - 1 # q) @ rest) = Inr (p, length (encode_path p))"
  using decode_path_encode[OF assms, of rest] decode_path_loop_cut[of 0 "[]" "[]" p q rest] assms
  by (simp add: decode_path_def)

theorem path_codec_witness:
  "length [3, 300 :: u64] \<le> 1024 \<and> decode_path (encode_path [3, 300] @ [9]) = Inr ([3, 300], 4) \<and>
   decode_path (encode_path ([3, 300] @ - 1 # [7]) @ [9]) = Inr ([3, 300], 4)"
proof -
  have "encode_path [3, 300] = [4, 0xad, 2, 0]" by code_simp
  then show ?thesis using path_codec[of "[3, 300]" "[9]" "[7]"] by simp
qed

text \<open>C39. Framing. Frames written one by one or in one batch give the same byte stream, and reading the stream back
  returns exactly the frames, in order, with the rest of the stream untouched, as long as none is over one MiB. A
  larger frame is written all the same and refused by the reader.\<close>

theorem frame_stream:
  assumes "\<forall>f \<in> set fs. length f \<le> 1024 * 1024" "1024 * 1024 < length big" "length big < 2 ^ 64"
  shows "write_frames_batched w fs = foldl write_frame w fs \<and>
    read_frames (length fs) (write_frames_batched [] fs @ rest) = Inr (fs, rest) \<and>
    read_frame (write_frame [] big @ rest) = Inl (Bail ''frame too large'')"
  using read_frames_write[OF assms(1)] read_frame_too_large[OF assms(2,3)] by (simp add: write_frames_batched_eq)

theorem frame_stream_witness:
  "read_frames 2 (write_frames_batched [] [[1, 2], []] @ [7]) = Inr ([[1, 2], []], [7]) \<and>
   read_frame (write_frame [] (replicate (1024 * 1024 + 1) 0) @ [7]) = Inl (Bail ''frame too large'')"
proof -
  have f: "\<forall>f \<in> set [[1, 2], [] :: bytes]. length f \<le> 1024 * 1024" by simp
  have b: "1024 * 1024 < length (replicate (1024 * 1024 + 1) (0 :: u8))"
    "length (replicate (1024 * 1024 + 1) (0 :: u8)) < 2 ^ 64" by (simp_all only: length_replicate) simp_all
  have n: "length [[1, 2], [] :: bytes] = 2" by simp
  show ?thesis using frame_stream[OF f b, of "[]" "[7]"] unfolding n by blast
qed

end
