(* ===== verification/Wire_Messages.thy ===== *)
theory Wire_Messages
  imports Wire_Varint
begin

text \<open>
  The messages of \<^verbatim>\<open>src/src/packet.rs\<close>: one record per struct, its \<^verbatim>\<open>encode\<close> with the leading type
  byte and its \<^verbatim>\<open>decode\<close>, which the dispatcher calls on the bytes after it. All messages satisfy the
  interface \<open>message_codec\<close>: what is encoded decodes to itself whatever follows it in the buffer, what
  decodes is well formed, and no input makes a decoder panic. The second law is for buffers a Rust slice can
  have, which are shorter than \<^verbatim>\<open>isize::MAX\<close> bytes.
\<close>

unbundle bit_operations_syntax

section \<open>The interface\<close>

locale message_codec =
  fixes ty :: u8 and enc :: "'a \<Rightarrow> bytes" and dec :: "bytes \<Rightarrow> 'a result" and ok :: "'a \<Rightarrow> bool"
  assumes enc_type: "enc x = ty # tl (enc x)"
    and dec_enc: "ok x \<Longrightarrow> dec (tl (enc x) @ rest) = Inr x"
    and dec_ok: "dec data = Inr x \<Longrightarrow> length data < 2 ^ 63 \<Longrightarrow> ok x"
    and dec_nopanic: "nopanic (dec data)"
begin

lemma enc_prefix_free:
  assumes "ok x" "ok y" "enc x @ r = enc y @ s"
  shows "x = y \<and> r = s"
proof -
  have "tl (enc x) @ r = tl (enc y) @ s"
    using assms(3) enc_type[of x] enc_type[of y] by (metis append_Cons list.inject)
  then have "x = y" using dec_enc[OF assms(1), of r] dec_enc[OF assms(2), of s] by simp
  then show ?thesis using assms(3) by simp
qed

lemma dec_reencode: "dec data = Inr x \<Longrightarrow> length data < 2 ^ 63 \<Longrightarrow> dec (tl (enc x) @ rest) = Inr x"
  using dec_enc dec_ok by blast

lemma dec_total: "(\<exists>x. dec data = Inr x) \<or> (\<exists>m. dec data = Inl (Bail m)) \<or> dec data = Inl Eof"
  using dec_nopanic[of data] by (cases "dec data") (auto simp: nopanic_def intro: error.exhaust)

end

section \<open>Packet types\<close>

abbreviation (input) "SIG_REQ \<equiv> (2 :: u8)"
abbreviation (input) "SIG_RES \<equiv> (3 :: u8)"
abbreviation (input) "ANNOUNCE \<equiv> (4 :: u8)"
abbreviation (input) "CUCKOO_FILTER \<equiv> (5 :: u8)"
abbreviation (input) "PATH_LOOKUP \<equiv> (6 :: u8)"
abbreviation (input) "PATH_NOTIFY \<equiv> (7 :: u8)"
abbreviation (input) "PATH_BROKEN \<equiv> (8 :: u8)"
abbreviation (input) "TRAFFIC \<equiv> (9 :: u8)"
abbreviation (input) "TYPE_COORD_ANNOUNCE \<equiv> (10 :: u8)"
abbreviation (input) "COORD_FORMAT_V5 \<equiv> (5 :: u8)"
abbreviation (input) "TYPE_ONION \<equiv> (11 :: u8)"
abbreviation (input) "TYPE_ONION_KEY_ANNOUNCE \<equiv> (12 :: u8)"
abbreviation (input) "TYPE_REPUTATION_REPORT \<equiv> (13 :: u8)"
abbreviation (input) "TYPE_HOLE_PUNCH \<equiv> (14 :: u8)"
abbreviation (input) "TYPE_PATH_NEGATIVE \<equiv> (15 :: u8)"
abbreviation (input) "TYPE_CAPABILITIES \<equiv> (0x11 :: u8)"

section \<open>Tree signatures\<close>

record SigReq =
  sq_tree_id :: u8
  sq_seq :: u64
  sq_timestamp_ms :: u64
  sq_pub_key :: bytes

definition SigReq_encode :: "SigReq \<Rightarrow> bytes" where
  "SigReq_encode m =
     (let buf = [SIG_REQ, sq_tree_id m];
          buf = encode_uvarint (sq_seq m) buf;
          buf = encode_uvarint (sq_timestamp_ms m) buf in
      buf @ sq_pub_key m)"

definition SigReq_decode :: "bytes \<Rightarrow> SigReq result" where
  "SigReq_decode data =
     (if length data < 2 then Inl (Bail ''SigReq too short'') else
      and_then (idx data 0) (\<lambda>tree_id. let pos = 1 in
      and_then (slice_from data pos) (\<lambda>d. and_then (decode_uvarint d) (\<lambda>(seq, n). let pos = pos + n in
      and_then (slice_from data pos) (\<lambda>d. and_then (decode_uvarint d) (\<lambda>(timestamp_ms, n). let pos = pos + n in
      if length data < pos + 32 then Inl (Bail ''SigReq missing pub_key'') else
      and_then (slice_rng data pos (pos + 32)) (\<lambda>pub_key.
      Inr \<lparr>sq_tree_id = tree_id, sq_seq = seq, sq_timestamp_ms = timestamp_ms, sq_pub_key = pub_key\<rparr>)))))))"

definition SigReq_ok :: "SigReq \<Rightarrow> bool" where
  "SigReq_ok m \<longleftrightarrow> length (sq_pub_key m) = 32"

text \<open>Encoders append varints to a non-empty buffer.\<close>

lemma encode_uvarint_Cons [simp]: "encode_uvarint v (b # buf) = b # buf @ uvarint v"
  using encode_uvarint_buf[of v "b # buf"] by simp

lemma encode_uvarint_snoc [simp]: "encode_uvarint v (xs @ y # ys) = xs @ y # ys @ uvarint v"
  using encode_uvarint_buf[of v "xs @ y # ys"] by simp

lemma nopanic_decode_uvarint [simp, intro]: "nopanic (decode_uvarint data)"
  by (simp add: decode_uvarint_reference split: option.split)

lemma nopanic_decode_path_loop: "nopanic (decode_path_loop data path pos)"
proof (induction data path pos rule: decode_path_loop.induct)
  case (1 data path pos)
  then show ?case
    by (subst decode_path_loop.simps) (auto simp: nopanic_and_then)
qed

lemma nopanic_decode_path [simp, intro]: "nopanic (decode_path data)"
  by (simp add: decode_path_def nopanic_decode_path_loop)

lemmas slice_Inr = idx_Inr slice_from_Inr slice_rng_Inr

lemmas decode_bounds = decode_uvarint_bounds(2) decode_path_bounds(2)

interpretation sq: message_codec SIG_REQ SigReq_encode SigReq_decode SigReq_ok
proof (unfold_locales, goal_cases)
  case (1 x)
  then show ?case by (simp add: SigReq_encode_def Let_def)
next
  case (2 x rest)
  then show ?case
    by (cases x) (simp add: SigReq_encode_def SigReq_decode_def SigReq_ok_def )
next
  case (3 data x)
  then show ?case
    by (auto simp: SigReq_decode_def SigReq_ok_def and_then_Inr_iff Let_def  simp del: slice_Inr split: if_splits dest!: slice_InrD)
next
  case (4 data)
  then show ?case
    by (auto simp: SigReq_decode_def Let_def nopanic_and_then Suc_le_eq simp del: slice_Inr dest!: slice_InrD decode_bounds)
qed

record SigRes =
  sr_tree_id :: u8
  sr_seq :: u64
  sr_timestamp_ms :: u64
  sr_signature :: bytes
  sr_pub_key :: bytes

definition SigRes_encode :: "SigRes \<Rightarrow> bytes" where
  "SigRes_encode m =
     (let buf = [SIG_RES, sr_tree_id m];
          buf = encode_uvarint (sr_seq m) buf;
          buf = encode_uvarint (sr_timestamp_ms m) buf in
      buf @ sr_signature m @ sr_pub_key m)"

definition SigRes_decode :: "bytes \<Rightarrow> SigRes result" where
  "SigRes_decode data =
     (if length data < 2 then Inl (Bail ''SigRes too short'') else
      and_then (idx data 0) (\<lambda>tree_id. let pos = 1 in
      and_then (slice_from data pos) (\<lambda>d. and_then (decode_uvarint d) (\<lambda>(seq, n). let pos = pos + n in
      and_then (slice_from data pos) (\<lambda>d. and_then (decode_uvarint d) (\<lambda>(timestamp_ms, n). let pos = pos + n in
      if length data < pos + 64 + 32 then Inl (Bail ''SigRes missing sig/key'') else
      and_then (slice_rng data pos (pos + 64)) (\<lambda>signature. let pos = pos + 64 in
      and_then (slice_rng data pos (pos + 32)) (\<lambda>pub_key.
      Inr \<lparr>sr_tree_id = tree_id, sr_seq = seq, sr_timestamp_ms = timestamp_ms,
           sr_signature = signature, sr_pub_key = pub_key\<rparr>))))))))"

definition SigRes_ok :: "SigRes \<Rightarrow> bool" where
  "SigRes_ok m \<longleftrightarrow> length (sr_signature m) = 64 \<and> length (sr_pub_key m) = 32"

interpretation sr: message_codec SIG_RES SigRes_encode SigRes_decode SigRes_ok
proof (unfold_locales, goal_cases)
  case (1 x)
  then show ?case by (simp add: SigRes_encode_def Let_def)
next
  case (2 x rest)
  then show ?case
    by (cases x) (simp add: SigRes_encode_def SigRes_decode_def SigRes_ok_def )
next
  case (3 data x)
  then show ?case
    by (auto simp: SigRes_decode_def SigRes_ok_def and_then_Inr_iff Let_def  simp del: slice_Inr split: if_splits dest!: slice_InrD)
next
  case (4 data)
  then show ?case
    by (auto simp: SigRes_decode_def Let_def nopanic_and_then Suc_le_eq simp del: slice_Inr dest!: slice_InrD decode_bounds)
qed

record Announce =
  an_tree_id :: u8
  an_root :: bytes
  an_root_seq :: u64
  an_path_cost :: u64
  an_sender :: bytes
  an_signature :: bytes
  an_depth :: u32

definition Announce_sign_bytes :: "Announce \<Rightarrow> bytes" where
  "Announce_sign_bytes m =
     (let buf = [an_tree_id m] @ an_root m;
          buf = encode_uvarint (an_root_seq m) buf;
          buf = encode_uvarint (an_path_cost m) buf;
          buf = buf @ an_sender m in
      encode_uvarint (ucast (an_depth m)) buf)"

definition Announce_encode :: "Announce \<Rightarrow> bytes" where
  "Announce_encode m =
     (let buf = [ANNOUNCE, an_tree_id m] @ an_root m;
          buf = encode_uvarint (an_root_seq m) buf;
          buf = encode_uvarint (an_path_cost m) buf;
          buf = buf @ an_sender m @ an_signature m in
      encode_uvarint (ucast (an_depth m)) buf)"

definition Announce_decode :: "bytes \<Rightarrow> Announce result" where
  "Announce_decode data =
     (if length data < 1 + 32 then Inl (Bail ''Announce too short'') else
      and_then (idx data 0) (\<lambda>tree_id. let pos = 1 in
      and_then (slice_rng data pos (pos + 32)) (\<lambda>root. let pos = pos + 32 in
      and_then (slice_from data pos) (\<lambda>d. and_then (decode_uvarint d) (\<lambda>(root_seq, n). let pos = pos + n in
      and_then (slice_from data pos) (\<lambda>d. and_then (decode_uvarint d) (\<lambda>(path_cost, n). let pos = pos + n in
      if length data < pos + 32 + 64 then Inl (Bail ''Announce missing sender/sig'') else
      and_then (slice_rng data pos (pos + 32)) (\<lambda>sender. let pos = pos + 32 in
      and_then (slice_rng data pos (pos + 64)) (\<lambda>signature. let pos = pos + 64 in
      and_then (if pos < length data
                then and_then (slice_from data pos) (\<lambda>d. and_then (decode_uvarint d) (\<lambda>(d, _). Inr (ucast d)))
                else Inr 0) (\<lambda>depth.
      Inr \<lparr>an_tree_id = tree_id, an_root = root, an_root_seq = root_seq, an_path_cost = path_cost,
           an_sender = sender, an_signature = signature, an_depth = depth\<rparr>))))))))))"

definition Announce_ok :: "Announce \<Rightarrow> bool" where
  "Announce_ok m \<longleftrightarrow> length (an_root m) = 32 \<and> length (an_sender m) = 32 \<and> length (an_signature m) = 64"

lemma ucast_ucast_depth [simp]: "ucast (ucast d :: u64) = (d :: u32)"
  by (simp add: ucast_down_ucast_id is_down)

interpretation an: message_codec ANNOUNCE Announce_encode Announce_decode Announce_ok
proof (unfold_locales, goal_cases)
  case (1 x)
  then show ?case by (simp add: Announce_encode_def Let_def)
next
  case (2 x rest)
  then show ?case
    by (cases x) (simp add: Announce_encode_def Announce_decode_def Announce_ok_def )
next
  case (3 data x)
  then show ?case
    by (auto simp: Announce_decode_def Announce_ok_def and_then_Inr_iff Let_def  simp del: slice_Inr split: if_splits dest!: slice_InrD)
next
  case (4 data)
  then show ?case
    by (auto simp: Announce_decode_def Let_def nopanic_and_then Suc_le_eq simp del: slice_Inr dest!: slice_InrD decode_bounds)
qed

section \<open>Cuckoo filter gossip\<close>

abbreviation (input) "FILTER_BYTES \<equiv> (4096 :: nat)"

record CuckooMsg =
  cm_tree_id :: u8
  cm_generation :: u64
  cm_data :: bytes

definition CuckooMsg_encode :: "CuckooMsg \<Rightarrow> bytes" where
  "CuckooMsg_encode m =
     (let buf = [CUCKOO_FILTER, cm_tree_id m];
          buf = encode_uvarint (cm_generation m) buf in
      buf @ cm_data m)"

definition CuckooMsg_decode :: "bytes \<Rightarrow> CuckooMsg result" where
  "CuckooMsg_decode data =
     (if data = [] then Inl (Bail ''CuckooMsg too short'') else
      and_then (idx data 0) (\<lambda>tree_id. let pos = 1 in
      and_then (slice_from data pos) (\<lambda>d. and_then (decode_uvarint d) (\<lambda>(generation, n). let pos = pos + n in
      if length data < pos + FILTER_BYTES then Inl (Bail ''CuckooMsg data too short'') else
      and_then (slice_rng data pos (pos + FILTER_BYTES)) (\<lambda>cdata.
      Inr \<lparr>cm_tree_id = tree_id, cm_generation = generation, cm_data = cdata\<rparr>)))))"

definition CuckooMsg_ok :: "CuckooMsg \<Rightarrow> bool" where
  "CuckooMsg_ok m \<longleftrightarrow> length (cm_data m) = FILTER_BYTES"

interpretation cm: message_codec CUCKOO_FILTER CuckooMsg_encode CuckooMsg_decode CuckooMsg_ok
proof (unfold_locales, goal_cases)
  case (1 x)
  then show ?case by (simp add: CuckooMsg_encode_def Let_def)
next
  case (2 x rest)
  then show ?case
    by (cases x) (simp add: CuckooMsg_encode_def CuckooMsg_decode_def CuckooMsg_ok_def )
next
  case (3 data x)
  then show ?case
    by (auto simp: CuckooMsg_decode_def CuckooMsg_ok_def and_then_Inr_iff Let_def  simp del: slice_Inr split: if_splits dest!: slice_InrD)
next
  case (4 data)
  then show ?case
    by (auto simp: CuckooMsg_decode_def Let_def nopanic_and_then Suc_le_eq simp del: slice_Inr dest!: slice_InrD decode_bounds)
qed

section \<open>Path discovery\<close>

record PathLookup =
  pl_target :: bytes
  pl_source :: bytes
  pl_id :: u64
  pl_path :: "u64 list"

definition PathLookup_encode :: "PathLookup \<Rightarrow> bytes" where
  "PathLookup_encode m =
     (let buf = [PATH_LOOKUP] @ pl_target m @ pl_source m;
          buf = encode_uvarint (pl_id m) buf in
      buf @ encode_path (pl_path m))"

definition PathLookup_decode :: "bytes \<Rightarrow> PathLookup result" where
  "PathLookup_decode data =
     (if length data < 64 then Inl (Bail ''PathLookup too short'') else
      and_then (slice_rng data 0 32) (\<lambda>target.
      and_then (slice_rng data 32 64) (\<lambda>source. let pos = 64 in
      and_then (slice_from data pos) (\<lambda>d. and_then (decode_uvarint d) (\<lambda>(id, n). let pos = pos + n in
      and_then (slice_from data pos) (\<lambda>d. and_then (decode_path d) (\<lambda>(path, _).
      Inr \<lparr>pl_target = target, pl_source = source, pl_id = id, pl_path = path\<rparr>)))))))"

definition PathLookup_ok :: "PathLookup \<Rightarrow> bool" where
  "PathLookup_ok m \<longleftrightarrow> length (pl_target m) = 32 \<and> length (pl_source m) = 32 \<and> path_ok (pl_path m)"

interpretation pl: message_codec PATH_LOOKUP PathLookup_encode PathLookup_decode PathLookup_ok
proof (unfold_locales, goal_cases)
  case (1 x)
  then show ?case by (simp add: PathLookup_encode_def Let_def)
next
  case (2 x rest)
  then show ?case
    by (cases x) (simp add: PathLookup_encode_def PathLookup_decode_def PathLookup_ok_def codec_rt)
next
  case (3 data x)
  then show ?case
    by (auto simp: PathLookup_decode_def PathLookup_ok_def and_then_Inr_iff Let_def pt.dec_ok simp del: slice_Inr split: if_splits dest!: slice_InrD)
next
  case (4 data)
  then show ?case
    by (auto simp: PathLookup_decode_def Let_def nopanic_and_then Suc_le_eq simp del: slice_Inr dest!: slice_InrD decode_bounds)
qed

record PathNotify =
  pn_target :: bytes
  pn_source :: bytes
  pn_id :: u64
  pn_path :: "u64 list"

definition PathNotify_encode :: "PathNotify \<Rightarrow> bytes" where
  "PathNotify_encode m =
     (let buf = [PATH_NOTIFY] @ pn_target m @ pn_source m;
          buf = encode_uvarint (pn_id m) buf in
      buf @ encode_path (pn_path m))"

definition PathNotify_decode :: "bytes \<Rightarrow> PathNotify result" where
  "PathNotify_decode data =
     (if length data < 64 then Inl (Bail ''PathNotify too short'') else
      and_then (slice_rng data 0 32) (\<lambda>target.
      and_then (slice_rng data 32 64) (\<lambda>source. let pos = 64 in
      and_then (slice_from data pos) (\<lambda>d. and_then (decode_uvarint d) (\<lambda>(id, n). let pos = pos + n in
      and_then (slice_from data pos) (\<lambda>d. and_then (decode_path d) (\<lambda>(path, _).
      Inr \<lparr>pn_target = target, pn_source = source, pn_id = id, pn_path = path\<rparr>)))))))"

definition PathNotify_ok :: "PathNotify \<Rightarrow> bool" where
  "PathNotify_ok m \<longleftrightarrow> length (pn_target m) = 32 \<and> length (pn_source m) = 32 \<and> path_ok (pn_path m)"

interpretation pn: message_codec PATH_NOTIFY PathNotify_encode PathNotify_decode PathNotify_ok
proof (unfold_locales, goal_cases)
  case (1 x)
  then show ?case by (simp add: PathNotify_encode_def Let_def)
next
  case (2 x rest)
  then show ?case
    by (cases x) (simp add: PathNotify_encode_def PathNotify_decode_def PathNotify_ok_def codec_rt)
next
  case (3 data x)
  then show ?case
    by (auto simp: PathNotify_decode_def PathNotify_ok_def and_then_Inr_iff Let_def pt.dec_ok simp del: slice_Inr split: if_splits dest!: slice_InrD)
next
  case (4 data)
  then show ?case
    by (auto simp: PathNotify_decode_def Let_def nopanic_and_then Suc_le_eq simp del: slice_Inr dest!: slice_InrD decode_bounds)
qed

record PathBroken =
  pb_target :: bytes
  pb_source :: bytes
  pb_id :: u64

definition PathBroken_encode :: "PathBroken \<Rightarrow> bytes" where
  "PathBroken_encode m =
     (let buf = [PATH_BROKEN] @ pb_target m @ pb_source m in
      encode_uvarint (pb_id m) buf)"

definition PathBroken_decode :: "bytes \<Rightarrow> PathBroken result" where
  "PathBroken_decode data =
     (if length data < 64 then Inl (Bail ''PathBroken too short'') else
      and_then (slice_rng data 0 32) (\<lambda>target.
      and_then (slice_rng data 32 64) (\<lambda>source.
      and_then (slice_from data 64) (\<lambda>d. and_then (decode_uvarint d) (\<lambda>(id, _).
      Inr \<lparr>pb_target = target, pb_source = source, pb_id = id\<rparr>)))))"

definition PathBroken_ok :: "PathBroken \<Rightarrow> bool" where
  "PathBroken_ok m \<longleftrightarrow> length (pb_target m) = 32 \<and> length (pb_source m) = 32"

interpretation pb: message_codec PATH_BROKEN PathBroken_encode PathBroken_decode PathBroken_ok
proof (unfold_locales, goal_cases)
  case (1 x)
  then show ?case by (simp add: PathBroken_encode_def Let_def)
next
  case (2 x rest)
  then show ?case
    by (cases x) (simp add: PathBroken_encode_def PathBroken_decode_def PathBroken_ok_def )
next
  case (3 data x)
  then show ?case
    by (auto simp: PathBroken_decode_def PathBroken_ok_def and_then_Inr_iff Let_def  simp del: slice_Inr split: if_splits dest!: slice_InrD)
next
  case (4 data)
  then show ?case
    by (auto simp: PathBroken_decode_def Let_def nopanic_and_then Suc_le_eq simp del: slice_Inr dest!: slice_InrD decode_bounds)
qed

record PathNegative =
  ng_routing_tag :: bytes
  ng_ttl :: u8

definition PathNegative_encode :: "PathNegative \<Rightarrow> bytes" where
  "PathNegative_encode m = [TYPE_PATH_NEGATIVE] @ ng_routing_tag m @ [ng_ttl m]"

definition PathNegative_decode :: "bytes \<Rightarrow> PathNegative result" where
  "PathNegative_decode data =
     (if length data < 16 + 1 then Inl (Bail ''PathNegative too short'') else
      and_then (slice_rng data 0 16) (\<lambda>routing_tag.
      and_then (idx data 16) (\<lambda>ttl.
      Inr \<lparr>ng_routing_tag = routing_tag, ng_ttl = ttl\<rparr>)))"

definition PathNegative_ok :: "PathNegative \<Rightarrow> bool" where
  "PathNegative_ok m \<longleftrightarrow> length (ng_routing_tag m) = 16"

interpretation ng: message_codec TYPE_PATH_NEGATIVE PathNegative_encode PathNegative_decode PathNegative_ok
proof (unfold_locales, goal_cases)
  case (1 x)
  then show ?case by (simp add: PathNegative_encode_def Let_def)
next
  case (2 x rest)
  then show ?case
    by (cases x) (simp add: PathNegative_encode_def PathNegative_decode_def PathNegative_ok_def nth_append)
next
  case (3 data x)
  then show ?case
    by (auto simp: PathNegative_decode_def PathNegative_ok_def and_then_Inr_iff Let_def  simp del: slice_Inr split: if_splits dest!: slice_InrD)
next
  case (4 data)
  then show ?case
    by (auto simp: PathNegative_decode_def Let_def nopanic_and_then Suc_le_eq simp del: slice_Inr dest!: slice_InrD decode_bounds)
qed

section \<open>Traffic\<close>

record Traffic =
  tr_path :: "u64 list"
  tr_from :: bytes
  tr_enc_header :: bytes
  tr_routing_tag :: bytes
  tr_pkt_type :: u8
  tr_dest_coord :: "bytes option"
  tr_watermark :: u64
  tr_payload :: bytes

abbreviation (input) "PKT_CONTROL \<equiv> (0 :: u8)"
abbreviation (input) "PKT_DATA \<equiv> (1 :: u8)"

definition Traffic_encode :: "Traffic \<Rightarrow> bytes" where
  "Traffic_encode m =
     (let buf = [TRAFFIC] @ encode_path (tr_path m) @ tr_from m @ tr_enc_header m @ tr_routing_tag m @ [tr_pkt_type m];
          buf = (case tr_dest_coord m of Some c \<Rightarrow> buf @ [1] @ c | None \<Rightarrow> buf @ [0]);
          buf = encode_uvarint (tr_watermark m) buf;
          buf = encode_uvarint (of_nat (length (tr_payload m))) buf in
      buf @ tr_payload m)"

text \<open>\<^verbatim>\<open>usize\<close> has 64 bits: the conversion of the payload length cannot fail, the checked addition can.\<close>

definition Traffic_decode :: "bytes \<Rightarrow> Traffic result" where
  "Traffic_decode data =
     and_then (decode_path data) (\<lambda>(path, path_len). let pos = 0 + path_len in
     if length data < pos + 177 then Inl (Bail ''Traffic too short'') else
     and_then (slice_rng data pos (pos + 32)) (\<lambda>from. let pos = pos + 32 in
     and_then (slice_rng data pos (pos + 128)) (\<lambda>enc_header. let pos = pos + 128 in
     and_then (slice_rng data pos (pos + 16)) (\<lambda>routing_tag. let pos = pos + 16 in
     and_then (idx data pos) (\<lambda>pkt_type. let pos = pos + 1 in
     if pos \<ge> length data then Inl (Bail ''Traffic missing dest_coord presence byte'') else
     and_then (idx data pos) (\<lambda>coord_present. let pos = pos + 1 in
     and_then (if coord_present \<noteq> 0
               then if length data < pos + 16 then Inl (Bail ''Traffic dest_coord truncated'')
                    else and_then (slice_rng data pos (pos + 16)) (\<lambda>arr. Inr (Some arr, pos + 16))
               else Inr (None, pos)) (\<lambda>(dest_coord, pos).
     and_then (slice_from data pos) (\<lambda>d. and_then (decode_uvarint d) (\<lambda>(watermark, n). let pos = pos + n in
     and_then (slice_from data pos) (\<lambda>d. and_then (decode_uvarint d) (\<lambda>(payload_len, n). let pos = pos + n in
     if pos + unat payload_len \<ge> 2 ^ 64 then Inl (Bail ''Traffic payload_len overflow'') else
     let payload_end = pos + unat payload_len in
     if payload_end > length data then Inl (Bail ''Traffic payload truncated'') else
     and_then (slice_rng data pos payload_end) (\<lambda>payload.
     Inr \<lparr>tr_path = path, tr_from = from, tr_enc_header = enc_header, tr_routing_tag = routing_tag,
          tr_pkt_type = pkt_type, tr_dest_coord = dest_coord, tr_watermark = watermark,
          tr_payload = payload\<rparr>))))))))))))"

definition Traffic_ok :: "Traffic \<Rightarrow> bool" where
  "Traffic_ok m \<longleftrightarrow> path_ok (tr_path m) \<and> length (tr_from m) = 32 \<and> length (tr_enc_header m) = 128 \<and>
     length (tr_routing_tag m) = 16 \<and> (\<forall>c. tr_dest_coord m = Some c \<longrightarrow> length c = 16) \<and>
     length (tr_payload m) < 2 ^ 63"

lemma length_encode_path_le: "length (encode_path p) \<le> 10 * length p + 1"
proof (induction p)
  case (Cons h p)
  then show ?case using length_uvarint_le[of "h + 1"] by (simp add: encode_path_eq)
qed (simp add: encode_path_eq)

lemma Traffic_dec_enc:
  assumes "Traffic_ok x"
  shows "Traffic_decode (tl (Traffic_encode x) @ rest) = Inr x"
proof -
  let ?n = "of_nat (length (tr_payload x)) :: u64"
  have n: "unat ?n = length (tr_payload x)"
    using assms by (intro unat_of_nat_len) (simp add: Traffic_ok_def)
  have "length (encode_path (tr_path x)) \<le> 10241"
    using assms length_encode_path_le[of "tr_path x"] by (simp add: Traffic_ok_def path_ok_def)
  then have "length (encode_path (tr_path x)) + length (uvarint (tr_watermark x)) + length (uvarint ?n) +
      length (tr_payload x) + 400 < 2 ^ 64"
    using assms length_uvarint_le[of "tr_watermark x"] length_uvarint_le[of ?n] by (simp add: Traffic_ok_def)
  then show ?thesis
    using assms n
    by (cases x; cases "tr_dest_coord x")
      (simp_all add: Traffic_encode_def Traffic_decode_def Traffic_ok_def codec_rt nth_append)
qed

lemma Traffic_dec_ok:
  "Traffic_decode data = Inr x \<Longrightarrow> length data < 2 ^ 63 \<Longrightarrow> Traffic_ok x"
  by (auto simp: Traffic_decode_def Traffic_ok_def and_then_Inr_iff Let_def pt.dec_ok simp del: slice_Inr
      split: if_splits dest!: slice_InrD)

lemma Traffic_nopanic: "nopanic (Traffic_decode data)"
  by (auto simp: Traffic_decode_def Let_def nopanic_and_then and_then_Inr_iff simp del: slice_Inr
      dest!: slice_InrD decode_bounds split: if_splits)

interpretation tr: message_codec TRAFFIC Traffic_encode Traffic_decode Traffic_ok
proof (unfold_locales, goal_cases)
  case (1 x)
  then show ?case by (simp add: Traffic_encode_def Let_def split: option.split)
qed (rule Traffic_dec_enc Traffic_dec_ok Traffic_nopanic; assumption)+

text \<open>The tag the mesh routes on; the hash is a parameter, given its digest length in bytes.\<close>

definition routing_tag :: "(nat \<Rightarrow> bytes \<Rightarrow> bytes) \<Rightarrow> bytes \<Rightarrow> bytes" where
  "routing_tag blake2b pub_key = blake2b 16 (map (of_nat \<circ> of_char) ''norn:route'' @ pub_key)"

section \<open>Flooded announcements\<close>

record OnionKeyAnnounce =
  ok_origin :: bytes
  ok_seq :: u64
  ok_valid_from_ms :: u64
  ok_onion_eph_pub :: bytes
  ok_sig :: bytes

definition OnionKeyAnnounce_sign_bytes :: "OnionKeyAnnounce \<Rightarrow> bytes" where
  "OnionKeyAnnounce_sign_bytes m = ok_origin m @ le_bytes 8 (ok_seq m) @ le_bytes 8 (ok_valid_from_ms m) @ ok_onion_eph_pub m"

definition OnionKeyAnnounce_encode :: "OnionKeyAnnounce \<Rightarrow> bytes" where
  "OnionKeyAnnounce_encode m = [TYPE_ONION_KEY_ANNOUNCE] @ ok_origin m @ le_bytes 8 (ok_seq m) @ le_bytes 8 (ok_valid_from_ms m) @ ok_onion_eph_pub m @ ok_sig m"

definition OnionKeyAnnounce_decode :: "bytes \<Rightarrow> OnionKeyAnnounce result" where
  "OnionKeyAnnounce_decode data =
     (let need = 32 + 8 + 8 + 32 + 64 in
      if length data < need then Inl (Bail ''OnionKeyAnnounce too short'') else
      let pos = 0 in
      and_then (slice_rng data pos (pos + 32)) (\<lambda>origin. let pos = pos + 32 in
      and_then (slice_rng data pos (pos + 8)) (\<lambda>seq. let pos = pos + 8 in
      and_then (slice_rng data pos (pos + 8)) (\<lambda>valid_from_ms. let pos = pos + 8 in
      and_then (slice_rng data pos (pos + 32)) (\<lambda>onion_eph_pub. let pos = pos + 32 in
      and_then (slice_rng data pos (pos + 64)) (\<lambda>sig.
      Inr \<lparr>ok_origin = origin, ok_seq = from_le seq, ok_valid_from_ms = from_le valid_from_ms, ok_onion_eph_pub = onion_eph_pub, ok_sig = sig\<rparr>))))))"

definition OnionKeyAnnounce_ok :: "OnionKeyAnnounce \<Rightarrow> bool" where
  "OnionKeyAnnounce_ok m \<longleftrightarrow> length (ok_origin m) = 32 \<and> length (ok_onion_eph_pub m) = 32 \<and> length (ok_sig m) = 64"

interpretation oka: message_codec TYPE_ONION_KEY_ANNOUNCE OnionKeyAnnounce_encode OnionKeyAnnounce_decode OnionKeyAnnounce_ok
proof (unfold_locales, goal_cases)
  case (1 x)
  then show ?case by (simp add: OnionKeyAnnounce_encode_def Let_def)
next
  case (2 x rest)
  then show ?case
    by (cases x) (simp add: OnionKeyAnnounce_encode_def OnionKeyAnnounce_decode_def OnionKeyAnnounce_ok_def from_le_le_bytes)
next
  case (3 data x)
  then show ?case
    by (auto simp: OnionKeyAnnounce_decode_def OnionKeyAnnounce_ok_def and_then_Inr_iff Let_def  simp del: slice_Inr split: if_splits dest!: slice_InrD)
next
  case (4 data)
  then show ?case
    by (auto simp: OnionKeyAnnounce_decode_def Let_def nopanic_and_then Suc_le_eq simp del: slice_Inr dest!: slice_InrD decode_bounds)
qed

record ReputationReport =
  rr_observer :: bytes
  rr_observed :: bytes
  rr_score_q16 :: u16
  rr_seq :: u64
  rr_valid_from_ms :: u64
  rr_sig :: bytes

definition ReputationReport_sign_bytes :: "ReputationReport \<Rightarrow> bytes" where
  "ReputationReport_sign_bytes m = rr_observer m @ rr_observed m @ le_bytes 2 (rr_score_q16 m) @ le_bytes 8 (rr_seq m) @ le_bytes 8 (rr_valid_from_ms m)"

definition ReputationReport_encode :: "ReputationReport \<Rightarrow> bytes" where
  "ReputationReport_encode m = [TYPE_REPUTATION_REPORT] @ rr_observer m @ rr_observed m @ le_bytes 2 (rr_score_q16 m) @ le_bytes 8 (rr_seq m) @ le_bytes 8 (rr_valid_from_ms m) @ rr_sig m"

definition ReputationReport_decode :: "bytes \<Rightarrow> ReputationReport result" where
  "ReputationReport_decode data =
     (let need = 32 + 32 + 2 + 8 + 8 + 64 in
      if length data < need then Inl (Bail ''ReputationReport too short'') else
      let pos = 0 in
      and_then (slice_rng data pos (pos + 32)) (\<lambda>observer. let pos = pos + 32 in
      and_then (slice_rng data pos (pos + 32)) (\<lambda>observed. let pos = pos + 32 in
      and_then (slice_rng data pos (pos + 2)) (\<lambda>score_q16. let pos = pos + 2 in
      and_then (slice_rng data pos (pos + 8)) (\<lambda>seq. let pos = pos + 8 in
      and_then (slice_rng data pos (pos + 8)) (\<lambda>valid_from_ms. let pos = pos + 8 in
      and_then (slice_rng data pos (pos + 64)) (\<lambda>sig.
      Inr \<lparr>rr_observer = observer, rr_observed = observed, rr_score_q16 = from_le score_q16, rr_seq = from_le seq, rr_valid_from_ms = from_le valid_from_ms, rr_sig = sig\<rparr>)))))))"

definition ReputationReport_ok :: "ReputationReport \<Rightarrow> bool" where
  "ReputationReport_ok m \<longleftrightarrow> length (rr_observer m) = 32 \<and> length (rr_observed m) = 32 \<and> length (rr_sig m) = 64"

interpretation rrp: message_codec TYPE_REPUTATION_REPORT ReputationReport_encode ReputationReport_decode ReputationReport_ok
proof (unfold_locales, goal_cases)
  case (1 x)
  then show ?case by (simp add: ReputationReport_encode_def Let_def)
next
  case (2 x rest)
  then show ?case
    by (cases x) (simp add: ReputationReport_encode_def ReputationReport_decode_def ReputationReport_ok_def from_le_le_bytes)
next
  case (3 data x)
  then show ?case
    by (auto simp: ReputationReport_decode_def ReputationReport_ok_def and_then_Inr_iff Let_def  simp del: slice_Inr split: if_splits dest!: slice_InrD)
next
  case (4 data)
  then show ?case
    by (auto simp: ReputationReport_decode_def Let_def nopanic_and_then Suc_le_eq simp del: slice_Inr dest!: slice_InrD decode_bounds)
qed

record CapabilityAnnounce =
  ca_origin :: bytes
  ca_caps :: u32
  ca_seq :: u64
  ca_valid_from_ms :: u64
  ca_sig :: bytes

definition CapabilityAnnounce_sign_bytes :: "CapabilityAnnounce \<Rightarrow> bytes" where
  "CapabilityAnnounce_sign_bytes m = ca_origin m @ le_bytes 4 (ca_caps m) @ le_bytes 8 (ca_seq m) @ le_bytes 8 (ca_valid_from_ms m)"

definition CapabilityAnnounce_encode :: "CapabilityAnnounce \<Rightarrow> bytes" where
  "CapabilityAnnounce_encode m = [TYPE_CAPABILITIES] @ ca_origin m @ le_bytes 4 (ca_caps m) @ le_bytes 8 (ca_seq m) @ le_bytes 8 (ca_valid_from_ms m) @ ca_sig m"

definition CapabilityAnnounce_decode :: "bytes \<Rightarrow> CapabilityAnnounce result" where
  "CapabilityAnnounce_decode data =
     (let need = 32 + 4 + 8 + 8 + 64 in
      if length data < need then Inl (Bail ''CapabilityAnnounce too short'') else
      let pos = 0 in
      and_then (slice_rng data pos (pos + 32)) (\<lambda>origin. let pos = pos + 32 in
      and_then (slice_rng data pos (pos + 4)) (\<lambda>caps. let pos = pos + 4 in
      and_then (slice_rng data pos (pos + 8)) (\<lambda>seq. let pos = pos + 8 in
      and_then (slice_rng data pos (pos + 8)) (\<lambda>valid_from_ms. let pos = pos + 8 in
      and_then (slice_rng data pos (pos + 64)) (\<lambda>sig.
      Inr \<lparr>ca_origin = origin, ca_caps = from_le caps, ca_seq = from_le seq, ca_valid_from_ms = from_le valid_from_ms, ca_sig = sig\<rparr>))))))"

definition CapabilityAnnounce_ok :: "CapabilityAnnounce \<Rightarrow> bool" where
  "CapabilityAnnounce_ok m \<longleftrightarrow> length (ca_origin m) = 32 \<and> length (ca_sig m) = 64"

interpretation cap: message_codec TYPE_CAPABILITIES CapabilityAnnounce_encode CapabilityAnnounce_decode CapabilityAnnounce_ok
proof (unfold_locales, goal_cases)
  case (1 x)
  then show ?case by (simp add: CapabilityAnnounce_encode_def Let_def)
next
  case (2 x rest)
  then show ?case
    by (cases x) (simp add: CapabilityAnnounce_encode_def CapabilityAnnounce_decode_def CapabilityAnnounce_ok_def from_le_le_bytes)
next
  case (3 data x)
  then show ?case
    by (auto simp: CapabilityAnnounce_decode_def CapabilityAnnounce_ok_def and_then_Inr_iff Let_def  simp del: slice_Inr split: if_splits dest!: slice_InrD)
next
  case (4 data)
  then show ?case
    by (auto simp: CapabilityAnnounce_decode_def Let_def nopanic_and_then Suc_le_eq simp del: slice_Inr dest!: slice_InrD decode_bounds)
qed

section \<open>Coordinates\<close>

text \<open>\<^verbatim>\<open>encode_into\<close> leaves the type byte to its caller.\<close>

record CoordAnnounce =
  co_version :: u8
  co_coord :: bytes
  co_tree_depth :: u32
  co_onion_eph_pub :: bytes
  co_sig :: bytes

definition CoordAnnounce_sign_bytes :: "CoordAnnounce \<Rightarrow> bytes" where
  "CoordAnnounce_sign_bytes m = [co_version m] @ co_coord m @ le_bytes 4 (co_tree_depth m) @ co_onion_eph_pub m"

definition CoordAnnounce_encode_into :: "CoordAnnounce \<Rightarrow> bytes \<Rightarrow> bytes" where
  "CoordAnnounce_encode_into m buf =
     buf @ [co_version m] @ co_coord m @ le_bytes 4 (co_tree_depth m) @ co_onion_eph_pub m @ co_sig m"

definition CoordAnnounce_decode :: "bytes \<Rightarrow> CoordAnnounce result" where
  "CoordAnnounce_decode data =
     (let need = 1 + 16 + 4 + 32 + 64 in
      if length data < need then Inl (Bail ''CoordAnnounce too short'') else
      and_then (idx data 0) (\<lambda>version.
      if version \<noteq> COORD_FORMAT_V5 then Inl (Bail ''CoordAnnounce unsupported version'') else
      and_then (slice_rng data 1 17) (\<lambda>coord.
      and_then (slice_rng data 17 21) (\<lambda>tree_depth.
      and_then (slice_rng data 21 53) (\<lambda>onion_eph_pub.
      and_then (slice_rng data 53 117) (\<lambda>sig.
      Inr \<lparr>co_version = version, co_coord = coord, co_tree_depth = from_le tree_depth,
           co_onion_eph_pub = onion_eph_pub, co_sig = sig\<rparr>))))))"

definition CoordAnnounce_ok :: "CoordAnnounce \<Rightarrow> bool" where
  "CoordAnnounce_ok m \<longleftrightarrow> co_version m = COORD_FORMAT_V5 \<and> length (co_coord m) = 16 \<and>
     length (co_onion_eph_pub m) = 32 \<and> length (co_sig m) = 64"

interpretation coa: message_codec TYPE_COORD_ANNOUNCE "\<lambda>m. CoordAnnounce_encode_into m [TYPE_COORD_ANNOUNCE]" CoordAnnounce_decode CoordAnnounce_ok
proof (unfold_locales, goal_cases)
  case (1 x)
  then show ?case by (simp add: CoordAnnounce_encode_into_def Let_def)
next
  case (2 x rest)
  then show ?case
    by (cases x) (simp add: CoordAnnounce_encode_into_def CoordAnnounce_decode_def CoordAnnounce_ok_def from_le_le_bytes)
next
  case (3 data x)
  then show ?case
    by (auto simp: CoordAnnounce_decode_def CoordAnnounce_ok_def and_then_Inr_iff Let_def  simp del: slice_Inr split: if_splits dest!: slice_InrD)
next
  case (4 data)
  then show ?case
    by (auto simp: CoordAnnounce_decode_def Let_def nopanic_and_then Suc_le_eq simp del: slice_Inr dest!: slice_InrD decode_bounds)
qed

section \<open>Hole punching\<close>

text \<open>\<^verbatim>\<open>str::from_utf8\<close> accepts exactly the well-formed sequences of the Unicode standard.\<close>

definition utf8_cont :: "u8 \<Rightarrow> bool" where
  "utf8_cont b \<longleftrightarrow> 0x80 \<le> b \<and> b \<le> 0xBF"

fun utf8_valid :: "bytes \<Rightarrow> bool" where
  "utf8_valid [] = True"
| "utf8_valid (a # r) =
     (if a < 0x80 then utf8_valid r
      else if 0xC2 \<le> a \<and> a \<le> 0xDF then
        (case r of b # r' \<Rightarrow> utf8_cont b \<and> utf8_valid r' | _ \<Rightarrow> False)
      else if 0xE0 \<le> a \<and> a \<le> 0xEF then
        (case r of b # c # r' \<Rightarrow>
           (if a = 0xE0 then 0xA0 \<le> b else 0x80 \<le> b) \<and> (if a = 0xED then b \<le> 0x9F else b \<le> 0xBF) \<and>
           utf8_cont c \<and> utf8_valid r' | _ \<Rightarrow> False)
      else if 0xF0 \<le> a \<and> a \<le> 0xF4 then
        (case r of b # c # d # r' \<Rightarrow>
           (if a = 0xF0 then 0x90 \<le> b else 0x80 \<le> b) \<and> (if a = 0xF4 then b \<le> 0x8F else b \<le> 0xBF) \<and>
           utf8_cont c \<and> utf8_cont d \<and> utf8_valid r' | _ \<Rightarrow> False)
      else False)"

record HolePunch =
  hp_initiator :: bytes
  hp_target :: bytes
  hp_valid_from_ms :: u64
  hp_endpoint :: bytes
  hp_sig :: bytes

definition HolePunch_sign_bytes :: "HolePunch \<Rightarrow> bytes" where
  "HolePunch_sign_bytes m =
     (let len = min (length (hp_endpoint m)) 255 in
      hp_initiator m @ hp_target m @ le_bytes 8 (hp_valid_from_ms m) @ [of_nat len] @ take len (hp_endpoint m))"

definition HolePunch_encode :: "HolePunch \<Rightarrow> bytes" where
  "HolePunch_encode m =
     (let buf = [TYPE_HOLE_PUNCH] @ hp_initiator m @ hp_target m @ le_bytes 8 (hp_valid_from_ms m);
          len = min (length (hp_endpoint m)) 255 in
      buf @ [of_nat len] @ take len (hp_endpoint m) @ hp_sig m)"

definition HolePunch_decode :: "bytes \<Rightarrow> HolePunch result" where
  "HolePunch_decode data =
     (let min_len = 32 + 32 + 8 + 1 + 64 in
      if length data < min_len then Inl (Bail ''HolePunch too short'') else
      let pos = 0 in
      and_then (slice_rng data pos (pos + 32)) (\<lambda>initiator. let pos = pos + 32 in
      and_then (slice_rng data pos (pos + 32)) (\<lambda>target. let pos = pos + 32 in
      and_then (slice_rng data pos (pos + 8)) (\<lambda>ts. let pos = pos + 8 in
      and_then (idx data pos) (\<lambda>el. let endpoint_len = unat el; pos = pos + 1 in
      if length data < pos + endpoint_len + 64 then Inl (Bail ''HolePunch truncated'') else
      and_then (slice_rng data pos (pos + endpoint_len)) (\<lambda>endpoint.
      if \<not> utf8_valid endpoint then Inl (Bail ''HolePunch endpoint not UTF-8'') else
      let pos = pos + endpoint_len in
      and_then (slice_rng data pos (pos + 64)) (\<lambda>sig.
      Inr \<lparr>hp_initiator = initiator, hp_target = target, hp_valid_from_ms = from_le ts,
           hp_endpoint = endpoint, hp_sig = sig\<rparr>)))))))"

definition HolePunch_ok :: "HolePunch \<Rightarrow> bool" where
  "HolePunch_ok m \<longleftrightarrow> length (hp_initiator m) = 32 \<and> length (hp_target m) = 32 \<and> length (hp_sig m) = 64 \<and>
     length (hp_endpoint m) \<le> 255 \<and> utf8_valid (hp_endpoint m)"

lemma unat_of_nat_byte: "n \<le> 255 \<Longrightarrow> unat (of_nat n :: u8) = n"
  by (simp add: unsigned_of_nat take_bit_nat_eq_self_iff)

lemma unat_byte_le: "unat (b :: u8) \<le> 255"
  using unsigned_less[of b, where 'a = nat] by simp

interpretation hp: message_codec TYPE_HOLE_PUNCH HolePunch_encode HolePunch_decode HolePunch_ok
proof (unfold_locales, goal_cases)
  case (1 x)
  then show ?case by (simp add: HolePunch_encode_def Let_def)
next
  case (2 x rest)
  then show ?case
    by (cases x) (simp add: HolePunch_encode_def HolePunch_decode_def HolePunch_ok_def from_le_le_bytes unat_of_nat_byte nth_append)
next
  case (3 data x)
  then show ?case
    by (auto simp: HolePunch_decode_def HolePunch_ok_def and_then_Inr_iff Let_def  simp del: slice_Inr split: if_splits dest!: slice_InrD)
       (metis unat_byte_le)
next
  case (4 data)
  then show ?case
    by (auto simp: HolePunch_decode_def Let_def nopanic_and_then Suc_le_eq simp del: slice_Inr dest!: slice_InrD decode_bounds)
qed

section \<open>What a signature covers\<close>

text \<open>The signed bytes determine every field of the message but the signature itself. For the tree
  announcement this rests on varints being self-delimiting, for the hole punch on the length byte.\<close>

lemma Announce_sign_bytes_eq:
  "Announce_sign_bytes m = an_tree_id m # an_root m @ uvarint (an_root_seq m) @ uvarint (an_path_cost m) @
     an_sender m @ uvarint (ucast (an_depth m))"
  using encode_uvarint_buf[of "an_root_seq m" "an_tree_id m # an_root m"]
  by (simp add: Announce_sign_bytes_def Let_def)

lemma Announce_sign_inj:
  assumes "Announce_ok a" "Announce_ok b" and eq: "Announce_sign_bytes a = Announce_sign_bytes b"
  shows "a\<lparr>an_signature := s\<rparr> = b\<lparr>an_signature := s\<rparr>"
proof -
  have 1: "an_tree_id a = an_tree_id b" "an_root a = an_root b"
    and r1: "uvarint (an_root_seq a) @ uvarint (an_path_cost a) @ an_sender a @ uvarint (ucast (an_depth a)) =
             uvarint (an_root_seq b) @ uvarint (an_path_cost b) @ an_sender b @ uvarint (ucast (an_depth b))"
    using eq assms(1,2) by (simp_all add: Announce_sign_bytes_eq Announce_ok_def)
  from uv.enc_prefix_free[OF _ _ r1] have 2: "an_root_seq a = an_root_seq b"
    and r2: "uvarint (an_path_cost a) @ an_sender a @ uvarint (ucast (an_depth a)) =
             uvarint (an_path_cost b) @ an_sender b @ uvarint (ucast (an_depth b))" by simp_all
  from uv.enc_prefix_free[OF _ _ r2] have 3: "an_path_cost a = an_path_cost b"
    and r3: "an_sender a @ uvarint (ucast (an_depth a)) = an_sender b @ uvarint (ucast (an_depth b))" by simp_all
  then have 4: "an_sender a = an_sender b"
    and r4: "uvarint (ucast (an_depth a)) @ [] = uvarint (ucast (an_depth b)) @ []"
    using assms(1,2) by (simp_all add: Announce_ok_def)
  from uv.enc_prefix_free[OF _ _ r4] have "ucast (an_depth a) = (ucast (an_depth b) :: u64)" by simp
  then have "an_depth a = an_depth b" by (metis ucast_ucast_depth)
  with 1 2 3 4 show ?thesis by (cases a; cases b) simp
qed

lemma OnionKeyAnnounce_sign_inj:
  "OnionKeyAnnounce_ok a \<Longrightarrow> OnionKeyAnnounce_ok b \<Longrightarrow> OnionKeyAnnounce_sign_bytes a = OnionKeyAnnounce_sign_bytes b \<Longrightarrow>
     a\<lparr>ok_sig := s\<rparr> = b\<lparr>ok_sig := s\<rparr>"
  by (cases a; cases b) (simp add: OnionKeyAnnounce_ok_def OnionKeyAnnounce_sign_bytes_def le_bytes_inj)

lemma ReputationReport_sign_inj:
  "ReputationReport_ok a \<Longrightarrow> ReputationReport_ok b \<Longrightarrow> ReputationReport_sign_bytes a = ReputationReport_sign_bytes b \<Longrightarrow>
     a\<lparr>rr_sig := s\<rparr> = b\<lparr>rr_sig := s\<rparr>"
  by (cases a; cases b) (simp add: ReputationReport_ok_def ReputationReport_sign_bytes_def le_bytes_inj)

lemma CapabilityAnnounce_sign_inj:
  "CapabilityAnnounce_ok a \<Longrightarrow> CapabilityAnnounce_ok b \<Longrightarrow> CapabilityAnnounce_sign_bytes a = CapabilityAnnounce_sign_bytes b \<Longrightarrow>
     a\<lparr>ca_sig := s\<rparr> = b\<lparr>ca_sig := s\<rparr>"
  by (cases a; cases b) (simp add: CapabilityAnnounce_ok_def CapabilityAnnounce_sign_bytes_def le_bytes_inj)

lemma CoordAnnounce_sign_inj:
  "CoordAnnounce_ok a \<Longrightarrow> CoordAnnounce_ok b \<Longrightarrow> CoordAnnounce_sign_bytes a = CoordAnnounce_sign_bytes b \<Longrightarrow>
     a\<lparr>co_sig := s\<rparr> = b\<lparr>co_sig := s\<rparr>"
  by (cases a; cases b) (simp add: CoordAnnounce_ok_def CoordAnnounce_sign_bytes_def le_bytes_inj)

lemma HolePunch_sign_inj:
  "HolePunch_ok a \<Longrightarrow> HolePunch_ok b \<Longrightarrow> HolePunch_sign_bytes a = HolePunch_sign_bytes b \<Longrightarrow>
     a\<lparr>hp_sig := s\<rparr> = b\<lparr>hp_sig := s\<rparr>"
  by (cases a; cases b) (simp add: HolePunch_ok_def HolePunch_sign_bytes_def le_bytes_inj min_absorb1)

text \<open>The bytes that are signed are the bytes that are sent: between type byte and signature.\<close>

lemma sign_bytes_sent:
  "OnionKeyAnnounce_encode k = TYPE_ONION_KEY_ANNOUNCE # OnionKeyAnnounce_sign_bytes k @ ok_sig k"
  "ReputationReport_encode r = TYPE_REPUTATION_REPORT # ReputationReport_sign_bytes r @ rr_sig r"
  "CapabilityAnnounce_encode c = TYPE_CAPABILITIES # CapabilityAnnounce_sign_bytes c @ ca_sig c"
  "CoordAnnounce_encode_into d buf = buf @ CoordAnnounce_sign_bytes d @ co_sig d"
  "HolePunch_encode h = TYPE_HOLE_PUNCH # HolePunch_sign_bytes h @ hp_sig h"
  by (simp_all add: OnionKeyAnnounce_encode_def OnionKeyAnnounce_sign_bytes_def
      ReputationReport_encode_def ReputationReport_sign_bytes_def CapabilityAnnounce_encode_def
      CapabilityAnnounce_sign_bytes_def CoordAnnounce_encode_into_def CoordAnnounce_sign_bytes_def
      HolePunch_encode_def HolePunch_sign_bytes_def Let_def)

end
