(* ===== verification/Crypto_Suite.thy ===== *)
theory Crypto_Suite
  imports Norn_Prelude
begin

text \<open>
  The cryptographic crates the program calls, as one record of functions that is a parameter of every
  definition that uses them: X25519, Ed25519, ML-DSA-65, ML-KEM-768, ChaCha20-Poly1305, ChaCha20, HKDF-SHA256,
  SHA-512, BLAKE2b and its keyed form. Key generation takes the random bytes it consumes as an argument. What the
  program relies on is stated as predicates on the record, which are the hypotheses of the theorems that need
  them: they are the documented correctness properties of the primitives (a sealed box opens, Diffie-Hellman
  commutes, an honest signature verifies, an encapsulation decapsulates), never secrecy assumptions.
\<close>

unbundle bit_operations_syntax

record crypto =
  x25519_pub_of :: "bytes \<Rightarrow> bytes"
  x25519_dh :: "bytes \<Rightarrow> bytes \<Rightarrow> bytes"
  aead_seal :: "bytes \<Rightarrow> bytes \<Rightarrow> bytes \<Rightarrow> bytes \<Rightarrow> bytes option"
  aead_open :: "bytes \<Rightarrow> bytes \<Rightarrow> bytes \<Rightarrow> bytes \<Rightarrow> bytes option"
  hkdf_sha256 :: "bytes option \<Rightarrow> bytes \<Rightarrow> bytes \<Rightarrow> bytes"
  ed_pub_of :: "bytes \<Rightarrow> bytes"
  ed_sign :: "bytes \<Rightarrow> bytes \<Rightarrow> bytes"
  ed_verify :: "bytes \<Rightarrow> bytes \<Rightarrow> bytes \<Rightarrow> bool"
  ed_to_montgomery :: "bytes \<Rightarrow> bytes option"
  dsa_pub_of :: "bytes \<Rightarrow> bytes"
  dsa_sign :: "bytes \<Rightarrow> bytes \<Rightarrow> bytes"
  dsa_verify :: "bytes \<Rightarrow> bytes \<Rightarrow> bytes \<Rightarrow> bool"
  kem_keypair :: "bytes \<Rightarrow> bytes \<times> bytes"
  kem_encap :: "bytes \<Rightarrow> bytes \<Rightarrow> (bytes \<times> bytes) option"
  kem_decap :: "bytes \<Rightarrow> bytes \<Rightarrow> bytes"
  chacha20_xor :: "bytes \<Rightarrow> bytes \<Rightarrow> bytes \<Rightarrow> bytes"
  sha512 :: "bytes \<Rightarrow> bytes"
  blake2b :: "nat \<Rightarrow> bytes \<Rightarrow> bytes"
  blake2b_mac :: "nat \<Rightarrow> bytes \<Rightarrow> bytes \<Rightarrow> bytes"

text \<open>An ASCII string literal as bytes.\<close>

definition ascii :: "string \<Rightarrow> bytes" where
  "ascii s = map of_char s"

lemma length_ascii [simp]: "length (ascii s) = length s"
  by (simp add: ascii_def)

section \<open>Key conversion\<close>

text \<open>\<^verbatim>\<open>ed25519_priv_to_x25519\<close> and \<^verbatim>\<open>ed25519_pub_to_x25519\<close> of \<^verbatim>\<open>src/src/session.rs\<close>.\<close>

definition clamp :: "bytes \<Rightarrow> bytes" where
  "clamp scalar =
     (let scalar = scalar[0 := scalar ! 0 AND 248];
          scalar = scalar[31 := scalar ! 31 AND 127] in
      scalar[31 := scalar ! 31 OR 64])"

definition ed25519_priv_to_x25519 :: "crypto \<Rightarrow> bytes \<Rightarrow> bytes" where
  "ed25519_priv_to_x25519 C ed_priv_bytes = clamp (take 32 (sha512 C ed_priv_bytes))"

definition ed25519_pub_to_x25519 :: "crypto \<Rightarrow> bytes \<Rightarrow> bytes result" where
  "ed25519_pub_to_x25519 C ed_pub_bytes =
     (case ed_to_montgomery C ed_pub_bytes of
        Some m \<Rightarrow> Inr m | None \<Rightarrow> Inl (Bail ''invalid ed25519 public key''))"

section \<open>Documented behaviour\<close>

definition dh_commutes :: "crypto \<Rightarrow> bool" where
  "dh_commutes C \<longleftrightarrow> (\<forall>a b. x25519_dh C a (x25519_pub_of C b) = x25519_dh C b (x25519_pub_of C a))"

definition aead_correct :: "crypto \<Rightarrow> bool" where
  "aead_correct C \<longleftrightarrow> (\<forall>k n a p c. aead_seal C k n a p = Some c \<longrightarrow>
     aead_open C k n a c = Some p \<and> length c = length p + 16)"

text \<open>Sealing fails only for plaintexts beyond the cipher's counter limit, $2^{38} - 64$ bytes.\<close>

definition aead_total :: "crypto \<Rightarrow> bool" where
  "aead_total C \<longleftrightarrow> (\<forall>k n a p. length p \<le> 2 ^ 38 - 64 \<longrightarrow> aead_seal C k n a p \<noteq> None)"

definition sigs_correct :: "crypto \<Rightarrow> bool" where
  "sigs_correct C \<longleftrightarrow>
     (\<forall>sk m. ed_verify C (ed_pub_of C sk) m (ed_sign C sk m) \<and> length (ed_sign C sk m) = 64) \<and>
     (\<forall>sk m. dsa_verify C (dsa_pub_of C sk) m (dsa_sign C sk m) \<and> length (dsa_sign C sk m) = 3309) \<and>
     (\<forall>sk. length (ed_pub_of C sk) = 32 \<and> length (dsa_pub_of C sk) = 1952)"

definition kem_correct :: "crypto \<Rightarrow> bool" where
  "kem_correct C \<longleftrightarrow>
     (\<forall>r r' dk ek. kem_keypair C r = (dk, ek) \<longrightarrow> length ek = 1184 \<and>
        (\<exists>ct ss. kem_encap C r' ek = Some (ct, ss) \<and> kem_decap C dk ct = ss \<and> length ct = 1088 \<and> length ss = 32))"

definition key_sizes :: "crypto \<Rightarrow> bool" where
  "key_sizes C \<longleftrightarrow> (\<forall>a. length (x25519_pub_of C a) = 32)"

definition chacha_involutive :: "crypto \<Rightarrow> bool" where
  "chacha_involutive C \<longleftrightarrow> (\<forall>k n d. chacha20_xor C k n (chacha20_xor C k n d) = d \<and>
     length (chacha20_xor C k n d) = length d)"

text \<open>ChaCha20 is a stream cipher: it adds a key stream that depends on the key, the nonce and the position only.\<close>

definition chacha_stream :: "crypto \<Rightarrow> bool" where
  "chacha_stream C \<longleftrightarrow> (\<exists>ks. \<forall>k n d. chacha20_xor C k n d = map2 (XOR) d (map (ks k n) [0..<length d]))"

definition digest_sizes :: "crypto \<Rightarrow> bool" where
  "digest_sizes C \<longleftrightarrow> (\<forall>n d. length (blake2b C n d) = n) \<and> (\<forall>d. length (sha512 C d) = 64) \<and>
     (\<forall>n k d. length (blake2b_mac C n k d) = n)"

text \<open>The birational map takes an Ed25519 public key to the X25519 public key of the converted private key.\<close>

definition ed_x_consistent :: "crypto \<Rightarrow> bool" where
  "ed_x_consistent C \<longleftrightarrow> (\<forall>sk. ed_to_montgomery C (ed_pub_of C sk) = Some (x25519_pub_of C (ed25519_priv_to_x25519 C sk)))"

end
