(* ===== verification/Session_Wire.thy ===== *)
theory Session_Wire
  imports Wire_Messages Crypto_Suite
begin

text \<open>
  The handshake messages \<^verbatim>\<open>SessionInit\<close> and \<^verbatim>\<open>SessionAck\<close> of \<^verbatim>\<open>src/src/session.rs\<close>: construction,
  wire format, the bytes both signatures cover, and verification against the local clock.
\<close>

unbundle bit_operations_syntax

abbreviation (input) "ML_KEM_PUB_BYTES \<equiv> (1184 :: nat)"
abbreviation (input) "ML_KEM_CT_BYTES \<equiv> (1088 :: nat)"
abbreviation (input) "ML_KEM_SHARED_BYTES \<equiv> (32 :: nat)"
abbreviation (input) "ML_DSA_PUB_BYTES \<equiv> (1952 :: nat)"
abbreviation (input) "ML_DSA_SIG_BYTES \<equiv> (3309 :: nat)"
abbreviation (input) "SESSION_INIT_MAGIC \<equiv> (0x74 :: u8)"
abbreviation (input) "SESSION_ACK_MAGIC \<equiv> (0x62 :: u8)"

definition SESSION_INIT_WIRE_BYTES :: nat where
  "SESSION_INIT_WIRE_BYTES = 1 + 32 + 64 + 32 + 8 + 32 + ML_KEM_PUB_BYTES + ML_DSA_PUB_BYTES + ML_DSA_SIG_BYTES + 16"

definition SESSION_ACK_WIRE_BYTES :: nat where
  "SESSION_ACK_WIRE_BYTES = 1 + 32 + 64 + 32 + 8 + 32 + ML_KEM_CT_BYTES + ML_DSA_PUB_BYTES + ML_DSA_SIG_BYTES + 16"

definition HANDSHAKE_TIME_WINDOW_MS :: u64 where
  "HANDSHAKE_TIME_WINDOW_MS = 5 * 60 * 1000"

lemma wire_bytes_eq [simp]: "SESSION_INIT_WIRE_BYTES = 6630" "SESSION_ACK_WIRE_BYTES = 6534"
  by (simp_all add: SESSION_INIT_WIRE_BYTES_def SESSION_ACK_WIRE_BYTES_def)

section \<open>Clock skew\<close>

text \<open>\<^verbatim>\<open>(now as i64 - ts as i64).unsigned_abs()\<close> with the subtraction of the release build, which wraps.\<close>

definition clock_skew :: "u64 \<Rightarrow> u64 \<Rightarrow> u64" where
  "clock_skew now ts = (let d = now - ts in if sint d < 0 then - d else d)"

lemma sint_neg_iff: "sint (d :: u64) < 0 \<longleftrightarrow> 2 ^ 63 \<le> unat d"
proof -
  have "bit d 63 \<longleftrightarrow> odd (unat d div 2 ^ 63)"
    using bit_unsigned_iff[of d 63, where 'a = nat] bit_iff_odd[of "unat d" 63] by simp
  moreover have "unat d div 2 ^ 63 < 2"
    using unsigned_less[of d, where 'a = nat] by (intro less_mult_imp_div_less) simp
  ultimately have "bit d 63 \<longleftrightarrow> unat d div 2 ^ 63 \<noteq> 0"
    by (cases "unat d div 2 ^ 63"; auto simp: less_Suc_eq numeral_2_eq_2)
  then show ?thesis using bit_last_iff[of d] by (simp add: div_eq_0_iff not_less)
qed

lemma unat_minus_u64: "d \<noteq> 0 \<Longrightarrow> unat (- d) = 2 ^ 64 - unat d" for d :: u64
  using unat_sub_if'[of 0 d] by (simp add: unat_eq_zero)

text \<open>The skew is the distance between the two clocks on the circle of 64-bit values.\<close>

lemma clock_skew_min: "clock_skew now ts = min (now - ts) (ts - now)"
proof -
  have "- (now - ts) = ts - now" by simp
  moreover have "clock_skew now ts = min (now - ts) (- (now - ts))"
    using unat_minus_u64[of "now - ts"] sint_neg_iff[of "now - ts"]
    by (cases "now - ts = 0"; cases "sint (now - ts) < 0")
       (simp_all add: clock_skew_def Let_def word_le_nat_alt min_absorb1 min_absorb2)
  ultimately show ?thesis by simp
qed

lemma clock_skew_abs:
  assumes "unat now < 2 ^ 63" "unat ts < 2 ^ 63"
  shows "unat (clock_skew now ts) = max (unat now) (unat ts) - min (unat now) (unat ts)"
proof -
  have "unat (a - b) \<le> unat (b - a)" "unat (a - b) = unat a - unat b"
    if "b \<le> a" "unat a < 2 ^ 63" for a b :: u64
  proof -
    show d: "unat (a - b) = unat a - unat b" using that by (simp add: unat_sub)
    show "unat (a - b) \<le> unat (b - a)"
      using unat_minus_u64[of "a - b"] d that by (cases "a = b") (auto simp: word_le_nat_alt)
  qed
  note d = this
  show ?thesis
  proof (cases "ts \<le> now")
    case True
    then show ?thesis
      using d[OF True assms(1)] by (auto simp: clock_skew_min min_def word_le_nat_alt)
  next
    case False
    then have "now \<le> ts" by simp
    then show ?thesis
      using d[OF _ assms(2), of now] by (auto simp: clock_skew_min min_def word_le_nat_alt)
  qed
qed

section \<open>SessionInit\<close>

record SessionInit =
  si_ed_pub :: bytes
  si_signature :: bytes
  si_x25519_pub :: bytes
  si_timestamp_ms :: u64
  si_recipient_ed_pub :: bytes
  si_ml_kem_pub :: bytes
  si_ml_dsa_pub :: bytes
  si_ml_dsa_sig :: bytes
  si_sender_coord :: bytes

definition build_init_sign_bytes :: "bytes \<Rightarrow> bytes \<Rightarrow> u64 \<Rightarrow> bytes \<Rightarrow> bytes \<Rightarrow> bytes \<Rightarrow> bytes" where
  "build_init_sign_bytes ed_pub x25519_pub timestamp_ms recipient_ed_pub ml_kem_pub ml_dsa_pub =
     [SESSION_INIT_MAGIC] @ ed_pub @ x25519_pub @ le_bytes 8 timestamp_ms @ recipient_ed_pub @ ml_kem_pub @ ml_dsa_pub"

text \<open>\<^verbatim>\<open>create\<close> signs with the node's Ed25519 and ML-DSA keys at wall-clock time \<open>now\<close>.\<close>

definition SessionInit_create :: "crypto \<Rightarrow> u64 \<Rightarrow> bytes \<Rightarrow> bytes \<Rightarrow> bytes \<Rightarrow> bytes \<Rightarrow> bytes \<Rightarrow> bytes \<Rightarrow> SessionInit" where
  "SessionInit_create C now signing_key x25519_pub recipient_ed_pub ml_kem_pub sender_coord pq_signer =
     (let ed_pub = ed_pub_of C signing_key;
          timestamp_ms = now;
          ml_dsa_pub = dsa_pub_of C pq_signer;
          sign_data = build_init_sign_bytes ed_pub x25519_pub timestamp_ms recipient_ed_pub ml_kem_pub ml_dsa_pub;
          signature = ed_sign C signing_key sign_data;
          ml_dsa_sig = dsa_sign C pq_signer sign_data in
      \<lparr>si_ed_pub = ed_pub, si_signature = signature, si_x25519_pub = x25519_pub,
       si_timestamp_ms = timestamp_ms, si_recipient_ed_pub = recipient_ed_pub, si_ml_kem_pub = ml_kem_pub,
       si_ml_dsa_pub = ml_dsa_pub, si_ml_dsa_sig = ml_dsa_sig, si_sender_coord = sender_coord\<rparr>)"

definition SessionInit_encode :: "SessionInit \<Rightarrow> bytes" where
  "SessionInit_encode m =
     [SESSION_INIT_MAGIC] @ si_ed_pub m @ si_signature m @ si_x25519_pub m @ le_bytes 8 (si_timestamp_ms m) @
     si_recipient_ed_pub m @ si_ml_kem_pub m @ si_ml_dsa_pub m @ si_ml_dsa_sig m @ si_sender_coord m"

definition SessionInit_decode :: "bytes \<Rightarrow> SessionInit result" where
  "SessionInit_decode data =
     (if data = [] then Inl (Bail ''invalid SessionInit magic'') else
      and_then (idx data 0) (\<lambda>magic.
      if magic \<noteq> SESSION_INIT_MAGIC then Inl (Bail ''invalid SessionInit magic'') else
      let need = SESSION_INIT_WIRE_BYTES in
      if length data < need then Inl (Bail ''SessionInit too short'') else
      let pos = 1 in
      and_then (slice_rng data pos (pos + 32)) (\<lambda>ed_pub. let pos = pos + 32 in
      and_then (slice_rng data pos (pos + 64)) (\<lambda>signature. let pos = pos + 64 in
      and_then (slice_rng data pos (pos + 32)) (\<lambda>x25519_pub. let pos = pos + 32 in
      and_then (slice_rng data pos (pos + 8)) (\<lambda>timestamp_ms. let pos = pos + 8 in
      and_then (slice_rng data pos (pos + 32)) (\<lambda>recipient_ed_pub. let pos = pos + 32 in
      and_then (slice_rng data pos (pos + ML_KEM_PUB_BYTES)) (\<lambda>ml_kem_pub. let pos = pos + ML_KEM_PUB_BYTES in
      and_then (slice_rng data pos (pos + ML_DSA_PUB_BYTES)) (\<lambda>ml_dsa_pub. let pos = pos + ML_DSA_PUB_BYTES in
      and_then (slice_rng data pos (pos + ML_DSA_SIG_BYTES)) (\<lambda>ml_dsa_sig. let pos = pos + ML_DSA_SIG_BYTES in
      and_then (slice_rng data pos (pos + 16)) (\<lambda>sender_coord.
      Inr \<lparr>si_ed_pub = ed_pub, si_signature = signature, si_x25519_pub = x25519_pub, si_timestamp_ms = from_le timestamp_ms, si_recipient_ed_pub = recipient_ed_pub, si_ml_kem_pub = ml_kem_pub, si_ml_dsa_pub = ml_dsa_pub, si_ml_dsa_sig = ml_dsa_sig, si_sender_coord = sender_coord\<rparr>)))))))))))"

definition SessionInit_ok :: "SessionInit \<Rightarrow> bool" where
  "SessionInit_ok m \<longleftrightarrow> length (si_ed_pub m) = 32 \<and> length (si_signature m) = 64 \<and> length (si_x25519_pub m) = 32 \<and> length (si_recipient_ed_pub m) = 32 \<and> length (si_ml_kem_pub m) = ML_KEM_PUB_BYTES \<and> length (si_ml_dsa_pub m) = ML_DSA_PUB_BYTES \<and> length (si_ml_dsa_sig m) = ML_DSA_SIG_BYTES \<and> length (si_sender_coord m) = 16"

text \<open>\<^verbatim>\<open>verify\<close>: addressed to us, fresh, and signed by the Ed25519 identity it names.\<close>

definition SessionInit_signed_bytes :: "SessionInit \<Rightarrow> bytes" where
  "SessionInit_signed_bytes m =
     build_init_sign_bytes (si_ed_pub m) (si_x25519_pub m) (si_timestamp_ms m) (si_recipient_ed_pub m)
       (si_ml_kem_pub m) (si_ml_dsa_pub m)"

definition SessionInit_verify :: "crypto \<Rightarrow> u64 \<Rightarrow> SessionInit \<Rightarrow> bytes \<Rightarrow> unit result" where
  "SessionInit_verify C now m expected_recipient =
     (if si_recipient_ed_pub m \<noteq> expected_recipient then Inl (Bail ''SessionInit not addressed to us'')
      else if clock_skew now (si_timestamp_ms m) > HANDSHAKE_TIME_WINDOW_MS
      then Inl (Bail ''SessionInit timestamp outside window'')
      else if \<not> ed_verify C (si_ed_pub m)
                (build_init_sign_bytes (si_ed_pub m) (si_x25519_pub m) (si_timestamp_ms m)
                   (si_recipient_ed_pub m) (si_ml_kem_pub m) (si_ml_dsa_pub m)) (si_signature m)
      then Inl (Bail ''signature error'')
      else Inr ())"

interpretation si: message_codec SESSION_INIT_MAGIC SessionInit_encode "\<lambda>d. SessionInit_decode (SESSION_INIT_MAGIC # d)" SessionInit_ok
proof (unfold_locales, goal_cases)
  case (1 x)
  then show ?case by (simp add: SessionInit_encode_def)
next
  case (2 x rest)
  then show ?case
    by (cases x) (simp add: SessionInit_encode_def SessionInit_decode_def SessionInit_ok_def from_le_le_bytes)
next
  case (3 data x)
  then show ?case
    by (auto simp: SessionInit_decode_def SessionInit_ok_def and_then_Inr_iff Let_def simp del: slice_Inr
        split: if_splits dest!: slice_InrD)
next
  case (4 data)
  then show ?case
    by (auto simp: SessionInit_decode_def Let_def nopanic_and_then simp del: slice_Inr dest!: slice_InrD)
qed

lemma SessionInit_decode_InrD:
  assumes "SessionInit_decode data = Inr m"
  shows "SessionInit_ok m" "SESSION_INIT_WIRE_BYTES \<le> length data" "hd data = SESSION_INIT_MAGIC"
  using assms
  by (auto simp: SessionInit_decode_def SessionInit_ok_def and_then_Inr_iff Let_def idx_Inr_iff hd_conv_nth simp del: slice_Inr
        split: if_splits dest!: slice_rng_InrD)

lemma length_SessionInit_encode: "SessionInit_ok m \<Longrightarrow> length (SessionInit_encode m) = SESSION_INIT_WIRE_BYTES"
  by (simp add: SessionInit_encode_def SessionInit_ok_def)

section \<open>SessionAck\<close>

record SessionAck =
  sk_ed_pub :: bytes
  sk_signature :: bytes
  sk_x25519_pub :: bytes
  sk_timestamp_ms :: u64
  sk_recipient_ed_pub :: bytes
  sk_ml_kem_ct :: bytes
  sk_ml_dsa_pub :: bytes
  sk_ml_dsa_sig :: bytes
  sk_sender_coord :: bytes

definition build_ack_sign_bytes :: "bytes \<Rightarrow> bytes \<Rightarrow> u64 \<Rightarrow> bytes \<Rightarrow> bytes \<Rightarrow> bytes \<Rightarrow> bytes" where
  "build_ack_sign_bytes ed_pub x25519_pub timestamp_ms recipient_ed_pub ml_kem_ct ml_dsa_pub =
     [SESSION_ACK_MAGIC] @ ed_pub @ x25519_pub @ le_bytes 8 timestamp_ms @ recipient_ed_pub @ ml_kem_ct @ ml_dsa_pub"

text \<open>\<^verbatim>\<open>create\<close> signs with the node's Ed25519 and ML-DSA keys at wall-clock time \<open>now\<close>.\<close>

definition SessionAck_create :: "crypto \<Rightarrow> u64 \<Rightarrow> bytes \<Rightarrow> bytes \<Rightarrow> bytes \<Rightarrow> bytes \<Rightarrow> bytes \<Rightarrow> bytes \<Rightarrow> SessionAck" where
  "SessionAck_create C now signing_key x25519_pub recipient_ed_pub ml_kem_ct sender_coord pq_signer =
     (let ed_pub = ed_pub_of C signing_key;
          timestamp_ms = now;
          ml_dsa_pub = dsa_pub_of C pq_signer;
          sign_data = build_ack_sign_bytes ed_pub x25519_pub timestamp_ms recipient_ed_pub ml_kem_ct ml_dsa_pub;
          signature = ed_sign C signing_key sign_data;
          ml_dsa_sig = dsa_sign C pq_signer sign_data in
      \<lparr>sk_ed_pub = ed_pub, sk_signature = signature, sk_x25519_pub = x25519_pub,
       sk_timestamp_ms = timestamp_ms, sk_recipient_ed_pub = recipient_ed_pub, sk_ml_kem_ct = ml_kem_ct,
       sk_ml_dsa_pub = ml_dsa_pub, sk_ml_dsa_sig = ml_dsa_sig, sk_sender_coord = sender_coord\<rparr>)"

definition SessionAck_encode :: "SessionAck \<Rightarrow> bytes" where
  "SessionAck_encode m =
     [SESSION_ACK_MAGIC] @ sk_ed_pub m @ sk_signature m @ sk_x25519_pub m @ le_bytes 8 (sk_timestamp_ms m) @
     sk_recipient_ed_pub m @ sk_ml_kem_ct m @ sk_ml_dsa_pub m @ sk_ml_dsa_sig m @ sk_sender_coord m"

definition SessionAck_decode :: "bytes \<Rightarrow> SessionAck result" where
  "SessionAck_decode data =
     (if data = [] then Inl (Bail ''invalid SessionAck magic'') else
      and_then (idx data 0) (\<lambda>magic.
      if magic \<noteq> SESSION_ACK_MAGIC then Inl (Bail ''invalid SessionAck magic'') else
      let need = SESSION_ACK_WIRE_BYTES in
      if length data < need then Inl (Bail ''SessionAck too short'') else
      let pos = 1 in
      and_then (slice_rng data pos (pos + 32)) (\<lambda>ed_pub. let pos = pos + 32 in
      and_then (slice_rng data pos (pos + 64)) (\<lambda>signature. let pos = pos + 64 in
      and_then (slice_rng data pos (pos + 32)) (\<lambda>x25519_pub. let pos = pos + 32 in
      and_then (slice_rng data pos (pos + 8)) (\<lambda>timestamp_ms. let pos = pos + 8 in
      and_then (slice_rng data pos (pos + 32)) (\<lambda>recipient_ed_pub. let pos = pos + 32 in
      and_then (slice_rng data pos (pos + ML_KEM_CT_BYTES)) (\<lambda>ml_kem_ct. let pos = pos + ML_KEM_CT_BYTES in
      and_then (slice_rng data pos (pos + ML_DSA_PUB_BYTES)) (\<lambda>ml_dsa_pub. let pos = pos + ML_DSA_PUB_BYTES in
      and_then (slice_rng data pos (pos + ML_DSA_SIG_BYTES)) (\<lambda>ml_dsa_sig. let pos = pos + ML_DSA_SIG_BYTES in
      and_then (slice_rng data pos (pos + 16)) (\<lambda>sender_coord.
      Inr \<lparr>sk_ed_pub = ed_pub, sk_signature = signature, sk_x25519_pub = x25519_pub, sk_timestamp_ms = from_le timestamp_ms, sk_recipient_ed_pub = recipient_ed_pub, sk_ml_kem_ct = ml_kem_ct, sk_ml_dsa_pub = ml_dsa_pub, sk_ml_dsa_sig = ml_dsa_sig, sk_sender_coord = sender_coord\<rparr>)))))))))))"

definition SessionAck_ok :: "SessionAck \<Rightarrow> bool" where
  "SessionAck_ok m \<longleftrightarrow> length (sk_ed_pub m) = 32 \<and> length (sk_signature m) = 64 \<and> length (sk_x25519_pub m) = 32 \<and> length (sk_recipient_ed_pub m) = 32 \<and> length (sk_ml_kem_ct m) = ML_KEM_CT_BYTES \<and> length (sk_ml_dsa_pub m) = ML_DSA_PUB_BYTES \<and> length (sk_ml_dsa_sig m) = ML_DSA_SIG_BYTES \<and> length (sk_sender_coord m) = 16"

text \<open>\<^verbatim>\<open>verify\<close>: addressed to us, fresh, and signed by the Ed25519 identity it names.\<close>

definition SessionAck_signed_bytes :: "SessionAck \<Rightarrow> bytes" where
  "SessionAck_signed_bytes m =
     build_ack_sign_bytes (sk_ed_pub m) (sk_x25519_pub m) (sk_timestamp_ms m) (sk_recipient_ed_pub m)
       (sk_ml_kem_ct m) (sk_ml_dsa_pub m)"

definition SessionAck_verify :: "crypto \<Rightarrow> u64 \<Rightarrow> SessionAck \<Rightarrow> bytes \<Rightarrow> unit result" where
  "SessionAck_verify C now m expected_recipient =
     (if sk_recipient_ed_pub m \<noteq> expected_recipient then Inl (Bail ''SessionAck not addressed to us'')
      else if clock_skew now (sk_timestamp_ms m) > HANDSHAKE_TIME_WINDOW_MS
      then Inl (Bail ''SessionAck timestamp outside window'')
      else if \<not> ed_verify C (sk_ed_pub m)
                (build_ack_sign_bytes (sk_ed_pub m) (sk_x25519_pub m) (sk_timestamp_ms m)
                   (sk_recipient_ed_pub m) (sk_ml_kem_ct m) (sk_ml_dsa_pub m)) (sk_signature m)
      then Inl (Bail ''signature error'')
      else Inr ())"

interpretation sk: message_codec SESSION_ACK_MAGIC SessionAck_encode "\<lambda>d. SessionAck_decode (SESSION_ACK_MAGIC # d)" SessionAck_ok
proof (unfold_locales, goal_cases)
  case (1 x)
  then show ?case by (simp add: SessionAck_encode_def)
next
  case (2 x rest)
  then show ?case
    by (cases x) (simp add: SessionAck_encode_def SessionAck_decode_def SessionAck_ok_def from_le_le_bytes)
next
  case (3 data x)
  then show ?case
    by (auto simp: SessionAck_decode_def SessionAck_ok_def and_then_Inr_iff Let_def simp del: slice_Inr
        split: if_splits dest!: slice_InrD)
next
  case (4 data)
  then show ?case
    by (auto simp: SessionAck_decode_def Let_def nopanic_and_then simp del: slice_Inr dest!: slice_InrD)
qed

lemma SessionAck_decode_InrD:
  assumes "SessionAck_decode data = Inr m"
  shows "SessionAck_ok m" "SESSION_ACK_WIRE_BYTES \<le> length data" "hd data = SESSION_ACK_MAGIC"
  using assms
  by (auto simp: SessionAck_decode_def SessionAck_ok_def and_then_Inr_iff Let_def idx_Inr_iff hd_conv_nth simp del: slice_Inr
        split: if_splits dest!: slice_rng_InrD)

lemma length_SessionAck_encode: "SessionAck_ok m \<Longrightarrow> length (SessionAck_encode m) = SESSION_ACK_WIRE_BYTES"
  by (simp add: SessionAck_encode_def SessionAck_ok_def)

section \<open>What the handshake signatures cover\<close>

lemma init_sign_inj:
  "SessionInit_ok a \<Longrightarrow> SessionInit_ok b \<Longrightarrow> SessionInit_signed_bytes a = SessionInit_signed_bytes b \<Longrightarrow>
     a\<lparr>si_signature := s, si_ml_dsa_sig := t, si_sender_coord := c\<rparr> = b\<lparr>si_signature := s, si_ml_dsa_sig := t, si_sender_coord := c\<rparr>"
  by (cases a; cases b) (simp add: SessionInit_ok_def SessionInit_signed_bytes_def build_init_sign_bytes_def le_bytes_inj)

lemma ack_sign_inj:
  "SessionAck_ok a \<Longrightarrow> SessionAck_ok b \<Longrightarrow> SessionAck_signed_bytes a = SessionAck_signed_bytes b \<Longrightarrow>
     a\<lparr>sk_signature := s, sk_ml_dsa_sig := t, sk_sender_coord := c\<rparr> = b\<lparr>sk_signature := s, sk_ml_dsa_sig := t, sk_sender_coord := c\<rparr>"
  by (cases a; cases b) (simp add: SessionAck_ok_def SessionAck_signed_bytes_def build_ack_sign_bytes_def le_bytes_inj)

lemma init_ack_domain_separation: "SessionInit_signed_bytes a \<noteq> SessionAck_signed_bytes b"
  by (simp add: SessionInit_signed_bytes_def SessionAck_signed_bytes_def build_init_sign_bytes_def build_ack_sign_bytes_def)

lemma SessionInit_create_verify:
  "sigs_correct C \<Longrightarrow> clock_skew now sent \<le> HANDSHAKE_TIME_WINDOW_MS \<Longrightarrow>
     SessionInit_verify C now (SessionInit_create C sent sk x r k c q) r = Inr ()"
  by (simp add: SessionInit_verify_def SessionInit_create_def Let_def sigs_correct_def not_less)

lemma SessionAck_create_verify:
  "sigs_correct C \<Longrightarrow> clock_skew now sent \<le> HANDSHAKE_TIME_WINDOW_MS \<Longrightarrow>
     SessionAck_verify C now (SessionAck_create C sent sk x r k c q) r = Inr ()"
  by (simp add: SessionAck_verify_def SessionAck_create_def Let_def sigs_correct_def not_less)

lemma SessionInit_create_ok:
  "sigs_correct C \<Longrightarrow> length x = 32 \<Longrightarrow> length r = 32 \<Longrightarrow> length k = ML_KEM_PUB_BYTES \<Longrightarrow> length c = 16 \<Longrightarrow>
     SessionInit_ok (SessionInit_create C sent sk x r k c q)"
  by (simp add: SessionInit_ok_def SessionInit_create_def Let_def sigs_correct_def)

lemma SessionAck_create_ok:
  "sigs_correct C \<Longrightarrow> length x = 32 \<Longrightarrow> length r = 32 \<Longrightarrow> length k = ML_KEM_CT_BYTES \<Longrightarrow> length c = 16 \<Longrightarrow>
     SessionAck_ok (SessionAck_create C sent sk x r k c q)"
  by (simp add: SessionAck_ok_def SessionAck_create_def Let_def sigs_correct_def)

lemma SessionInit_decode_encode: "SessionInit_ok m \<Longrightarrow> SessionInit_decode (SessionInit_encode m) = Inr m"
  using si.dec_enc[of m "[]"] si.enc_type[of m] by simp

lemma SessionAck_decode_encode: "SessionAck_ok m \<Longrightarrow> SessionAck_decode (SessionAck_encode m) = Inr m"
  using sk.dec_enc[of m "[]"] sk.enc_type[of m] by simp

end
