(* ===== verification/Replay_Window.thy ===== *)
theory Replay_Window
  imports Norn_Prelude
begin

text \<open>
  The anti-replay window of \<^verbatim>\<open>SessionInfo::decrypt\<close> in \<^verbatim>\<open>src/src/session.rs\<close>: the highest sequence
  number accepted and a 64-bit mask of the 64 numbers up to it. Its contract is the interface
  \<open>replay_guard\<close>, stated against the set of sequence numbers accepted so far.
\<close>

unbundle bit_operations_syntax

section \<open>The window\<close>

definition replay_check :: "u64 \<Rightarrow> u64 \<Rightarrow> u64 \<Rightarrow> unit result" where
  "replay_check high win seq =
     (if saturating_sub high seq \<ge> 64 then Inl (Bail ''replay: seq too old'')
      else if seq \<le> high then
        let offset = high - seq in
        if win AND push_bit (unat offset) 1 \<noteq> 0 then Inl (Bail ''replay: seq already seen'') else Inr ()
      else Inr ())"

definition replay_update :: "u64 \<Rightarrow> u64 \<Rightarrow> u64 \<Rightarrow> u64 \<times> u64" where
  "replay_update high win seq =
     (if seq > high then
        let shift = seq - high in
        (seq, if shift \<ge> 64 then 1 else push_bit (unat shift) win OR 1)
      else
        let offset = high - seq in
        (high, win OR push_bit (unat offset) 1))"

section \<open>The contract\<close>

text \<open>\<open>rel s A\<close>: state \<open>s\<close> represents the set \<open>A\<close> of accepted numbers. A number that was accepted is never
  accepted again; a number not accepted before is accepted unless it lies \<open>width\<close> or more behind the newest.\<close>

locale replay_guard =
  fixes start :: 's and check :: "'s \<Rightarrow> u64 \<Rightarrow> bool" and commit :: "'s \<Rightarrow> u64 \<Rightarrow> 's"
    and rel :: "'s \<Rightarrow> nat set \<Rightarrow> bool" and width :: nat
  assumes rel_start: "rel start {}"
    and check_iff: "rel s A \<Longrightarrow> check s q \<longleftrightarrow> unat q \<notin> A \<and> (\<forall>a \<in> A. a < unat q + width)"
    and rel_commit: "rel s A \<Longrightarrow> check s q \<Longrightarrow> rel (commit s q) (insert (unat q) A)"
begin

fun accepted :: "'s \<Rightarrow> u64 list \<Rightarrow> u64 list" where
  "accepted s [] = []"
| "accepted s (q # qs) = (if check s q then q # accepted (commit s q) qs else accepted s qs)"

lemma accepted_fresh: "rel s A \<Longrightarrow> q \<in> set (accepted s qs) \<Longrightarrow> unat q \<notin> A"
proof (induction qs arbitrary: s A)
  case (Cons x qs)
  then show ?case
    using check_iff[of s A x] rel_commit[of s A x] by (cases "check s x") fastforce+
qed simp

lemma accepted_distinct: "rel s A \<Longrightarrow> distinct (accepted s qs)"
proof (induction qs arbitrary: s A)
  case (Cons x qs)
  then show ?case
    using rel_commit[of s A x] accepted_fresh[of "commit s x" "insert (unat x) A" x qs]
    by (cases "check s x") auto
qed simp

text \<open>In-order delivery with gaps and reorderings shorter than the window loses nothing.\<close>

lemma accepted_all:
  "rel s A \<Longrightarrow> distinct qs \<Longrightarrow> unat ` set qs \<inter> A = {} \<Longrightarrow>
     (\<forall>i < length qs. (\<forall>a \<in> A. a < unat (qs ! i) + width) \<and> (\<forall>j < i. unat (qs ! j) < unat (qs ! i) + width)) \<Longrightarrow>
     accepted s qs = qs"
proof (induction qs arbitrary: s A)
  case (Cons x qs)
  have c: "check s x"
    using Cons.prems(3,4) check_iff[OF Cons.prems(1), of x] by force
  have "accepted (commit s x) qs = qs"
  proof (rule Cons.IH[OF rel_commit[OF Cons.prems(1) c]])
    show "distinct qs" using Cons.prems(2) by simp
    show "unat ` set qs \<inter> insert (unat x) A = {}"
      using Cons.prems(2,3) by (auto dest!: unsigned_word_eqI)
    show "\<forall>i < length qs. (\<forall>a \<in> insert (unat x) A. a < unat (qs ! i) + width) \<and>
            (\<forall>j < i. unat (qs ! j) < unat (qs ! i) + width)"
    proof (intro allI impI conjI ballI)
      fix i a assume i: "i < length qs" and a: "a \<in> insert (unat x) A"
      then show "a < unat (qs ! i) + width" using Cons.prems(4)[rule_format, of "Suc i"] by auto
    next
      fix i j assume "i < length qs" "j < i"
      then show "unat (qs ! j) < unat (qs ! i) + width"
        using Cons.prems(4)[rule_format, of "Suc i"] by auto
    qed
  qed
  then show ?case using c by simp
qed simp

end

section \<open>The window keeps the contract\<close>

definition window_ok :: "u64 \<times> u64 \<Rightarrow> u64 \<Rightarrow> bool" where
  "window_ok s q \<longleftrightarrow> replay_check (fst s) (snd s) q = Inr ()"

definition window_rel :: "u64 \<times> u64 \<Rightarrow> nat set \<Rightarrow> bool" where
  "window_rel s A \<longleftrightarrow>
     (\<forall>a \<in> A. a \<le> unat (fst s)) \<and> (A = {} \<longrightarrow> fst s = 0) \<and> (A \<noteq> {} \<longrightarrow> unat (fst s) \<in> A) \<and>
     (\<forall>i < 64. bit (snd s) i \<longleftrightarrow> i \<le> unat (fst s) \<and> unat (fst s) - i \<in> A)"

lemma window_ok_iff:
  "window_ok (h, w) q \<longleftrightarrow> unat h < unat q + 64 \<and> (unat q \<le> unat h \<longrightarrow> \<not> bit w (unat h - unat q))"
proof -
  have "saturating_sub h q \<ge> 64 \<longleftrightarrow> unat q + 64 \<le> unat h"
    using unat_saturating_sub[of h q] by (simp add: word_le_nat_alt) linarith
  moreover have "unat (h - q) = unat h - unat q" if "q \<le> h" using that by (simp add: unat_sub)
  ultimately show ?thesis
    by (auto simp: window_ok_def replay_check_def Let_def word_le_nat_alt bit_iff_and_push_bit_not_eq_0)
qed

lemma window_check_iff:
  assumes "window_rel s A"
  shows "window_ok s q \<longleftrightarrow> unat q \<notin> A \<and> (\<forall>a \<in> A. a < unat q + 64)"
proof (cases s)
  case (Pair h w)
  have bits: "bit w (unat h - unat q) \<longleftrightarrow> unat q \<in> A" if "unat q \<le> unat h" "unat h < unat q + 64"
    using assms that by (simp add: window_rel_def Pair)
  have le: "\<forall>a \<in> A. a \<le> unat h" and high: "A \<noteq> {} \<Longrightarrow> unat h \<in> A" and zero: "A = {} \<Longrightarrow> h = 0"
    using assms by (auto simp: window_rel_def Pair)
  have "(\<forall>a \<in> A. a < unat q + 64) \<longleftrightarrow> unat h < unat q + 64"
    using le high zero by (cases "A = {}") (force, fastforce)
  then show ?thesis using bits le by (auto simp: window_ok_iff Pair)
qed

lemma window_commit_new:
  assumes rel: "window_rel (h, w) A" and "h < q"
  shows "window_rel (replay_update h w q) (insert (unat q) A)"
proof -
  let ?d = "unat q - unat h"
  have lt: "unat h < unat q" using assms by (simp add: word_less_nat_alt)
  have d: "unat (q - h) = ?d" using assms by (simp add: unat_sub)
  have le: "\<And>a. a \<in> A \<Longrightarrow> a \<le> unat h" using rel by (simp add: window_rel_def)
  have old: "\<And>i. i < 64 \<Longrightarrow> bit w i \<longleftrightarrow> i \<le> unat h \<and> unat h - i \<in> A" using rel by (simp add: window_rel_def)
  have "bit (snd (replay_update h w q)) i \<longleftrightarrow> i \<le> unat q \<and> unat q - i \<in> insert (unat q) A" if i: "i < 64" for i
  proof (cases "64 \<le> ?d")
    case True
    then have "snd (replay_update h w q) = 1" using assms d by (simp add: replay_update_def Let_def word_le_nat_alt)
    moreover have "unat q - i \<notin> A" using le True i by fastforce
    ultimately show ?thesis using i lt by (auto simp: bit_1_iff)
  next
    case False
    then have s: "snd (replay_update h w q) = push_bit ?d w OR 1"
      using assms d by (simp add: replay_update_def Let_def word_le_nat_alt)
    show ?thesis
    proof (cases "i < ?d")
      case True
      then have "unat q - i \<notin> A" using le by fastforce
      then show ?thesis using True i lt by (auto simp: s bit_or_iff bit_push_bit_iff bit_1_iff)
    next
      case ge: False
      then have "unat h - (i - ?d) = unat q - i" "i - ?d \<le> unat h \<longleftrightarrow> i \<le> unat q" using lt by auto
      then show ?thesis using ge i lt old[of "i - ?d"]
        by (auto simp: s bit_or_iff bit_push_bit_iff bit_1_iff)
    qed
  qed
  moreover have "fst (replay_update h w q) = q" using assms by (simp add: replay_update_def Let_def)
  ultimately show ?thesis using le lt by (fastforce simp: window_rel_def)
qed

lemma window_commit_old:
  assumes rel: "window_rel (h, w) A" and "q \<le> h" and "unat h < unat q + 64"
  shows "window_rel (replay_update h w q) (insert (unat q) A)"
proof -
  let ?d = "unat h - unat q"
  have le: "unat q \<le> unat h" using assms by (simp add: word_le_nat_alt)
  have u: "replay_update h w q = (h, w OR push_bit ?d 1)"
    using assms by (simp add: replay_update_def Let_def unat_sub not_less[symmetric])
  have "bit (push_bit ?d 1 :: u64) i \<longleftrightarrow> i = ?d" if "i < 64" for i
    using that by (auto simp: bit_exp_iff)
  then have "bit (snd (replay_update h w q)) i \<longleftrightarrow> i \<le> unat h \<and> unat h - i \<in> insert (unat q) A" if "i < 64" for i
    using rel that le by (auto simp: u bit_or_iff window_rel_def)
  moreover have "q = h" if "A = {}" using that rel assms(2) by (simp add: window_rel_def)
  ultimately show ?thesis using rel le by (auto simp: u window_rel_def)
qed

interpretation rw: replay_guard "(0, 0)" window_ok "\<lambda>s q. replay_update (fst s) (snd s) q" window_rel 64
proof (unfold_locales, goal_cases)
  case 1
  then show ?case by (simp add: window_rel_def)
next
  case (2 s A q)
  then show ?case by (rule window_check_iff)
next
  case (3 s A q)
  then have "unat (fst s) < unat q + 64" using window_ok_iff[of "fst s" "snd s" q] by simp
  then show ?case
    using 3 window_commit_new[of "fst s" "snd s" A q] window_commit_old[of "fst s" "snd s" A q]
    by (cases "fst s < q") auto
qed

end
