(* ===== verification/Session_Info.thy ===== *)
theory Session_Info
  imports Session_Wire Replay_Window
begin

text \<open>
  The state of one session, \<^verbatim>\<open>SessionInfo\<close> of \<^verbatim>\<open>src/src/session.rs\<close>: the memoised Diffie-Hellman secret,
  packet encryption and decryption with the replay window and the fallback post-quantum secret, and key
  rotation. An \<^verbatim>\<open>Instant\<close> is a number of nanoseconds; clock readings and fresh private keys are
  arguments. A call that fails returns the state it leaves behind, because decryption updates the memoised
  secret before it can fail.
\<close>

unbundle bit_operations_syntax

section \<open>Keys\<close>

record CachedDh =
  cd_local_fp :: bytes
  cd_remote_fp :: bytes
  cd_shared :: bytes

record SessionInfo =
  remote_ed_pub :: bytes
  local_x25519_priv :: bytes
  local_x25519_pub :: bytes
  remote_x25519_pub :: bytes
  local_seq :: u64
  remote_seq_high :: u64
  remote_seq_window :: u64
  established :: bool
  last_used :: instant
  last_init_sent :: instant
  init_retx_count :: u32
  pq_shared :: "bytes option"
  pq_shared_fallback :: "bytes option"
  cached_dh :: "CachedDh option"

definition SessionInfo_new :: "crypto \<Rightarrow> instant \<Rightarrow> bytes \<Rightarrow> bytes \<Rightarrow> bytes \<Rightarrow> SessionInfo" where
  "SessionInfo_new C now ed_pub local_priv remote_pub =
     \<lparr>remote_ed_pub = ed_pub, local_x25519_priv = local_priv, local_x25519_pub = x25519_pub_of C local_priv,
      remote_x25519_pub = remote_pub, local_seq = 0, remote_seq_high = 0, remote_seq_window = 0,
      established = False, last_used = now, last_init_sent = now, init_retx_count = 0,
      pq_shared = None, pq_shared_fallback = None, cached_dh = None\<rparr>"

definition derive_packet_key :: "crypto \<Rightarrow> bytes \<Rightarrow> bytes option \<Rightarrow> bytes" where
  "derive_packet_key C x25519_shared pq = hkdf_sha256 C pq x25519_shared (ascii ''norn:session-key:v3'')"

definition compute_key :: "crypto \<Rightarrow> bytes \<Rightarrow> bytes \<Rightarrow> bytes" where
  "compute_key C local_priv remote_pub = x25519_dh C local_priv remote_pub"

definition dh_shared :: "crypto \<Rightarrow> SessionInfo \<Rightarrow> bytes \<Rightarrow> bytes \<times> SessionInfo" where
  "dh_shared C s remote =
     (let local_fp = local_x25519_pub s;
          remote_fp = remote;
          miss = (let shared = compute_key C (local_x25519_priv s) remote in
                  (shared, s\<lparr>cached_dh := Some \<lparr>cd_local_fp = local_fp, cd_remote_fp = remote_fp, cd_shared = shared\<rparr>\<rparr>))
      in case cached_dh s of
           Some c \<Rightarrow> if cd_local_fp c = local_fp \<and> cd_remote_fp c = remote_fp then (cd_shared c, s) else miss
         | None \<Rightarrow> miss)"

definition packet_nonce :: "u64 \<Rightarrow> bytes" where
  "packet_nonce seq = le_bytes 8 seq @ replicate 4 0"

section \<open>Packets\<close>

definition SessionInfo_encrypt :: "crypto \<Rightarrow> instant \<Rightarrow> SessionInfo \<Rightarrow> bytes \<Rightarrow> bytes result \<times> SessionInfo" where
  "SessionInfo_encrypt C now s plaintext =
     (let sender_x_pub = local_x25519_pub s;
          (x25519_shared, s) = dh_shared C s (remote_x25519_pub s);
          key = derive_packet_key C x25519_shared (pq_shared s);
          nonce = packet_nonce (local_seq s) in
      case aead_seal C key nonce sender_x_pub plaintext of
        None \<Rightarrow> (Inl (Bail ''encrypt error''), s)
      | Some buf \<Rightarrow>
          (Inr (sender_x_pub @ le_bytes 8 (local_seq s) @ buf),
           s\<lparr>local_seq := local_seq s + 1, last_used := now\<rparr>))"

definition rotate_local_key :: "crypto \<Rightarrow> bytes \<Rightarrow> SessionInfo \<Rightarrow> SessionInfo" where
  "rotate_local_key C new_priv s = s\<lparr>local_x25519_pub := x25519_pub_of C new_priv, local_x25519_priv := new_priv\<rparr>"

text \<open>The choice between the two post-quantum secrets: the opened payload and the state with the loser dropped.\<close>

definition open_with_fallback ::
    "crypto \<Rightarrow> SessionInfo \<Rightarrow> bytes \<Rightarrow> bytes \<Rightarrow> bytes \<Rightarrow> bytes \<Rightarrow> (bytes \<times> SessionInfo) result" where
  "open_with_fallback C s x25519_shared nonce aad raw_ct =
     (case aead_open C (derive_packet_key C x25519_shared (pq_shared s)) nonce aad raw_ct of
        Some buf \<Rightarrow> Inr (buf, s\<lparr>pq_shared_fallback := None\<rparr>)
      | None \<Rightarrow>
          (case pq_shared_fallback s of
             Some fb \<Rightarrow>
               (case aead_open C (derive_packet_key C x25519_shared (Some fb)) nonce aad raw_ct of
                  Some fb_buf \<Rightarrow> Inr (fb_buf, s\<lparr>pq_shared := Some fb, pq_shared_fallback := None\<rparr>)
                | None \<Rightarrow> Inl (Bail ''decrypt error: AEAD failed with both primary and fallback PQ keys''))
           | None \<Rightarrow> Inl (Bail ''decrypt error: AEAD failed'')))"

definition SessionInfo_decrypt :: "crypto \<Rightarrow> instant \<Rightarrow> SessionInfo \<Rightarrow> bytes \<Rightarrow> bytes result \<times> SessionInfo" where
  "SessionInfo_decrypt C now s ciphertext =
     (if length ciphertext < 32 + 8 + 16 then (Inl (Bail ''ciphertext too short''), s) else
      let sender_x_pub = take 32 ciphertext;
          seq = from_le (take 8 (drop 32 ciphertext));
          (x25519_shared, s) = dh_shared C s sender_x_pub;
          nonce = packet_nonce seq in
      case replay_check (remote_seq_high s) (remote_seq_window s) seq of
        Inl e \<Rightarrow> (Inl e, s)
      | Inr _ \<Rightarrow>
          (case open_with_fallback C s x25519_shared nonce sender_x_pub (drop 40 ciphertext) of
             Inl e \<Rightarrow> (Inl e, s)
           | Inr (buf, s) \<Rightarrow>
               (let (high, win) = replay_update (remote_seq_high s) (remote_seq_window s) seq in
                (Inr buf, s\<lparr>remote_seq_window := win, remote_seq_high := high,
                             remote_x25519_pub := sender_x_pub, last_used := now\<rparr>))))"

section \<open>The memoised secret\<close>

text \<open>The cache holds what a recomputation would give, and the public key belongs to the private one.\<close>

definition dh_inv :: "crypto \<Rightarrow> SessionInfo \<Rightarrow> bool" where
  "dh_inv C s \<longleftrightarrow> local_x25519_pub s = x25519_pub_of C (local_x25519_priv s) \<and>
     (case cached_dh s of None \<Rightarrow> True
      | Some c \<Rightarrow> cd_local_fp c = local_x25519_pub s \<longrightarrow>
                   cd_shared c = x25519_dh C (local_x25519_priv s) (cd_remote_fp c))"

lemma dh_inv_new: "dh_inv C (SessionInfo_new C now e p r)"
  by (simp add: dh_inv_def SessionInfo_new_def)

lemma dh_shared_correct:
  assumes "dh_inv C s"
  shows "fst (dh_shared C s r) = x25519_dh C (local_x25519_priv s) r" "dh_inv C (snd (dh_shared C s r))"
  using assms by (auto simp: dh_shared_def dh_inv_def Let_def compute_key_def split: option.splits)

lemma dh_shared_frame [simp]: "(snd (dh_shared C s r))\<lparr>cached_dh := x\<rparr> = s\<lparr>cached_dh := x\<rparr>"
  by (auto simp: dh_shared_def Let_def split: option.splits)

lemma dh_shared_fields [simp]:
  "remote_ed_pub (snd (dh_shared C s r)) = remote_ed_pub s"
  "local_x25519_priv (snd (dh_shared C s r)) = local_x25519_priv s"
  "local_x25519_pub (snd (dh_shared C s r)) = local_x25519_pub s"
  "remote_x25519_pub (snd (dh_shared C s r)) = remote_x25519_pub s"
  "local_seq (snd (dh_shared C s r)) = local_seq s"
  "remote_seq_high (snd (dh_shared C s r)) = remote_seq_high s"
  "remote_seq_window (snd (dh_shared C s r)) = remote_seq_window s"
  "established (snd (dh_shared C s r)) = established s"
  "pq_shared (snd (dh_shared C s r)) = pq_shared s"
  "pq_shared_fallback (snd (dh_shared C s r)) = pq_shared_fallback s"
  by (auto simp: dh_shared_def Let_def split: option.splits)

lemma dh_inv_cong:
  "local_x25519_pub s' = local_x25519_pub s \<Longrightarrow> local_x25519_priv s' = local_x25519_priv s \<Longrightarrow>
     cached_dh s' = cached_dh s \<Longrightarrow> dh_inv C s' = dh_inv C s"
  by (simp add: dh_inv_def split: option.split)

section \<open>Encryption and decryption in terms of the packet key\<close>

text \<open>The key of a packet between a private and a public key, without the cache.\<close>

definition packet_key :: "crypto \<Rightarrow> bytes \<Rightarrow> bytes \<Rightarrow> bytes option \<Rightarrow> bytes" where
  "packet_key C priv pub pq = derive_packet_key C (x25519_dh C priv pub) pq"

lemma encrypt_eq:
  assumes "dh_inv C s"
  shows "SessionInfo_encrypt C now s p =
    (let t = snd (dh_shared C s (remote_x25519_pub s)) in
     case aead_seal C (packet_key C (local_x25519_priv s) (remote_x25519_pub s) (pq_shared s))
            (packet_nonce (local_seq s)) (local_x25519_pub s) p of
       None \<Rightarrow> (Inl (Bail ''encrypt error''), t)
     | Some buf \<Rightarrow> (Inr (local_x25519_pub s @ le_bytes 8 (local_seq s) @ buf),
                     t\<lparr>local_seq := local_seq s + 1, last_used := now\<rparr>))"
  using dh_shared_correct(1)[OF assms, of "remote_x25519_pub s"]
    dh_shared_fields[of C s "remote_x25519_pub s"]
  by (cases "dh_shared C s (remote_x25519_pub s)") (simp add: SessionInfo_encrypt_def packet_key_def split: option.split)

lemma encrypt_fields:
  assumes "SessionInfo_encrypt C now s p = (r, t)"
  shows "local_x25519_priv t = local_x25519_priv s" "local_x25519_pub t = local_x25519_pub s"
    "remote_x25519_pub t = remote_x25519_pub s" "remote_seq_high t = remote_seq_high s"
    "remote_seq_window t = remote_seq_window s" "pq_shared t = pq_shared s"
    "pq_shared_fallback t = pq_shared_fallback s" "established t = established s"
    "remote_ed_pub t = remote_ed_pub s" "cached_dh t = cached_dh (snd (dh_shared C s (remote_x25519_pub s)))"
    "local_seq t = (case r of Inl _ \<Rightarrow> local_seq s | Inr _ \<Rightarrow> local_seq s + 1)"
  using assms dh_shared_fields[of C s "remote_x25519_pub s"]
  by (cases "dh_shared C s (remote_x25519_pub s)";
      auto simp: SessionInfo_encrypt_def Let_def split: option.splits)+

lemma encrypt_dh_inv: "dh_inv C s \<Longrightarrow> SessionInfo_encrypt C now s p = (r, t) \<Longrightarrow> dh_inv C t"
  using dh_shared_correct(2)[of C s "remote_x25519_pub s"]
    dh_inv_cong[of t "snd (dh_shared C s (remote_x25519_pub s))" C] encrypt_fields[of C now s p r t]
  by simp

text \<open>A successful decryption passed the window and one of the two keys; it leaves the long-term fields alone.\<close>

lemma decrypt_ok_fields:
  assumes "SessionInfo_decrypt C now s ct = (Inr p, t)"
  shows "window_ok (remote_seq_high s, remote_seq_window s) (from_le (take 8 (drop 32 ct)))"
    "(remote_seq_high t, remote_seq_window t) =
       replay_update (remote_seq_high s) (remote_seq_window s) (from_le (take 8 (drop 32 ct)))"
    "remote_x25519_pub t = take 32 ct" "local_x25519_priv t = local_x25519_priv s"
    "local_x25519_pub t = local_x25519_pub s" "local_seq t = local_seq s" "56 \<le> length ct"
    "pq_shared_fallback t = None" "established t = established s" "remote_ed_pub t = remote_ed_pub s"
    "pq_shared t = pq_shared s \<or> pq_shared t = pq_shared_fallback s"
    "cached_dh t = cached_dh (snd (dh_shared C s (take 32 ct)))"
  using assms dh_shared_fields[of C s "take 32 ct"]
  by (cases "dh_shared C s (take 32 ct)";
      auto simp: SessionInfo_decrypt_def window_ok_def open_with_fallback_def Let_def
        split: if_splits sum.splits option.splits prod.splits)+

lemma decrypt_fail_fields:
  assumes "SessionInfo_decrypt C now s ct = (Inl e, t)"
  shows "t = s \<or> t = snd (dh_shared C s (take 32 ct))"
  using assms
  by (cases "dh_shared C s (take 32 ct)")
     (auto simp: SessionInfo_decrypt_def Let_def split: if_splits sum.splits prod.splits)

lemma decrypt_dh_inv: "dh_inv C s \<Longrightarrow> SessionInfo_decrypt C now s ct = (r, t) \<Longrightarrow> dh_inv C t"
  using dh_shared_correct(2)[of C s "take 32 ct"] decrypt_fail_fields[of C now s ct _ t]
    decrypt_ok_fields[of C now s ct _ t] dh_inv_cong[of t "snd (dh_shared C s (take 32 ct))" C]
  by (cases r) auto

lemma decrypt_primary:
  assumes "dh_inv C s" "56 \<le> length ct"
    and "window_ok (remote_seq_high s, remote_seq_window s) (from_le (take 8 (drop 32 ct)))"
    and "aead_open C (packet_key C (local_x25519_priv s) (take 32 ct) (pq_shared s))
           (packet_nonce (from_le (take 8 (drop 32 ct)))) (take 32 ct) (drop 40 ct) = Some p"
  obtains t where "SessionInfo_decrypt C now s ct = (Inr p, t)" "pq_shared t = pq_shared s"
  using assms dh_shared_correct(1)[OF assms(1), of "take 32 ct"] dh_shared_fields[of C s "take 32 ct"]
  by (cases "dh_shared C s (take 32 ct)";
      cases "replay_update (remote_seq_high s) (remote_seq_window s) (from_le (take 8 (drop 32 ct)))")
     (simp add: SessionInfo_decrypt_def window_ok_def open_with_fallback_def packet_key_def)

section \<open>Two linked sessions\<close>

text \<open>\<open>linked a b\<close>: what \<open>a\<close> sends, \<open>b\<close> can read: \<open>a\<close> encrypts to the key \<open>b\<close> holds, and both hold the same
  post-quantum secret.\<close>

definition linked :: "SessionInfo \<Rightarrow> SessionInfo \<Rightarrow> bool" where
  "linked a b \<longleftrightarrow> remote_x25519_pub a = local_x25519_pub b \<and> pq_shared a = pq_shared b"

definition window_of :: "SessionInfo \<Rightarrow> u64 \<times> u64" where
  "window_of s = (remote_seq_high s, remote_seq_window s)"

lemma encrypted_packet:
  assumes "dh_inv C a" "aead_correct C" "key_sizes C" and enc: "SessionInfo_encrypt C now a p = (Inr ct, a')"
  shows "take 32 ct = local_x25519_pub a" "from_le (take 8 (drop 32 ct)) = local_seq a" "56 \<le> length ct"
    "aead_open C (packet_key C (local_x25519_priv a) (remote_x25519_pub a) (pq_shared a))
       (packet_nonce (local_seq a)) (local_x25519_pub a) (drop 40 ct) = Some p"
proof -
  obtain buf where ct: "ct = local_x25519_pub a @ le_bytes 8 (local_seq a) @ buf"
    and buf: "aead_seal C (packet_key C (local_x25519_priv a) (remote_x25519_pub a) (pq_shared a))
       (packet_nonce (local_seq a)) (local_x25519_pub a) p = Some buf"
    using enc encrypt_eq[OF assms(1), of now p] by (auto simp: Let_def split: option.splits)
  have len: "length (local_x25519_pub a) = 32" using assms(1,3) by (simp add: dh_inv_def key_sizes_def)
  show "take 32 ct = local_x25519_pub a" "from_le (take 8 (drop 32 ct)) = local_seq a"
    using len by (simp_all add: ct from_le_le_bytes)
  show "56 \<le> length ct" using len buf assms(2) by (auto simp: ct aead_correct_def)
  show "aead_open C (packet_key C (local_x25519_priv a) (remote_x25519_pub a) (pq_shared a))
       (packet_nonce (local_seq a)) (local_x25519_pub a) (drop 40 ct) = Some p"
    using len buf assms(2) by (simp add: ct aead_correct_def)
qed

lemma packet_key_linked:
  "dh_commutes C \<Longrightarrow> dh_inv C a \<Longrightarrow> dh_inv C b \<Longrightarrow> linked a b \<Longrightarrow>
     packet_key C (local_x25519_priv b) (local_x25519_pub a) (pq_shared b) =
     packet_key C (local_x25519_priv a) (remote_x25519_pub a) (pq_shared a)"
  by (simp add: packet_key_def dh_inv_def linked_def dh_commutes_def)

lemma decrypt_encrypt:
  assumes C: "dh_commutes C" "aead_correct C" "key_sizes C"
    and inv: "dh_inv C a" "dh_inv C b" "linked a b"
    and enc: "SessionInfo_encrypt C now a p = (Inr ct, a')"
    and fresh: "window_ok (window_of b) (local_seq a)"
  shows "\<exists>b'. SessionInfo_decrypt C now' b ct = (Inr p, b') \<and> dh_inv C b' \<and> linked a' b' \<and>
    window_of b' = replay_update (remote_seq_high b) (remote_seq_window b) (local_seq a)"
proof -
  note ct = encrypted_packet[OF inv(1) C(2,3) enc]
  have "aead_open C (packet_key C (local_x25519_priv b) (take 32 ct) (pq_shared b))
           (packet_nonce (from_le (take 8 (drop 32 ct)))) (take 32 ct) (drop 40 ct) = Some p"
    using ct packet_key_linked[OF C(1) inv] by simp
  moreover have "window_ok (remote_seq_high b, remote_seq_window b) (from_le (take 8 (drop 32 ct)))"
    using fresh ct by (simp add: window_of_def)
  ultimately obtain b' where dec: "SessionInfo_decrypt C now' b ct = (Inr p, b')" and pq: "pq_shared b' = pq_shared b"
    using decrypt_primary[OF inv(2) ct(3)] by blast
  then show ?thesis
    using decrypt_ok_fields[OF dec] encrypt_fields[OF enc] decrypt_dh_inv[OF inv(2) dec] inv(3) ct(2)
    by (simp add: linked_def window_of_def)
qed

text \<open>A sender that encrypts a list of payloads in a row, and a receiver that decrypts a list of packets.\<close>

fun encrypt_all :: "crypto \<Rightarrow> instant \<Rightarrow> SessionInfo \<Rightarrow> bytes list \<Rightarrow> bytes result list" where
  "encrypt_all C now s [] = []"
| "encrypt_all C now s (p # ps) =
     (let (r, s') = SessionInfo_encrypt C now s p in r # encrypt_all C now s' ps)"

fun decrypt_all :: "crypto \<Rightarrow> instant \<Rightarrow> SessionInfo \<Rightarrow> bytes list \<Rightarrow> bytes result list" where
  "decrypt_all C now s [] = []"
| "decrypt_all C now s (ct # cts) =
     (let (r, s') = SessionInfo_decrypt C now s ct in r # decrypt_all C now s' cts)"

text \<open>Packet \<open>i\<close> of a sender is the encryption in a state that differs from the first only in the sequence
  number and bookkeeping.\<close>

lemma encrypt_all_nth:
  assumes "dh_inv C a" "i < length ps" "encrypt_all C now a ps ! i = Inr ct"
    and "\<forall>j < i. \<exists>c. encrypt_all C now a ps ! j = Inr c"
  shows "\<exists>ai ai'. SessionInfo_encrypt C now ai (ps ! i) = (Inr ct, ai') \<and> dh_inv C ai \<and>
     local_seq ai = local_seq a + of_nat i \<and> local_x25519_pub ai = local_x25519_pub a \<and>
     remote_x25519_pub ai = remote_x25519_pub a \<and> pq_shared ai = pq_shared a"
  using assms
proof (induction ps arbitrary: a i)
  case (Cons p ps)
  obtain r a' where enc: "SessionInfo_encrypt C now a p = (r, a')" by force
  show ?case
  proof (cases i)
    case 0
    then show ?thesis using Cons.prems enc by auto
  next
    case (Suc k)
    have "\<exists>c. r = Inr c" using Cons.prems(4)[rule_format, of 0] Suc enc by simp
    then obtain c where r: "r = Inr c" ..
    have "\<exists>ai ai'. SessionInfo_encrypt C now ai (ps ! k) = (Inr ct, ai') \<and> dh_inv C ai \<and>
       local_seq ai = local_seq a' + of_nat k \<and> local_x25519_pub ai = local_x25519_pub a' \<and>
       remote_x25519_pub ai = remote_x25519_pub a' \<and> pq_shared ai = pq_shared a'"
    proof (rule Cons.IH)
      show "dh_inv C a'" using encrypt_dh_inv[OF Cons.prems(1) enc] .
      show "k < length ps" "encrypt_all C now a' ps ! k = Inr ct" using Cons.prems Suc enc by simp_all
      show "\<forall>j < k. \<exists>c. encrypt_all C now a' ps ! j = Inr c"
        using Cons.prems(4)[rule_format, of "Suc j" for j] Suc enc by simp
    qed
    then show ?thesis using encrypt_fields[OF enc] Suc r by (simp add: add.assoc)
  qed
qed simp

lemma encrypt_all_length: "length (encrypt_all C now a ps) = length ps"
  by (induction ps arbitrary: a) (auto split: prod.split)

lemma unat_seq_add: "unat (n :: u64) + i < 2 ^ 64 \<Longrightarrow> unat (n + of_nat i) = unat n + i"
  by (subst unat_add_lem[THEN iffD1]) (simp_all add: unat_of_nat_len)

lemma deliver_reordered:
  assumes C: "dh_commutes C" "aead_correct C" "key_sizes C"
    and a: "dh_inv C a" "encrypt_all C now a ps = map Inr cts" "unat (local_seq a) + length ps < 2 ^ 64"
    and b: "dh_inv C b" "linked a b" "window_rel (window_of b) A"
    and order: "\<forall>i \<in> set ks. i < length ps" "distinct ks" "\<forall>i \<in> set ks. unat (local_seq a) + i \<notin> A"
      "\<forall>k < length ks. (\<forall>x \<in> A. x < unat (local_seq a) + ks ! k + 64) \<and> (\<forall>j < k. ks ! j < ks ! k + 64)"
  shows "decrypt_all C now' b (map ((!) cts) ks) = map (\<lambda>i. Inr (ps ! i)) ks"
  using b order
proof (induction ks arbitrary: b A)
  case (Cons i ks)
  have len: "length cts = length ps"
    using a(2) by (metis length_map encrypt_all_length)
  have i: "i < length ps" using Cons.prems(4) by simp
  have "encrypt_all C now a ps ! j = Inr (cts ! j)" if "j \<le> i" for j using a(2) i len that by simp
  then obtain ai ai' where enc: "SessionInfo_encrypt C now ai (ps ! i) = (Inr (cts ! i), ai')"
    and ai: "dh_inv C ai" "local_seq ai = local_seq a + of_nat i" "local_x25519_pub ai = local_x25519_pub a"
      "remote_x25519_pub ai = remote_x25519_pub a" "pq_shared ai = pq_shared a"
    using encrypt_all_nth[OF a(1) i, of now "cts ! i"] by force
  have seq: "unat (local_seq ai) = unat (local_seq a) + i"
    using a(3) i by (simp add: ai unat_seq_add)
  have ok: "window_ok (window_of b) (local_seq ai)"
    using Cons.prems(3,6) Cons.prems(7)[rule_format, of 0] by (simp add: rw.check_iff seq)
  have "linked ai b" using Cons.prems(2) ai by (simp add: linked_def)
  then obtain b' where dec: "SessionInfo_decrypt C now' b (cts ! i) = (Inr (ps ! i), b')" and b': "dh_inv C b'"
      "linked ai' b'" "window_of b' = replay_update (remote_seq_high b) (remote_seq_window b) (local_seq ai)"
    using decrypt_encrypt[OF C ai(1) Cons.prems(1) _ enc ok, of now'] by blast
  have "linked a b'"
    using b'(2) encrypt_fields[OF enc] ai by (simp add: linked_def)
  moreover have "window_rel (window_of b') (insert (unat (local_seq a) + i) A)"
    using rw.rel_commit[OF Cons.prems(3) ok] b'(3) seq by (simp add: window_of_def)
  ultimately have "decrypt_all C now' b' (map ((!) cts) ks) = map (\<lambda>i. Inr (ps ! i)) ks"
  proof (rule Cons.IH[OF b'(1)])
    show "\<forall>i \<in> set ks. i < length ps" "distinct ks" using Cons.prems by simp_all
    show "\<forall>j \<in> set ks. unat (local_seq a) + j \<notin> insert (unat (local_seq a) + i) A"
      using Cons.prems(5,6) by auto
    show "\<forall>k < length ks. (\<forall>x \<in> insert (unat (local_seq a) + i) A. x < unat (local_seq a) + ks ! k + 64) \<and>
            (\<forall>j < k. ks ! j < ks ! k + 64)"
      using Cons.prems(7)[rule_format, of "Suc k" for k] by fastforce
  qed
  then show ?case using dec by simp
qed simp

section \<open>Every history of a session\<close>

text \<open>\<open>session_run C s qs t\<close>: from \<open>s\<close> the session reaches \<open>t\<close> by any interleaving of its operations, and \<open>qs\<close>
  are the sequence numbers of the packets it accepted, in order. \<open>rekey\<close> is what a handshake message does to
  an existing session, \<open>resend\<close> what a retransmission does.\<close>

inductive session_run :: "crypto \<Rightarrow> SessionInfo \<Rightarrow> u64 list \<Rightarrow> SessionInfo \<Rightarrow> bool" for C where
  start: "session_run C s [] s"
| encrypt: "session_run C s qs t \<Longrightarrow> SessionInfo_encrypt C now t p = (r, u) \<Longrightarrow> session_run C s qs u"
| accept: "session_run C s qs t \<Longrightarrow> SessionInfo_decrypt C now t ct = (Inr p, u) \<Longrightarrow>
    session_run C s (qs @ [from_le (take 8 (drop 32 ct))]) u"
| reject: "session_run C s qs t \<Longrightarrow> SessionInfo_decrypt C now t ct = (Inl e, u) \<Longrightarrow> session_run C s qs u"
| rotate: "session_run C s qs t \<Longrightarrow> session_run C s qs (rotate_local_key C k t)"
| rekey: "session_run C s qs t \<Longrightarrow>
    session_run C s qs (t\<lparr>remote_x25519_pub := x, established := True, pq_shared := q, pq_shared_fallback := f\<rparr>)"
| resend: "session_run C s qs t \<Longrightarrow> session_run C s qs (t\<lparr>last_init_sent := n, init_retx_count := c\<rparr>)"

lemma window_of_update [simp]:
  "window_of (rotate_local_key C k t) = window_of t"
  "window_of (t\<lparr>remote_x25519_pub := x, established := True, pq_shared := q, pq_shared_fallback := f\<rparr>) = window_of t"
  "window_of (t\<lparr>last_init_sent := n, init_retx_count := c\<rparr>) = window_of t"
  by (simp_all add: window_of_def rotate_local_key_def)

lemma session_run_window:
  "session_run C s qs t \<Longrightarrow> window_rel (window_of s) A \<Longrightarrow>
     window_rel (window_of t) (unat ` set qs \<union> A) \<and> distinct qs \<and> unat ` set qs \<inter> A = {}"
proof (induction rule: session_run.induct)
  case (encrypt s qs t now p r u)
  then show ?case using encrypt_fields[of C now t p r u] by (simp add: window_of_def)
next
  case (accept s qs t now ct p u)
  let ?q = "from_le (take 8 (drop 32 ct)) :: u64"
  note f = decrypt_ok_fields(1,2)[OF accept(2)]
  have rel: "window_rel (window_of t) (unat ` set qs \<union> A)" using accept by blast
  have ok: "window_ok (window_of t) ?q" using f(1) by (simp add: window_of_def)
  have "window_rel (window_of u) (insert (unat ?q) (unat ` set qs \<union> A))"
    using rw.rel_commit[OF rel ok] f(2) by (simp add: window_of_def)
  moreover have "unat ?q \<notin> unat ` set qs \<union> A" using rw.check_iff[OF rel] ok by blast
  ultimately show ?case using accept by auto
next
  case (reject s qs t now ct e u)
  have "window_of u = window_of t"
    using decrypt_fail_fields[OF reject(2)] dh_shared_fields[of C t "take 32 ct"] by (auto simp: window_of_def)
  then show ?case using reject by simp
qed simp_all

section \<open>Both directions use one key and one nonce sequence\<close>

lemma linked_same_key:
  assumes "dh_commutes C" "dh_inv C a" "dh_inv C b" "linked a b" "linked b a"
  shows "packet_key C (local_x25519_priv a) (remote_x25519_pub a) (pq_shared a) =
         packet_key C (local_x25519_priv b) (remote_x25519_pub b) (pq_shared b)"
  using packet_key_linked[OF assms(1-4)] assms(5) by (simp add: linked_def)

end
