(* ===== verification/Session_Manager.thy ===== *)
theory Session_Manager
  imports Session_Info
begin

text \<open>
  \<^verbatim>\<open>SessionManager\<close> of \<^verbatim>\<open>src/src/session.rs\<close>: the session table, the rotating ML-KEM key pair, the per-source
  limit on inbound handshakes, the pinned ML-DSA identities, both handshake handlers and the handshake
  retransmission. Randomness and clock readings are arguments. The field \<^verbatim>\<open>_pq_pending\<close>, which nothing reads or
  writes, is left out; a session handle is the session itself, because a handle only adds the per-peer lock.
\<close>

unbundle bit_operations_syntax

section \<open>The ML-KEM key pair\<close>

record PqKeys =
  pk_dk :: bytes
  pk_ek_bytes :: bytes
  pk_prev_dk :: "bytes option"
  pk_rotated_at :: instant

definition ML_KEM_KEY_ROTATION_MS :: u64 where "ML_KEM_KEY_ROTATION_MS = 24 * 60 * 60 * 1000"
definition ML_KEM_KEY_OVERLAP_MS :: u64 where "ML_KEM_KEY_OVERLAP_MS = 60000"

definition saturating_mul :: "u64 \<Rightarrow> u64 \<Rightarrow> u64" where
  "saturating_mul a b = (if unat a * unat b < 2 ^ 64 then a * b else - 1)"

text \<open>\<open>accel\<close> is the test knob \<^verbatim>\<open>accelerate_rotations_secs()\<close>.\<close>

definition effective_ml_kem_rotation_ms :: "u64 option \<Rightarrow> u64" where
  "effective_ml_kem_rotation_ms accel =
     (case accel of Some secs \<Rightarrow> saturating_mul secs 1000 | None \<Rightarrow> ML_KEM_KEY_ROTATION_MS)"

definition effective_ml_kem_overlap_ms :: "u64 option \<Rightarrow> u64" where
  "effective_ml_kem_overlap_ms accel =
     (case accel of Some secs \<Rightarrow> max (saturating_mul secs 250) 1000 | None \<Rightarrow> ML_KEM_KEY_OVERLAP_MS)"

definition PqKeys_generate :: "crypto \<Rightarrow> bytes \<Rightarrow> instant \<Rightarrow> PqKeys" where
  "PqKeys_generate C rnd now =
     (let (dk, ek) = kem_keypair C rnd in
      \<lparr>pk_dk = dk, pk_ek_bytes = ek, pk_prev_dk = None, pk_rotated_at = now\<rparr>)"

definition PqKeys_decap :: "crypto \<Rightarrow> PqKeys \<Rightarrow> bytes \<Rightarrow> bytes" where
  "PqKeys_decap C k ct = kem_decap C (pk_dk k) ct"

definition PqKeys_decap_prev :: "crypto \<Rightarrow> PqKeys \<Rightarrow> bytes \<Rightarrow> bytes option" where
  "PqKeys_decap_prev C k ct = map_option (\<lambda>prev. kem_decap C prev ct) (pk_prev_dk k)"

definition rotate_if_due :: "crypto \<Rightarrow> u64 option \<Rightarrow> bytes \<Rightarrow> instant \<Rightarrow> PqKeys \<Rightarrow> bool \<times> PqKeys" where
  "rotate_if_due C accel rnd now k =
     (let elapsed_ms = of_nat (as_millis (duration_since now (pk_rotated_at k))) :: u64;
          (changed, k) = (if pk_prev_dk k \<noteq> None \<and> elapsed_ms > effective_ml_kem_overlap_ms accel
                          then (True, k\<lparr>pk_prev_dk := None\<rparr>) else (False, k)) in
      if elapsed_ms > effective_ml_kem_rotation_ms accel then
        let (new_dk, new_ek) = kem_keypair C rnd in
        (True, k\<lparr>pk_dk := new_dk, pk_prev_dk := Some (pk_dk k), pk_ek_bytes := new_ek, pk_rotated_at := now\<rparr>)
      else (changed, k))"

definition pq_encapsulate :: "crypto \<Rightarrow> bytes \<Rightarrow> bytes \<Rightarrow> (bytes \<times> bytes) result" where
  "pq_encapsulate C rnd ek =
     (case kem_encap C rnd ek of
        None \<Rightarrow> Inl (Bail ''ml-kem: invalid encapsulation key'')
      | Some r \<Rightarrow> Inr r)"

section \<open>The manager\<close>

record SessionManager =
  sessions :: "(bytes \<times> SessionInfo) list"
  our_signing_key :: bytes
  pq_keys :: PqKeys
  init_rate_log :: "(bytes \<times> instant list) list"
  own_coord :: bytes
  pq_signer :: bytes
  pq_pins :: "(bytes \<times> bytes) list"

definition INIT_RATE_WINDOW :: int where "INIT_RATE_WINDOW = 10 * 1000000000"
definition MAX_INITS_PER_WINDOW :: nat where "MAX_INITS_PER_WINDOW = 4"
definition MAX_INIT_RATE_LOG_ENTRIES :: nat where "MAX_INIT_RATE_LOG_ENTRIES = 4096"
definition MAX_PQ_PINS :: nat where "MAX_PQ_PINS = 8192"

definition SessionManager_new :: "crypto \<Rightarrow> bytes \<Rightarrow> bytes \<Rightarrow> instant \<Rightarrow> bytes \<Rightarrow> SessionManager" where
  "SessionManager_new C kem_rnd dsa_seed now signing_key =
     \<lparr>sessions = [], our_signing_key = signing_key, pq_keys = PqKeys_generate C kem_rnd now,
      init_rate_log = [], own_coord = replicate 16 0, pq_signer = dsa_seed, pq_pins = []\<rparr>"

definition set_own_coord :: "bytes \<Rightarrow> SessionManager \<Rightarrow> SessionManager" where
  "set_own_coord coord m = m\<lparr>own_coord := coord\<rparr>"

definition set_pq_signer :: "bytes \<Rightarrow> SessionManager \<Rightarrow> SessionManager" where
  "set_pq_signer signer m = m\<lparr>pq_signer := signer\<rparr>"

definition maybe_rotate_pq_keys :: "crypto \<Rightarrow> u64 option \<Rightarrow> bytes \<Rightarrow> instant \<Rightarrow> SessionManager \<Rightarrow> bool \<times> SessionManager" where
  "maybe_rotate_pq_keys C accel rnd now m =
     (let (changed, k) = rotate_if_due C accel rnd now (pq_keys m) in (changed, m\<lparr>pq_keys := k\<rparr>))"

text \<open>Eviction takes the first key of the table's iteration order.\<close>

definition pq_verify_and_pin ::
    "crypto \<Rightarrow> bytes \<Rightarrow> bytes \<Rightarrow> bytes \<Rightarrow> bytes \<Rightarrow> SessionManager \<Rightarrow> unit result \<times> SessionManager" where
  "pq_verify_and_pin C ed_pub ml_dsa_pub msg sig m =
     (if (case map_of (pq_pins m) ed_pub of Some pinned \<Rightarrow> pinned \<noteq> ml_dsa_pub | None \<Rightarrow> False)
      then (Inl (Bail ''PQ key mismatch for known identity''), m)
      else if \<not> dsa_verify C ml_dsa_pub msg sig then (Inl (Bail ''invalid ML-DSA signature''), m)
      else if map_of (pq_pins m) ed_pub \<noteq> None then (Inr (), m)
      else let pins = (if length (pq_pins m) \<ge> MAX_PQ_PINS
                       then (case pq_pins m of [] \<Rightarrow> [] | (victim, _) # _ \<Rightarrow> AList.delete victim (pq_pins m))
                       else pq_pins m) in
           (Inr (), m\<lparr>pq_pins := AList.update ed_pub ml_dsa_pub pins\<rparr>))"

text \<open>Room for a new source: with a full log, an entry whose window is empty gives way, if there is one.\<close>

definition rate_room :: "instant \<Rightarrow> bytes \<Rightarrow> (bytes \<times> instant list) list \<Rightarrow> (bytes \<times> instant list) list option" where
  "rate_room cutoff source log =
     (if map_of log source = None \<and> length log \<ge> MAX_INIT_RATE_LOG_ENTRIES
      then (case find (\<lambda>(_, ts). list_all (\<lambda>t. t < cutoff) ts) log of
              Some (v, _) \<Rightarrow> Some (AList.delete v log)
            | None \<Rightarrow> None)
      else Some log)"

definition rate_limited :: "instant \<Rightarrow> bytes \<Rightarrow> SessionManager \<Rightarrow> bool \<times> SessionManager" where
  "rate_limited now source m =
     (let cutoff = now - INIT_RATE_WINDOW in
      case rate_room cutoff source (init_rate_log m) of
        None \<Rightarrow> (True, m)
      | Some log \<Rightarrow>
          (let entry = filter (\<lambda>t. t \<ge> cutoff) (case map_of log source of Some ts \<Rightarrow> ts | None \<Rightarrow> []) in
           if length entry \<ge> MAX_INITS_PER_WINDOW
           then (True, m\<lparr>init_rate_log := AList.update source entry log\<rparr>)
           else (False, m\<lparr>init_rate_log := AList.update source (entry @ [now]) log\<rparr>)))"

section \<open>Handshake\<close>

text \<open>What a verified Init or Ack does to a session that exists: the convergence rule of crossing handshakes.
  Keys compare as byte strings.\<close>

definition init_update :: "bytes \<Rightarrow> bytes \<Rightarrow> bytes \<Rightarrow> bytes \<Rightarrow> SessionInfo \<Rightarrow> SessionInfo" where
  "init_update our_pub ed_pub x25519 secret existing =
     (let existing = existing\<lparr>remote_x25519_pub := x25519, established := True\<rparr>;
          adopt = (pq_shared existing = None \<or> ed_pub < our_pub) in
      if adopt then existing\<lparr>pq_shared := Some secret, pq_shared_fallback := None\<rparr> else existing)"

definition ack_update :: "bytes \<Rightarrow> bytes \<Rightarrow> bytes \<Rightarrow> bytes \<Rightarrow> bytes option \<Rightarrow> SessionInfo \<Rightarrow> SessionInfo" where
  "ack_update our_pub ed_pub x25519 secret fallback info =
     (let info = info\<lparr>remote_x25519_pub := x25519, established := True\<rparr>;
          adopt = (pq_shared info = None \<or> our_pub < ed_pub) in
      if adopt then info\<lparr>pq_shared := Some secret, pq_shared_fallback := fallback\<rparr> else info)"

text \<open>\<open>now_ms\<close> is the wall clock when the message is verified, \<open>ack_ms\<close> when the answer is signed; \<open>x_rnd\<close> is the
  private key drawn for a new session, \<open>enc_rnd\<close> the encapsulation randomness.\<close>

definition handle_init ::
    "crypto \<Rightarrow> u64 \<Rightarrow> u64 \<Rightarrow> instant \<Rightarrow> bytes \<Rightarrow> bytes \<Rightarrow> bytes \<Rightarrow> SessionManager \<Rightarrow> bytes result \<times> SessionManager" where
  "handle_init C now_ms ack_ms now x_rnd enc_rnd data m =
     (case SessionInit_decode data of Inl e \<Rightarrow> (Inl e, m) | Inr init \<Rightarrow>
      let (limited, m) = rate_limited now (si_ed_pub init) m in
      if limited then (Inl (Bail ''handle_init: source rate-limited''), m) else
      let our_pub = ed_pub_of C (our_signing_key m) in
      case SessionInit_verify C now_ms init our_pub of Inl e \<Rightarrow> (Inl e, m) | Inr _ \<Rightarrow>
      let (pinned, m) = pq_verify_and_pin C (si_ed_pub init) (si_ml_dsa_pub init)
                          (SessionInit_signed_bytes init) (si_ml_dsa_sig init) m in
      case pinned of Inl e \<Rightarrow> (Inl e, m) | Inr _ \<Rightarrow>
      case pq_encapsulate C enc_rnd (si_ml_kem_pub init) of Inl e \<Rightarrow> (Inl e, m) | Inr (ml_kem_ct, secret) \<Rightarrow>
      case map_of (sessions m) (si_ed_pub init) of
        Some existing \<Rightarrow>
          let existing = init_update our_pub (si_ed_pub init) (si_x25519_pub init) secret existing;
              local_pub = x25519_pub_of C (local_x25519_priv existing) in
          (Inr (SessionAck_encode (SessionAck_create C ack_ms (our_signing_key m) local_pub (si_ed_pub init)
                  ml_kem_ct (own_coord m) (pq_signer m))),
           m\<lparr>sessions := AList.update (si_ed_pub init) existing (sessions m)\<rparr>)
      | None \<Rightarrow>
          let local_pub = x25519_pub_of C x_rnd;
              info = (SessionInfo_new C now (si_ed_pub init) x_rnd (si_x25519_pub init))
                       \<lparr>established := True, pq_shared := Some secret\<rparr> in
          (Inr (SessionAck_encode (SessionAck_create C ack_ms (our_signing_key m) local_pub (si_ed_pub init)
                  ml_kem_ct (own_coord m) (pq_signer m))),
           m\<lparr>sessions := AList.update (si_ed_pub init) info (sessions m)\<rparr>))"

definition handle_ack :: "crypto \<Rightarrow> u64 \<Rightarrow> bytes \<Rightarrow> SessionManager \<Rightarrow> unit result \<times> SessionManager" where
  "handle_ack C now_ms data m =
     (case SessionAck_decode data of Inl e \<Rightarrow> (Inl e, m) | Inr ack \<Rightarrow>
      let our_pub = ed_pub_of C (our_signing_key m) in
      case SessionAck_verify C now_ms ack our_pub of Inl e \<Rightarrow> (Inl e, m) | Inr _ \<Rightarrow>
      let (pinned, m) = pq_verify_and_pin C (sk_ed_pub ack) (sk_ml_dsa_pub ack)
                          (SessionAck_signed_bytes ack) (sk_ml_dsa_sig ack) m in
      case pinned of Inl e \<Rightarrow> (Inl e, m) | Inr _ \<Rightarrow>
      let secret = PqKeys_decap C (pq_keys m) (sk_ml_kem_ct ack);
          fallback = PqKeys_decap_prev C (pq_keys m) (sk_ml_kem_ct ack) in
      case map_of (sessions m) (sk_ed_pub ack) of
        Some info \<Rightarrow>
          let info = ack_update our_pub (sk_ed_pub ack) (sk_x25519_pub ack) secret fallback info in
          (Inr (), m\<lparr>sessions := AList.update (sk_ed_pub ack) info (sessions m)\<rparr>)
      | None \<Rightarrow> (Inl (Bail ''unsolicited SessionAck''), m))"

definition initiate :: "crypto \<Rightarrow> u64 \<Rightarrow> instant \<Rightarrow> bytes \<Rightarrow> bytes \<Rightarrow> SessionManager \<Rightarrow> bytes \<times> SessionManager" where
  "initiate C now_ms now x_rnd remote m =
     (let local_pub = x25519_pub_of C x_rnd;
          info = SessionInfo_new C now remote x_rnd (replicate 32 0) in
      (SessionInit_encode (SessionInit_create C now_ms (our_signing_key m) local_pub remote
         (pk_ek_bytes (pq_keys m)) (own_coord m) (pq_signer m)),
       m\<lparr>sessions := AList.update remote info (sessions m)\<rparr>))"

section \<open>Use of the table\<close>

definition SessionManager_encrypt :: "crypto \<Rightarrow> instant \<Rightarrow> bytes \<Rightarrow> bytes \<Rightarrow> SessionManager \<Rightarrow> bytes result \<times> SessionManager" where
  "SessionManager_encrypt C now remote plaintext m =
     (case map_of (sessions m) remote of
        None \<Rightarrow> (Inl (Bail ''no session''), m)
      | Some info \<Rightarrow>
          if \<not> established info then (Inl (Bail ''session not established''), m)
          else let (r, info) = SessionInfo_encrypt C now info plaintext in
               (r, m\<lparr>sessions := AList.update remote info (sessions m)\<rparr>))"

definition SessionManager_decrypt :: "crypto \<Rightarrow> instant \<Rightarrow> bytes \<Rightarrow> bytes \<Rightarrow> SessionManager \<Rightarrow> bytes result \<times> SessionManager" where
  "SessionManager_decrypt C now remote ciphertext m =
     (case map_of (sessions m) remote of
        None \<Rightarrow> (Inl (Bail ''no session''), m)
      | Some info \<Rightarrow>
          if \<not> established info then (Inl (Bail ''session not established''), m)
          else let (r, info) = SessionInfo_decrypt C now info ciphertext in
               (r, m\<lparr>sessions := AList.update remote info (sessions m)\<rparr>))"

definition is_established :: "bytes \<Rightarrow> SessionManager \<Rightarrow> bool" where
  "is_established remote m = (case map_of (sessions m) remote of Some s \<Rightarrow> established s | None \<Rightarrow> False)"

definition SessionManager_remove :: "bytes \<Rightarrow> SessionManager \<Rightarrow> SessionManager" where
  "SessionManager_remove remote m = m\<lparr>sessions := AList.delete remote (sessions m)\<rparr>"

definition get_or_initiate_bytes ::
    "crypto \<Rightarrow> u64 \<Rightarrow> instant \<Rightarrow> bytes \<Rightarrow> bytes \<Rightarrow> SessionManager \<Rightarrow> bytes option \<times> SessionManager" where
  "get_or_initiate_bytes C now_ms now x_rnd remote m =
     (if map_of (sessions m) remote \<noteq> None then (None, m)
      else let (init, m) = initiate C now_ms now x_rnd remote m in (Some init, m))"

definition HANDSHAKE_RETX_BASE_MS :: u64 where "HANDSHAKE_RETX_BASE_MS = 1000"
definition HANDSHAKE_RETX_MAX_MS :: u64 where "HANDSHAKE_RETX_MAX_MS = 30000"

definition retx_interval :: "u32 \<Rightarrow> u64" where
  "retx_interval count = min (push_bit (unat (min count 5)) HANDSHAKE_RETX_BASE_MS) HANDSHAKE_RETX_MAX_MS"

text \<open>One round of the loop over the table: the possibly updated entry and the message to send.\<close>

definition retx_entry ::
    "crypto \<Rightarrow> u64 \<Rightarrow> instant \<Rightarrow> SessionManager \<Rightarrow> bytes \<times> SessionInfo \<Rightarrow> (bytes \<times> SessionInfo) \<times> (bytes \<times> bytes) option" where
  "retx_entry C now_ms now m = (\<lambda>(ed_pub, info).
     if established info then ((ed_pub, info), None)
     else if (of_nat (as_millis (duration_since now (last_init_sent info))) :: u64) < retx_interval (init_retx_count info)
     then ((ed_pub, info), None)
     else ((ed_pub, info\<lparr>last_init_sent := now,
              init_retx_count := (if init_retx_count info = - 1 then - 1 else init_retx_count info + 1)\<rparr>),
           Some (ed_pub, SessionInit_encode (SessionInit_create C now_ms (our_signing_key m) (local_x25519_pub info)
                   ed_pub (pk_ek_bytes (pq_keys m)) (own_coord m) (pq_signer m)))))"

definition pending_handshake_inits ::
    "crypto \<Rightarrow> u64 \<Rightarrow> instant \<Rightarrow> SessionManager \<Rightarrow> (bytes \<times> bytes) list \<times> SessionManager" where
  "pending_handshake_inits C now_ms now m =
     (let rs = map (retx_entry C now_ms now m) (sessions m) in
      (List.map_filter snd rs, m\<lparr>sessions := map fst rs\<rparr>))"

section \<open>Inbound handshakes are rate limited\<close>

definition rate_entry :: "SessionManager \<Rightarrow> bytes \<Rightarrow> instant list" where
  "rate_entry m src = (case map_of (init_rate_log m) src of Some ts \<Rightarrow> ts | None \<Rightarrow> [])"

text \<open>The calls a sequence of attempts gets through, with their times.\<close>

fun admitted :: "SessionManager \<Rightarrow> (instant \<times> bytes) list \<Rightarrow> (instant \<times> bytes) list" where
  "admitted m [] = []"
| "admitted m ((now, src) # calls) =
     (let (limited, m') = rate_limited now src m in
      if limited then admitted m' calls else (now, src) # admitted m' calls)"

definition times_of :: "bytes \<Rightarrow> (instant \<times> bytes) list \<Rightarrow> instant list" where
  "times_of src H = map fst (filter (\<lambda>c. snd c = src) H)"

text \<open>The log remembers every admitted attempt that is still inside the window.\<close>

definition rate_inv :: "SessionManager \<Rightarrow> (instant \<times> bytes) list \<Rightarrow> instant \<Rightarrow> bool" where
  "rate_inv m H T \<longleftrightarrow>
     (\<forall>src. filter (\<lambda>t. T - INIT_RATE_WINDOW \<le> t) (times_of src H) =
            filter (\<lambda>t. T - INIT_RATE_WINDOW \<le> t) (rate_entry m src))"

lemma rate_inv_mono:
  assumes "rate_inv m H T" "T \<le> T'"
  shows "rate_inv m H T'"
proof -
  have *: "filter (\<lambda>t. T' - INIT_RATE_WINDOW \<le> t) xs =
      filter (\<lambda>t. T' - INIT_RATE_WINDOW \<le> t) (filter (\<lambda>t. T - INIT_RATE_WINDOW \<le> t) xs)" for xs
    using assms(2) by (auto intro!: filter_cong)
  show ?thesis unfolding rate_inv_def
    by (intro allI, subst (1 2) *) (use assms(1) in \<open>simp add: rate_inv_def\<close>)
qed

text \<open>Evicting an entry whose times have all left the window changes nothing inside the window.\<close>

lemma rate_room_keeps:
  assumes "distinct (map fst log)" and "rate_room cutoff src log = Some log'"
  shows "filter (\<lambda>t. cutoff \<le> t) (case map_of log' s of Some ts \<Rightarrow> ts | None \<Rightarrow> []) =
         filter (\<lambda>t. cutoff \<le> t) (case map_of log s of Some ts \<Rightarrow> ts | None \<Rightarrow> [])"
    and "distinct (map fst log')"
proof -
  have "filter (\<lambda>t. cutoff \<le> t) (case map_of (AList.delete v log) s of Some ts \<Rightarrow> ts | None \<Rightarrow> []) =
        filter (\<lambda>t. cutoff \<le> t) (case map_of log s of Some ts \<Rightarrow> ts | None \<Rightarrow> [])"
    if "find (\<lambda>(_, ts). list_all (\<lambda>t. t < cutoff) ts) log = Some (v, ts)" for v ts
  proof -
    obtain i where i: "i < length log" "log ! i = (v, ts)" "list_all (\<lambda>t. t < cutoff) ts"
      using \<open>find _ log = _\<close> by (auto simp: find_Some_iff)
    then have "map_of log v = Some ts" using assms(1) by (metis map_of_is_SomeI nth_mem)
    moreover have "filter (\<lambda>t. cutoff \<le> t) ts = []"
      using i(3) by (auto simp: filter_empty_conv list_all_iff not_le)
    ultimately show ?thesis by simp
  qed
  then show "filter (\<lambda>t. cutoff \<le> t) (case map_of log' s of Some ts \<Rightarrow> ts | None \<Rightarrow> []) =
         filter (\<lambda>t. cutoff \<le> t) (case map_of log s of Some ts \<Rightarrow> ts | None \<Rightarrow> [])"
    using assms(2) unfolding rate_room_def by (auto split: if_splits option.splits)
  show "distinct (map fst log')"
    using assms by (auto simp: rate_room_def distinct_delete split: if_splits option.splits)
qed

lemma rate_room_length:
  assumes "rate_room cutoff src log = Some log'" "length log \<le> MAX_INIT_RATE_LOG_ENTRIES"
  shows "length (AList.update src ts log') \<le> MAX_INIT_RATE_LOG_ENTRIES"
proof (cases "map_of log src = None \<and> length log \<ge> MAX_INIT_RATE_LOG_ENTRIES")
  case True
  then obtain v vs where v: "log' = AList.delete v log" "(v, vs) \<in> set log"
    using assms(1) by (auto simp: rate_room_def find_Some_iff split: option.splits) (metis nth_mem)
  then have "length log' < length log"
    by (auto simp: AList.delete_eq intro!: length_filter_less)
  then show ?thesis using assms(2) length_update_le[of src ts log'] by linarith
next
  case False
  then have same: "log' = log" and *: "src \<in> fst ` set log \<or> length log < MAX_INIT_RATE_LOG_ENTRIES"
    using assms(1) by (auto simp: rate_room_def map_of_eq_None_iff split: if_splits)
  from * show ?thesis
  proof
    assume "src \<in> fst ` set log"
    then show ?thesis using assms(2) length_update_in[of src log ts] same by simp
  next
    assume "length log < MAX_INIT_RATE_LOG_ENTRIES"
    then show ?thesis using length_update_le[of src ts log] unfolding same by linarith
  qed
qed

text \<open>One call: what is forgotten is outside the window, and an admitted call is remembered.\<close>

lemma rate_limited_entry:
  assumes "rate_limited now src m = (limited, m')" and d: "distinct (map fst (init_rate_log m))"
  shows "filter (\<lambda>t. now - INIT_RATE_WINDOW \<le> t) (rate_entry m' s) =
         filter (\<lambda>t. now - INIT_RATE_WINDOW \<le> t) (rate_entry m s) @ (if s = src \<and> \<not> limited then [now] else [])"
    and "\<not> limited \<Longrightarrow> length (filter (\<lambda>t. now - INIT_RATE_WINDOW \<le> t) (rate_entry m src)) < MAX_INITS_PER_WINDOW"
    and "distinct (map fst (init_rate_log m'))"
proof -
  have W: "0 \<le> INIT_RATE_WINDOW" by (simp add: INIT_RATE_WINDOW_def)
  note room = rate_room_keeps[OF d, of "now - INIT_RATE_WINDOW" src]
  show "filter (\<lambda>t. now - INIT_RATE_WINDOW \<le> t) (rate_entry m' s) =
        filter (\<lambda>t. now - INIT_RATE_WINDOW \<le> t) (rate_entry m s) @ (if s = src \<and> \<not> limited then [now] else [])"
    using assms(1) W room(1)[of _ s] by (auto simp: rate_limited_def rate_entry_def Let_def split: option.splits if_splits)
  show "\<not> limited \<Longrightarrow> length (filter (\<lambda>t. now - INIT_RATE_WINDOW \<le> t) (rate_entry m src)) < MAX_INITS_PER_WINDOW"
    using assms(1) room(1)[of _ src] by (auto simp: rate_limited_def rate_entry_def Let_def split: option.splits if_splits)
  show "distinct (map fst (init_rate_log m'))"
    using assms room(2) by (auto simp: rate_limited_def Let_def distinct_update split: option.splits if_splits)
qed

lemma rate_inv_step:
  assumes "rate_limited now src m = (limited, m')" "distinct (map fst (init_rate_log m))"
    and "rate_inv m H T" "T \<le> now"
  shows "rate_inv m' (if limited then H else H @ [(now, src)]) now"
proof -
  have W: "0 \<le> INIT_RATE_WINDOW" by (simp add: INIT_RATE_WINDOW_def)
  show ?thesis
    using rate_limited_entry(1)[OF assms(1,2)] rate_inv_mono[OF assms(3,4)] W
    by (auto simp: rate_inv_def times_of_def)
qed

definition in_window :: "instant \<Rightarrow> instant list \<Rightarrow> nat" where
  "in_window t0 ts = length (filter (\<lambda>t. t0 \<le> t \<and> t \<le> t0 + INIT_RATE_WINDOW) ts)"

lemma in_window_append: "in_window t0 (xs @ ys) = in_window t0 xs + in_window t0 ys"
  by (simp add: in_window_def)

lemma in_window_le: "t0 \<le> now \<Longrightarrow> now \<le> t0 + INIT_RATE_WINDOW \<Longrightarrow>
    in_window t0 ts \<le> length (filter (\<lambda>t. now - INIT_RATE_WINDOW \<le> t) ts)"
  unfolding in_window_def by (induction ts) auto

lemma admitted_bound:
  assumes "rate_inv m H T" "distinct (map fst (init_rate_log m))" "sorted (map fst calls)" "\<forall>c \<in> set calls. T \<le> fst c"
    and "\<And>t0. in_window t0 (times_of src H) \<le> MAX_INITS_PER_WINDOW"
  shows "in_window t0 (times_of src (H @ admitted m calls)) \<le> MAX_INITS_PER_WINDOW"
  using assms
proof (induction calls arbitrary: m H T)
  case (Cons c calls)
  obtain now s where c: "c = (now, s)" by force
  obtain limited m' where r: "rate_limited now s m = (limited, m')" by force
  define H' where "H' = (if limited then H else H @ [(now, s)])"
  have inv: "rate_inv m' H' now" "distinct (map fst (init_rate_log m'))"
    using rate_inv_step[OF r Cons.prems(2,1)] rate_limited_entry(3)[OF r Cons.prems(2)] Cons.prems(4) c
    by (simp_all add: H'_def)
  have "in_window t0 (times_of src H') \<le> MAX_INITS_PER_WINDOW" for t0
  proof (cases "limited \<or> s \<noteq> src \<or> \<not> (t0 \<le> now \<and> now \<le> t0 + INIT_RATE_WINDOW)")
    case True
    then show ?thesis using Cons.prems(5)[of t0] by (auto simp: H'_def times_of_def in_window_def)
  next
    case False
    have "filter (\<lambda>t. now - INIT_RATE_WINDOW \<le> t) (times_of src H) =
          filter (\<lambda>t. now - INIT_RATE_WINDOW \<le> t) (rate_entry m src)"
      using rate_inv_mono[OF Cons.prems(1), of now] Cons.prems(4) c by (simp add: rate_inv_def)
    then have "in_window t0 (times_of src H) < MAX_INITS_PER_WINDOW"
      using rate_limited_entry(2)[OF r Cons.prems(2)] in_window_le[of t0 now "times_of src H"] False by auto
    then show ?thesis using False by (simp add: H'_def times_of_def in_window_def)
  qed
  then have "in_window t0 (times_of src (H' @ admitted m' calls)) \<le> MAX_INITS_PER_WINDOW"
    using Cons.prems(3) c by (intro Cons.IH[OF inv]) (auto)
  moreover have "H @ admitted m (c # calls) = H' @ admitted m' calls" using c r by (simp add: H'_def)
  ultimately show ?case by simp
qed simp

text \<open>The table stays within its bound.\<close>

lemma rate_log_bound:
  "rate_limited now src m = (r, m') \<Longrightarrow> length (init_rate_log m) \<le> MAX_INIT_RATE_LOG_ENTRIES \<Longrightarrow>
     length (init_rate_log m') \<le> MAX_INIT_RATE_LOG_ENTRIES"
  using rate_room_length[of _ src "init_rate_log m"]
  by (auto simp: rate_limited_def Let_def split: option.splits if_splits)

section \<open>Pinned identities\<close>

lemma pq_verify_and_pin_ok:
  assumes "pq_verify_and_pin C e k msg sg m = (Inr (), m')"
  shows "dsa_verify C k msg sg" "map_of (pq_pins m') e = Some k"
    "map_of (pq_pins m) e = None \<or> map_of (pq_pins m) e = Some k \<and> m' = m"
    "m'\<lparr>pq_pins := x\<rparr> = m\<lparr>pq_pins := x\<rparr>"
  using assms by (auto simp: pq_verify_and_pin_def Let_def split: if_splits option.splits list.splits)

lemma pq_verify_and_pin_fail: "pq_verify_and_pin C e k msg sg m = (Inl er, m') \<Longrightarrow> m' = m"
  by (auto simp: pq_verify_and_pin_def Let_def split: if_splits)

lemma pq_verify_and_pin_frame:
  assumes "pq_verify_and_pin C e k msg sg m = (r, m')"
  shows "sessions m' = sessions m" "our_signing_key m' = our_signing_key m" "pq_keys m' = pq_keys m"
    "own_coord m' = own_coord m" "pq_signer m' = pq_signer m" "init_rate_log m' = init_rate_log m"
  using assms by (auto simp: pq_verify_and_pin_def Let_def split: if_splits)

lemma rate_limited_frame:
  assumes "rate_limited now src m = (r, m')"
  shows "sessions m' = sessions m" "our_signing_key m' = our_signing_key m" "pq_keys m' = pq_keys m"
    "own_coord m' = own_coord m" "pq_signer m' = pq_signer m" "pq_pins m' = pq_pins m"
  using assms by (auto simp: rate_limited_def Let_def split: if_splits option.splits)

lemma pins_bound:
  assumes "pq_verify_and_pin C e k msg sg m = (r, m')" "length (pq_pins m) \<le> MAX_PQ_PINS"
  shows "length (pq_pins m') \<le> MAX_PQ_PINS"
proof (cases "length (pq_pins m) < MAX_PQ_PINS")
  case True
  then show ?thesis
    using assms length_update_le[of e k "pq_pins m"] by (auto simp: pq_verify_and_pin_def Let_def split: if_splits)
next
  case False
  then obtain v kv rest where p: "pq_pins m = (v, kv) # rest"
    using assms(2) by (cases "pq_pins m") (auto simp: MAX_PQ_PINS_def)
  have "length (AList.update e k (AList.delete v (pq_pins m))) \<le> length (pq_pins m)"
    by (rule order.trans[OF length_update_le]) (simp add: p AList.delete_eq)
  then show ?thesis
    using assms False p by (auto simp: pq_verify_and_pin_def Let_def split: if_splits)
qed

section \<open>What the handshake handlers do\<close>

text \<open>An Init is answered only after all checks, and then changes one session and nothing else of the table.\<close>

lemma handle_init_ok:
  assumes "handle_init C now_ms ack_ms now x_rnd enc_rnd data m = (Inr ack, m')"
  obtains init ct secret where
    "SessionInit_decode data = Inr init"
    "SessionInit_verify C now_ms init (ed_pub_of C (our_signing_key m)) = Inr ()"
    "dsa_verify C (si_ml_dsa_pub init) (SessionInit_signed_bytes init) (si_ml_dsa_sig init)"
    "map_of (pq_pins m) (si_ed_pub init) \<in> {None, Some (si_ml_dsa_pub init)}"
    "map_of (pq_pins m') (si_ed_pub init) = Some (si_ml_dsa_pub init)"
    "fst (rate_limited now (si_ed_pub init) m) = False"
    "kem_encap C enc_rnd (si_ml_kem_pub init) = Some (ct, secret)"
    "map_of (sessions m') = (map_of (sessions m))(si_ed_pub init \<mapsto>
       (case map_of (sessions m) (si_ed_pub init) of
          Some s \<Rightarrow> init_update (ed_pub_of C (our_signing_key m)) (si_ed_pub init) (si_x25519_pub init) secret s
        | None \<Rightarrow> (SessionInfo_new C now (si_ed_pub init) x_rnd (si_x25519_pub init))\<lparr>established := True, pq_shared := Some secret\<rparr>))"
    "ack = SessionAck_encode (SessionAck_create C ack_ms (our_signing_key m)
       (x25519_pub_of C (local_x25519_priv (the (map_of (sessions m') (si_ed_pub init))))) (si_ed_pub init) ct (own_coord m) (pq_signer m))"
proof -
  obtain init where init: "SessionInit_decode data = Inr init"
    using assms by (auto simp: handle_init_def split: sum.splits)
  obtain lim m1 where r: "rate_limited now (si_ed_pub init) m = (lim, m1)" by force
  obtain p m2 where pin: "pq_verify_and_pin C (si_ed_pub init) (si_ml_dsa_pub init) (SessionInit_signed_bytes init)
      (si_ml_dsa_sig init) m1 = (p, m2)" by force
  note f1 = rate_limited_frame[OF r] and f2 = pq_verify_and_pin_frame[OF pin]
  have ok: "\<not> lim" "SessionInit_verify C now_ms init (ed_pub_of C (our_signing_key m)) = Inr ()" "p = Inr ()"
    using assms init r pin f1 by (auto simp: handle_init_def Let_def split: if_splits sum.splits)
  obtain ct secret where enc: "kem_encap C enc_rnd (si_ml_kem_pub init) = Some (ct, secret)"
    using assms init r pin ok f1 by (auto simp: handle_init_def pq_encapsulate_def Let_def split: option.splits)
  note pins = pq_verify_and_pin_ok[OF pin[unfolded ok]]
  have m': "m' = m2\<lparr>sessions := AList.update (si_ed_pub init)
       (case map_of (sessions m) (si_ed_pub init) of
          Some s \<Rightarrow> init_update (ed_pub_of C (our_signing_key m)) (si_ed_pub init) (si_x25519_pub init) secret s
        | None \<Rightarrow> (SessionInfo_new C now (si_ed_pub init) x_rnd (si_x25519_pub init))\<lparr>established := True, pq_shared := Some secret\<rparr>)
       (sessions m)\<rparr>"
    and ack: "ack = SessionAck_encode (SessionAck_create C ack_ms (our_signing_key m)
       (x25519_pub_of C (local_x25519_priv (the (map_of (sessions m') (si_ed_pub init))))) (si_ed_pub init) ct (own_coord m) (pq_signer m))"
    using assms init r pin ok enc f1 f2
    by (auto simp: handle_init_def pq_encapsulate_def Let_def SessionInfo_new_def split: option.splits)
  show thesis
    by (rule that[OF init ok(2) pins(1) _ _ _ enc _ ack])
      (use pins(2,3) f1 f2 r ok(1) in \<open>auto simp: m'\<close>)
qed

lemma handle_init_fail:
  "handle_init C now_ms ack_ms now x_rnd enc_rnd data m = (Inl e, m') \<Longrightarrow> sessions m' = sessions m"
  using rate_limited_frame(1)[of now _ m] pq_verify_and_pin_frame(1)[of C]
  by (fastforce simp: handle_init_def Let_def split: sum.splits prod.splits if_splits option.splits)

lemma handle_ack_ok:
  assumes "handle_ack C now_ms data m = (Inr u, m')"
  obtains ack s where
    "SessionAck_decode data = Inr ack"
    "SessionAck_verify C now_ms ack (ed_pub_of C (our_signing_key m)) = Inr ()"
    "dsa_verify C (sk_ml_dsa_pub ack) (SessionAck_signed_bytes ack) (sk_ml_dsa_sig ack)"
    "map_of (pq_pins m) (sk_ed_pub ack) \<in> {None, Some (sk_ml_dsa_pub ack)}"
    "map_of (pq_pins m') (sk_ed_pub ack) = Some (sk_ml_dsa_pub ack)"
    "map_of (sessions m) (sk_ed_pub ack) = Some s"
    "map_of (sessions m') = (map_of (sessions m))(sk_ed_pub ack \<mapsto>
       ack_update (ed_pub_of C (our_signing_key m)) (sk_ed_pub ack) (sk_x25519_pub ack)
         (PqKeys_decap C (pq_keys m) (sk_ml_kem_ct ack)) (PqKeys_decap_prev C (pq_keys m) (sk_ml_kem_ct ack)) s)"
proof -
  obtain ack where ack: "SessionAck_decode data = Inr ack"
    using assms by (auto simp: handle_ack_def split: sum.splits)
  obtain p m1 where pin: "pq_verify_and_pin C (sk_ed_pub ack) (sk_ml_dsa_pub ack) (SessionAck_signed_bytes ack)
      (sk_ml_dsa_sig ack) m = (p, m1)" by force
  note f = pq_verify_and_pin_frame[OF pin]
  have ok: "SessionAck_verify C now_ms ack (ed_pub_of C (our_signing_key m)) = Inr ()" "p = Inr ()"
    using assms ack pin by (auto simp: handle_ack_def Let_def split: sum.splits)
  obtain s where s: "map_of (sessions m) (sk_ed_pub ack) = Some s"
    using assms ack pin ok f by (auto simp: handle_ack_def Let_def split: option.splits)
  note pins = pq_verify_and_pin_ok[OF pin[unfolded ok]]
  show thesis
    by (rule that[OF ack ok(1) pins(1) _ _ s])
      (use pins(2,3) assms ack pin ok f s in \<open>auto simp: handle_ack_def Let_def\<close>)
qed

lemma handle_ack_fail: "handle_ack C now_ms data m = (Inl e, m') \<Longrightarrow> sessions m' = sessions m"
  using pq_verify_and_pin_frame(1)[of C _ _ _ _ m]
  by (fastforce simp: handle_ack_def Let_def split: sum.splits prod.splits option.splits)

text \<open>A handshake message never disturbs the history of a session: it is a \<open>rekey\<close> step.\<close>

lemma init_update_rekey:
  "\<exists>x q f. init_update our e k c s = s\<lparr>remote_x25519_pub := x, established := True, pq_shared := q, pq_shared_fallback := f\<rparr>"
  "\<exists>x q f. ack_update our e k c b s = s\<lparr>remote_x25519_pub := x, established := True, pq_shared := q, pq_shared_fallback := f\<rparr>"
  by (cases s; auto simp: init_update_def ack_update_def Let_def)+

lemma session_run_handshake:
  "session_run C s qs t \<Longrightarrow> session_run C s qs (init_update our e k c t)"
  "session_run C s qs t \<Longrightarrow> session_run C s qs (ack_update our e k c b t)"
  by (metis init_update_rekey session_run.rekey)+

section \<open>A handshake establishes two linked sessions\<close>

definition keys_ok :: "crypto \<Rightarrow> PqKeys \<Rightarrow> bool" where
  "keys_ok C k \<longleftrightarrow> (\<exists>r. kem_keypair C r = (pk_dk k, pk_ek_bytes k))"

definition our_pub :: "crypto \<Rightarrow> SessionManager \<Rightarrow> bytes" where
  "our_pub C m = ed_pub_of C (our_signing_key m)"

definition pin_allows :: "crypto \<Rightarrow> SessionManager \<Rightarrow> SessionManager \<Rightarrow> bool" where
  "pin_allows C m peer \<longleftrightarrow> map_of (pq_pins m) (our_pub C peer) \<in> {None, Some (dsa_pub_of C (pq_signer peer))}"

lemma pq_verify_and_pin_accepts:
  "map_of (pq_pins m) e \<in> {None, Some k} \<Longrightarrow> dsa_verify C k msg sg \<Longrightarrow>
     fst (pq_verify_and_pin C e k msg sg m) = Inr ()"
  by (auto simp: pq_verify_and_pin_def Let_def)

lemma create_fields [simp]:
  "si_ed_pub (SessionInit_create C t sk x r k c q) = ed_pub_of C sk"
  "si_x25519_pub (SessionInit_create C t sk x r k c q) = x"
  "si_ml_kem_pub (SessionInit_create C t sk x r k c q) = k"
  "si_ml_dsa_pub (SessionInit_create C t sk x r k c q) = dsa_pub_of C q"
  "sk_ed_pub (SessionAck_create C t sk x r k c q) = ed_pub_of C sk"
  "sk_x25519_pub (SessionAck_create C t sk x r k c q) = x"
  "sk_ml_kem_ct (SessionAck_create C t sk x r k c q) = k"
  "sk_ml_dsa_pub (SessionAck_create C t sk x r k c q) = dsa_pub_of C q"
  by (simp_all add: SessionInit_create_def SessionAck_create_def Let_def)

lemma create_dsa_verify:
  "sigs_correct C \<Longrightarrow> dsa_verify C (dsa_pub_of C q) (SessionInit_signed_bytes (SessionInit_create C t sk x r k c q))
     (si_ml_dsa_sig (SessionInit_create C t sk x r k c q))"
  "sigs_correct C \<Longrightarrow> dsa_verify C (dsa_pub_of C q) (SessionAck_signed_bytes (SessionAck_create C t sk x r k c q))
     (sk_ml_dsa_sig (SessionAck_create C t sk x r k c q))"
  by (simp_all add: SessionInit_create_def SessionAck_create_def SessionInit_signed_bytes_def
      SessionAck_signed_bytes_def Let_def sigs_correct_def)

lemma handle_init_accepts:
  assumes C: "sigs_correct C" "kem_correct C" "key_sizes C"
    and init: "init = SessionInit_create C t0 (our_signing_key A) (x25519_pub_of C xA) (our_pub C B)
                 (pk_ek_bytes (pq_keys A)) (own_coord A) (pq_signer A)"
    and A: "keys_ok C (pq_keys A)" "length (own_coord A) = 16"
    and clock: "clock_skew t1 t0 \<le> HANDSHAKE_TIME_WINDOW_MS"
    and B: "\<not> fst (rate_limited n1 (our_pub C A) B)" "pin_allows C B A"
  shows "\<exists>ack B'. handle_init C t1 t2 n1 xB rnd (SessionInit_encode init) B = (Inr ack, B')"
proof -
  obtain r where "kem_keypair C r = (pk_dk (pq_keys A), pk_ek_bytes (pq_keys A))" using A(1) by (auto simp: keys_ok_def)
  then have kem: "length (pk_ek_bytes (pq_keys A)) = 1184" "\<exists>ct ss. kem_encap C rnd (pk_ek_bytes (pq_keys A)) = Some (ct, ss)"
    using C(2) unfolding kem_correct_def by blast+
  have pub: "length (our_pub C B) = 32" using C(1) by (simp add: our_pub_def sigs_correct_def)
  have dec: "SessionInit_decode (SessionInit_encode init) = Inr init"
    unfolding init using C(1,3) kem(1) A(2) pub
    by (intro SessionInit_decode_encode SessionInit_create_ok) (auto simp: key_sizes_def)
  obtain B1 where r: "rate_limited n1 (our_pub C A) B = (False, B1)"
    using B(1) by (cases "rate_limited n1 (our_pub C A) B") auto
  note f = rate_limited_frame[OF r]
  have ver: "SessionInit_verify C t1 init (our_pub C B) = Inr ()"
    unfolding init by (rule SessionInit_create_verify[OF C(1) clock])
  obtain p B2 where pin: "pq_verify_and_pin C (si_ed_pub init) (si_ml_dsa_pub init) (SessionInit_signed_bytes init)
      (si_ml_dsa_sig init) B1 = (p, B2)" by force
  have "fst (p, B2) = Inr ()"
    unfolding pin[symmetric]
    by (rule pq_verify_and_pin_accepts) (use B(2) f create_dsa_verify(1)[OF C(1)] in \<open>simp_all add: init pin_allows_def our_pub_def\<close>)
  then show ?thesis
    using dec r f pin ver kem(2) pq_verify_and_pin_frame[OF pin]
    by (auto simp: handle_init_def Let_def pq_encapsulate_def our_pub_def init split: option.split)
qed

lemma handle_ack_accepts:
  assumes C: "sigs_correct C" "key_sizes C"
    and ack: "ack = SessionAck_create C t2 (our_signing_key B) (x25519_pub_of C xB) (our_pub C A) ct (own_coord B) (pq_signer B)"
    and B: "length ct = 1088" "length (own_coord B) = 16"
    and clock: "clock_skew t3 t2 \<le> HANDSHAKE_TIME_WINDOW_MS"
    and A: "pin_allows C A B" "map_of (sessions A) (our_pub C B) = Some s"
  shows "\<exists>A'. handle_ack C t3 (SessionAck_encode ack) A = (Inr (), A')"
proof -
  have "length (our_pub C A) = 32" using C(1) by (simp add: our_pub_def sigs_correct_def)
  then have dec: "SessionAck_decode (SessionAck_encode ack) = Inr ack"
    unfolding ack using C B by (intro SessionAck_decode_encode SessionAck_create_ok) (auto simp: key_sizes_def)
  have ver: "SessionAck_verify C t3 ack (our_pub C A) = Inr ()"
    unfolding ack by (rule SessionAck_create_verify[OF C(1) clock])
  obtain p A1 where pin: "pq_verify_and_pin C (sk_ed_pub ack) (sk_ml_dsa_pub ack) (SessionAck_signed_bytes ack)
      (sk_ml_dsa_sig ack) A = (p, A1)" by force
  have "fst (p, A1) = Inr ()"
    unfolding pin[symmetric]
    by (rule pq_verify_and_pin_accepts) (use A(1) create_dsa_verify(2)[OF C(1)] in \<open>simp_all add: ack pin_allows_def our_pub_def\<close>)
  then show ?thesis
    using dec pin ver A(2) pq_verify_and_pin_frame[OF pin]
    by (auto simp: handle_ack_def Let_def our_pub_def ack split: option.split)
qed

text \<open>Both ends after a complete handshake.\<close>

definition fresh_pair :: "crypto \<Rightarrow> SessionInfo \<Rightarrow> SessionInfo \<Rightarrow> bool" where
  "fresh_pair C a b \<longleftrightarrow> established a \<and> established b \<and> linked a b \<and> linked b a \<and> pq_shared a \<noteq> None \<and>
     dh_inv C a \<and> dh_inv C b \<and> local_seq a = 0 \<and> local_seq b = 0 \<and> window_of a = (0, 0) \<and> window_of b = (0, 0)"

text \<open>The first half: the responder accepts the message of \<open>initiate\<close> and holds the secret it encapsulated.\<close>

lemma init_half:
  assumes C: "sigs_correct C" "kem_correct C" "key_sizes C"
    and A: "keys_ok C (pq_keys A)" "length (own_coord A) = 16"
    and B: "pin_allows C B A" "\<not> fst (rate_limited n1 (our_pub C A) B)" "map_of (sessions B) (our_pub C A) = None"
    and clock: "clock_skew t1 t0 \<le> HANDSHAKE_TIME_WINDOW_MS"
    and init: "initiate C t0 n0 xA (our_pub C B) A = (init, A1)"
  shows "\<exists>ack B1 ct secret. handle_init C t1 t2 n1 xB rnd init B = (Inr ack, B1) \<and> kem_encap C rnd (pk_ek_bytes (pq_keys A)) = Some (ct, secret) \<and>
    map_of (sessions B1) (our_pub C A) =
       Some ((SessionInfo_new C n1 (our_pub C A) xB (x25519_pub_of C xA))\<lparr>established := True, pq_shared := Some secret\<rparr>) \<and>
    ack = SessionAck_encode (SessionAck_create C t2 (our_signing_key B) (x25519_pub_of C xB) (our_pub C A) ct (own_coord B) (pq_signer B))"
proof -
  define si where "si = SessionInit_create C t0 (our_signing_key A) (x25519_pub_of C xA) (our_pub C B)
                 (pk_ek_bytes (pq_keys A)) (own_coord A) (pq_signer A)"
  have i: "init = SessionInit_encode si" using init by (auto simp: initiate_def Let_def si_def)
  obtain ack B1 where h: "handle_init C t1 t2 n1 xB rnd init B = (Inr ack, B1)"
    using handle_init_accepts[OF C si_def A clock B(2,1)] i by blast
  obtain r where r: "kem_keypair C r = (pk_dk (pq_keys A), pk_ek_bytes (pq_keys A))" using A(1) by (auto simp: keys_ok_def)
  have "length (our_pub C B) = 32" using C(1) by (simp add: our_pub_def sigs_correct_def)
  moreover have "length (pk_ek_bytes (pq_keys A)) = 1184" using C(2) r unfolding kem_correct_def by blast
  ultimately have dec: "SessionInit_decode init = Inr si"
    unfolding i si_def using C(1,3) A(2)
    by (intro SessionInit_decode_encode SessionInit_create_ok) (auto simp: key_sizes_def)
  have ed: "si_ed_pub si = our_pub C A" by (simp add: si_def our_pub_def)
  obtain si' ct secret where d: "SessionInit_decode init = Inr si'"
    and e: "kem_encap C rnd (si_ml_kem_pub si') = Some (ct, secret)"
    and b': "map_of (sessions B1) = (map_of (sessions B))(si_ed_pub si' \<mapsto>
       (case map_of (sessions B) (si_ed_pub si') of
          Some s \<Rightarrow> init_update (ed_pub_of C (our_signing_key B)) (si_ed_pub si') (si_x25519_pub si') secret s
        | None \<Rightarrow> (SessionInfo_new C n1 (si_ed_pub si') xB (si_x25519_pub si'))\<lparr>established := True, pq_shared := Some secret\<rparr>))"
    and ack: "ack = SessionAck_encode (SessionAck_create C t2 (our_signing_key B)
       (x25519_pub_of C (local_x25519_priv (the (map_of (sessions B1) (si_ed_pub si'))))) (si_ed_pub si') ct (own_coord B) (pq_signer B))"
    by (rule handle_init_ok[OF h]) (rule that; assumption)
  have si': "si' = si" using d dec by simp
  have b: "map_of (sessions B1) (our_pub C A) =
       Some ((SessionInfo_new C n1 (our_pub C A) xB (x25519_pub_of C xA))\<lparr>established := True, pq_shared := Some secret\<rparr>)"
    using b' si' ed B(3) by (simp add: si_def)
  moreover have "kem_encap C rnd (pk_ek_bytes (pq_keys A)) = Some (ct, secret)" using e si' by (simp add: si_def)
  ultimately show ?thesis using h ack si' ed by (simp add: SessionInfo_new_def)
qed

text \<open>The second half: the initiator accepts that acknowledgement and holds the secret it decapsulates.\<close>

lemma ack_half:
  fixes xB :: bytes
  assumes C: "sigs_correct C" "key_sizes C"
    and init: "initiate C t0 n0 xA (our_pub C B) A = (init, A1)" and A: "pin_allows C A B"
    and B: "length (own_coord B) = 16" "length ct = 1088"
    and clock: "clock_skew t3 t2 \<le> HANDSHAKE_TIME_WINDOW_MS"
  defines "ack \<equiv> SessionAck_encode (SessionAck_create C t2 (our_signing_key B) (x25519_pub_of C xB) (our_pub C A) ct (own_coord B) (pq_signer B))"
  shows "\<exists>A2. handle_ack C t3 ack A1 = (Inr (), A2) \<and> map_of (sessions A2) (our_pub C B) =
      Some ((SessionInfo_new C n0 (our_pub C B) xA (x25519_pub_of C xB))\<lparr>established := True, pq_shared := Some (kem_decap C (pk_dk (pq_keys A)) ct),
        pq_shared_fallback := PqKeys_decap_prev C (pq_keys A) ct\<rparr>)"
proof -
  let ?new = "SessionInfo_new C n0 (our_pub C B) xA (replicate 32 0)"
  have A1: "A1 = A\<lparr>sessions := AList.update (our_pub C B) ?new (sessions A)\<rparr>" using init by (auto simp: initiate_def Let_def)
  have pub: "our_pub C A1 = our_pub C A" by (simp add: A1 our_pub_def)
  have "pin_allows C A1 B" "map_of (sessions A1) (our_pub C B) = Some ?new" using A by (simp_all add: A1 pin_allows_def)
  then obtain A2 where h: "handle_ack C t3 ack A1 = (Inr (), A2)"
    using handle_ack_accepts[OF C refl B(2,1) clock] unfolding ack_def pub[symmetric] by blast
  have dec: "SessionAck_decode ack = Inr (SessionAck_create C t2 (our_signing_key B) (x25519_pub_of C xB) (our_pub C A) ct (own_coord B) (pq_signer B))"
    unfolding ack_def using C B(1,2)
    by (intro SessionAck_decode_encode SessionAck_create_ok) (auto simp: key_sizes_def our_pub_def sigs_correct_def)
  obtain sk s where d: "SessionAck_decode ack = Inr sk" and s: "map_of (sessions A1) (sk_ed_pub sk) = Some s"
    and a: "map_of (sessions A2) = (map_of (sessions A1))(sk_ed_pub sk \<mapsto>
       ack_update (ed_pub_of C (our_signing_key A1)) (sk_ed_pub sk) (sk_x25519_pub sk)
         (PqKeys_decap C (pq_keys A1) (sk_ml_kem_ct sk)) (PqKeys_decap_prev C (pq_keys A1) (sk_ml_kem_ct sk)) s)"
    by (rule handle_ack_ok[OF h]) (rule that; assumption)
  have sk: "sk_ed_pub sk = our_pub C B" "sk_x25519_pub sk = x25519_pub_of C xB" "sk_ml_kem_ct sk = ct"
    using d dec by (auto simp: our_pub_def)
  have "s = ?new" using s sk(1) by (simp add: A1)
  then show ?thesis using h a sk by (simp add: A1 ack_update_def SessionInfo_new_def PqKeys_decap_def)
qed

lemma handshake_completes:
  assumes C: "sigs_correct C" "kem_correct C" "key_sizes C"
    and A: "keys_ok C (pq_keys A)" "length (own_coord A) = 16" "pin_allows C A B"
    and B: "length (own_coord B) = 16" "pin_allows C B A" "\<not> fst (rate_limited n1 (our_pub C A) B)"
      "map_of (sessions B) (our_pub C A) = None"
    and clock: "clock_skew t1 t0 \<le> HANDSHAKE_TIME_WINDOW_MS" "clock_skew t3 t2 \<le> HANDSHAKE_TIME_WINDOW_MS"
    and init: "initiate C t0 n0 xA (our_pub C B) A = (init, A1)"
  shows "\<exists>ack B1 A2 a b. handle_init C t1 t2 n1 xB rnd init B = (Inr ack, B1) \<and>
    handle_ack C t3 ack A1 = (Inr (), A2) \<and>
    map_of (sessions A2) (our_pub C B) = Some a \<and> map_of (sessions B1) (our_pub C A) = Some b \<and> fresh_pair C a b"
proof -
  obtain ack B1 ct secret where i: "handle_init C t1 t2 n1 xB rnd init B = (Inr ack, B1)"
    "kem_encap C rnd (pk_ek_bytes (pq_keys A)) = Some (ct, secret)"
    "map_of (sessions B1) (our_pub C A) =
       Some ((SessionInfo_new C n1 (our_pub C A) xB (x25519_pub_of C xA))\<lparr>established := True, pq_shared := Some secret\<rparr>)"
    "ack = SessionAck_encode (SessionAck_create C t2 (our_signing_key B) (x25519_pub_of C xB) (our_pub C A) ct (own_coord B) (pq_signer B))"
    using init_half[OF C A(1,2) B(2,3,4) clock(1) init] by blast
  obtain r where r: "kem_keypair C r = (pk_dk (pq_keys A), pk_ek_bytes (pq_keys A))" using A(1) by (auto simp: keys_ok_def)
  have kem: "kem_decap C (pk_dk (pq_keys A)) ct = secret" "length ct = 1088"
    using C(2) r i(2) unfolding kem_correct_def by (metis Pair_inject option.inject)+
  obtain A2 where "handle_ack C t3 ack A1 = (Inr (), A2)" "map_of (sessions A2) (our_pub C B) =
      Some ((SessionInfo_new C n0 (our_pub C B) xA (x25519_pub_of C xB))\<lparr>established := True, pq_shared := Some secret,
        pq_shared_fallback := PqKeys_decap_prev C (pq_keys A) ct\<rparr>)"
    using ack_half[OF C(1,3) init A(3) B(1) kem(2) clock(2), of xB] unfolding kem(1) i(4) by blast
  then show ?thesis using i by (auto simp: fresh_pair_def linked_def dh_inv_def SessionInfo_new_def window_of_def)
qed

section \<open>Crossing handshakes converge\<close>

text \<open>Both ends initiate at once. Each of the two exchanges is on its way to the responder, answered with a
  secret, or completed; the four deliveries may interleave in any way that respects this. The state holds the
  two sessions and the stages of the exchanges that \<open>a\<close> and \<open>b\<close> initiated.\<close>

datatype stage = Sent | Answered bytes | Done bytes

inductive cross_step :: "bytes \<Rightarrow> bytes \<Rightarrow> SessionInfo \<times> SessionInfo \<times> stage \<times> stage \<Rightarrow> SessionInfo \<times> SessionInfo \<times> stage \<times> stage \<Rightarrow> bool"
  for pa pb where
  init_a: "cross_step pa pb (a, b, Sent, y) (a, init_update pb pa (local_x25519_pub a) s b, Answered s, y)"
| ack_a: "cross_step pa pb (a, b, Answered s, y) (ack_update pa pb (local_x25519_pub b) s f a, b, Done s, y)"
| init_b: "cross_step pa pb (a, b, x, Sent) (init_update pa pb (local_x25519_pub b) s a, b, x, Answered s)"
| ack_b: "cross_step pa pb (a, b, x, Answered s) (a, ack_update pb pa (local_x25519_pub a) s f b, x, Done s)"

inductive cross_run :: "bytes \<Rightarrow> bytes \<Rightarrow> SessionInfo \<times> SessionInfo \<times> stage \<times> stage \<Rightarrow> SessionInfo \<times> SessionInfo \<times> stage \<times> stage \<Rightarrow> bool"
  for pa pb where
  refl: "cross_run pa pb st st"
| step: "cross_run pa pb st st' \<Longrightarrow> cross_step pa pb st' st'' \<Longrightarrow> cross_run pa pb st st''"

inductive_cases cross_stepE: "cross_step pa pb st st'"

lemma update_fields [simp]:
  "local_x25519_pub (init_update our e k c s) = local_x25519_pub s"
  "local_x25519_pub (ack_update our e k c f s) = local_x25519_pub s"
  "remote_x25519_pub (init_update our e k c s) = k"
  "remote_x25519_pub (ack_update our e k c f s) = k"
  "established (init_update our e k c s)"
  "established (ack_update our e k c f s)"
  "pq_shared (init_update our e k c s) = (if pq_shared s = None \<or> e < our then Some c else pq_shared s)"
  "pq_shared (ack_update our e k c f s) = (if pq_shared s = None \<or> our < e then Some c else pq_shared s)"
  by (auto simp: init_update_def ack_update_def Let_def)

text \<open>With \<open>pa < pb\<close> the exchange of \<open>a\<close> is the canonical one: an end that has seen it holds its secret.\<close>

definition cross_inv :: "bytes \<Rightarrow> bytes \<Rightarrow> SessionInfo \<times> SessionInfo \<times> stage \<times> stage \<Rightarrow> bool" where
  "cross_inv xa xb = (\<lambda>(a, b, x, y).
     local_x25519_pub a = xa \<and> local_x25519_pub b = xb \<and>
     (\<forall>s. x = Answered s \<or> x = Done s \<longrightarrow> pq_shared b = Some s \<and> remote_x25519_pub b = xa \<and> established b) \<and>
     (\<forall>s. x = Done s \<longrightarrow> pq_shared a = Some s \<and> remote_x25519_pub a = xb \<and> established a) \<and>
     (y \<noteq> Sent \<longrightarrow> pq_shared a \<noteq> None))"

lemma cross_inv_step: "cross_step pa pb st st' \<Longrightarrow> pa < pb \<Longrightarrow> cross_inv xa xb st \<Longrightarrow> cross_inv xa xb st'"
  by (erule cross_stepE) (auto simp: cross_inv_def)

lemma cross_inv_run: "cross_run pa pb st st' \<Longrightarrow> pa < pb \<Longrightarrow> cross_inv xa xb st \<Longrightarrow> cross_inv xa xb st'"
  by (induction rule: cross_run.induct) (auto intro: cross_inv_step)

lemma cross_swap_step: "cross_step pa pb (a, b, x, y) (a', b', x', y') \<Longrightarrow> cross_step pb pa (b, a, y, x) (b', a', y', x')"
  by (erule cross_stepE) (auto intro: cross_step.intros)

lemma cross_swap_run:
  "cross_run pa pb st st' \<Longrightarrow> cross_run pb pa ((\<lambda>(a, b, x, y). (b, a, y, x)) st) ((\<lambda>(a, b, x, y). (b, a, y, x)) st')"
proof (induction rule: cross_run.induct)
  case (step st st' st'')
  then show ?case
    using cross_swap_step by (cases st'; cases st'') (auto intro: cross_run.step)
qed (rule cross_run.refl)

text \<open>The number of deliveries still to come.\<close>

fun pending :: "stage \<Rightarrow> nat" where
  "pending Sent = 2" | "pending (Answered _) = 1" | "pending (Done _) = 0"

lemma cross_step_pending:
  "cross_step pa pb (a, b, x, y) (a', b', x', y') \<Longrightarrow> pending x + pending y = Suc (pending x' + pending y')"
  by (erule cross_stepE) auto

lemma cross_step_exists: "pending x + pending y > 0 \<Longrightarrow> \<exists>st'. cross_step pa pb (a, b, x, y) st'"
  by (cases x; cases y) (blast intro: cross_step.intros | simp)+

lemma cross_converges:
  assumes "pa \<noteq> pb" "cross_run pa pb (a, b, Sent, Sent) (a', b', Done s, Done t)"
  shows "linked a' b' \<and> linked b' a' \<and> pq_shared a' \<noteq> None \<and> established a' \<and> established b'"
proof (cases "pa < pb")
  case True
  have "cross_inv (local_x25519_pub a) (local_x25519_pub b) (a, b, Sent, Sent)" by (simp add: cross_inv_def)
  from cross_inv_run[OF assms(2) True this] show ?thesis by (auto simp: cross_inv_def linked_def)
next
  case False
  then have lt: "pb < pa" using assms(1) by auto
  have "cross_inv (local_x25519_pub b) (local_x25519_pub a) (b, a, Sent, Sent)" by (simp add: cross_inv_def)
  from cross_inv_run[OF cross_swap_run[OF assms(2), simplified] lt this] show ?thesis
    by (auto simp: cross_inv_def linked_def)
qed

section \<open>Retransmission\<close>

lemma retx_interval_nat: "unat (retx_interval c) = min (1000 * 2 ^ min (unat c) 5) 30000"
proof -
  have c: "unat (min c 5) = min (unat c) 5" by (simp add: min_def word_le_nat_alt)
  have "unat (min c 5) \<in> {0, 1, 2, 3, 4, 5}" by (auto simp: c)
  then show ?thesis
    by (auto simp: retx_interval_def HANDSHAKE_RETX_BASE_MS_def HANDSHAKE_RETX_MAX_MS_def c min_def
        word_le_nat_alt push_bit_eq_mult)
qed

lemma retx_entry_key: "fst (fst (retx_entry C t now m e)) = fst e"
  by (auto simp: retx_entry_def split: prod.splits)

lemma pending_sessions:
  "map fst (sessions (snd (pending_handshake_inits C t now m))) = map fst (sessions m)"
  by (simp add: pending_handshake_inits_def Let_def retx_entry_key)

end
