(* ===== verification/Cuckoo.thy ===== *)
theory Cuckoo
  imports Wire_Messages "HOL-Library.Multiset"
begin

text \<open>
  The cuckoo filter of \<^verbatim>\<open>src/src/cuckoo.rs\<close>: 512 buckets of four 16-bit fingerprints. The hash, an 8-byte
  BLAKE2b digest, is the parameter \<open>h\<close>; the random draws of an insertion are the arguments \<open>coin\<close> and \<open>slots\<close>. A filter
  is abstracted to the multiset of its entries, an entry being a fingerprint with the unordered pair of
  buckets it may live in; the interface \<open>multiset_filter\<close> is the contract in those terms.
\<close>

unbundle bit_operations_syntax

abbreviation (input) "NUM_BUCKETS \<equiv> (512 :: nat)"
abbreviation (input) "SLOTS_PER_BUCKET \<equiv> (4 :: nat)"
definition MAX_KICKS :: nat where "MAX_KICKS = 500"

record CuckooFilter =
  cf_buckets :: "u16 list list"
  cf_count :: nat

definition CuckooFilter_new :: CuckooFilter where
  "CuckooFilter_new = \<lparr>cf_buckets = replicate NUM_BUCKETS (replicate SLOTS_PER_BUCKET 0), cf_count = 0\<rparr>"

section \<open>Operations\<close>

definition fingerprint :: "(bytes \<Rightarrow> bytes) \<Rightarrow> bytes \<Rightarrow> u16" where
  "fingerprint h key = (let fp = from_le (take 2 (h key)) in if fp = 0 then 1 else fp)"

definition bucket1 :: "(bytes \<Rightarrow> bytes) \<Rightarrow> bytes \<Rightarrow> nat" where
  "bucket1 h key = unat (from_le (take 8 (h ([0x62, 0x31] @ key))) :: u64) mod NUM_BUCKETS"

definition bucket2 :: "(bytes \<Rightarrow> bytes) \<Rightarrow> nat \<Rightarrow> u16 \<Rightarrow> nat" where
  "bucket2 h b1 fp =
     (let v = unat (from_le (take 8 (h ([0x62, 0x32] @ le_bytes 2 fp))) :: u64);
          offset = v AND (NUM_BUCKETS - 1) in
      (b1 XOR offset) AND (NUM_BUCKETS - 1))"

primrec insert_slot :: "u16 list \<Rightarrow> u16 \<Rightarrow> u16 list option" where
  "insert_slot [] fp = None"
| "insert_slot (s # ss) fp = (if s = 0 then Some (fp # ss) else map_option ((#) s) (insert_slot ss fp))"

primrec remove_slot :: "u16 list \<Rightarrow> u16 \<Rightarrow> u16 list option" where
  "remove_slot [] fp = None"
| "remove_slot (s # ss) fp = (if s = fp then Some (0 # ss) else map_option ((#) s) (remove_slot ss fp))"

definition contains_slot :: "u16 list \<Rightarrow> u16 \<Rightarrow> bool" where
  "contains_slot bucket fp = (fp \<in> set bucket)"

text \<open>The kick cascade shared by \<^verbatim>\<open>add\<close> and \<^verbatim>\<open>merge\<close>, one round per drawn slot; it reports whether the last
  fingerprint found a place.\<close>

fun kick :: "(bytes \<Rightarrow> bytes) \<Rightarrow> nat list \<Rightarrow> u16 list list \<Rightarrow> nat \<Rightarrow> u16 \<Rightarrow> bool \<times> u16 list list" where
  "kick h [] bs cur fp = (False, bs)"
| "kick h (slot # slots) bs cur fp =
     (let old = bs ! cur ! slot;
          bs = bs[cur := (bs ! cur)[slot := fp]];
          alt = bucket2 h cur old in
      case insert_slot (bs ! alt) old of
        Some b \<Rightarrow> (True, bs[alt := b])
      | None \<Rightarrow> kick h slots bs alt old)"

definition cuckoo_add :: "(bytes \<Rightarrow> bytes) \<Rightarrow> bool \<Rightarrow> (nat \<Rightarrow> nat) \<Rightarrow> bytes \<Rightarrow> CuckooFilter \<Rightarrow> bool \<times> CuckooFilter" where
  "cuckoo_add h coin slots key f =
     (let fp = fingerprint h key; b1 = bucket1 h key; b2 = bucket2 h b1 fp; bs = cf_buckets f in
      case insert_slot (bs ! b1) fp of
        Some b \<Rightarrow> (True, f\<lparr>cf_buckets := bs[b1 := b], cf_count := cf_count f + 1\<rparr>)
      | None \<Rightarrow>
      case insert_slot (bs ! b2) fp of
        Some b \<Rightarrow> (True, f\<lparr>cf_buckets := bs[b2 := b], cf_count := cf_count f + 1\<rparr>)
      | None \<Rightarrow>
          (let (ok, bs) = kick h (map slots [0..<MAX_KICKS]) bs (if coin then b1 else b2) fp in
           (ok, f\<lparr>cf_buckets := bs, cf_count := cf_count f + (if ok then 1 else 0)\<rparr>)))"

definition cuckoo_remove :: "(bytes \<Rightarrow> bytes) \<Rightarrow> bytes \<Rightarrow> CuckooFilter \<Rightarrow> bool \<times> CuckooFilter" where
  "cuckoo_remove h key f =
     (let fp = fingerprint h key; b1 = bucket1 h key; b2 = bucket2 h b1 fp; bs = cf_buckets f in
      case remove_slot (bs ! b1) fp of
        Some b \<Rightarrow> (True, f\<lparr>cf_buckets := bs[b1 := b], cf_count := cf_count f - 1\<rparr>)
      | None \<Rightarrow>
      case remove_slot (bs ! b2) fp of
        Some b \<Rightarrow> (True, f\<lparr>cf_buckets := bs[b2 := b], cf_count := cf_count f - 1\<rparr>)
      | None \<Rightarrow> (False, f))"

definition cuckoo_contains :: "(bytes \<Rightarrow> bytes) \<Rightarrow> bytes \<Rightarrow> CuckooFilter \<Rightarrow> bool" where
  "cuckoo_contains h key f =
     (let fp = fingerprint h key; b1 = bucket1 h key; b2 = bucket2 h b1 fp in
      contains_slot (cf_buckets f ! b1) fp \<or> contains_slot (cf_buckets f ! b2) fp)"

definition cuckoo_encode :: "CuckooFilter \<Rightarrow> bytes" where
  "cuckoo_encode f = concat (map (\<lambda>bucket. concat (map (le_bytes 2) bucket)) (cf_buckets f))"

definition cuckoo_decode :: "bytes \<Rightarrow> CuckooFilter" where
  "cuckoo_decode data =
     (let bs = map (\<lambda>i. map (\<lambda>j. let off = (i * SLOTS_PER_BUCKET + j) * 2 in
                                  from_le (take 2 (drop off data))) [0..<SLOTS_PER_BUCKET]) [0..<NUM_BUCKETS] in
      \<lparr>cf_buckets = bs, cf_count = length (filter (\<lambda>v. v \<noteq> 0) (concat bs))\<rparr>)"

text \<open>One fingerprint of the other filter; \<open>slots\<close> are the draws for its cascade of at most 32 rounds.\<close>

definition merge_one :: "(bytes \<Rightarrow> bytes) \<Rightarrow> (nat \<Rightarrow> nat) \<Rightarrow> nat \<Rightarrow> u16 \<Rightarrow> CuckooFilter \<Rightarrow> CuckooFilter" where
  "merge_one h slots i fp f =
     (if fp = 0 then f else
      let alt = bucket2 h i fp; bs = cf_buckets f in
      if contains_slot (bs ! i) fp \<or> contains_slot (bs ! alt) fp then f else
      case insert_slot (bs ! i) fp of
        Some b \<Rightarrow> f\<lparr>cf_buckets := bs[i := b], cf_count := cf_count f + 1\<rparr>
      | None \<Rightarrow>
      case insert_slot (bs ! alt) fp of
        Some b \<Rightarrow> f\<lparr>cf_buckets := bs[alt := b], cf_count := cf_count f + 1\<rparr>
      | None \<Rightarrow>
          (let (ok, bs) = kick h (map slots [0..<32]) bs i fp in
           f\<lparr>cf_buckets := bs, cf_count := cf_count f + (if ok then 1 else 0)\<rparr>))"

definition cuckoo_merge :: "(bytes \<Rightarrow> bytes) \<Rightarrow> (nat \<Rightarrow> nat \<Rightarrow> nat \<Rightarrow> nat) \<Rightarrow> CuckooFilter \<Rightarrow> CuckooFilter \<Rightarrow> CuckooFilter" where
  "cuckoo_merge h draws f other =
     fold (\<lambda>(i, j) f. merge_one h (draws i j) i (cf_buckets other ! i ! j) f)
       (List.product [0..<NUM_BUCKETS] [0..<SLOTS_PER_BUCKET]) f"

section \<open>Buckets\<close>

lemma bucket1_less: "bucket1 h key < 512"
  by (simp add: bucket1_def)

lemma and_511: "(n :: nat) AND 511 = take_bit 9 n"
  by (simp add: take_bit_eq_mask mask_eq_exp_minus_1)

lemma and_511_less: "(n :: nat) AND 511 < 512"
  using take_bit_nat_less_exp[of 9 n] by (simp add: and_511)

lemma bucket2_less: "bucket2 h b fp < 512"
  by (simp add: bucket2_def Let_def and_511_less)

text \<open>The second bucket of the second bucket is the first one: this is what lets a kicked fingerprint move
  without its key.\<close>

lemma bucket2_involution: "b < 512 \<Longrightarrow> bucket2 h (bucket2 h b fp) fp = b"
  by (simp add: bucket2_def and_511 Let_def take_bit_nat_eq_self xor.assoc)

lemma fingerprint_nonzero: "fingerprint h key \<noteq> 0"
  by (simp add: fingerprint_def Let_def)

section \<open>The multiset of entries\<close>

definition canon :: "(bytes \<Rightarrow> bytes) \<Rightarrow> nat \<Rightarrow> u16 \<Rightarrow> nat \<times> u16" where
  "canon h b fp = (min b (bucket2 h b fp), fp)"

definition bucket_entries :: "(bytes \<Rightarrow> bytes) \<Rightarrow> nat \<Rightarrow> u16 list \<Rightarrow> (nat \<times> u16) multiset" where
  "bucket_entries h i b = image_mset (canon h i) (filter_mset (\<lambda>v. v \<noteq> 0) (mset b))"

definition entries :: "(bytes \<Rightarrow> bytes) \<Rightarrow> u16 list list \<Rightarrow> (nat \<times> u16) multiset" where
  "entries h bs = (\<Sum>i < length bs. bucket_entries h i (bs ! i))"

definition entry_of :: "(bytes \<Rightarrow> bytes) \<Rightarrow> bytes \<Rightarrow> nat \<times> u16" where
  "entry_of h key = canon h (bucket1 h key) (fingerprint h key)"

text \<open>The shape of the table, and a count that is right.\<close>

definition wf_buckets :: "u16 list list \<Rightarrow> bool" where
  "wf_buckets bs \<longleftrightarrow> length bs = 512 \<and> (\<forall>b \<in> set bs. length b = 4)"

definition cuckoo_inv :: "(bytes \<Rightarrow> bytes) \<Rightarrow> CuckooFilter \<Rightarrow> bool" where
  "cuckoo_inv h f \<longleftrightarrow> wf_buckets (cf_buckets f) \<and> cf_count f = size (entries h (cf_buckets f))"

lemma canon_bucket2: "b < 512 \<Longrightarrow> canon h (bucket2 h b fp) fp = canon h b fp"
  by (simp add: canon_def bucket2_involution min.commute)

lemma wf_update: "wf_buckets bs \<Longrightarrow> length b = 4 \<Longrightarrow> wf_buckets (bs[i := b])"
  using set_update_subset_insert[of bs i b] by (auto simp: wf_buckets_def)

lemma wf_nth: "wf_buckets bs \<Longrightarrow> i < 512 \<Longrightarrow> length (bs ! i) = 4"
  by (simp add: wf_buckets_def)

lemma entries_update:
  assumes "i < length bs"
  shows "entries h (bs[i := b]) + bucket_entries h i (bs ! i) = entries h bs + bucket_entries h i b"
proof -
  have *: "entries h cs = (\<Sum>k \<in> {..<length bs} - {i}. bucket_entries h k (cs ! k)) + bucket_entries h i (cs ! i)"
    if "length cs = length bs" for cs
    using assms that by (simp add: entries_def sum.remove[of "{..<length bs}" i] add.commute)
  have "(\<Sum>k \<in> {..<length bs} - {i}. bucket_entries h k (bs[i := b] ! k)) =
        (\<Sum>k \<in> {..<length bs} - {i}. bucket_entries h k (bs ! k))"
    by (rule sum.cong) auto
  then show ?thesis using *[of bs] *[of "bs[i := b]"] assms by (simp add: union_ac)
qed

lemma entries_member:
  "(p, fp) \<in># entries h bs \<longleftrightarrow> fp \<noteq> 0 \<and> (\<exists>i < length bs. fp \<in> set (bs ! i) \<and> canon h i fp = (p, fp))"
  by (auto simp: entries_def bucket_entries_def canon_def set_mset_sum)

lemma canon_same:
  assumes "i < 512" "k < 512"
  shows "canon h k fp = canon h i fp \<longleftrightarrow> k = i \<or> k = bucket2 h i fp"
proof
  assume "canon h k fp = canon h i fp"
  then have "min k (bucket2 h k fp) = min i (bucket2 h i fp)" by (simp add: canon_def)
  then consider "k = i" | "k = bucket2 h i fp" | "bucket2 h k fp = i" | "bucket2 h k fp = bucket2 h i fp"
    by (auto simp: min_def split: if_splits)
  then show "k = i \<or> k = bucket2 h i fp"
  proof cases
    case 3
    then show ?thesis using bucket2_involution[OF assms(2), of h fp] by auto
  next
    case 4
    then show ?thesis using bucket2_involution[OF assms(1), of h fp] bucket2_involution[OF assms(2), of h fp] by metis
  qed auto
qed (use canon_bucket2[OF assms(1), of h fp] in auto)

lemma canon_member:
  assumes "length bs = 512" "i < 512" "fp \<noteq> 0"
  shows "canon h i fp \<in># entries h bs \<longleftrightarrow> fp \<in> set (bs ! i) \<or> fp \<in> set (bs ! bucket2 h i fp)"
proof -
  have "canon h i fp \<in># entries h bs \<longleftrightarrow> (\<exists>k < 512. fp \<in> set (bs ! k) \<and> canon h k fp = canon h i fp)"
    using entries_member[of "fst (canon h i fp)" fp h bs] assms by (simp add: canon_def)
  also have "\<dots> \<longleftrightarrow> (\<exists>k < 512. fp \<in> set (bs ! k) \<and> (k = i \<or> k = bucket2 h i fp))"
    using canon_same[OF assms(2)] by blast
  also have "\<dots> \<longleftrightarrow> fp \<in> set (bs ! i) \<or> fp \<in> set (bs ! bucket2 h i fp)"
    using assms(2) bucket2_less[of h i fp] by blast
  finally show ?thesis .
qed

subsection \<open>Slots\<close>

lemma insert_slot_Some:
  "insert_slot b fp = Some b' \<Longrightarrow> fp \<noteq> 0 \<Longrightarrow>
     bucket_entries h i b' = add_mset (canon h i fp) (bucket_entries h i b) \<and> length b' = length b"
proof (induction b arbitrary: b')
  case (Cons s ss)
  then show ?case by (auto simp: bucket_entries_def split: if_splits)
qed simp

lemma insert_slot_None: "insert_slot b fp = None \<longleftrightarrow> 0 \<notin> set b"
  by (induction b) auto

lemma remove_slot_Some:
  "remove_slot b fp = Some b' \<Longrightarrow> fp \<noteq> 0 \<Longrightarrow>
     bucket_entries h i b = add_mset (canon h i fp) (bucket_entries h i b') \<and> length b' = length b"
proof (induction b arbitrary: b')
  case (Cons s ss)
  then show ?case by (auto simp: bucket_entries_def split: if_splits)
qed simp

lemma remove_slot_None: "remove_slot b fp = None \<longleftrightarrow> fp \<notin> set b"
  by (induction b) auto

lemma swap_slot:
  assumes "k < length b" "b ! k \<noteq> 0" "fp \<noteq> 0"
  shows "add_mset (canon h i (b ! k)) (bucket_entries h i (b[k := fp])) = add_mset (canon h i fp) (bucket_entries h i b)"
proof -
  have "mset (b[k := fp]) + {#b ! k#} = mset b + {#fp#}"
    using assms(1) by (simp add: mset_update)
  then have "filter_mset (\<lambda>v. v \<noteq> 0) (mset (b[k := fp]) + {#b ! k#}) = filter_mset (\<lambda>v. v \<noteq> 0) (mset b + {#fp#})"
    by simp
  then have "add_mset (b ! k) (filter_mset (\<lambda>v. v \<noteq> 0) (mset (b[k := fp]))) =
      add_mset fp (filter_mset (\<lambda>v. v \<noteq> 0) (mset b))"
    using assms(2,3) by simp
  from arg_cong[OF this, of "image_mset (canon h i)"] show ?thesis by (simp add: bucket_entries_def)
qed

lemma entries_insert:
  assumes "insert_slot (bs ! i) fp = Some b" "fp \<noteq> 0" "i < length bs"
  shows "entries h (bs[i := b]) = add_mset (canon h i fp) (entries h bs)"
  using entries_update[OF assms(3), of h b] insert_slot_Some[OF assms(1,2), of h i] by simp

lemma entries_remove:
  assumes "remove_slot (bs ! i) fp = Some b" "fp \<noteq> 0" "i < length bs"
  shows "entries h bs = add_mset (canon h i fp) (entries h (bs[i := b]))"
  using entries_update[OF assms(3), of h b] remove_slot_Some[OF assms(1,2), of h i] by simp

lemma entries_swap:
  assumes "k < length (bs ! i)" "bs ! i ! k \<noteq> 0" "fp \<noteq> 0" "i < length bs"
  shows "add_mset (canon h i (bs ! i ! k)) (entries h (bs[i := (bs ! i)[k := fp]])) = add_mset (canon h i fp) (entries h bs)"
proof -
  let ?B = "\<lambda>b. bucket_entries h i b" and ?b' = "(bs ! i)[k := fp]"
  have "add_mset (canon h i (bs ! i ! k)) (entries h (bs[i := ?b'])) + ?B (bs ! i) =
        entries h bs + add_mset (canon h i (bs ! i ! k)) (?B ?b')"
    using entries_update[OF assms(4), of h ?b'] by simp
  also have "\<dots> = add_mset (canon h i fp) (entries h bs) + ?B (bs ! i)"
    using swap_slot[OF assms(1-3), of h i] by simp
  finally show ?thesis by simp
qed

subsection \<open>The kick cascade\<close>

text \<open>\<open>N\<close> is \<open>M\<close> with \<open>x\<close> put in and one entry, perhaps \<open>x\<close> itself, dropped.\<close>

definition exchanged :: "'a multiset \<Rightarrow> 'a \<Rightarrow> 'a multiset \<Rightarrow> bool" where
  "exchanged M x N \<longleftrightarrow> (\<exists>lost. add_mset lost N = add_mset x M)"

lemma exchanged_size: "exchanged M x N \<Longrightarrow> size N = size M"
  unfolding exchanged_def by (metis size_add_mset nat.inject)

lemma exchanged_subset: "exchanged M x N \<Longrightarrow> set_mset N \<subseteq> insert x (set_mset M)"
  unfolding exchanged_def by (metis set_mset_add_mset_insert subset_insertI)

text \<open>A cascade started in a full bucket adds the new entry and loses at most one: the one in hand when the draws
  run out.\<close>

lemma kick_entries:
  assumes "kick h slots bs cur fp = (ok, bs')" "wf_buckets bs" "cur < 512" "fp \<noteq> 0" "0 \<notin> set (bs ! cur)"
    "\<forall>s \<in> set slots. s < 4"
  shows "wf_buckets bs' \<and>
    (if ok then entries h bs' = add_mset (canon h cur fp) (entries h bs)
     else exchanged (entries h bs) (canon h cur fp) (entries h bs'))"
  using assms
proof (induction slots arbitrary: bs cur fp)
  case Nil
  then show ?case by (auto simp: exchanged_def)
next
  case (Cons slot slots)
  define old where "old = bs ! cur ! slot"
  define bs1 where "bs1 = bs[cur := (bs ! cur)[slot := fp]]"
  define alt where "alt = bucket2 h cur old"
  have len: "length bs = 512" "length (bs ! cur) = 4" using Cons.prems(2,3) by (simp_all add: wf_buckets_def)
  have old: "old \<noteq> 0" using Cons.prems(5,6) len unfolding old_def by (metis list.set_intros(1) nth_mem)
  have wf1: "wf_buckets bs1" unfolding bs1_def using Cons.prems(2) len by (intro wf_update) auto
  have alt: "alt < 512" "canon h alt old = canon h cur old"
    using Cons.prems(3) by (simp_all add: alt_def bucket2_less canon_bucket2)
  have swap: "add_mset (canon h cur old) (entries h bs1) = add_mset (canon h cur fp) (entries h bs)"
    unfolding old_def bs1_def using Cons.prems(3,4,6) len old by (intro entries_swap) (auto simp: old_def)
  show ?case
  proof (cases "insert_slot (bs1 ! alt) old")
    case (Some b)
    then have r: "ok" "bs' = bs1[alt := b]"
      using Cons.prems(1) by (simp_all add: old_def bs1_def alt_def Let_def)
    have "entries h bs' = add_mset (canon h alt old) (entries h bs1)"
      unfolding r using Some old alt(1) wf1 by (intro entries_insert) (simp_all add: wf_buckets_def)
    moreover have "wf_buckets bs'"
      unfolding r using insert_slot_Some[OF Some old] wf1 alt(1) by (intro wf_update) (simp_all add: wf_nth)
    ultimately show ?thesis using r swap alt(2) by simp
  next
    case None
    then have "kick h slots bs1 alt old = (ok, bs')"
      using Cons.prems(1) by (simp add: old_def bs1_def alt_def Let_def)
    from Cons.IH[OF this wf1 alt(1) old] None Cons.prems(6) show ?thesis
      using swap alt(2) by (simp add: insert_slot_None exchanged_def cong: if_cong)
  qed
qed

section \<open>Refinement to the multiset\<close>

lemma entry_of_other_bucket: "canon h (bucket2 h (bucket1 h key) (fingerprint h key)) (fingerprint h key) = entry_of h key"
  by (simp add: entry_of_def canon_bucket2 bucket1_less)

text \<open>The two ways in which an insertion ends: in a free slot, or in the eviction loop.\<close>

lemma insert_direct:
  assumes "cuckoo_inv h f" "insert_slot (cf_buckets f ! i) fp = Some b" "i < 512" "fp \<noteq> 0" "canon h i fp = e"
  shows "cuckoo_inv h (f\<lparr>cf_buckets := (cf_buckets f)[i := b], cf_count := cf_count f + 1\<rparr>)"
    "entries h ((cf_buckets f)[i := b]) = add_mset e (entries h (cf_buckets f))"
proof -
  have wf: "wf_buckets (cf_buckets f)" "length (cf_buckets f) = 512" and cnt: "cf_count f = size (entries h (cf_buckets f))"
    using assms(1) by (simp_all add: cuckoo_inv_def wf_buckets_def)
  show e: "entries h ((cf_buckets f)[i := b]) = add_mset e (entries h (cf_buckets f))"
    using entries_insert[OF assms(2,4)] wf(2) assms(3,5) by simp
  have "wf_buckets ((cf_buckets f)[i := b])"
    using insert_slot_Some[OF assms(2,4)] wf assms(3) by (intro wf_update) (simp_all add: wf_nth)
  then show "cuckoo_inv h (f\<lparr>cf_buckets := (cf_buckets f)[i := b], cf_count := cf_count f + 1\<rparr>)" using cnt e by (simp add: cuckoo_inv_def)
qed

lemma insert_kicking:
  assumes "cuckoo_inv h f" "kick h ss (cf_buckets f) i fp = (ok, bs)" "i < 512" "fp \<noteq> 0" "canon h i fp = e"
    "insert_slot (cf_buckets f ! i) fp = None" "\<forall>s \<in> set ss. s < 4"
  shows "cuckoo_inv h (f\<lparr>cf_buckets := bs, cf_count := cf_count f + (if ok then 1 else 0)\<rparr>)"
    "if ok then entries h bs = add_mset e (entries h (cf_buckets f)) else exchanged (entries h (cf_buckets f)) e (entries h bs)"
proof -
  have wf: "wf_buckets (cf_buckets f)" and cnt: "cf_count f = size (entries h (cf_buckets f))"
    using assms(1) by (simp_all add: cuckoo_inv_def)
  have full: "0 \<notin> set (cf_buckets f ! i)" using assms(6) by (simp add: insert_slot_None)
  note k = kick_entries[OF assms(2) wf assms(3,4) full assms(7), unfolded assms(5)]
  show e: "if ok then entries h bs = add_mset e (entries h (cf_buckets f)) else exchanged (entries h (cf_buckets f)) e (entries h bs)" using k by blast
  have "size (entries h bs) = size (entries h (cf_buckets f)) + (if ok then 1 else 0)" using e by (auto dest: exchanged_size split: if_splits)
  then show "cuckoo_inv h (f\<lparr>cf_buckets := bs, cf_count := cf_count f + (if ok then 1 else 0)\<rparr>)" using k cnt by (simp add: cuckoo_inv_def)
qed

lemma cuckoo_add_entries:
  assumes inv: "cuckoo_inv h f" and slots: "\<forall>n. slots n < 4" and r: "cuckoo_add h coin slots key f = (ok, f')"
  shows "cuckoo_inv h f' \<and>
    (if ok then entries h (cf_buckets f') = add_mset (entry_of h key) (entries h (cf_buckets f))
     else exchanged (entries h (cf_buckets f)) (entry_of h key) (entries h (cf_buckets f')))"
proof -
  let ?bs = "cf_buckets f" and ?fp = "fingerprint h key" and ?b1 = "bucket1 h key"
  let ?b2 = "bucket2 h ?b1 ?fp" let ?start = "if coin then ?b1 else ?b2"
  note direct = insert_direct[OF inv _ _ fingerprint_nonzero]
  have c1: "canon h ?b1 ?fp = entry_of h key" by (simp add: entry_of_def)
  consider (one) b where "insert_slot (?bs ! ?b1) ?fp = Some b"
    | (two) b where "insert_slot (?bs ! ?b1) ?fp = None" "insert_slot (?bs ! ?b2) ?fp = Some b"
    | (full) "insert_slot (?bs ! ?b1) ?fp = None" "insert_slot (?bs ! ?b2) ?fp = None"
    by (cases "insert_slot (?bs ! ?b1) ?fp"; cases "insert_slot (?bs ! ?b2) ?fp") auto
  then show ?thesis
  proof cases
    case one
    then show ?thesis using r direct[OF one bucket1_less c1] by (auto simp: cuckoo_add_def Let_def)
  next
    case two
    then show ?thesis using r direct[OF two(2) bucket2_less entry_of_other_bucket] by (auto simp: cuckoo_add_def Let_def)
  next
    case full
    obtain ok' bs' where k: "kick h (map slots [0..<MAX_KICKS]) ?bs ?start ?fp = (ok', bs')" by force
    have start: "?start < 512" "canon h ?start ?fp = entry_of h key" "insert_slot (?bs ! ?start) ?fp = None"
      using c1 full by (simp_all add: bucket1_less bucket2_less entry_of_other_bucket)
    have "\<forall>s \<in> set (map slots [0..<MAX_KICKS]). s < 4" using slots by simp
    note kicked = insert_kicking[OF inv k start(1) fingerprint_nonzero start(2,3) this]
    have "ok = ok'" "f' = f\<lparr>cf_buckets := bs', cf_count := cf_count f + (if ok' then 1 else 0)\<rparr>"
      using r full k by (auto simp: cuckoo_add_def Let_def)
    then show ?thesis using kicked by simp
  qed
qed

lemma contains_entry:
  "wf_buckets (cf_buckets f) \<Longrightarrow> cuckoo_contains h key f \<longleftrightarrow> entry_of h key \<in># entries h (cf_buckets f)"
  using canon_member[of "cf_buckets f" "bucket1 h key" "fingerprint h key" h] bucket1_less fingerprint_nonzero
  by (simp add: wf_buckets_def cuckoo_contains_def contains_slot_def Let_def entry_of_def)

lemma cuckoo_remove_entries:
  assumes inv: "cuckoo_inv h f" and r: "cuckoo_remove h key f = (ok, f')"
  shows "cuckoo_inv h f'" "ok \<longleftrightarrow> cuckoo_contains h key f"
    "entries h (cf_buckets f') = entries h (cf_buckets f) - {#entry_of h key#}"
proof -
  let ?bs = "cf_buckets f" and ?fp = "fingerprint h key" and ?b1 = "bucket1 h key"
  let ?b2 = "bucket2 h ?b1 ?fp"
  have wf: "wf_buckets ?bs" "length ?bs = 512" and cnt: "cf_count f = size (entries h ?bs)"
    using inv by (simp_all add: cuckoo_inv_def wf_buckets_def)
  have direct: "cuckoo_inv h (f\<lparr>cf_buckets := ?bs[i := b], cf_count := cf_count f - 1\<rparr>)"
      "entries h (?bs[i := b]) = entries h ?bs - {#entry_of h key#}"
    if "remove_slot (?bs ! i) ?fp = Some b" "i < 512" "canon h i ?fp = entry_of h key" for i b
  proof -
    have e: "entries h ?bs = add_mset (entry_of h key) (entries h (?bs[i := b]))"
      using entries_remove[OF that(1) fingerprint_nonzero] wf(2) that(2,3) by simp
    have "wf_buckets (?bs[i := b])"
      using remove_slot_Some[OF that(1) fingerprint_nonzero] wf that(2) by (intro wf_update) (simp_all add: wf_nth)
    then show "cuckoo_inv h (f\<lparr>cf_buckets := ?bs[i := b], cf_count := cf_count f - 1\<rparr>)"
      using cnt e by (simp add: cuckoo_inv_def)
    show "entries h (?bs[i := b]) = entries h ?bs - {#entry_of h key#}" using e by simp
  qed
  have found: "(\<exists>b. remove_slot (?bs ! i) ?fp = Some b) \<longleftrightarrow> ?fp \<in> set (?bs ! i)" for i
    using remove_slot_None[of "?bs ! i" ?fp] by (metis not_Some_eq)
  show ok: "ok \<longleftrightarrow> cuckoo_contains h key f"
    using r found[of ?b1] found[of ?b2]
    by (auto simp: cuckoo_remove_def cuckoo_contains_def contains_slot_def Let_def split: option.splits)
  show "cuckoo_inv h f'"
    using r inv direct(1)[OF _ bucket1_less] direct(1)[OF _ bucket2_less entry_of_other_bucket]
    by (auto simp: cuckoo_remove_def entry_of_def Let_def split: option.splits)
  show "entries h (cf_buckets f') = entries h ?bs - {#entry_of h key#}"
  proof (cases ok)
    case True
    then show ?thesis
      using r direct(2)[OF _ bucket1_less] direct(2)[OF _ bucket2_less entry_of_other_bucket]
      by (auto simp: cuckoo_remove_def entry_of_def Let_def split: option.splits)
  next
    case False
    then have "entry_of h key \<notin># entries h ?bs" using ok contains_entry[OF wf(1)] by simp
    moreover have "f' = f" using False r by (auto simp: cuckoo_remove_def Let_def split: option.splits)
    ultimately show ?thesis by (simp add: diff_single_trivial)
  qed
qed

text \<open>Merging one fingerprint: nothing if it is there, otherwise one more entry or one entry exchanged.\<close>

lemma merge_one_entries:
  assumes inv: "cuckoo_inv h f" and i: "i < 512" and slots: "\<forall>n. slots n < 4" and fp: "fp \<noteq> 0"
    and f': "f' = merge_one h slots i fp f"
  shows "cuckoo_inv h f' \<and>
    (if canon h i fp \<in># entries h (cf_buckets f) then f' = f
     else entries h (cf_buckets f') = add_mset (canon h i fp) (entries h (cf_buckets f)) \<or>
          exchanged (entries h (cf_buckets f)) (canon h i fp) (entries h (cf_buckets f')))"
proof -
  let ?bs = "cf_buckets f" and ?alt = "bucket2 h i fp"
  have wf: "wf_buckets ?bs" "length ?bs = 512" and cnt: "cf_count f = size (entries h ?bs)"
    using inv by (simp_all add: cuckoo_inv_def wf_buckets_def)
  have alt: "?alt < 512" "canon h ?alt fp = canon h i fp" using i by (simp_all add: bucket2_less canon_bucket2)
  have present: "fp \<in> set (?bs ! i) \<or> fp \<in> set (?bs ! ?alt) \<longleftrightarrow> canon h i fp \<in># entries h ?bs"
    using canon_member[OF wf(2) i fp] by simp
  note direct = insert_direct[OF inv _ _ fp]
  consider (dup) "fp \<in> set (?bs ! i) \<or> fp \<in> set (?bs ! ?alt)"
    | (one) b where "\<not> (fp \<in> set (?bs ! i) \<or> fp \<in> set (?bs ! ?alt))" "insert_slot (?bs ! i) fp = Some b"
    | (two) b where "\<not> (fp \<in> set (?bs ! i) \<or> fp \<in> set (?bs ! ?alt))" "insert_slot (?bs ! i) fp = None"
        "insert_slot (?bs ! ?alt) fp = Some b"
    | (full) "\<not> (fp \<in> set (?bs ! i) \<or> fp \<in> set (?bs ! ?alt))" "insert_slot (?bs ! i) fp = None"
        "insert_slot (?bs ! ?alt) fp = None"
    by (cases "insert_slot (?bs ! i) fp"; cases "insert_slot (?bs ! ?alt) fp") auto
  then show ?thesis
  proof cases
    case dup
    then show ?thesis using f' fp inv present by (simp add: merge_one_def contains_slot_def)
  next
    case one
    then show ?thesis using f' fp direct[OF one(2) i HOL.refl] present by (simp add: merge_one_def contains_slot_def)
  next
    case two
    then show ?thesis using f' fp direct[OF two(3) alt] present by (simp add: merge_one_def contains_slot_def)
  next
    case full
    obtain ok bs' where k: "kick h (map slots [0..<32]) ?bs i fp = (ok, bs')" by force
    have f'': "f' = f\<lparr>cf_buckets := bs', cf_count := cf_count f + (if ok then 1 else 0)\<rparr>"
      using full k f' fp by (simp add: merge_one_def contains_slot_def)
    have "\<forall>s \<in> set (map slots [0..<32]). s < 4" using slots by simp
    note kicked = insert_kicking[OF inv k i fp HOL.refl full(2) this]
    then show ?thesis using full(1) present by (auto simp: f'' split: if_splits)
  qed
qed

definition draws_ok :: "(nat \<Rightarrow> nat \<Rightarrow> nat \<Rightarrow> nat) \<Rightarrow> bool" where
  "draws_ok draws \<longleftrightarrow> (\<forall>i j n. draws i j n < 4)"

text \<open>A merge invents nothing, keeps the invariant, and never shrinks the filter.\<close>

lemma merge_fold:
  assumes "cuckoo_inv h f" "draws_ok draws" "wf_buckets (cf_buckets other)" "\<forall>(i, j) \<in> set ijs. i < 512 \<and> j < 4"
    and "f' = fold (\<lambda>(i, j) f. merge_one h (draws i j) i (cf_buckets other ! i ! j) f) ijs f"
  shows "cuckoo_inv h f' \<and> size (entries h (cf_buckets f)) \<le> size (entries h (cf_buckets f')) \<and>
    set_mset (entries h (cf_buckets f')) \<subseteq> set_mset (entries h (cf_buckets f)) \<union> set_mset (entries h (cf_buckets other))"
  using assms
proof (induction ijs arbitrary: f)
  case (Cons ij ijs)
  obtain i j where ij: "ij = (i, j)" by force
  define fp where "fp = cf_buckets other ! i ! j"
  define f1 where "f1 = merge_one h (draws i j) i fp f"
  have ij': "i < 512" "j < 4" using Cons.prems(4) ij by auto
  have step: "cuckoo_inv h f1 \<and> size (entries h (cf_buckets f)) \<le> size (entries h (cf_buckets f1)) \<and>
    set_mset (entries h (cf_buckets f1)) \<subseteq> set_mset (entries h (cf_buckets f)) \<union> set_mset (entries h (cf_buckets other))"
  proof (cases "fp = 0")
    case True
    then show ?thesis using Cons.prems(1) by (simp add: f1_def merge_one_def)
  next
    case False
    have "canon h i fp \<in># entries h (cf_buckets other)"
      using canon_member[of "cf_buckets other" i fp h] Cons.prems(3) ij' False
      by (simp add: wf_buckets_def fp_def)
    moreover have "\<forall>n. draws i j n < 4" using Cons.prems(2) by (simp add: draws_ok_def)
    ultimately show ?thesis
      using merge_one_entries[OF Cons.prems(1) ij'(1) _ False f1_def]
      by (fastforce dest: exchanged_size exchanged_subset split: if_splits)
  qed
  have "f' = fold (\<lambda>(i, j) f. merge_one h (draws i j) i (cf_buckets other ! i ! j) f) ijs f1"
    using Cons.prems(5) by (simp add: ij f1_def fp_def)
  with Cons.IH[of f1] step Cons.prems(2,3,4) show ?case by auto
qed simp

lemma cuckoo_merge_entries:
  assumes "cuckoo_inv h f" "draws_ok draws" "wf_buckets (cf_buckets other)"
  shows "cuckoo_inv h (cuckoo_merge h draws f other)"
    "size (entries h (cf_buckets f)) \<le> size (entries h (cf_buckets (cuckoo_merge h draws f other)))"
    "set_mset (entries h (cf_buckets (cuckoo_merge h draws f other))) \<subseteq>
       set_mset (entries h (cf_buckets f)) \<union> set_mset (entries h (cf_buckets other))"
  using merge_fold[OF assms, of "List.product [0..<512] [0..<4]" "cuckoo_merge h draws f other"]
  by (auto simp: cuckoo_merge_def)

lemma entries_empty: "entries h (replicate 512 (replicate 4 0)) = {#}"
proof -
  have "filter_mset (\<lambda>v. v \<noteq> 0) (mset (replicate 4 (0 :: u16))) = {#}" by (auto simp: filter_mset_eq_mempty_iff)
  then have "bucket_entries h i (replicate 4 0) = {#}" for i by (simp only: bucket_entries_def image_mset_empty)
  then show ?thesis by (simp add: entries_def)
qed

lemma cuckoo_inv_new: "cuckoo_inv h CuckooFilter_new"
  by (simp add: cuckoo_inv_def wf_buckets_def CuckooFilter_new_def entries_empty)

section \<open>The contract of a filter\<close>

text \<open>A filter over entries: keys with equal entries are not told apart, an insertion that reports success adds
  the entry, and a removal takes one occurrence. \<open>'c\<close> are the random draws of an insertion.\<close>

locale multiset_filter =
  fixes abs :: "'f \<Rightarrow> 'e multiset" and inv :: "'f \<Rightarrow> bool" and entry :: "'k \<Rightarrow> 'e" and draws :: "'c \<Rightarrow> bool"
    and add :: "'c \<Rightarrow> 'k \<Rightarrow> 'f \<Rightarrow> bool \<times> 'f" and remove :: "'k \<Rightarrow> 'f \<Rightarrow> bool \<times> 'f" and contains :: "'k \<Rightarrow> 'f \<Rightarrow> bool"
  assumes contains_abs: "inv f \<Longrightarrow> contains k f \<longleftrightarrow> entry k \<in># abs f"
    and add_inv: "inv f \<Longrightarrow> draws c \<Longrightarrow> inv (snd (add c k f))"
    and add_abs: "inv f \<Longrightarrow> draws c \<Longrightarrow> fst (add c k f) \<Longrightarrow> abs (snd (add c k f)) = add_mset (entry k) (abs f)"
    and remove_inv: "inv f \<Longrightarrow> inv (snd (remove k f))"
    and remove_abs: "inv f \<Longrightarrow> abs (snd (remove k f)) = abs f - {#entry k#}"
begin

fun add_all :: "('c \<times> 'k) list \<Rightarrow> 'f \<Rightarrow> bool \<times> 'f" where
  "add_all [] f = (True, f)"
| "add_all ((c, k) # cks) f = (let (ok, f) = add c k f; (oks, f) = add_all cks f in (ok \<and> oks, f))"

lemma add_all_abs:
  "inv f \<Longrightarrow> \<forall>(c, k) \<in> set cks. draws c \<Longrightarrow> fst (add_all cks f) \<Longrightarrow>
     inv (snd (add_all cks f)) \<and> abs (snd (add_all cks f)) = abs f + mset (map (entry \<circ> snd) cks)"
proof (induction cks arbitrary: f)
  case (Cons ck cks)
  obtain c k where ck: "ck = (c, k)" by force
  obtain ok f1 where a: "add c k f = (ok, f1)" by force
  obtain oks f2 where b: "add_all cks f1 = (oks, f2)" by force
  have "ok" "oks" using Cons.prems(3) ck a b by simp_all
  then have "inv f1" "abs f1 = add_mset (entry k) (abs f)"
    using add_inv[OF Cons.prems(1), of c k] add_abs[OF Cons.prems(1), of c k] Cons.prems(2) ck a by auto
  then show ?case using Cons.IH[of f1] Cons.prems(2) ck a b \<open>oks\<close> by auto
qed simp

text \<open>No false negatives.\<close>

lemma add_all_contains:
  assumes "inv f" "\<forall>(c, k) \<in> set cks. draws c" "fst (add_all cks f)" "k \<in> snd ` set cks \<or> contains k f"
  shows "contains k (snd (add_all cks f))"
  using add_all_abs[OF assms(1-3)] assms(1,4) contains_abs[of f k] contains_abs[of "snd (add_all cks f)" k]
  by (auto simp: image_image)

lemma remove_other:
  "inv f \<Longrightarrow> contains k f \<Longrightarrow> entry k \<noteq> entry k' \<Longrightarrow> contains k (snd (remove k' f))"
  using contains_abs[of f k] contains_abs[OF remove_inv, of f k k'] remove_abs[of f k']
  by (simp add: in_diff_count)

lemma remove_add:
  "inv f \<Longrightarrow> draws c \<Longrightarrow> fst (add c k f) \<Longrightarrow> abs (snd (remove k (snd (add c k f)))) = abs f"
  using add_inv[of f c k] add_abs[of f c k] remove_abs[of "snd (add c k f)" k] by simp

end

interpretation cf: multiset_filter "\<lambda>f. entries h (cf_buckets f)" "cuckoo_inv h" "entry_of h"
  "\<lambda>(coin :: bool, slots). \<forall>n. slots n < 4" "\<lambda>(coin, slots). cuckoo_add h coin slots" "cuckoo_remove h" "cuckoo_contains h" for h
proof (unfold_locales, goal_cases)
  case (1 f k)
  then show ?case by (simp add: contains_entry cuckoo_inv_def)
next
  case (2 f c k)
  then show ?case
    using cuckoo_add_entries[OF _ _ prod.collapse[symmetric], of h f "snd c" "fst c" k] by (cases c) simp
next
  case (3 f c k)
  then show ?case
    using cuckoo_add_entries[OF _ _ prod.collapse[symmetric], of h f "snd c" "fst c" k] by (cases c) simp
next
  case (4 f k)
  then show ?case using cuckoo_remove_entries(1)[of h f k] by (cases "cuckoo_remove h k f") simp
next
  case (5 f k)
  then show ?case using cuckoo_remove_entries(3)[of h f k] by (cases "cuckoo_remove h k f") simp
qed

section \<open>Wire form\<close>

lemma cuckoo_encode_flat: "cuckoo_encode f = concat (map (le_bytes 2) (concat (cf_buckets f)))"
proof -
  have "concat (map (\<lambda>b. concat (map g b)) bs) = concat (map g (concat bs))" for g :: "u16 \<Rightarrow> bytes" and bs
    by (induction bs) simp_all
  then show ?thesis by (simp add: cuckoo_encode_def)
qed

lemma decode_buckets:
  "cf_buckets (cuckoo_decode data) = map (\<lambda>i. map (\<lambda>j. from_le (take 2 (drop ((i * 4 + j) * 2) data))) [0..<4]) [0..<512]"
  by (simp add: cuckoo_decode_def Let_def)

lemma cuckoo_decode_buckets_encode:
  assumes "wf_buckets (cf_buckets f)"
  shows "cf_buckets (cuckoo_decode (cuckoo_encode f)) = cf_buckets f"
proof (rule nth_equalityI)
  let ?bs = "cf_buckets f"
  have wf: "length ?bs = 512" "\<forall>b \<in> set ?bs. length b = 4" using assms by (simp_all add: wf_buckets_def)
  have len: "length (concat ?bs) = 2048"
    using wf by (simp add: length_concat sum_list_triv cong: map_cong)
  show "length (cf_buckets (cuckoo_decode (cuckoo_encode f))) = length ?bs" using wf by (simp add: decode_buckets)
  fix i assume "i < length (cf_buckets (cuckoo_decode (cuckoo_encode f)))"
  then have i: "i < 512" by (simp add: decode_buckets)
  have row: "take 4 (drop (i * 4) (concat ?bs)) = ?bs ! i" using take_drop_concat[OF wf(2), of i] i wf by simp
  have "from_le (take 2 (drop ((i * 4 + j) * 2) (cuckoo_encode f))) = ?bs ! i ! j" if j: "j < 4" for j
  proof -
    have "take 2 (drop ((i * 4 + j) * 2) (cuckoo_encode f)) = map (le_bytes 2) (concat ?bs) ! (i * 4 + j)"
      unfolding cuckoo_encode_flat using i j len by (intro take_drop_concat) auto
    moreover have "concat ?bs ! (i * 4 + j) = ?bs ! i ! j"
      using arg_cong[OF row, of "\<lambda>xs. xs ! j"] i j len by simp
    ultimately show ?thesis using i j len by (simp add: from_le_le_bytes)
  qed
  then show "cf_buckets (cuckoo_decode (cuckoo_encode f)) ! i = ?bs ! i"
    using i wf by (intro nth_equalityI) (simp_all add: decode_buckets wf_nth assms)
qed

lemma cuckoo_encode_decode: "length data = 4096 \<Longrightarrow> cuckoo_encode (cuckoo_decode data) = data"
proof -
  assume len: "length data = 4096"
  let ?c = "\<lambda>n. take 2 (drop (n * 2) data)"
  have "cuckoo_encode (cuckoo_decode data) = concat (map (\<lambda>n. le_bytes 2 (from_le (?c n) :: u16)) [0..<512 * 4])"
    unfolding cuckoo_encode_flat decode_buckets using concat_map_upt[of "\<lambda>n. from_le (?c n) :: u16" 4 512]
    by (simp add: comp_def)
  also have "\<dots> = concat (map ?c [0..<2048])"
  proof (rule arg_cong[of _ _ concat], rule map_cong)
    fix n assume "n \<in> set [0..<2048]"
    then have "length (?c n) = 2" using len by auto
    then show "le_bytes 2 (from_le (?c n) :: u16) = ?c n" using le_bytes_from_le[of "?c n", where 'a = 16] by simp
  qed simp
  also have "\<dots> = data" using concat_take_drop[of 2 data 2048] len by simp
  finally show ?thesis .
qed

lemma size_sum_mset: "finite A \<Longrightarrow> size (sum f A :: 'b multiset) = (\<Sum>a \<in> A. size (f a))"
  by (induction A rule: finite_induct) simp_all

lemma length_filter_mset: "size (filter_mset P (mset xs)) = length (filter P xs)"
  by (simp flip: mset_filter)

lemma size_entries: "size (entries h bs) = length (filter (\<lambda>v. v \<noteq> 0) (concat bs))"
proof -
  have "size (entries h bs) = (\<Sum>i < length bs. length (filter (\<lambda>v. v \<noteq> 0) (bs ! i)))"
    by (simp add: entries_def bucket_entries_def size_sum_mset length_filter_mset)
  also have "\<dots> = length (filter (\<lambda>v. v \<noteq> 0) (concat bs))"
    by (simp add: filter_concat length_concat sum_list_sum_nth atLeast0LessThan comp_def)
  finally show ?thesis .
qed

lemma cuckoo_decode_encode: "cuckoo_inv h f \<Longrightarrow> cuckoo_decode (cuckoo_encode f) = f"
  using cuckoo_decode_buckets_encode[of f]
  by (cases f) (auto simp: cuckoo_inv_def size_entries cuckoo_decode_def Let_def)

lemma cuckoo_inv_decode: "length data = 4096 \<Longrightarrow> cuckoo_inv h (cuckoo_decode data)"
  by (auto simp: cuckoo_inv_def size_entries cuckoo_decode_def Let_def wf_buckets_def)

section \<open>Properties\<close>

text \<open>A hash for examples: the digest is the key itself.\<close>

definition ex_hash :: "bytes \<Rightarrow> bytes" where
  "ex_hash key = take 16 (key @ replicate 16 0)"

text \<open>C8. An insertion that reports success loses nobody: the key and every key the filter contained before are
  contained afterwards, even when the insertion relocated other fingerprints, and the filter stays well formed.
  \<open>slots\<close> and \<open>coin\<close> are arbitrary random draws.\<close>

theorem cuckoo_add_no_false_negative:
  assumes "cuckoo_inv h f" "\<forall>n. slots n < 4" "cuckoo_add h coin slots key f = (True, f')"
  shows "cuckoo_inv h f' \<and> (\<forall>k. k = key \<or> cuckoo_contains h k f \<longrightarrow> cuckoo_contains h k f')"
proof -
  have "cuckoo_inv h f'" "entries h (cf_buckets f') = add_mset (entry_of h key) (entries h (cf_buckets f))"
    using cuckoo_add_entries[OF assms] by auto
  then show ?thesis using cf.contains_abs[OF assms(1)] cf.contains_abs[of h f'] by auto
qed

theorem cuckoo_add_no_false_negative_witness:
  "\<exists>f'. cuckoo_add ex_hash True (\<lambda>n. 0) [1, 2] CuckooFilter_new = (True, f') \<and> cuckoo_contains ex_hash [1, 2] f'"
proof -
  have "insert_slot (cf_buckets CuckooFilter_new ! bucket1 ex_hash [1, 2]) fp \<noteq> None" for fp
    using bucket1_less[of ex_hash "[1, 2]"] by (simp add: CuckooFilter_new_def insert_slot_None)
  then obtain b where "insert_slot (cf_buckets CuckooFilter_new ! bucket1 ex_hash [1, 2]) (fingerprint ex_hash [1, 2]) = Some b"
    by blast
  then have a: "cuckoo_add ex_hash True (\<lambda>n. 0) [1, 2] CuckooFilter_new = (True, snd (cuckoo_add ex_hash True (\<lambda>n. 0) [1, 2] CuckooFilter_new))"
    unfolding cuckoo_add_def Let_def by (simp only: option.case snd_conv)
  then show ?thesis using cuckoo_add_no_false_negative[OF cuckoo_inv_new _ a] by (metis zero_less_numeral)
qed

text \<open>A removal takes away one occurrence of the key's own entry and nothing else: it reports whether the key was
  contained, keys with another entry stay, and removing right after a successful insertion restores the contents.\<close>

theorem cuckoo_remove_exact:
  assumes "cuckoo_inv h f" "cuckoo_remove h key f = (ok, f')"
  shows "cuckoo_inv h f' \<and> (ok \<longleftrightarrow> cuckoo_contains h key f) \<and>
    (\<forall>k. entry_of h k \<noteq> entry_of h key \<longrightarrow> cuckoo_contains h k f' = cuckoo_contains h k f) \<and>
    (\<forall>coin slots g g'. (\<forall>n. slots n < 4) \<and> cuckoo_inv h g \<and> cuckoo_add h coin slots key g = (True, f) \<longrightarrow>
       entries h (cf_buckets f') = entries h (cf_buckets g))"
proof -
  note r = cuckoo_remove_entries[OF assms]
  have "cuckoo_contains h k f' = cuckoo_contains h k f" if "entry_of h k \<noteq> entry_of h key" for k
    using cf.contains_abs[OF assms(1)] cf.contains_abs[OF r(1)] r(3) that by (simp add: in_diff_count)
  moreover have "entries h (cf_buckets f') = entries h (cf_buckets g)"
    if "\<forall>n. slots n < 4" "cuckoo_inv h g" "cuckoo_add h coin slots key g = (True, f)" for coin slots g
    using cuckoo_add_entries[OF that(2,1,3)] r(3) by simp
  ultimately show ?thesis using r(1,2) by blast
qed

theorem cuckoo_remove_exact_witness:
  "\<exists>f'. cuckoo_remove ex_hash [1] CuckooFilter_new = (False, f') \<and> cuckoo_inv ex_hash f'"
proof -
  obtain ok f' where r: "cuckoo_remove ex_hash [1] CuckooFilter_new = (ok, f')" by force
  have "\<not> cuckoo_contains ex_hash [1] CuckooFilter_new"
    using cf.contains_abs[OF cuckoo_inv_new] by (simp add: CuckooFilter_new_def entries_empty)
  then show ?thesis using cuckoo_remove_exact[OF cuckoo_inv_new r] r by auto
qed

text \<open>A hash for an example of an insertion that fails: every key has the bucket 0 only, and its fingerprint is its first byte.\<close>

definition ex_flat :: "bytes \<Rightarrow> bytes" where
  "ex_flat key = (if take 1 key = [0x62] then replicate 8 0 else take 8 (key @ replicate 8 0))"

definition ex_crowded :: CuckooFilter where
  "ex_crowded = fold (\<lambda>key f. snd (cuckoo_add ex_flat True (\<lambda>_. 0) key f)) [[5], [6], [7], [8]] CuckooFilter_new"

lemma ex_flat_buckets: "bucket1 ex_flat k = 0" "bucket2 ex_flat 0 fp = 0"
proof -
  have "from_le (replicate 8 0) = (0 :: u64)" by code_simp
  then show "bucket1 ex_flat k = 0" "bucket2 ex_flat 0 fp = 0" by (simp_all add: bucket1_def bucket2_def ex_flat_def)
qed

lemma ex_flat_fingerprints:
  "fingerprint ex_flat [5] = 5" "fingerprint ex_flat [6] = 6" "fingerprint ex_flat [7] = 7" "fingerprint ex_flat [8] = 8" "fingerprint ex_flat [9] = 9"
  by code_simp+

lemma new_Cons: "CuckooFilter_new = \<lparr>cf_buckets = [0, 0, 0, 0] # replicate 511 (replicate 4 0), cf_count = 0\<rparr>"
proof -
  have "replicate 512 (replicate 4 (0 :: u16)) = replicate 4 0 # replicate 511 (replicate 4 0)" using replicate_Suc[of 511] by simp
  then show ?thesis by (simp add: CuckooFilter_new_def numeral_eq_Suc)
qed

lemma ex_crowded: "ex_crowded = \<lparr>cf_buckets = [5, 6, 7, 8] # replicate 511 (replicate 4 0), cf_count = 4\<rparr>"
  by (simp add: ex_crowded_def cuckoo_add_def ex_flat_buckets ex_flat_fingerprints new_Cons Let_def)

lemma kick_twice:
  assumes "0 \<notin> {a, b, c, d, fp}"
  shows "kick ex_flat (1 # 1 # slots) ([a, b, c, d] # bs) 0 fp = kick ex_flat slots ([a, b, c, d] # bs) 0 fp"
  using assms by (simp add: ex_flat_buckets Let_def)

lemma kick_odd:
  assumes "0 \<notin> {a, b, c, d, fp}"
  shows "kick ex_flat (replicate (2 * n + 1) 1) ([a, b, c, d] # bs) 0 fp = (False, [a, fp, c, d] # bs)"
proof (induction n)
  case 0
  then show ?case using assms by (simp add: ex_flat_buckets Let_def)
next
  case (Suc n)
  have "replicate (2 * Suc n + 1) (1 :: nat) = 1 # 1 # replicate (2 * n + 1) 1" by simp
  then show ?case using Suc kick_twice[OF assms] by simp
qed

text \<open>The first round evicts the first slot, all others the second one.\<close>

lemma kick_crowded:
  "kick ex_flat (map (\<lambda>n. if n = 0 then 0 else 1) [0..<2 * n + 2]) ([5, 6, 7, 8] # bs) 0 9 = (False, [9, 5, 7, 8] # bs)"
proof -
  have "map (\<lambda>n. if n = 0 then 0 else 1 :: nat) [0..<2 * n + 2] = 0 # replicate (2 * n + 1) 1"
    by (rule nth_equalityI) (auto simp: nth_Cons split: nat.split simp del: upt_Suc)
  moreover have "kick ex_flat (0 # slots) ([5, 6, 7, 8] # bs) 0 9 = kick ex_flat slots ([9, 6, 7, 8] # bs) 0 5" for slots
    by (simp add: ex_flat_buckets Let_def)
  ultimately show ?thesis using kick_odd[of 9 6 7 8 5 n bs] by simp
qed

lemma ex_crowded_inv: "cuckoo_inv ex_flat ex_crowded"
proof -
  have "cuckoo_inv ex_flat (snd (cuckoo_add ex_flat True (\<lambda>_. 0) key f))" if "cuckoo_inv ex_flat f" for key f
    using cuckoo_add_entries[OF that, of "\<lambda>_. 0" True key] by (cases "cuckoo_add ex_flat True (\<lambda>_. 0) key f") (auto)
  then show ?thesis by (simp add: ex_crowded_def cuckoo_inv_new)
qed

lemma ex_crowded_add:
  "cuckoo_add ex_flat True (\<lambda>n. if n = 0 then 0 else 1) [9] ex_crowded =
     (False, \<lparr>cf_buckets = [9, 5, 7, 8] # replicate 511 (replicate 4 0), cf_count = 4\<rparr>)"
  using kick_crowded[of 249] by (simp add: cuckoo_add_def ex_crowded ex_flat_buckets ex_flat_fingerprints MAX_KICKS_def Let_def del: upt_Suc upt_rec_numeral)

lemma fold_skip: "\<forall>x \<in> set xs. g x f = f \<Longrightarrow> fold g xs f = f"
  by (induction xs) auto

lemma ex_crowded_merge:
  "cuckoo_merge ex_flat (\<lambda>i j n. if n = 0 then 0 else 1) ex_crowded (snd (cuckoo_add ex_flat True (\<lambda>_. 0) [9] CuckooFilter_new)) =
     \<lparr>cf_buckets = [9, 5, 7, 8] # replicate 511 (replicate 4 0), cf_count = 4\<rparr>" (is "cuckoo_merge _ _ _ ?o = ?f")
proof -
  let ?g = "\<lambda>(i, j) f. merge_one ex_flat (\<lambda>n. if n = 0 then 0 else 1) i (cf_buckets ?o ! i ! j) f"
  have o: "cf_buckets ?o = [9, 0, 0, 0] # replicate 511 (replicate 4 0)"
    by (simp add: new_Cons cuckoo_add_def Let_def ex_flat_buckets ex_flat_fingerprints)
  have first: "?g (0, 0) ex_crowded = ?f"
    using kick_crowded[of 15] by (simp add: o merge_one_def ex_crowded ex_flat_buckets contains_slot_def Let_def del: upt_Suc upt_rec_numeral)
  have zero: "cf_buckets ?o ! i ! j = 0" if "i < 512" "j < 4" "(i, j) \<noteq> (0, 0)" for i j
    using that by (cases i; cases j) (auto simp: o nth_Cons' )
  have "List.product [0..<512] [0..<4] = (0, 0) # map (Pair 0) [1..<4] @ List.product [1..<512] [0..<4]"
    by (simp add: upt_conv_Cons del: upt_rec_numeral)
  then have "fold ?g (List.product [0..<512] [0..<4]) ex_crowded = fold ?g (map (Pair 0) [1..<4] @ List.product [1..<512] [0..<4]) ?f"
    using first by simp
  also have "\<dots> = ?f" by (rule fold_skip) (auto simp: merge_one_def zero)
  finally show ?thesis by (simp add: cuckoo_merge_def del: upt_rec_numeral)
qed

lemma ex_crowded_false_negatives:
  "\<exists>h f coin slots key f' k. cuckoo_inv h f \<and> (\<forall>n. slots n < 4) \<and> cuckoo_add h coin slots key f = (False, f') \<and>
     cuckoo_contains h k f \<and> \<not> cuckoo_contains h k f'"
  "\<exists>h f other draws k. cuckoo_inv h f \<and> cuckoo_inv h other \<and> draws_ok draws \<and>
     cuckoo_contains h k f \<and> \<not> cuckoo_contains h k (cuckoo_merge h draws f other)"
proof -
  let ?f' = "\<lparr>cf_buckets = [9, 5, 7, 8] # replicate 511 (replicate 4 0), cf_count = 4\<rparr>" and ?o = "snd (cuckoo_add ex_flat True (\<lambda>_. 0) [9] CuckooFilter_new)"
  have c: "cuckoo_contains ex_flat [6] ex_crowded" "\<not> cuckoo_contains ex_flat [6] ?f'"
    by (simp_all add: cuckoo_contains_def ex_crowded contains_slot_def ex_flat_buckets ex_flat_fingerprints)
  have d: "\<forall>n :: nat. (if n = 0 then 0 else 1 :: nat) < 4" by simp
  show "\<exists>h f coin slots key f' k. cuckoo_inv h f \<and> (\<forall>n. slots n < 4) \<and> cuckoo_add h coin slots key f = (False, f') \<and>
      cuckoo_contains h k f \<and> \<not> cuckoo_contains h k f'"
    by (rule exI[of _ ex_flat], rule exI[of _ ex_crowded], rule exI[of _ True], rule exI[of _ "\<lambda>n. if n = 0 then 0 else 1"], rule exI[of _ "[9]"], rule exI[of _ ?f'],
      rule exI[of _ "[6]"]) (intro conjI ex_crowded_inv d ex_crowded_add c)
  have o: "cuckoo_inv ex_flat ?o"
    using cuckoo_add_entries[OF cuckoo_inv_new, of "\<lambda>_. 0" ex_flat True "[9]"] by (cases "cuckoo_add ex_flat True (\<lambda>_. 0) [9] CuckooFilter_new") auto
  show "\<exists>h f other draws k. cuckoo_inv h f \<and> cuckoo_inv h other \<and> draws_ok draws \<and>
      cuckoo_contains h k f \<and> \<not> cuckoo_contains h k (cuckoo_merge h draws f other)"
    by (rule exI[of _ ex_flat], rule exI[of _ ex_crowded], rule exI[of _ ?o], rule exI[of _ "\<lambda>i j n. if n = 0 then 0 else 1"], rule exI[of _ "[6]"])
      (intro conjI ex_crowded_inv o c(1), simp add: draws_ok_def, unfold ex_crowded_merge, rule c(2))
qed

text \<open>C34. An insertion whose kick cascade runs out of rounds reports failure, but the filter has changed: exactly one
  entry of the old contents plus the new key is gone, and the number of entries is the old one. The lost entry need not be that of the new key.
  When it is one that another key relies on, the filter answers that this key is absent, and this does happen: for some hash, filter and random draws a failed
  insertion makes the filter deny a key that it contained, a false negative and not a higher false-positive rate. So does merging another filter,
  whose insertions may fail in the same way.\<close>

theorem cuckoo_failed_add_loses_one:
  assumes "cuckoo_inv h f" "\<forall>n. slots n < 4" "cuckoo_add h coin slots key f = (False, f')"
  shows "cuckoo_inv h f' \<and>
    (\<exists>lost. add_mset lost (entries h (cf_buckets f')) = add_mset (entry_of h key) (entries h (cf_buckets f)) \<and>
      (\<forall>k. entry_of h k = lost \<and> count (entries h (cf_buckets f)) lost = 1 \<and> lost \<noteq> entry_of h key \<longrightarrow>
        cuckoo_contains h k f \<and> \<not> cuckoo_contains h k f')) \<and>
    (\<exists>h f coin slots key f' k. cuckoo_inv h f \<and> (\<forall>n. slots n < 4) \<and> cuckoo_add h coin slots key f = (False, f') \<and>
      cuckoo_contains h k f \<and> \<not> cuckoo_contains h k f') \<and>
    (\<exists>h f other draws k. cuckoo_inv h f \<and> cuckoo_inv h other \<and> draws_ok draws \<and>
      cuckoo_contains h k f \<and> \<not> cuckoo_contains h k (cuckoo_merge h draws f other))"
proof -
  have inv: "cuckoo_inv h f'" and x: "exchanged (entries h (cf_buckets f)) (entry_of h key) (entries h (cf_buckets f'))"
    using cuckoo_add_entries[OF assms] by auto
  from x obtain lost where l: "add_mset lost (entries h (cf_buckets f')) = add_mset (entry_of h key) (entries h (cf_buckets f))"
    by (auto simp: exchanged_def)
  have "cuckoo_contains h k f \<and> \<not> cuckoo_contains h k f'"
    if "entry_of h k = lost" "count (entries h (cf_buckets f)) lost = 1" "lost \<noteq> entry_of h key" for k
  proof -
    have "count (add_mset lost (entries h (cf_buckets f'))) lost = count (add_mset (entry_of h key) (entries h (cf_buckets f))) lost"
      using l by simp
    then have "count (entries h (cf_buckets f')) lost = 0" using that by simp
    then have "lost \<notin># entries h (cf_buckets f')" by (simp only: count_eq_zero_iff not_False_eq_True)
    moreover have "lost \<in># entries h (cf_buckets f)" using that(2) by (metis count_eq_zero_iff zero_neq_one)
    ultimately show ?thesis using that(1) cf.contains_abs[OF assms(1), of k] cf.contains_abs[OF inv, of k] by simp
  qed
  then show ?thesis using inv l ex_crowded_false_negatives by blast
qed

lemma kick_full:
  "wf_buckets bs \<Longrightarrow> \<forall>b \<in> set bs. 0 \<notin> set b \<Longrightarrow> cur < 512 \<Longrightarrow> fp \<noteq> 0 \<Longrightarrow> \<forall>s \<in> set slots. s < 4 \<Longrightarrow>
     \<not> fst (kick h slots bs cur fp)"
proof (induction slots arbitrary: bs cur fp)
  case (Cons slot slots)
  define bs1 where "bs1 = bs[cur := (bs ! cur)[slot := fp]]"
  let ?old = "bs ! cur ! slot" and ?alt = "bucket2 h cur (bs ! cur ! slot)"
  have cur: "bs ! cur \<in> set bs" "slot < length (bs ! cur)" using Cons.prems by (auto simp: wf_buckets_def)
  then have old: "?old \<noteq> 0" using Cons.prems(2) by (metis nth_mem)
  have "0 \<notin> set ((bs ! cur)[slot := fp])" using set_update_subset_insert[of "bs ! cur" slot fp] Cons.prems(2,4) cur by auto
  then have full: "\<forall>b \<in> set bs1. 0 \<notin> set b"
    using set_update_subset_insert[of bs cur "(bs ! cur)[slot := fp]"] Cons.prems(2) unfolding bs1_def by blast
  have wf: "wf_buckets bs1" using Cons.prems(1) cur by (auto simp: bs1_def intro!: wf_update wf_nth Cons.prems)
  have "bs1 ! ?alt \<in> set bs1" using wf bucket2_less[of h cur ?old] by (simp add: wf_buckets_def)
  then have "insert_slot (bs1 ! ?alt) ?old = None" using full by (simp add: insert_slot_None)
  then show ?case using Cons.IH[OF wf full bucket2_less old] Cons.prems(5) by (simp add: Let_def bs1_def[symmetric])
qed simp

definition ex_full :: CuckooFilter where
  "ex_full = (let bs = replicate 512 (replicate 4 5) in \<lparr>cf_buckets = bs, cf_count = size (entries ex_hash bs)\<rparr>)"

theorem cuckoo_failed_add_loses_one_witness:
  "\<exists>f' lost. cuckoo_add ex_hash True (\<lambda>n. 0) [1, 2] ex_full = (False, f') \<and>
     add_mset lost (entries ex_hash (cf_buckets f')) = add_mset (entry_of ex_hash [1, 2]) (entries ex_hash (cf_buckets ex_full))"
proof -
  let ?bs = "replicate 512 (replicate 4 5) :: u16 list list"
  have inv: "cuckoo_inv ex_hash ex_full" by (simp add: cuckoo_inv_def ex_full_def wf_buckets_def Let_def)
  have none: "insert_slot (?bs ! b) fp = None" if "b < 512" for b fp using that by (simp add: insert_slot_None)
  have kick: "\<not> fst (kick ex_hash slots ?bs (bucket1 ex_hash [1, 2]) (fingerprint ex_hash [1, 2]))" if "\<forall>s \<in> set slots. s < 4" for slots
    using that by (intro kick_full) (simp_all add: wf_buckets_def fingerprint_nonzero bucket1_less)
  have b: "cf_buckets ex_full = ?bs" by (simp add: ex_full_def Let_def)
  have "\<not> fst (cuckoo_add ex_hash True (\<lambda>n. 0) [1, 2] ex_full)"
    using none[OF bucket1_less] none[OF bucket2_less] kick[of "map (\<lambda>n. 0) [0..<MAX_KICKS]"]
    unfolding cuckoo_add_def Let_def b by (simp add: case_prod_beta)
  then obtain f' where a: "cuckoo_add ex_hash True (\<lambda>n. 0) [1, 2] ex_full = (False, f')"
    by (cases "cuckoo_add ex_hash True (\<lambda>n. 0) [1, 2] ex_full") auto
  show ?thesis using cuckoo_failed_add_loses_one[OF inv _ a] a by auto
qed

text \<open>Merging a filter received from a peer keeps the filter well formed, never shrinks it, and adds only entries of
  the other filter: what it contains afterwards was in one of the two.\<close>

theorem cuckoo_merge_sound:
  assumes "cuckoo_inv h f" "draws_ok draws" "cuckoo_inv h other" "cuckoo_merge h draws f other = f'"
  shows "cuckoo_inv h f' \<and> cf_count f \<le> cf_count f' \<and>
    (\<forall>k. cuckoo_contains h k f' \<longrightarrow> cuckoo_contains h k f \<or> cuckoo_contains h k other)"
proof -
  have wf: "wf_buckets (cf_buckets other)" using assms(3) by (simp add: cuckoo_inv_def)
  note m = cuckoo_merge_entries[OF assms(1,2) wf, unfolded assms(4)]
  show ?thesis
    using m assms(1) cf.contains_abs[OF m(1)] cf.contains_abs[OF assms(1)] cf.contains_abs[OF assms(3)]
    by (auto simp: cuckoo_inv_def)
qed

theorem cuckoo_merge_sound_witness:
  "cuckoo_inv ex_hash (cuckoo_merge ex_hash (\<lambda>i j n. 0) CuckooFilter_new CuckooFilter_new)"
  using cuckoo_merge_sound[OF cuckoo_inv_new _ cuckoo_inv_new refl, of "\<lambda>i j n. 0" ex_hash] by (simp add: draws_ok_def)

text \<open>The 4096-byte wire form of a filter is a bijection: decoding any such byte string gives a well-formed filter that
  encodes to the same bytes, and decoding the encoding of a well-formed filter gives it back.\<close>

theorem cuckoo_wire_round_trip:
  "(length data = 4096 \<longrightarrow> cuckoo_inv h (cuckoo_decode data) \<and> cuckoo_encode (cuckoo_decode data) = data) \<and>
   (cuckoo_inv h f \<longrightarrow> cuckoo_decode (cuckoo_encode f) = f)"
  using cuckoo_inv_decode cuckoo_encode_decode cuckoo_decode_encode by blast

theorem cuckoo_wire_round_trip_witness:
  "length (replicate 4096 (5 :: u8)) = 4096 \<and> cuckoo_encode (cuckoo_decode (replicate 4096 5)) = replicate 4096 5 \<and>
   cuckoo_decode (cuckoo_encode CuckooFilter_new) = CuckooFilter_new"
  using cuckoo_wire_round_trip[of "replicate 4096 5" ex_hash CuckooFilter_new] cuckoo_inv_new by simp

end
