(* ===== verification/Crypto_Example.thy ===== *)
theory Crypto_Example
  imports Crypto_Suite
begin

text \<open>
  A concrete suite of functions that has every documented property of \<open>Crypto_Suite\<close>. It is no
  cryptography: it shows that the hypotheses of the theorems can hold together, and witnesses compute with it.
\<close>

unbundle bit_operations_syntax

definition pad_to :: "nat \<Rightarrow> bytes \<Rightarrow> bytes" where
  "pad_to n k = take n k @ replicate (n - length k) 0"

definition xor_bytes :: "bytes \<Rightarrow> bytes \<Rightarrow> bytes" where
  "xor_bytes xs ys = map2 (XOR) xs ys"

definition ex_tag :: "bytes \<Rightarrow> bytes \<Rightarrow> bytes \<Rightarrow> bytes" where
  "ex_tag k n a = pad_to 16 (xor_bytes (pad_to 16 k) (xor_bytes (pad_to 16 n) (pad_to 16 a)))"

definition ex_open :: "bytes \<Rightarrow> bytes \<Rightarrow> bytes \<Rightarrow> bytes \<Rightarrow> bytes option" where
  "ex_open k n a c =
     (if 16 \<le> length c \<and> drop (length c - 16) c = ex_tag k n a then Some (take (length c - 16) c) else None)"

definition ex :: crypto where
  "ex = \<lparr>x25519_pub_of = pad_to 32,
         x25519_dh = (\<lambda>a b. xor_bytes (pad_to 32 a) b),
         aead_seal = (\<lambda>k n a p. Some (p @ ex_tag k n a)),
         aead_open = ex_open,
         hkdf_sha256 = (\<lambda>salt ikm info. case salt of None \<Rightarrow> pad_to 32 ikm | Some s \<Rightarrow> xor_bytes (pad_to 32 s) (pad_to 32 ikm)),
         ed_pub_of = pad_to 32,
         ed_sign = (\<lambda>sk m. pad_to 64 (pad_to 32 sk)),
         ed_verify = (\<lambda>pk m s. s = pad_to 64 pk),
         ed_to_montgomery = (\<lambda>pk. Some (clamp pk)),
         dsa_pub_of = pad_to 1952,
         dsa_sign = (\<lambda>sk m. pad_to 3309 (pad_to 1952 sk)),
         dsa_verify = (\<lambda>pk m s. s = pad_to 3309 pk),
         kem_keypair = (\<lambda>r. (pad_to 1184 r, pad_to 1184 r)),
         kem_encap = (\<lambda>r ek. Some (pad_to 1088 (pad_to 32 r), pad_to 32 r)),
         kem_decap = (\<lambda>dk ct. pad_to 32 ct),
         chacha20_xor = (\<lambda>k n d. map ((XOR) (hd (k @ n @ [0]))) d),
         sha512 = pad_to 64,
         blake2b = pad_to,
         blake2b_mac = (\<lambda>n k d. pad_to n (xor_bytes (pad_to n k) (pad_to n d)))\<rparr>"

lemma length_pad_to [simp]: "length (pad_to n k) = n"
  by (simp add: pad_to_def)

lemma pad_to_pad_to: "m \<le> n \<Longrightarrow> pad_to m (pad_to n (pad_to m k)) = pad_to m k"
  by (simp add: pad_to_def)

lemma xor_bytes_commute: "xor_bytes xs ys = xor_bytes ys xs"
  unfolding xor_bytes_def by (subst zip_commute) (simp add: xor.commute case_prod_beta)

lemma ex_dh: "dh_commutes ex"
  by (simp add: dh_commutes_def ex_def xor_bytes_commute)

lemma length_ex_tag [simp]: "length (ex_tag k n a) = 16"
  by (simp add: ex_tag_def)

lemma ex_aead: "aead_correct ex" "aead_total ex"
  by (simp_all add: aead_correct_def aead_total_def ex_def ex_open_def)

lemma ex_sigs: "sigs_correct ex"
  by (simp add: sigs_correct_def ex_def)

lemma ex_kem: "kem_correct ex"
  by (simp add: kem_correct_def ex_def pad_to_pad_to)

lemma ex_key_sizes: "key_sizes ex"
  by (simp add: key_sizes_def ex_def)

lemma ex_chacha: "chacha_involutive ex"
  by (simp add: chacha_involutive_def ex_def comp_def flip: xor.assoc)

lemma ex_stream: "chacha_stream ex"
proof -
  have "map ((XOR) b) d = map2 (XOR) d (map (\<lambda>i. b) [0..<length d])" for b :: u8 and d
    by (rule nth_equalityI) (simp_all add: xor.commute)
  then show ?thesis
    unfolding chacha_stream_def by (intro exI[of _ "\<lambda>k n i. hd (k @ n @ [0])"]) (simp add: ex_def)
qed

lemma ex_digests: "digest_sizes ex"
  by (simp add: digest_sizes_def ex_def)

lemma length_clamp [simp]: "length (clamp s) = length s"
  by (simp add: clamp_def Let_def)

lemma ex_ed_x: "ed_x_consistent ex"
proof -
  have "take 32 (pad_to 64 sk) = pad_to 32 sk" for sk
    by (auto simp: pad_to_def min_def)
  moreover have "pad_to 32 (clamp (pad_to 32 sk)) = clamp (pad_to 32 sk)" for sk
    by (simp add: pad_to_def[of 32 "clamp _"])
  ultimately show ?thesis by (simp add: ed_x_consistent_def ex_def ed25519_priv_to_x25519_def)
qed

lemmas ex_laws = ex_ed_x ex_dh ex_aead ex_sigs ex_kem ex_key_sizes ex_chacha ex_digests

end
