(* ===== verification/Header.thy ===== *)
theory Header
  imports Wire_Messages Crypto_Example
begin

text \<open>
  Payload padding and the encrypted source and destination header of \<^verbatim>\<open>src/src/router/header.rs\<close>. The
  ephemeral private key of a header is an argument.
\<close>

unbundle bit_operations_syntax

section \<open>Padding\<close>

definition PAD_BLOCK :: nat where "PAD_BLOCK = 256"

definition div_ceil :: "nat \<Rightarrow> nat \<Rightarrow> nat" where
  "div_ceil a b = (a + b - 1) div b"

text \<open>The release build, where the debug assertion on the length is absent.\<close>

definition pad_payload :: "bytes \<Rightarrow> bytes" where
  "pad_payload data =
     (let orig_len = min (length data) 65535;
          data = take orig_len data;
          out = [of_nat (orig_len AND 0xFF), of_nat (orig_len div 2 ^ 8)] @ data;
          target = div_ceil (length out) PAD_BLOCK * PAD_BLOCK in
      out @ replicate (target - length out) 0)"

definition unpad_payload :: "bytes \<Rightarrow> bytes result" where
  "unpad_payload padded =
     (if length padded < 2 then Inl (Bail ''unpad: too short'') else
      and_then (idx padded 0) (\<lambda>b0. and_then (idx padded 1) (\<lambda>b1.
      let orig_len = unat (from_le [b0, b1] :: u16) in
      if length padded < 2 + orig_len then Inl (Bail ''unpad: length field > available'') else
      slice_rng padded 2 (2 + orig_len))))"

lemma div_ceil_ge: "0 < b \<Longrightarrow> a \<le> div_ceil a b * b"
  using dividend_less_times_div[of b "a + b - 1"] mult.commute[of b "(a + b - 1) div b"]
  unfolding div_ceil_def by linarith

lemma div_ceil_less: "0 < b \<Longrightarrow> div_ceil a b * b < a + b"
  using div_times_less_eq_dividend[of "a + b - 1" b] unfolding div_ceil_def by linarith

lemma from_le_two:
  assumes "n < 65536"
  shows "unat (from_le [of_nat (n AND 0xFF), of_nat (n div 2 ^ 8)] :: u16) = n"
proof -
  have 1: "n AND 0xFF = take_bit 8 n" using take_bit_eq_mask[of 8 n] by (simp add: mask_eq_exp_minus_1)
  have "[of_nat (n AND 0xFF), of_nat (n div 2 ^ 8)] = le_bytes 2 (of_nat n :: u16)"
  proof -
    have "of_nat (take_bit 8 n) = (ucast (of_nat n :: u16) :: u8)"
      by (rule bit_eqI) (simp add: bit_of_nat_iff bit_ucast_iff bit_take_bit_iff)
    moreover have "of_nat (drop_bit 8 n) = (ucast (drop_bit 8 (of_nat n :: u16)) :: u8)"
      by (rule bit_eqI) (simp add: bit_of_nat_iff bit_ucast_iff bit_drop_bit_eq)
    ultimately show ?thesis unfolding 1 drop_bit_eq_div[symmetric] by (simp add: le_bytes_def upt_rec)
  qed
  then show ?thesis using assms by (simp add: from_le_le_bytes unsigned_of_nat take_bit_nat_eq_self_iff)
qed

lemma pad_payload_length:
  "length (pad_payload data) = div_ceil (2 + min (length data) 65535) PAD_BLOCK * PAD_BLOCK"
  using div_ceil_ge[of PAD_BLOCK "2 + min (length data) 65535"]
  by (simp add: pad_payload_def Let_def PAD_BLOCK_def)

lemma unpad_pad:
  "unpad_payload (pad_payload data) = Inr (take 65535 data)"
proof -
  let ?n = "min (length data) 65535"
  define z where "z = replicate (div_ceil (2 + ?n) PAD_BLOCK * PAD_BLOCK - (2 + ?n)) (0 :: u8)"
  have p: "pad_payload data = of_nat (?n AND 0xFF) # of_nat (?n div 2 ^ 8) # take ?n data @ z"
    by (simp add: pad_payload_def Let_def z_def)
  have "unat (from_le [of_nat (?n AND 0xFF), of_nat (?n div 2 ^ 8)] :: u16) = ?n" by (rule from_le_two) simp
  moreover have "take ?n data = take 65535 data" by (simp add: min_def)
  ultimately show ?thesis unfolding p unpad_payload_def by (simp add: Let_def)
qed

section \<open>The header\<close>

text \<open>An all-zero header and tag stand for a destination key that is no curve point.\<close>

definition header_nonce1 :: bytes where
  "header_nonce1 = le_bytes 8 (1 :: u64) @ replicate 4 0"

definition encrypt_header :: "crypto \<Rightarrow> bytes \<Rightarrow> bytes \<Rightarrow> bytes \<Rightarrow> bytes \<times> bytes" where
  "encrypt_header C epk_priv source_ed_pub dest_ed_pub =
     (let epk_pub = x25519_pub_of C epk_priv; failed = (replicate 128 0, replicate 16 0) in
      case ed25519_pub_to_x25519 C dest_ed_pub of
        Inl _ \<Rightarrow> failed
      | Inr dest_x \<Rightarrow>
          (let key = x25519_dh C epk_priv dest_x in
           case aead_seal C key (replicate 12 0) epk_pub source_ed_pub of
             None \<Rightarrow> failed
           | Some src_buf \<Rightarrow>
           case aead_seal C key header_nonce1 epk_pub dest_ed_pub of
             None \<Rightarrow> failed
           | Some dst_buf \<Rightarrow> (epk_pub @ src_buf @ dst_buf, routing_tag (blake2b C) dest_ed_pub)))"

definition to_array32 :: "bytes \<Rightarrow> bytes option" where
  "to_array32 buf = (if length buf = 32 then Some buf else None)"

definition decrypt_source_from_header :: "crypto \<Rightarrow> bytes \<Rightarrow> bytes \<Rightarrow> bytes option" where
  "decrypt_source_from_header C enc_header my_sk =
     (let epk_pub = take 32 enc_header;
          my_x = ed25519_priv_to_x25519 C my_sk;
          key = x25519_dh C my_x epk_pub in
      case aead_open C key (replicate 12 0) epk_pub (take 48 (drop 32 enc_header)) of
        None \<Rightarrow> None | Some buf \<Rightarrow> to_array32 buf)"

definition decrypt_dest_from_header :: "crypto \<Rightarrow> bytes \<Rightarrow> bytes \<Rightarrow> bytes option" where
  "decrypt_dest_from_header C enc_header my_sk =
     (let epk_pub = take 32 enc_header;
          my_x = ed25519_priv_to_x25519 C my_sk;
          key = x25519_dh C my_x epk_pub in
      case aead_open C key header_nonce1 epk_pub (take 48 (drop 80 enc_header)) of
        None \<Rightarrow> None | Some buf \<Rightarrow> to_array32 buf)"

lemma header_round_trip:
  assumes C: "dh_commutes C" "aead_correct C" "aead_total C" "key_sizes C" "ed_x_consistent C"
    and len: "length src = 32" "length (ed_pub_of C sk) = 32"
    and h: "encrypt_header C e src (ed_pub_of C sk) = (hdr, tag)"
  shows "length hdr = 128" "tag = routing_tag (blake2b C) (ed_pub_of C sk)"
    "decrypt_source_from_header C hdr sk = Some src" "decrypt_dest_from_header C hdr sk = Some (ed_pub_of C sk)"
proof -
  let ?k = "x25519_dh C e (x25519_pub_of C (ed25519_priv_to_x25519 C sk))" and ?p = "x25519_pub_of C e"
  obtain s where s: "aead_seal C ?k (replicate 12 0) ?p src = Some s"
    using C(3) len(1) unfolding aead_total_def by fastforce
  obtain d where d: "aead_seal C ?k header_nonce1 ?p (ed_pub_of C sk) = Some d"
    using C(3) len(2) unfolding aead_total_def by fastforce
  have k: "x25519_dh C (ed25519_priv_to_x25519 C sk) ?p = ?k" using C(1) by (simp add: dh_commutes_def)
  have hdr: "hdr = ?p @ s @ d" and tag: "tag = routing_tag (blake2b C) (ed_pub_of C sk)"
    using h s d C(5) by (auto simp: encrypt_header_def Let_def ed25519_pub_to_x25519_def ed_x_consistent_def)
  have l: "length ?p = 32" "length s = 48" "length d = 48"
    using C(2,4) s d len by (auto simp: key_sizes_def aead_correct_def)
  have o: "aead_open C ?k (replicate 12 0) ?p s = Some src" "aead_open C ?k header_nonce1 ?p d = Some (ed_pub_of C sk)"
    using C(2) s d by (auto simp: aead_correct_def)
  show "length hdr = 128" "tag = routing_tag (blake2b C) (ed_pub_of C sk)" using hdr tag l by simp_all
  show "decrypt_source_from_header C hdr sk = Some src" "decrypt_dest_from_header C hdr sk = Some (ed_pub_of C sk)"
    using hdr l o k len by (simp_all add: decrypt_source_from_header_def decrypt_dest_from_header_def Let_def to_array32_def)
qed

section \<open>Properties\<close>

text \<open>Payload padding. A padded payload is a multiple of 256 bytes long, less than 256 longer than the payload with its
  two-byte length, and unpads to the payload when that has at most 65535 bytes, to its first 65535 bytes otherwise.\<close>

theorem payload_padding:
  "unpad_payload (pad_payload data) = Inr (take 65535 data) \<and>
   PAD_BLOCK dvd length (pad_payload data) \<and>
   2 + min (length data) 65535 \<le> length (pad_payload data) \<and>
   length (pad_payload data) < 2 + min (length data) 65535 + PAD_BLOCK"
  using unpad_pad[of data] div_ceil_ge[of PAD_BLOCK "2 + min (length data) 65535"]
    div_ceil_less[of PAD_BLOCK "2 + min (length data) 65535"]
  by (simp add: pad_payload_length) (simp add: PAD_BLOCK_def)

text \<open>Header privacy round trip. For a destination with an Ed25519 key pair, \<^verbatim>\<open>encrypt_header\<close> gives 128 bytes and the
  destination's routing tag, and the destination decrypts from them exactly the source key and its own key.\<close>

theorem header_reveals_to_destination:
  assumes "dh_commutes C" "aead_correct C" "aead_total C" "key_sizes C" "ed_x_consistent C"
    and "length src = 32" "length (ed_pub_of C sk) = 32"
    and "encrypt_header C e src (ed_pub_of C sk) = (hdr, tag)"
  shows "length hdr = 128 \<and> tag = routing_tag (blake2b C) (ed_pub_of C sk) \<and>
    decrypt_source_from_header C hdr sk = Some src \<and> decrypt_dest_from_header C hdr sk = Some (ed_pub_of C sk)"
  using header_round_trip[OF assms] by simp

theorem header_reveals_to_destination_witness:
  "\<exists>hdr tag. encrypt_header ex [1] (replicate 32 7) (ed_pub_of ex [2]) = (hdr, tag) \<and>
     decrypt_source_from_header ex hdr [2] = Some (replicate 32 7)"
proof -
  obtain hdr tag where h: "encrypt_header ex [1] (replicate 32 7) (ed_pub_of ex [2]) = (hdr, tag)" by force
  have l: "length (replicate 32 (7 :: u8)) = 32" "length (ed_pub_of ex [2]) = 32" using ex_sigs by (simp_all add: sigs_correct_def)
  show ?thesis using header_reveals_to_destination[OF ex_dh ex_aead ex_key_sizes ex_ed_x l h] h by simp
qed

end
