(* ===== verification/Onion.thy ===== *)
theory Onion
  imports Wire_Messages Crypto_Example
begin

text \<open>
  Onion routing, \<^verbatim>\<open>src/src/onion.rs\<close>: the rotating key chain of a relay, the onion packet with its
  fixed-size cell encoding, peeling of one layer and construction of all of them, and the bounded replay
  cache of \<^verbatim>\<open>src/src/router/onion.rs\<close>. Fresh private keys are arguments; building an onion draws one per
  layer from a function of the layer's index.
\<close>

unbundle bit_operations_syntax

abbreviation (input) TYPE_ONION :: u8 where "TYPE_ONION \<equiv> 11"
abbreviation (input) ONION_FORWARD :: u8 where "ONION_FORWARD \<equiv> 1"
abbreviation (input) ONION_DELIVER :: u8 where "ONION_DELIVER \<equiv> 0"

definition ONION_CELL_SIZE :: nat where "ONION_CELL_SIZE = 1280"

definition ONION_KEY_ROTATION_INTERVAL :: nat where "ONION_KEY_ROTATION_INTERVAL = 3600 * 10 ^ 9"

section \<open>The key chain\<close>

record OnionKeyChain =
  kc_current_priv :: bytes
  kc_current_pub :: bytes
  kc_previous_priv :: "bytes option"
  kc_rotated_at :: instant
  kc_identity_x_priv :: "bytes option"

definition OnionKeyChain_new :: "crypto \<Rightarrow> instant \<Rightarrow> bytes \<Rightarrow> OnionKeyChain" where
  "OnionKeyChain_new C now current_priv =
     \<lparr>kc_current_priv = current_priv, kc_current_pub = x25519_pub_of C current_priv,
      kc_previous_priv = None, kc_rotated_at = now, kc_identity_x_priv = None\<rparr>"

definition with_identity_fallback :: "crypto \<Rightarrow> instant \<Rightarrow> bytes \<Rightarrow> bytes \<Rightarrow> OnionKeyChain" where
  "with_identity_fallback C now current_priv signing_key =
     (OnionKeyChain_new C now current_priv)\<lparr>kc_identity_x_priv := Some (ed25519_priv_to_x25519 C signing_key)\<rparr>"

definition sphinx_privs :: "OnionKeyChain \<Rightarrow> bytes list" where
  "sphinx_privs k =
     [kc_current_priv k]
     @ (case kc_previous_priv k of Some p \<Rightarrow> [p] | None \<Rightarrow> [])
     @ (case kc_identity_x_priv k of Some p \<Rightarrow> [p] | None \<Rightarrow> [])"

definition OnionKeyChain_rotate :: "crypto \<Rightarrow> instant \<Rightarrow> bytes \<Rightarrow> OnionKeyChain \<Rightarrow> OnionKeyChain" where
  "OnionKeyChain_rotate C now new_priv k =
     k\<lparr>kc_current_priv := new_priv, kc_previous_priv := Some (kc_current_priv k),
       kc_current_pub := x25519_pub_of C new_priv, kc_rotated_at := now\<rparr>"

definition due_for_rotation :: "instant \<Rightarrow> OnionKeyChain \<Rightarrow> bool" where
  "due_for_rotation now k \<longleftrightarrow> duration_since now (kc_rotated_at k) \<ge> ONION_KEY_ROTATION_INTERVAL"

definition try_decrypt :: "crypto \<Rightarrow> OnionKeyChain \<Rightarrow> bytes \<Rightarrow> bytes \<Rightarrow> bytes result" where
  "try_decrypt C k epk aead_payload =
     (let nonce = replicate 12 0; failed = Inl (Bail ''onion peel: AEAD authentication failed'');
          identity = (case kc_identity_x_priv k of
              Some id_priv \<Rightarrow>
                (case aead_open C (x25519_dh C id_priv epk) nonce epk aead_payload of
                   Some buf \<Rightarrow> Inr buf | None \<Rightarrow> failed)
            | None \<Rightarrow> failed) in
      case aead_open C (x25519_dh C (kc_current_priv k) epk) nonce epk aead_payload of
        Some buf \<Rightarrow> Inr buf
      | None \<Rightarrow>
        (case kc_previous_priv k of
           Some prev \<Rightarrow>
             (case aead_open C (x25519_dh C prev epk) nonce epk aead_payload of
                Some buf \<Rightarrow> Inr buf | None \<Rightarrow> identity)
         | None \<Rightarrow> identity))"

section \<open>The packet\<close>

record OnionPacket =
  op_routing_tag :: bytes
  op_epk :: bytes
  op_aead_payload :: bytes

definition OnionPacket_encode_unpadded :: "OnionPacket \<Rightarrow> bool \<Rightarrow> bytes" where
  "OnionPacket_encode_unpadded p include_type_byte =
     (let buf = (if include_type_byte then [TYPE_ONION] else []) @ op_routing_tag p @ op_epk p in
      encode_uvarint (of_nat (length (op_aead_payload p))) buf @ op_aead_payload p)"

definition OnionPacket_encode :: "OnionPacket \<Rightarrow> bytes" where
  "OnionPacket_encode p =
     (let buf = OnionPacket_encode_unpadded p True in
      if length buf < ONION_CELL_SIZE then buf @ replicate (ONION_CELL_SIZE - length buf) 0 else buf)"

definition OnionPacket_encode_inner :: "OnionPacket \<Rightarrow> bytes" where
  "OnionPacket_encode_inner p = OnionPacket_encode_unpadded p False"

definition OnionPacket_decode :: "bytes \<Rightarrow> OnionPacket result" where
  "OnionPacket_decode data =
     (if length data < 48 then Inl (Bail ''OnionPacket too short'') else
      and_then (slice_rng data 0 16) (\<lambda>routing_tag.
      and_then (slice_rng data 16 48) (\<lambda>epk. let pos = 48 in
      and_then (slice_from data pos) (\<lambda>d. and_then (decode_uvarint d) (\<lambda>(aead_len, n). let pos = pos + n in
      if unat aead_len > ONION_CELL_SIZE then Inl (Bail ''OnionPacket aead_len exceeds cell size'') else
      if pos + unat aead_len \<ge> 2 ^ 64 then Inl (Bail ''OnionPacket aead_len overflow'') else
      let aead_end = pos + unat aead_len in
      if aead_end > length data then Inl (Bail ''OnionPacket aead_payload truncated'') else
      and_then (slice_rng data pos aead_end) (\<lambda>aead_payload.
      Inr \<lparr>op_routing_tag = routing_tag, op_epk = epk, op_aead_payload = aead_payload\<rparr>))))))"

datatype PeeledOnion = Forward bytes | Deliver bytes

text \<open>The end of the inner content is computed in \<^verbatim>\<open>usize\<close> and wraps in a release build.\<close>

definition peel_content :: "bytes \<Rightarrow> string \<Rightarrow> bytes result" where
  "peel_content buf truncated =
     and_then (slice_from buf 1) (\<lambda>d. and_then (decode_uvarint d) (\<lambda>(inner_len, n).
     let end_pos = unat (1 + of_nat n + inner_len :: u64) in
     if length buf < end_pos then Inl (Bail truncated) else
     slice_rng buf (1 + n) end_pos))"

definition OnionPacket_peel :: "crypto \<Rightarrow> OnionKeyChain \<Rightarrow> OnionPacket \<Rightarrow> PeeledOnion result" where
  "OnionPacket_peel C keys p =
     and_then (try_decrypt C keys (op_epk p) (op_aead_payload p)) (\<lambda>buf.
     if buf = [] then Inl (Bail ''empty onion payload after decrypt'') else
     and_then (idx buf 0) (\<lambda>t.
     if t = ONION_FORWARD then
       and_then (peel_content buf ''onion forward payload truncated'') (\<lambda>c. Inr (Forward c))
     else if t = ONION_DELIVER then
       and_then (peel_content buf ''onion deliver payload truncated'') (\<lambda>c. Inr (Deliver c))
     else Inl (Bail ''unknown onion type byte'')))"

section \<open>Construction\<close>

record OnionHop =
  oh_identity_ed_pub :: bytes
  oh_ephemeral_x_pub :: bytes

definition build_layer :: "crypto \<Rightarrow> bytes \<Rightarrow> OnionHop \<Rightarrow> u8 \<Rightarrow> bytes \<Rightarrow> OnionPacket result" where
  "build_layer C epk_priv target layer_type content =
     (let tag = routing_tag (blake2b C) (oh_identity_ed_pub target);
          epk_pub = x25519_pub_of C epk_priv;
          shared = x25519_dh C epk_priv (oh_ephemeral_x_pub target);
          plaintext = encode_uvarint (of_nat (length content)) [layer_type] @ content in
      case aead_seal C shared (replicate 12 0) epk_pub plaintext of
        None \<Rightarrow> Inl (Bail ''onion encrypt layer'')
      | Some sealed \<Rightarrow> Inr \<lparr>op_routing_tag = tag, op_epk = epk_pub, op_aead_payload = sealed\<rparr>)"

fun build_relays :: "crypto \<Rightarrow> (nat \<Rightarrow> bytes) \<Rightarrow> nat \<Rightarrow> OnionPacket \<Rightarrow> OnionHop list \<Rightarrow> OnionPacket result" where
  "build_relays C rnd i current [] = Inr current"
| "build_relays C rnd i current (relay # rest) =
     and_then (build_layer C (rnd i) relay ONION_FORWARD (OnionPacket_encode_inner current))
       (\<lambda>current. build_relays C rnd (Suc i) current rest)"

definition build_onion :: "crypto \<Rightarrow> (nat \<Rightarrow> bytes) \<Rightarrow> OnionHop list \<Rightarrow> OnionHop \<Rightarrow> bytes \<Rightarrow> OnionPacket result" where
  "build_onion C rnd relays dest traffic_bytes =
     and_then (build_layer C (rnd 0) dest ONION_DELIVER traffic_bytes)
       (\<lambda>current. build_relays C rnd 1 current (rev relays))"

section \<open>The replay cache\<close>

definition ONION_REPLAY_CACHE_SIZE :: nat where "ONION_REPLAY_CACHE_SIZE = 4096"

text \<open>The queue and its set mirror are the state; the result says whether the digest was already present.\<close>

definition onion_digest_seen :: "bytes \<Rightarrow> bytes list \<times> bytes set \<Rightarrow> bool \<times> bytes list \<times> bytes set" where
  "onion_digest_seen digest = (\<lambda>(seen, seen_set).
     if digest \<in> seen_set then (True, seen, seen_set) else
     let seen_set = insert digest seen_set;
         (seen, seen_set) =
           (if length seen \<ge> ONION_REPLAY_CACHE_SIZE
            then case seen of evicted # rest \<Rightarrow> (rest, seen_set - {evicted}) | [] \<Rightarrow> (seen, seen_set)
            else (seen, seen_set)) in
     (False, seen @ [digest], seen_set))"

definition onion_replay_digest :: "crypto \<Rightarrow> OnionPacket \<Rightarrow> bytes" where
  "onion_replay_digest C p =
     blake2b C 32 (ascii ''norn:onion-replay'' @ op_epk p @ take (min (length (op_aead_payload p)) 16) (op_aead_payload p))"

section \<open>The key chain keeps one generation\<close>

text \<open>Decryption succeeds with the first key of the candidate list that authenticates the payload.\<close>

lemma try_decrypt_find:
  "try_decrypt C k epk c =
     (case List.find (\<lambda>p. aead_open C (x25519_dh C p epk) (replicate 12 0) epk c \<noteq> None) (sphinx_privs k) of
        None \<Rightarrow> Inl (Bail ''onion peel: AEAD authentication failed'')
      | Some p \<Rightarrow> Inr (the (aead_open C (x25519_dh C p epk) (replicate 12 0) epk c)))"
  by (auto simp: try_decrypt_def sphinx_privs_def Let_def split: option.splits)

lemma sphinx_privs_rotate:
  "sphinx_privs (OnionKeyChain_rotate C now q k) =
     [q, kc_current_priv k] @ (case kc_identity_x_priv k of Some p \<Rightarrow> [p] | None \<Rightarrow> [])"
  by (simp add: sphinx_privs_def OnionKeyChain_rotate_def)

lemma rotate_twice_forgets:
  "sphinx_privs (OnionKeyChain_rotate C t2 q2 (OnionKeyChain_rotate C t1 q1 k)) =
     [q2, q1] @ (case kc_identity_x_priv k of Some p \<Rightarrow> [p] | None \<Rightarrow> [])"
  by (simp add: sphinx_privs_def OnionKeyChain_rotate_def)

section \<open>Encoding\<close>

definition onion_ok :: "OnionPacket \<Rightarrow> bool" where
  "onion_ok p \<longleftrightarrow> length (op_routing_tag p) = 16 \<and> length (op_epk p) = 32 \<and>
     length (op_aead_payload p) \<le> ONION_CELL_SIZE"

lemma encode_unpadded_eq:
  "OnionPacket_encode_unpadded p b =
     (if b then [TYPE_ONION] else []) @ op_routing_tag p @ op_epk p
     @ uvarint (of_nat (length (op_aead_payload p))) @ op_aead_payload p"
  by (simp add: OnionPacket_encode_unpadded_def Let_def encode_uvarint_buf[of _ "_ @ _"])

lemma encode_inner_eq:
  "OnionPacket_encode_inner p =
     op_routing_tag p @ op_epk p @ uvarint (of_nat (length (op_aead_payload p))) @ op_aead_payload p"
  by (simp add: OnionPacket_encode_inner_def encode_unpadded_eq)

lemma encode_inner_padded: "\<exists>z. OnionPacket_encode p = TYPE_ONION # OnionPacket_encode_inner p @ z"
  by (auto simp: OnionPacket_encode_def Let_def encode_unpadded_eq encode_inner_eq)

lemma decode_inner:
  assumes "onion_ok p"
  shows "OnionPacket_decode (OnionPacket_encode_inner p @ rest) = Inr p"
proof -
  have n: "unat (of_nat (length (op_aead_payload p)) :: u64) = length (op_aead_payload p)"
    using assms by (intro unat_of_nat_len) (simp add: onion_ok_def ONION_CELL_SIZE_def)
  have "length (uvarint (of_nat (length (op_aead_payload p)))) \<le> 10" by (rule length_uvarint_le)
  then show ?thesis using assms n
    by (cases p) (simp add: OnionPacket_decode_def encode_inner_eq onion_ok_def codec_rt ONION_CELL_SIZE_def)
qed

lemma decode_onion_ok: "OnionPacket_decode data = Inr p \<Longrightarrow> onion_ok p"
  by (auto simp: OnionPacket_decode_def onion_ok_def and_then_Inr_iff Let_def simp del: slice_Inr
      split: if_splits dest!: slice_InrD)

lemma decode_onion_nopanic: "nopanic (OnionPacket_decode data)"
  by (auto simp: OnionPacket_decode_def Let_def nopanic_and_then and_then_Inr_iff simp del: slice_Inr
      dest!: slice_InrD decode_bounds split: if_splits)

lemma decode_encode: "onion_ok p \<Longrightarrow> OnionPacket_decode (tl (OnionPacket_encode p) @ rest) = Inr p"
  using encode_inner_padded[of p] decode_inner[of p] by auto

interpretation opk: message_codec TYPE_ONION OnionPacket_encode OnionPacket_decode onion_ok
proof (unfold_locales, goal_cases)
  case (1 x)
  then show ?case using encode_inner_padded[of x] by auto
qed (rule decode_encode decode_onion_ok decode_onion_nopanic; assumption)+

section \<open>Layers\<close>

text \<open>A content of fewer than $2^{14}$ bytes has a length field of at most two bytes.\<close>

lemma length_uvarint_2: "v < 16384 \<Longrightarrow> length (uvarint v) \<le> 2"
proof -
  assume "v < 16384"
  then have "unat v < 16384" by (simp add: word_less_nat_alt)
  then have "unat (drop_bit 7 (drop_bit 7 v)) = 0" unfolding unat_drop7 by simp
  then have "drop_bit 7 (drop_bit 7 v) = 0" by (simp only: unat_eq_zero)
  then show ?thesis by (subst uvarint_unfold, subst uvarint_unfold[of "drop_bit 7 v"]) auto
qed

lemma length_uvarint_nat: "n < 16384 \<Longrightarrow> length (uvarint (of_nat n)) \<le> 2"
  by (rule length_uvarint_2) (simp add: word_less_nat_alt unat_of_nat_len)

definition holds_key :: "crypto \<Rightarrow> OnionKeyChain \<Rightarrow> OnionHop \<Rightarrow> bool" where
  "holds_key C k h \<longleftrightarrow> oh_ephemeral_x_pub h = x25519_pub_of C (kc_current_priv k)"

text \<open>A layer of a content of at most 1280 bytes can be built, and is at most 69 bytes longer than the content.\<close>

lemma build_layer_ok:
  assumes C: "aead_correct C" "aead_total C" "key_sizes C" "digest_sizes C" and len: "length content \<le> ONION_CELL_SIZE"
  obtains p where "build_layer C e h t content = Inr p" "length (op_routing_tag p) = 16" "length (op_epk p) = 32"
    "length (op_aead_payload p) \<le> length content + 19"
    "length (OnionPacket_encode_inner p) \<le> length content + 69"
proof -
  let ?m = "t # uvarint (of_nat (length content)) @ content" and ?k = "x25519_dh C e (oh_ephemeral_x_pub h)"
  have l: "length content \<le> 1280" using len by (simp add: ONION_CELL_SIZE_def)
  have v: "length (uvarint (of_nat (length content))) \<le> 2" using l by (intro length_uvarint_nat) simp
  obtain s where s: "aead_seal C ?k (replicate 12 0) (x25519_pub_of C e) ?m = Some s"
    using C(2) l v unfolding aead_total_def by fastforce
  have "length s = length ?m + 16" using C(1) s by (auto simp: aead_correct_def)
  then have ls: "length s \<le> length content + 19" using v by simp
  then have "length (uvarint (of_nat (length s))) \<le> 2" using l by (intro length_uvarint_nat) simp
  then show ?thesis
    using s ls C(3,4) v
    by (intro that[of "\<lparr>op_routing_tag = routing_tag (blake2b C) (oh_identity_ed_pub h),
        op_epk = x25519_pub_of C e, op_aead_payload = s\<rparr>"])
      (simp_all add: build_layer_def Let_def encode_uvarint_buf[of _ "[_]"] key_sizes_def digest_sizes_def
        routing_tag_def encode_inner_eq)
qed

lemma try_decrypt_layer:
  assumes "dh_commutes C" "aead_correct C" "holds_key C k h"
    "aead_seal C (x25519_dh C e (oh_ephemeral_x_pub h)) (replicate 12 0) (x25519_pub_of C e) m = Some s"
  shows "try_decrypt C k (x25519_pub_of C e) s = Inr m"
proof -
  have "x25519_dh C (kc_current_priv k) (x25519_pub_of C e) = x25519_dh C e (oh_ephemeral_x_pub h)"
    using assms(1,3) by (simp add: dh_commutes_def holds_key_def)
  then show ?thesis using assms(2,4) by (simp add: try_decrypt_def Let_def aead_correct_def)
qed

lemma layer_opens:
  assumes "dh_commutes C" "aead_correct C" "holds_key C k h" "build_layer C e h t content = Inr p"
  shows "aead_open C (x25519_dh C (kc_current_priv k) (op_epk p)) (replicate 12 0) (op_epk p) (op_aead_payload p) \<noteq> None"
  using assms by (auto simp: build_layer_def Let_def dh_commutes_def holds_key_def aead_correct_def split: option.splits)

lemma peel_content_eq:
  assumes "length content < 2 ^ 63"
  shows "peel_content (t # uvarint (of_nat (length content)) @ content) msg = Inr content"
proof -
  let ?v = "uvarint (of_nat (length content))"
  have v: "length ?v \<le> 10" by (rule length_uvarint_le)
  have "unat (1 + of_nat (length ?v) + of_nat (length content) :: u64) = unat (of_nat (1 + length ?v + length content) :: u64)"
    by (simp add: add.assoc)
  also have "unat (of_nat (1 + length ?v + length content) :: u64) = 1 + length ?v + length content"
    by (rule unat_of_nat_len) (use assms v in simp)
  finally show ?thesis by (simp add: peel_content_def codec_rt Let_def)
qed

lemma peel_layer:
  assumes C: "dh_commutes C" "aead_correct C" and k: "holds_key C k h"
    and b: "build_layer C e h t content = Inr p" and len: "length content < 2 ^ 63"
  shows "t = ONION_FORWARD \<Longrightarrow> OnionPacket_peel C k p = Inr (Forward content)"
    "t = ONION_DELIVER \<Longrightarrow> OnionPacket_peel C k p = Inr (Deliver content)"
proof -
  let ?m = "t # uvarint (of_nat (length content)) @ content"
  obtain s where s: "aead_seal C (x25519_dh C e (oh_ephemeral_x_pub h)) (replicate 12 0) (x25519_pub_of C e) ?m = Some s"
    and p: "op_epk p = x25519_pub_of C e" "op_aead_payload p = s"
    using b by (auto simp: build_layer_def Let_def encode_uvarint_buf[of _ "[_]"] split: option.splits)
  have "try_decrypt C k (op_epk p) (op_aead_payload p) = Inr ?m"
    unfolding p by (rule try_decrypt_layer[OF C k s])
  then show "t = ONION_FORWARD \<Longrightarrow> OnionPacket_peel C k p = Inr (Forward content)"
    "t = ONION_DELIVER \<Longrightarrow> OnionPacket_peel C k p = Inr (Deliver content)"
    using peel_content_eq[OF len] by (auto simp: OnionPacket_peel_def)
qed

section \<open>The journey of a cell\<close>

text \<open>What a relay does with the frame addressed to it, as \<^verbatim>\<open>handle_onion\<close> does: decode, peel one layer, and
  decode and re-encode the inner packet for the next hop.\<close>

datatype relayed = Next bytes | Exit bytes

definition relay_cell :: "crypto \<Rightarrow> OnionKeyChain \<Rightarrow> bytes \<Rightarrow> relayed result" where
  "relay_cell C k frame =
     and_then (OnionPacket_decode (tl frame)) (\<lambda>p.
     and_then (OnionPacket_peel C k p) (\<lambda>peeled.
     case peeled of
       Forward inner_bytes \<Rightarrow> and_then (OnionPacket_decode inner_bytes) (\<lambda>inner. Inr (Next (OnionPacket_encode inner)))
     | Deliver traffic_bytes \<Rightarrow> Inr (Exit traffic_bytes)))"

text \<open>The frames seen on the links when the hops relay one after the other, and the delivered bytes.\<close>

fun carry :: "crypto \<Rightarrow> OnionKeyChain list \<Rightarrow> bytes \<Rightarrow> (bytes list \<times> bytes) result" where
  "carry C [] frame = Inl (Bail ''no hop left'')"
| "carry C (k # ks) frame =
     and_then (relay_cell C k frame) (\<lambda>r.
     case r of
       Exit t \<Rightarrow> if ks = [] then Inr ([frame], t) else Inl (Bail ''early exit'')
     | Next frame' \<Rightarrow> and_then (carry C ks frame') (\<lambda>(fs, t). Inr (frame # fs, t)))"

lemma length_encode_cell: "length (OnionPacket_encode_inner p) < ONION_CELL_SIZE \<Longrightarrow> length (OnionPacket_encode p) = ONION_CELL_SIZE"
  by (simp add: OnionPacket_encode_def Let_def encode_unpadded_eq encode_inner_eq)

text \<open>The layers that are still on the packet belong to the hops that still have to relay it.\<close>

definition onion_for :: "crypto \<Rightarrow> OnionKeyChain list \<Rightarrow> bytes \<Rightarrow> OnionPacket \<Rightarrow> bool" where
  "onion_for C ks traffic p \<longleftrightarrow> onion_ok p \<and>
     (\<exists>fs. carry C ks (OnionPacket_encode p) = Inr (fs, traffic) \<and> length fs = length ks \<and>
       (\<forall>f \<in> set fs. length f = ONION_CELL_SIZE))"

lemma onion_for_exit:
  assumes C: "dh_commutes C" "aead_correct C" "aead_total C" "key_sizes C" "digest_sizes C"
    and k: "holds_key C k h" and len: "length traffic + 69 < ONION_CELL_SIZE"
  obtains p where "build_layer C e h ONION_DELIVER traffic = Inr p" "onion_for C [k] traffic p"
    "length (OnionPacket_encode_inner p) \<le> length traffic + 69"
proof -
  from len have l: "length traffic \<le> ONION_CELL_SIZE" "length traffic < 2 ^ 63" by (auto simp: ONION_CELL_SIZE_def)
  obtain p where p: "build_layer C e h ONION_DELIVER traffic = Inr p" "length (op_routing_tag p) = 16"
    "length (op_epk p) = 32" "length (op_aead_payload p) \<le> length traffic + 19"
    "length (OnionPacket_encode_inner p) \<le> length traffic + 69"
    by (rule build_layer_ok[OF C(2-5) l(1)])
  have ok: "onion_ok p" using p len by (simp add: onion_ok_def)
  have "carry C [k] (OnionPacket_encode p) = Inr ([OnionPacket_encode p], traffic)"
    using opk.dec_enc[OF ok, of "[]"] peel_layer(2)[OF C(1,2) k p(1) l(2)] by (simp add: relay_cell_def)
  then have "onion_for C [k] traffic p"
    using ok length_encode_cell[of p] p(5) len by (simp add: onion_for_def)
  then show ?thesis by (rule that[OF p(1) _ p(5)])
qed

lemma onion_for_relay:
  assumes C: "dh_commutes C" "aead_correct C" "aead_total C" "key_sizes C" "digest_sizes C"
    and k: "holds_key C k h" and len: "length (OnionPacket_encode_inner q) + 69 < ONION_CELL_SIZE"
    and q: "onion_for C ks traffic q"
  obtains p where "build_layer C e h ONION_FORWARD (OnionPacket_encode_inner q) = Inr p" "onion_for C (k # ks) traffic p"
    "length (OnionPacket_encode_inner p) \<le> length (OnionPacket_encode_inner q) + 69"
proof -
  let ?c = "OnionPacket_encode_inner q"
  from len have l: "length ?c \<le> ONION_CELL_SIZE" "length ?c < 2 ^ 63" by (auto simp: ONION_CELL_SIZE_def)
  obtain p where p: "build_layer C e h ONION_FORWARD ?c = Inr p" "length (op_routing_tag p) = 16"
    "length (op_epk p) = 32" "length (op_aead_payload p) \<le> length ?c + 19"
    "length (OnionPacket_encode_inner p) \<le> length ?c + 69"
    by (rule build_layer_ok[OF C(2-5) l(1)])
  have ok: "onion_ok p" using p len by (simp add: onion_ok_def)
  have "relay_cell C k (OnionPacket_encode p) = Inr (Next (OnionPacket_encode q))"
    using opk.dec_enc[OF ok, of "[]"] peel_layer(1)[OF C(1,2) k p(1) l(2)] decode_inner[of q "[]"] q
    by (simp add: relay_cell_def onion_for_def)
  then have "onion_for C (k # ks) traffic p"
    using ok q length_encode_cell[of p] p(5) len by (auto simp: onion_for_def)
  then show ?thesis by (rule that[OF p(1) _ p(5)])
qed

lemma build_relays_for:
  assumes C: "dh_commutes C" "aead_correct C" "aead_total C" "key_sizes C" "digest_sizes C"
  shows "list_all2 (holds_key C) krs rs \<Longrightarrow> onion_for C ks traffic q \<Longrightarrow>
    length (OnionPacket_encode_inner q) + 69 * length rs < ONION_CELL_SIZE \<Longrightarrow>
    \<exists>p. build_relays C rnd i q rs = Inr p \<and> onion_for C (rev krs @ ks) traffic p"
proof (induction krs rs arbitrary: i q ks rule: list_all2_induct)
  case Nil
  then show ?case by simp
next
  case (Cons k krs r rs)
  have "length (OnionPacket_encode_inner q) + 69 < ONION_CELL_SIZE" using Cons.prems by simp
  then obtain p where p: "build_layer C (rnd i) r ONION_FORWARD (OnionPacket_encode_inner q) = Inr p"
    "onion_for C (k # ks) traffic p" "length (OnionPacket_encode_inner p) \<le> length (OnionPacket_encode_inner q) + 69"
    by (rule onion_for_relay[OF C Cons.hyps(1) _ Cons.prems(1)])
  then have "\<exists>p'. build_relays C rnd (Suc i) p rs = Inr p' \<and> onion_for C (rev krs @ k # ks) traffic p'"
    using Cons.prems(2) by (intro Cons.IH) auto
  then show ?case using p(1) by simp
qed

lemma build_onion_for:
  assumes C: "dh_commutes C" "aead_correct C" "aead_total C" "key_sizes C" "digest_sizes C"
    and k: "list_all2 (holds_key C) ks relays" "holds_key C kd dest"
    and len: "length traffic + 69 * (length relays + 1) < ONION_CELL_SIZE"
  shows "\<exists>p. build_onion C rnd relays dest traffic = Inr p \<and> onion_for C (ks @ [kd]) traffic p"
proof -
  from len have "length traffic + 69 < ONION_CELL_SIZE" by simp
  then obtain q where q: "build_layer C (rnd 0) dest ONION_DELIVER traffic = Inr q" "onion_for C [kd] traffic q"
    "length (OnionPacket_encode_inner q) \<le> length traffic + 69"
    by (rule onion_for_exit[OF C k(2)])
  then have "length (OnionPacket_encode_inner q) + 69 * length (rev relays) < ONION_CELL_SIZE" using len by simp
  then have "\<exists>p. build_relays C rnd 1 q (rev relays) = Inr p \<and> onion_for C (rev (rev ks) @ [kd]) traffic p"
    using k(1) by (intro build_relays_for[OF C _ q(2)]) (simp_all add: list_all2_rev)
  then show ?thesis using q(1) by (simp add: build_onion_def)
qed

section \<open>A length field that wraps\<close>

text \<open>The content length \<^verbatim>\<open>u64::MAX\<close> passes the truncation test, because the end position wraps to 10.\<close>

lemma uvarint_max: "uvarint (- 1) = replicate 9 0xff @ [1]"
  by code_simp

lemma peel_content_wraps: "peel_content (t # uvarint (- 1)) msg = Inl (Panic ''slice out of range'')"
proof -
  have l: "length (uvarint (- 1)) = 10" by (simp add: uvarint_max)
  show ?thesis by (simp add: peel_content_def codec_rt Let_def l slice_rng_def)
qed

lemma peel_panics:
  assumes C: "dh_commutes C" "aead_correct C" "aead_total C" "key_sizes C"
  obtains p where "onion_ok p" "OnionPacket_peel C k p = Inl (Panic ''slice out of range'')"
    "length (OnionPacket_encode_inner p) < ONION_CELL_SIZE"
proof -
  let ?h = "\<lparr>oh_identity_ed_pub = [], oh_ephemeral_x_pub = x25519_pub_of C (kc_current_priv k)\<rparr>"
  let ?m = "ONION_FORWARD # uvarint (- 1)"
  let ?k = "x25519_dh C [] (oh_ephemeral_x_pub ?h)"
  have l: "length ?m = 11" by (simp add: uvarint_max)
  obtain s where s: "aead_seal C ?k (replicate 12 0) (x25519_pub_of C []) ?m = Some s"
    using C(3) l unfolding aead_total_def by fastforce
  have ls: "length s = 27" using C(2) s l by (auto simp: aead_correct_def)
  let ?p = "\<lparr>op_routing_tag = replicate 16 0, op_epk = x25519_pub_of C [], op_aead_payload = s\<rparr>"
  have "try_decrypt C k (op_epk ?p) (op_aead_payload ?p) = Inr ?m"
    using try_decrypt_layer[OF C(1,2) _ s, of k] by (simp add: holds_key_def)
  then have "OnionPacket_peel C k ?p = Inl (Panic ''slice out of range'')"
    using peel_content_wraps by (simp add: OnionPacket_peel_def)
  moreover have "onion_ok ?p" using C(4) ls by (simp add: onion_ok_def key_sizes_def ONION_CELL_SIZE_def)
  moreover have "length (OnionPacket_encode_inner ?p) < ONION_CELL_SIZE"
    using C(4) ls length_uvarint_le[of 27] by (simp add: encode_inner_eq key_sizes_def ONION_CELL_SIZE_def)
  ultimately show ?thesis by (intro that)
qed

section \<open>The replay cache\<close>

definition seen_inv :: "bytes list \<times> bytes set \<Rightarrow> bool" where
  "seen_inv = (\<lambda>(seen, seen_set). set seen = seen_set \<and> distinct seen \<and> length seen \<le> ONION_REPLAY_CACHE_SIZE)"

fun digests_seen :: "bytes list \<Rightarrow> bytes list \<times> bytes set \<Rightarrow> bytes list \<times> bytes set" where
  "digests_seen [] st = st"
| "digests_seen (d # ds) st = digests_seen ds (snd (onion_digest_seen d st))"

lemma onion_digest_seen_iff: "fst (onion_digest_seen d st) \<longleftrightarrow> d \<in> snd st"
  by (auto simp: onion_digest_seen_def Let_def split: prod.splits if_splits)

lemma seen_inv_step: "seen_inv st \<Longrightarrow> seen_inv (snd (onion_digest_seen d st))"
  by (cases st; cases "fst st")
    (auto simp: seen_inv_def onion_digest_seen_def Let_def ONION_REPLAY_CACHE_SIZE_def split: if_splits)

lemma seen_inv_run: "seen_inv st \<Longrightarrow> seen_inv (digests_seen ds st)"
  by (induction ds arbitrary: st) (simp_all add: seen_inv_step)

text \<open>An entry moves one place towards the front per new digest.\<close>

lemma seen_step_keeps:
  assumes "seen_inv st" "fst st = xs @ d # ys" "Suc (length ys) < ONION_REPLAY_CACHE_SIZE"
  shows "\<exists>xs' ys'. fst (snd (onion_digest_seen e st)) = xs' @ d # ys' \<and> length ys' \<le> Suc (length ys)"
proof (cases "e \<in> snd st")
  case True
  then show ?thesis using assms(2) by (cases st) (simp add: onion_digest_seen_def, metis le_SucI le_refl)
next
  case False
  show ?thesis
  proof (cases xs)
    case Nil
    then show ?thesis using assms False
      by (intro exI[of _ "[]"] exI[of _ "ys @ [e]"]) (cases st, simp add: onion_digest_seen_def Let_def)
  next
    case (Cons x xs')
    then show ?thesis using assms(2) False
      by (intro exI[of _ "if length (fst st) \<ge> ONION_REPLAY_CACHE_SIZE then xs' else xs"] exI[of _ "ys @ [e]"])
        (cases st, simp add: onion_digest_seen_def Let_def)
  qed
qed

lemma seen_run_keeps:
  "seen_inv st \<Longrightarrow> fst st = xs @ d # ys \<Longrightarrow> length ys + length ds < ONION_REPLAY_CACHE_SIZE \<Longrightarrow>
    d \<in> snd (digests_seen ds st)"
proof (induction ds arbitrary: st xs ys)
  case Nil
  then show ?case by (auto simp: seen_inv_def split: prod.splits)
next
  case (Cons e ds)
  then obtain xs' ys' where s: "fst (snd (onion_digest_seen e st)) = xs' @ d # ys'" "length ys' \<le> Suc (length ys)"
    using seen_step_keeps[of st xs d ys e] by auto
  then show ?case using Cons.IH[OF seen_inv_step[OF Cons.prems(1)] s(1)] Cons.prems(3) by simp
qed

lemma seen_first:
  assumes "onion_digest_seen d st = (False, st')"
  obtains xs where "fst st' = xs @ [d]"
  using assms by (cases st) (auto simp: onion_digest_seen_def Let_def split: if_splits list.splits)

lemma replay_detected:
  assumes "seen_inv st" "onion_digest_seen d st = (False, st')" "length ds < ONION_REPLAY_CACHE_SIZE"
  shows "fst (onion_digest_seen d (digests_seen ds st'))"
proof -
  obtain xs where "fst st' = xs @ d # []" using assms(2) by (rule seen_first)
  moreover have "seen_inv st'" using seen_inv_step[OF assms(1), of d] assms(2) by simp
  ultimately show ?thesis using seen_run_keeps[of st' xs d "[]" ds] assms(3) by (simp add: onion_digest_seen_iff)
qed

section \<open>Properties\<close>

definition ex_chain :: "bytes \<Rightarrow> OnionKeyChain" where
  "ex_chain k = OnionKeyChain_new ex 0 k"

definition ex_hop :: "bytes \<Rightarrow> OnionHop" where
  "ex_hop k = \<lparr>oh_identity_ed_pub = k, oh_ephemeral_x_pub = kc_current_pub (ex_chain k)\<rparr>"

lemma ex_holds_key: "holds_key ex (ex_chain k) (ex_hop k)"
  by (simp add: holds_key_def ex_chain_def ex_hop_def OnionKeyChain_new_def)

text \<open>C6. Onion delivery. For any number of relays whose current keys the sender knows, and a traffic packet that leaves 69
  bytes per layer of the 1280-byte cell, building the onion succeeds; every hop decodes the frame it gets, peels
  its layer and forwards the next frame; every frame on every link is exactly one cell long; and the last hop
  delivers exactly the traffic bytes.\<close>

theorem onion_delivery:
  assumes "dh_commutes C" "aead_correct C" "aead_total C" "key_sizes C" "digest_sizes C"
    and "list_all2 (holds_key C) ks relays" "holds_key C kd dest"
    and "length traffic + 69 * (length relays + 1) < ONION_CELL_SIZE"
  shows "\<exists>p frames. build_onion C rnd relays dest traffic = Inr p \<and>
    carry C (ks @ [kd]) (OnionPacket_encode p) = Inr (frames, traffic) \<and>
    length frames = length relays + 1 \<and> (\<forall>f \<in> set frames. length f = ONION_CELL_SIZE)"
  using build_onion_for[OF assms, of rnd] list_all2_lengthD[OF assms(6)] unfolding onion_for_def by auto

theorem onion_delivery_witness:
  "\<exists>p frames. build_onion ex (\<lambda>i. [of_nat i]) [ex_hop [1], ex_hop [2]] (ex_hop [3]) (replicate 1000 7) = Inr p \<and>
     carry ex [ex_chain [1], ex_chain [2], ex_chain [3]] (OnionPacket_encode p) = Inr (frames, replicate 1000 7) \<and>
     length frames = 3 \<and> (\<forall>f \<in> set frames. length f = 1280)"
proof -
  have k: "list_all2 (holds_key ex) [ex_chain [1], ex_chain [2]] [ex_hop [1], ex_hop [2]]" by (simp add: ex_holds_key)
  have l: "length (replicate 1000 (7 :: u8)) + 69 * (length [ex_hop [1], ex_hop [2]] + 1) < ONION_CELL_SIZE"
    by (simp add: ONION_CELL_SIZE_def)
  show ?thesis
    using onion_delivery[OF ex_dh ex_aead ex_key_sizes ex_digests k ex_holds_key[of "[3]"] l, of "\<lambda>i. [of_nat i]"]
    by (simp add: ONION_CELL_SIZE_def numeral_3_eq_3 del: carry.simps)
qed

text \<open>Onion decoding is total: decoding bytes from the network never panics, a decoded packet is within the cell
  bound, and a packet within the bound decodes from its cell whatever padding follows.\<close>

theorem onion_codec:
  "nopanic (OnionPacket_decode data) \<and>
   (OnionPacket_decode data = Inr p \<longrightarrow> onion_ok p) \<and>
   (onion_ok p \<longrightarrow> OnionPacket_decode (tl (OnionPacket_encode p) @ rest) = Inr p \<and> hd (OnionPacket_encode p) = TYPE_ONION)"
  using decode_onion_nopanic decode_onion_ok decode_encode opk.enc_type[of p] by (metis list.sel(1))

theorem onion_codec_witness:
  "OnionPacket_decode (tl (OnionPacket_encode \<lparr>op_routing_tag = replicate 16 1, op_epk = replicate 32 2, op_aead_payload = [3]\<rparr>)) =
     Inr \<lparr>op_routing_tag = replicate 16 1, op_epk = replicate 32 2, op_aead_payload = [3]\<rparr>"
  using onion_codec[of "[]" "\<lparr>op_routing_tag = replicate 16 1, op_epk = replicate 32 2, op_aead_payload = [3]\<rparr>" "[]"]
  by (simp add: onion_ok_def ONION_CELL_SIZE_def)

text \<open>C35. Peeling can panic. For every key chain there is a well-formed onion packet, buildable by anyone who knows the
  chain's public key, whose peeling panics: its content length is \<^verbatim>\<open>u64::MAX\<close>, the computed end wraps around to 10, passes
  the truncation test, and the slice from 11 to 10 is out of range.\<close>

theorem onion_peel_panics:
  assumes "dh_commutes C" "aead_correct C" "aead_total C" "key_sizes C"
  shows "\<exists>p. OnionPacket_decode (tl (OnionPacket_encode p)) = Inr p \<and> length (OnionPacket_encode p) = ONION_CELL_SIZE \<and>
    OnionPacket_peel C k p = Inl (Panic ''slice out of range'')"
proof -
  obtain p where p: "onion_ok p" "OnionPacket_peel C k p = Inl (Panic ''slice out of range'')"
    "length (OnionPacket_encode_inner p) < ONION_CELL_SIZE"
    by (rule peel_panics[OF assms])
  then show ?thesis using decode_encode[OF p(1), of "[]"] length_encode_cell[OF p(3)] by auto
qed

theorem onion_peel_panics_witness:
  "\<exists>p. OnionPacket_peel ex (ex_chain [1]) p = Inl (Panic ''slice out of range'')"
  using onion_peel_panics[OF ex_dh ex_aead ex_key_sizes, of "ex_chain [1]"] by blast

text \<open>Rotation keeps one generation. A layer built for the public key a node advertised before one rotation still
  peels after it, unless the new key happens to authenticate the payload; after two rotations the old private key is
  no longer among the keys the node tries.\<close>

theorem onion_rotation:
  assumes "dh_commutes C" "aead_correct C" "holds_key C k h" "length content < 2 ^ 63"
    and "build_layer C e h ONION_DELIVER content = Inr p"
    and "aead_open C (x25519_dh C q (op_epk p)) (replicate 12 0) (op_epk p) (op_aead_payload p) = None"
  shows "OnionPacket_peel C (OnionKeyChain_rotate C now q k) p = Inr (Deliver content) \<and>
    (kc_current_priv k \<notin> {q, q'} \<and> kc_identity_x_priv k \<noteq> Some (kc_current_priv k) \<longrightarrow>
      kc_current_priv k \<notin> set (sphinx_privs (OnionKeyChain_rotate C now' q' (OnionKeyChain_rotate C now q k))))"
proof -
  have "OnionPacket_peel C k p = Inr (Deliver content)" using peel_layer(2)[OF assms(1-3,5,4)] by simp
  moreover have "aead_open C (x25519_dh C (kc_current_priv k) (op_epk p)) (replicate 12 0) (op_epk p) (op_aead_payload p) \<noteq> None"
    by (rule layer_opens[OF assms(1-3,5)])
  then have "try_decrypt C (OnionKeyChain_rotate C now q k) (op_epk p) (op_aead_payload p) = try_decrypt C k (op_epk p) (op_aead_payload p)"
    using assms(6) by (auto simp: try_decrypt_def Let_def OnionKeyChain_rotate_def)
  ultimately have "OnionPacket_peel C (OnionKeyChain_rotate C now q k) p = Inr (Deliver content)"
    by (simp add: OnionPacket_peel_def)
  then show ?thesis by (auto simp: rotate_twice_forgets split: option.splits)
qed

theorem onion_rotation_witness:
  "\<exists>p. build_layer ex [9] (ex_hop [1]) ONION_DELIVER [42] = Inr p \<and>
     OnionPacket_peel ex (OnionKeyChain_rotate ex 0 [2] (ex_chain [1])) p = Inr (Deliver [42])"
proof -
  let ?p = "\<lparr>op_routing_tag = routing_tag (blake2b ex) [1], op_epk = pad_to 32 [9],
    op_aead_payload = [0, 1, 42] @ ex_tag (xor_bytes (pad_to 32 [9]) (pad_to 32 [1])) (replicate 12 0) (pad_to 32 [9])\<rparr>"
  have p: "build_layer ex [9] (ex_hop [1]) ONION_DELIVER [42] = Inr ?p"
    by (simp add: build_layer_def ex_def ex_hop_def ex_chain_def OnionKeyChain_new_def Let_def encode_uvarint.simps)
  have t: "ex_tag (xor_bytes (pad_to 32 [9]) (pad_to 32 [1])) (replicate 12 0) (pad_to 32 [9]) \<noteq>
      ex_tag (xor_bytes (pad_to 32 [2]) (pad_to 32 [9])) (replicate 12 0) (pad_to 32 [9])" by code_simp
  have o: "aead_open ex (x25519_dh ex [2] (op_epk ?p)) (replicate 12 0) (op_epk ?p) (op_aead_payload ?p) = None"
    using t by (simp add: ex_def ex_open_def)
  show ?thesis
    using onion_rotation[OF ex_dh ex_aead(1) ex_holds_key _ p o, of 0] p by simp
qed

text \<open>Onion replay cache. In every reachable state the queue and its set hold the same digests, without duplicates
  and never more than 4096; and a digest seen for the first time is reported as a replay when it comes again after fewer
  than 4096 further digests, whatever they are.\<close>

theorem onion_replay_cache:
  assumes "seen_inv st" "onion_digest_seen d st = (False, st')" "length ds < ONION_REPLAY_CACHE_SIZE"
  shows "seen_inv (digests_seen ds st') \<and> fst (onion_digest_seen d (digests_seen ds st'))"
  using replay_detected[OF assms] seen_inv_run[of st' ds] seen_inv_step[OF assms(1), of d] assms(2) by simp

theorem onion_replay_cache_witness:
  "seen_inv ([], {}) \<and> onion_digest_seen [1] ([], {}) = (False, ([[1]], {[1]})) \<and>
   fst (onion_digest_seen [1] (digests_seen [[2], [3]] ([[1]], {[1]})))"
proof -
  have i: "seen_inv ([], {})" by (simp add: seen_inv_def)
  have s: "onion_digest_seen [1] ([], {}) = (False, ([[1]], {[1]}))"
    by (simp add: onion_digest_seen_def Let_def ONION_REPLAY_CACHE_SIZE_def)
  show ?thesis using onion_replay_cache[OF i s, of "[[2], [3]]"] i s by (simp add: ONION_REPLAY_CACHE_SIZE_def)
qed

end
