(* ===== verification/Ieee_Float.thy ===== *)
theory Ieee_Float
  imports Norn_Prelude Complex_Main "HOL-Library.Log_Nat"
begin

text \<open>
  The floating-point numbers of the sources, \<^verbatim>\<open>f32\<close> and \<^verbatim>\<open>f64\<close>, as IEEE 754 has them: a value is a rational, an
  infinity or not a number, and the arithmetic operations round the exact result to the nearest representable
  value, ties to even, with gradual underflow and overflow to infinity. The two zeros are one value: no
  comparison or arithmetic of the sources tells them apart. The lemmas are the ones the trust and cost computations rest on: rounding is
  monotone and exact on representable values.
\<close>

section \<open>Values and rounding\<close>

datatype fl = NaN | NInf | Fin rat | PInf

text \<open>A format is its precision and its largest exponent.\<close>

type_synonym format = "nat \<times> int"

definition F32 :: format where "F32 = (24, 127)"
definition F64 :: format where "F64 = (53, 1023)"

definition expo :: "rat \<Rightarrow> int" where
  "expo x = (let (n, d) = quotient_of x; k = bitlen n - bitlen d in if 2 powi k \<le> x then k else k - 1)"

definition rne :: "rat \<Rightarrow> int" where
  "rne x = (let f = \<lfloor>x\<rfloor>; r = x - of_int f in
            if r < 1 / 2 then f else if r > 1 / 2 then f + 1 else if even f then f else f + 1)"

definition quantum :: "format \<Rightarrow> rat \<Rightarrow> rat" where
  "quantum fmt x = 2 powi (max (expo x) (1 - snd fmt) - int (fst fmt) + 1)"

definition rnd_pos :: "format \<Rightarrow> rat \<Rightarrow> rat" where
  "rnd_pos fmt x = of_int (rne (x / quantum fmt x)) * quantum fmt x"

text \<open>The result overflows when its exponent exceeds the largest one.\<close>

definition rnd :: "format \<Rightarrow> rat \<Rightarrow> fl" where
  "rnd fmt x =
     (if x = 0 then Fin 0
      else if x > 0 then (let y = rnd_pos fmt x in if snd fmt < expo y then PInf else Fin y)
      else (let y = rnd_pos fmt (- x) in if snd fmt < expo y then NInf else Fin (- y)))"

section \<open>Operations\<close>

fun fneg :: "fl \<Rightarrow> fl" where
  "fneg NaN = NaN" | "fneg NInf = PInf" | "fneg PInf = NInf" | "fneg (Fin x) = Fin (- x)"

fun fadd :: "format \<Rightarrow> fl \<Rightarrow> fl \<Rightarrow> fl" where
  "fadd fmt (Fin x) (Fin y) = rnd fmt (x + y)"
| "fadd fmt NaN y = NaN"
| "fadd fmt x NaN = NaN"
| "fadd fmt PInf NInf = NaN"
| "fadd fmt NInf PInf = NaN"
| "fadd fmt PInf y = PInf"
| "fadd fmt NInf y = NInf"
| "fadd fmt x PInf = PInf"
| "fadd fmt x NInf = NInf"

definition fsub :: "format \<Rightarrow> fl \<Rightarrow> fl \<Rightarrow> fl" where
  "fsub fmt x y = fadd fmt x (fneg y)"

definition inf_sign :: "rat \<Rightarrow> fl" where
  "inf_sign s = (if s > 0 then PInf else if s < 0 then NInf else NaN)"

fun fmul :: "format \<Rightarrow> fl \<Rightarrow> fl \<Rightarrow> fl" where
  "fmul fmt (Fin x) (Fin y) = rnd fmt (x * y)"
| "fmul fmt NaN y = NaN"
| "fmul fmt x NaN = NaN"
| "fmul fmt (Fin x) PInf = inf_sign x"
| "fmul fmt (Fin x) NInf = inf_sign (- x)"
| "fmul fmt PInf (Fin y) = inf_sign y"
| "fmul fmt NInf (Fin y) = inf_sign (- y)"
| "fmul fmt PInf PInf = PInf"
| "fmul fmt NInf NInf = PInf"
| "fmul fmt PInf NInf = NInf"
| "fmul fmt NInf PInf = NInf"

text \<open>Division by zero takes the zero as positive, which it is where the sources divide.\<close>

fun fdiv :: "format \<Rightarrow> fl \<Rightarrow> fl \<Rightarrow> fl" where
  "fdiv fmt (Fin x) (Fin y) = (if y = 0 then inf_sign x else rnd fmt (x / y))"
| "fdiv fmt NaN y = NaN"
| "fdiv fmt x NaN = NaN"
| "fdiv fmt (Fin x) PInf = Fin 0"
| "fdiv fmt (Fin x) NInf = Fin 0"
| "fdiv fmt PInf (Fin y) = (if y \<ge> 0 then PInf else NInf)"
| "fdiv fmt NInf (Fin y) = (if y \<ge> 0 then NInf else PInf)"
| "fdiv fmt _ _ = NaN"

text \<open>The comparisons are false when an operand is not a number.\<close>

fun flt :: "fl \<Rightarrow> fl \<Rightarrow> bool" where
  "flt (Fin x) (Fin y) = (x < y)"
| "flt NaN _ = False"
| "flt _ NaN = False"
| "flt NInf y = (y \<noteq> NInf)"
| "flt (Fin _) y = (y = PInf)"
| "flt PInf _ = False"

definition fle :: "fl \<Rightarrow> fl \<Rightarrow> bool" where
  "fle x y \<longleftrightarrow> x \<noteq> NaN \<and> y \<noteq> NaN \<and> (flt x y \<or> x = y)"

text \<open>\<^verbatim>\<open>max\<close> and \<^verbatim>\<open>min\<close> ignore an operand that is not a number, \<^verbatim>\<open>clamp\<close> keeps it.\<close>

definition fmax :: "fl \<Rightarrow> fl \<Rightarrow> fl" where
  "fmax x y = (if x = NaN then y else if y = NaN then x else if flt x y then y else x)"

definition fmin :: "fl \<Rightarrow> fl \<Rightarrow> fl" where
  "fmin x y = (if x = NaN then y else if y = NaN then x else if flt y x then y else x)"

definition fclamp :: "fl \<Rightarrow> fl \<Rightarrow> fl \<Rightarrow> fl" where
  "fclamp x lo hi = (let x = (if flt x lo then lo else x) in if flt hi x then hi else x)"

definition is_finite :: "fl \<Rightarrow> bool" where
  "is_finite x = (case x of Fin _ \<Rightarrow> True | _ \<Rightarrow> False)"

definition fabs :: "fl \<Rightarrow> fl" where
  "fabs x = (case x of Fin a \<Rightarrow> Fin \<bar>a\<bar> | NInf \<Rightarrow> PInf | _ \<Rightarrow> x)"

text \<open>Conversions: \<^verbatim>\<open>as f32\<close> rounds, \<^verbatim>\<open>as f64\<close> of a single is exact, an integer is rounded, and \<^verbatim>\<open>as\<close> an unsigned integer
  truncates and saturates.\<close>

definition as_f32 :: "fl \<Rightarrow> fl" where
  "as_f32 x = (case x of Fin a \<Rightarrow> rnd F32 a | _ \<Rightarrow> x)"

definition of_int_fl :: "format \<Rightarrow> int \<Rightarrow> fl" where
  "of_int_fl fmt n = rnd fmt (of_int n)"

definition as_uint :: "fl \<Rightarrow> 'a::len word" where
  "as_uint x = (case x of NaN \<Rightarrow> 0 | NInf \<Rightarrow> 0 | PInf \<Rightarrow> - 1
     | Fin a \<Rightarrow> if a \<le> 0 then 0 else if a \<ge> of_int (2 ^ LENGTH('a) - 1) then - 1 else of_int \<lfloor>a\<rfloor>)"

text \<open>A decimal literal is rounded when it is read.\<close>

definition lit :: "format \<Rightarrow> rat \<Rightarrow> fl" where
  "lit fmt x = rnd fmt x"

section \<open>Rounding to an integer\<close>

lemma rne_bounds: "\<lfloor>x\<rfloor> \<le> rne x" "rne x \<le> \<lfloor>x\<rfloor> + 1"
  by (auto simp: rne_def Let_def)

lemma rne_of_int [simp]: "rne (of_int n) = n"
  by (simp add: rne_def)

lemma rne_mono: "x \<le> y \<Longrightarrow> rne x \<le> rne y"
proof (cases "\<lfloor>x\<rfloor> = \<lfloor>y\<rfloor>")
  case True
  assume "x \<le> y"
  then show ?thesis using True by (auto simp: rne_def Let_def)
next
  case False
  assume "x \<le> y"
  then have "\<lfloor>x\<rfloor> + 1 \<le> \<lfloor>y\<rfloor>" using False floor_mono[of x y] by linarith
  then show ?thesis using rne_bounds(2)[of x] rne_bounds(1)[of y] by linarith
qed

lemma rne_ge_int: "of_int n \<le> x \<Longrightarrow> n \<le> rne x"
  using rne_mono[of "of_int n" x] by simp

lemma rne_le_int: "x \<le> of_int n \<Longrightarrow> rne x \<le> n"
  using rne_mono[of x "of_int n"] by simp

section \<open>Exponents\<close>

lemma powi2_pos [simp]: "0 < (2 :: rat) powi k"
  by (simp add: zero_less_power_int)

lemma powi2_mono: "a \<le> b \<Longrightarrow> (2 :: rat) powi a \<le> 2 powi b"
  by (simp add: power_int_increasing)

lemma powi2_strict: "a < b \<Longrightarrow> (2 :: rat) powi a < 2 powi b"
  by (simp add: power_int_strict_increasing)

lemma powi2_add: "(2 :: rat) powi (a + b) = 2 powi a * 2 powi b"
  by (simp add: power_int_add)

lemma powi2_nat: "(2 :: rat) powi int n = of_int (2 ^ n)"
  by simp

lemma powi2_split: "b = a + int n \<Longrightarrow> (2 :: rat) powi b = of_int (2 ^ n) * 2 powi a"
  by (simp only: powi2_add[of "int n" a] powi2_nat add.commute[of a])

lemma bitlen_powi:
  assumes "0 < n"
  shows "2 powi (bitlen n - 1) \<le> (of_int n :: rat)" "(of_int n :: rat) < 2 powi (bitlen n)"
proof -
  have b: "0 < bitlen n"
  proof (rule ccontr)
    assume "\<not> 0 < bitlen n"
    then show False using bitlen_bounds[OF assms] assms by simp
  qed
  have "2 ^ nat (bitlen n - 1) \<le> n" "n < 2 ^ nat (bitlen n)" using bitlen_bounds[OF assms] by auto
  then have "(of_int (2 ^ nat (bitlen n - 1)) :: rat) \<le> of_int n" "(of_int n :: rat) < of_int (2 ^ nat (bitlen n))"
    by (simp_all only: of_int_le_iff of_int_less_iff)
  then show "2 powi (bitlen n - 1) \<le> (of_int n :: rat)" "(of_int n :: rat) < 2 powi (bitlen n)"
    using b by (simp_all add: power_int_def)
qed

lemma expo_bounds:
  assumes "0 < x"
  shows "2 powi expo x \<le> x" "x < 2 powi (expo x + 1)"
proof -
  obtain n d where q: "quotient_of x = (n, d)" by force
  have d: "0 < d" and x: "x = of_int n / of_int d" using q quotient_of_denom_pos quotient_of_div by auto
  have n: "0 < n" using assms d by (simp add: x zero_less_divide_iff)
  define k where "k = bitlen n - bitlen d"
  note bn = bitlen_powi[OF n] and bd = bitlen_powi[OF d]
  have "2 powi (k - 1) * (of_int d :: rat) \<le> 2 powi (k - 1) * 2 powi bitlen d"
    using bd(2) by (intro mult_left_mono) auto
  also have "\<dots> = 2 powi (bitlen n - 1)" by (simp add: k_def flip: powi2_add)
  finally have lo: "2 powi (k - 1) \<le> x" using bn(1) d by (simp add: x pos_le_divide_eq)
  have "2 powi (k + 1) * (of_int d :: rat) \<ge> 2 powi (k + 1) * 2 powi (bitlen d - 1)"
    using bd(1) by (intro mult_left_mono) auto
  moreover have "2 powi (k + 1) * 2 powi (bitlen d - 1) = (2 :: rat) powi bitlen n" by (simp add: k_def flip: powi2_add)
  ultimately have hi: "x < 2 powi (k + 1)" using bn(2) d by (simp add: x pos_divide_less_eq)
  have e: "expo x = (if 2 powi k \<le> x then k else k - 1)" by (simp add: expo_def q k_def)
  show "2 powi expo x \<le> x" "x < 2 powi (expo x + 1)" using lo hi by (auto simp: e)
qed

lemma expo_mono: "0 < x \<Longrightarrow> x \<le> y \<Longrightarrow> expo x \<le> expo y"
proof (rule ccontr)
  assume a: "0 < x" "x \<le> y" "\<not> expo x \<le> expo y"
  then have "2 powi (expo y + 1) \<le> (2 :: rat) powi expo x" by (intro powi2_mono) simp
  then show False using expo_bounds[of x] expo_bounds[of y] a by linarith
qed

lemma expo_eqI: "2 powi e \<le> x \<Longrightarrow> x < 2 powi (e + 1) \<Longrightarrow> expo x = e"
proof -
  assume a: "2 powi e \<le> x" "x < 2 powi (e + 1)"
  then have p: "0 < x" using powi2_pos[of e] by linarith
  have "\<not> e < expo x" using powi2_mono[of "e + 1" "expo x"] expo_bounds(1)[OF p] a by force
  moreover have "\<not> expo x < e" using powi2_mono[of "expo x + 1" e] expo_bounds(2)[OF p] a by auto
  ultimately show ?thesis by simp
qed

section \<open>Rounding is monotone and exact on representable values\<close>

abbreviation exponent :: "format \<Rightarrow> rat \<Rightarrow> int" where
  "exponent fmt x \<equiv> max (expo x) (1 - snd fmt)"

lemma quantum_pos [simp]: "0 < quantum fmt x"
  by (simp add: quantum_def)

lemma rnd_pos_le_binade:
  assumes "0 < x" "x \<le> 2 powi e" "exponent fmt x \<le> e" "1 \<le> fst fmt"
  shows "rnd_pos fmt x \<le> 2 powi e"
proof -
  let ?k = "e - (exponent fmt x - int (fst fmt) + 1)"
  have k: "0 \<le> ?k" using assms(3,4) by linarith
  have q: "2 powi e = of_int (2 ^ nat ?k) * quantum fmt x"
    unfolding quantum_def by (rule powi2_split) (use k in simp)
  have "x / quantum fmt x \<le> of_int (2 ^ nat ?k)"
    using assms(2) unfolding q by (simp add: pos_divide_le_eq)
  then have "rne (x / quantum fmt x) \<le> 2 ^ nat ?k" by (rule rne_le_int)
  then have "of_int (rne (x / quantum fmt x)) * quantum fmt x \<le> of_int (2 ^ nat ?k) * quantum fmt x"
    by (intro mult_right_mono) (simp_all only: of_int_le_iff less_imp_le[OF quantum_pos])
  then show ?thesis unfolding rnd_pos_def q .
qed

lemma rnd_pos_ge_binade:
  assumes "0 < x" "1 \<le> fst fmt" "1 - snd fmt \<le> expo x"
  shows "2 powi expo x \<le> rnd_pos fmt x"
proof -
  have q: "2 powi expo x = of_int (2 ^ (fst fmt - 1)) * quantum fmt x"
    unfolding quantum_def by (rule powi2_split) (use assms(2,3) in simp)
  have "of_int (2 ^ (fst fmt - 1)) \<le> x / quantum fmt x"
    using expo_bounds(1)[OF assms(1)] unfolding q by (simp add: pos_le_divide_eq)
  then have "2 ^ (fst fmt - 1) \<le> rne (x / quantum fmt x)" by (rule rne_ge_int)
  then have "of_int (2 ^ (fst fmt - 1)) * quantum fmt x \<le> of_int (rne (x / quantum fmt x)) * quantum fmt x"
    by (intro mult_right_mono) (simp_all only: of_int_le_iff less_imp_le[OF quantum_pos])
  then show ?thesis unfolding rnd_pos_def q .
qed

lemma rne_quotient_nonneg: "0 < x \<Longrightarrow> 0 \<le> rne (x / quantum fmt x)"
  using rne_ge_int[of 0 "x / quantum fmt x"] less_imp_le[OF divide_pos_pos[OF _ quantum_pos, of x fmt x]]
  by (simp only: of_int_0)

lemma rnd_pos_nonneg: "0 < x \<Longrightarrow> 0 \<le> rnd_pos fmt x"
  using rne_quotient_nonneg[of x fmt] quantum_pos[of fmt x] unfolding rnd_pos_def
  by (intro mult_nonneg_nonneg) (simp_all add: less_imp_le)

lemma rnd_pos_mono:
  assumes "0 < x" "x \<le> y" "1 \<le> fst fmt"
  shows "rnd_pos fmt x \<le> rnd_pos fmt y"
proof (cases "exponent fmt x = exponent fmt y")
  case True
  then have q: "quantum fmt x = quantum fmt y" by (simp add: quantum_def)
  have "rne (x / quantum fmt y) \<le> rne (y / quantum fmt y)"
    using assms(2) by (intro rne_mono divide_right_mono) (simp_all add: less_imp_le)
  then show ?thesis unfolding rnd_pos_def q by (intro mult_right_mono) (simp_all add: less_imp_le)
next
  case False
  have "expo x \<le> expo y" by (rule expo_mono[OF assms(1,2)])
  then have e: "exponent fmt x + 1 \<le> expo y" "1 - snd fmt \<le> expo y" using False by (auto simp: max_def split: if_splits)
  have "x \<le> 2 powi (exponent fmt x + 1)"
    using expo_bounds(2)[OF assms(1)] powi2_mono[of "expo x + 1" "exponent fmt x + 1"] by auto
  then have "rnd_pos fmt x \<le> 2 powi (exponent fmt x + 1)"
    using assms by (intro rnd_pos_le_binade) auto
  also have "\<dots> \<le> 2 powi expo y" using e(1) by (rule powi2_mono)
  also have "\<dots> \<le> rnd_pos fmt y" using assms e(2) by (intro rnd_pos_ge_binade) auto
  finally show ?thesis .
qed

lemma overflow_iff: "0 \<le> y \<Longrightarrow> 1 \<le> e \<Longrightarrow> e < expo y \<longleftrightarrow> 2 powi (e + 1) \<le> y"
proof (cases "y = 0")
  case True
  assume "1 \<le> e"
  moreover have "expo 0 = - 2" by code_simp
  ultimately show ?thesis using True powi2_pos[of "e + 1"] by (simp add: not_le[symmetric])
next
  case False
  assume a: "0 \<le> y" "1 \<le> e"
  then have p: "0 < y" using False by simp
  show ?thesis
    using powi2_mono[of "e + 1" "expo y"] powi2_mono[of "expo y + 1" "e + 1"] expo_bounds[OF p] by (cases "e < expo y") auto
qed

lemma rnd_eq:
  assumes "1 \<le> snd fmt"
  shows "rnd fmt x =
     (if x = 0 then Fin 0
      else if x > 0 then (let y = rnd_pos fmt x in if y \<ge> 2 powi (snd fmt + 1) then PInf else Fin y)
      else (let y = rnd_pos fmt (- x) in if y \<ge> 2 powi (snd fmt + 1) then NInf else Fin (- y)))"
  using overflow_iff[OF rnd_pos_nonneg assms, of x] overflow_iff[OF rnd_pos_nonneg assms, of "- x"]
  by (auto simp: rnd_def Let_def)

text \<open>The order of the values that are numbers.\<close>

lemma fle_simps [simp]:
  "fle (Fin x) (Fin y) \<longleftrightarrow> x \<le> y" "fle NInf (Fin y)" "fle (Fin x) PInf" "fle NInf PInf" "fle PInf PInf" "fle NInf NInf"
  "\<not> fle NaN a" "\<not> fle a NaN" "\<not> fle PInf (Fin y)" "\<not> fle (Fin x) NInf" "\<not> fle PInf NInf"
  by (auto simp: fle_def)

lemma fle_trans: "fle x y \<Longrightarrow> fle y z \<Longrightarrow> fle x z"
  by (cases x; cases y; cases z) auto

lemma fle_total: "x \<noteq> NaN \<Longrightarrow> y \<noteq> NaN \<Longrightarrow> fle x y \<or> fle y x"
  by (cases x; cases y) auto

lemma flt_iff: "flt x y \<longleftrightarrow> fle x y \<and> \<not> fle y x"
  by (cases x; cases y) (auto simp: fle_def)

lemma rnd_not_NaN [simp]: "rnd fmt x \<noteq> NaN"
  by (simp add: rnd_def Let_def)

lemma fle_PInf [simp]: "fle x PInf \<longleftrightarrow> x \<noteq> NaN"
  by (cases x) auto

lemma rnd_neg: "rnd fmt (- x) = fneg (rnd fmt x)"
  by (auto simp: rnd_def Let_def)

lemma rnd_nonneg: "0 \<le> x \<Longrightarrow> fle (Fin 0) (rnd fmt x)"
  using rnd_pos_nonneg[of x fmt] by (auto simp: rnd_def Let_def)

lemma rnd_mono_pos: "0 < x \<Longrightarrow> x \<le> y \<Longrightarrow> 1 \<le> fst fmt \<Longrightarrow> 1 \<le> snd fmt \<Longrightarrow> fle (rnd fmt x) (rnd fmt y)"
  using rnd_pos_mono[of x y fmt] by (auto simp: rnd_eq Let_def)

lemma fle_fneg: "fle (fneg x) (fneg y) \<longleftrightarrow> fle y x"
  by (cases x; cases y) auto

lemma rnd_mono:
  assumes "x \<le> y" "1 \<le> fst fmt" "1 \<le> snd fmt"
  shows "fle (rnd fmt x) (rnd fmt y)"
proof -
  consider "0 < x" | "y < 0" | "x \<le> 0" "0 \<le> y" by linarith
  then show ?thesis
  proof cases
    case 2
    then have "fle (rnd fmt (- y)) (rnd fmt (- x))" using assms by (intro rnd_mono_pos) auto
    then show ?thesis by (simp add: rnd_neg fle_fneg)
  next
    case 3
    have "fle (Fin 0) (rnd fmt (- x))" using 3 by (intro rnd_nonneg) simp
    then have "fle (rnd fmt x) (Fin 0)" using fle_fneg[of "Fin 0" "rnd fmt x"] by (simp add: rnd_neg)
    then show ?thesis using rnd_nonneg[OF 3(2)] fle_trans by blast
  qed (use assms rnd_mono_pos in blast)
qed

text \<open>A representable value is an integer of at most \<open>p\<close> bits times a power of two within the exponent range.\<close>

definition representable :: "format \<Rightarrow> rat \<Rightarrow> bool" where
  "representable fmt x \<longleftrightarrow> (\<exists>m e. x = of_int m * 2 powi e \<and> \<bar>m\<bar> < 2 ^ fst fmt \<and>
     2 - snd fmt - int (fst fmt) \<le> e \<and> \<bar>x\<bar> < 2 powi (snd fmt + 1))"

lemma rnd_pos_exact:
  assumes "0 < x" "x = of_int m * 2 powi e" "\<bar>m\<bar> < 2 ^ fst fmt" "2 - snd fmt - int (fst fmt) \<le> e"
  shows "rnd_pos fmt x = x"
proof -
  let ?k = "exponent fmt x - int (fst fmt) + 1"
  have m: "0 < m" using assms(1,2) powi2_pos[of e] by (auto simp: zero_less_mult_iff)
  have "?k \<le> e"
  proof (rule ccontr)
    assume n: "\<not> ?k \<le> e"
    then have ex: "exponent fmt x = expo x" using assms(4) by linarith
    have "x < of_int (2 ^ fst fmt) * 2 powi e"
      unfolding assms(2) using assms(3) m by (intro mult_strict_right_mono powi2_pos) (simp only: of_int_less_iff abs_of_pos)
    also have "\<dots> = 2 powi (e + int (fst fmt))" by (rule powi2_split[symmetric]) simp
    also have "\<dots> \<le> 2 powi expo x" using n ex by (intro powi2_mono) simp
    finally show False using expo_bounds(1)[OF assms(1)] by simp
  qed
  then have "2 powi e = of_int (2 ^ nat (e - ?k)) * quantum fmt x"
    unfolding quantum_def by (intro powi2_split) simp
  then have q: "x = of_int (m * 2 ^ nat (e - ?k)) * quantum fmt x" using assms(2) by simp
  then have "x / quantum fmt x = of_int (m * 2 ^ nat (e - ?k))"
    using quantum_pos[of fmt x] by (metis nonzero_mult_div_cancel_right order_less_irrefl)
  then show ?thesis unfolding rnd_pos_def using q by (simp only: rne_of_int)
qed

lemma rnd_exact:
  assumes "representable fmt x" "1 \<le> snd fmt"
  shows "rnd fmt x = Fin x"
proof -
  obtain m e where r: "x = of_int m * 2 powi e" "\<bar>m\<bar> < 2 ^ fst fmt" "2 - snd fmt - int (fst fmt) \<le> e" "\<bar>x\<bar> < 2 powi (snd fmt + 1)"
    using assms(1) by (auto simp: representable_def)
  have "rnd_pos fmt x = x" if "0 < x" using that r(1-3) by (rule rnd_pos_exact)
  moreover have "rnd_pos fmt (- x) = - x" if "x < 0" using that r rnd_pos_exact[of "- x" "- m" e fmt] by simp
  ultimately show ?thesis using r(4) by (auto simp: rnd_eq[OF assms(2)] Let_def)
qed

lemma representable_rnd_pos:
  assumes "0 < x" "1 \<le> fst fmt" "rnd_pos fmt x < 2 powi (snd fmt + 1)"
  shows "representable fmt (rnd_pos fmt x)"
proof -
  let ?k = "exponent fmt x - int (fst fmt) + 1" and ?m = "rne (x / quantum fmt x)"
  have x: "x \<le> 2 powi (exponent fmt x + 1)"
    using expo_bounds(2)[OF assms(1)] powi2_mono[of "expo x + 1" "exponent fmt x + 1"] by auto
  have r: "rnd_pos fmt x = of_int ?m * 2 powi ?k" by (simp add: rnd_pos_def quantum_def)
  have nn: "0 \<le> ?m" by (rule rne_quotient_nonneg[OF assms(1)])
  have q: "(2 :: rat) powi (exponent fmt x + 1) = of_int (2 ^ fst fmt) * 2 powi ?k" by (rule powi2_split) simp
  then have "x / quantum fmt x \<le> of_int (2 ^ fst fmt)" using x by (simp add: pos_divide_le_eq quantum_def)
  then have le: "?m \<le> 2 ^ fst fmt" by (rule rne_le_int)
  show ?thesis
  proof (cases "?m = 2 ^ fst fmt")
    case True
    then have e: "rnd_pos fmt x = of_int 1 * 2 powi (exponent fmt x + 1)" using r q by simp
    have m: "\<bar>1 :: int\<bar> < 2 ^ fst fmt" using assms(2) by simp
    have k: "2 - snd fmt - int (fst fmt) \<le> exponent fmt x + 1" using assms(2) by linarith
    have "\<bar>rnd_pos fmt x\<bar> < 2 powi (snd fmt + 1)" using assms(3) rnd_pos_nonneg[OF assms(1), of fmt] by simp
    then show ?thesis unfolding representable_def using e m k by blast
  next
    case False
    then have "\<bar>?m\<bar> < 2 ^ fst fmt" using le nn by simp
    moreover have "2 - snd fmt - int (fst fmt) \<le> ?k" by linarith
    moreover have "\<bar>rnd_pos fmt x\<bar> < 2 powi (snd fmt + 1)" using assms(3) rnd_pos_nonneg[OF assms(1), of fmt] by simp
    ultimately show ?thesis unfolding representable_def using r by blast
  qed
qed

lemma representable_uminus:
  assumes "representable fmt x"
  shows "representable fmt (- x)"
proof -
  obtain m e where r: "x = of_int m * 2 powi e" "\<bar>m\<bar> < 2 ^ fst fmt" "2 - snd fmt - int (fst fmt) \<le> e" "\<bar>x\<bar> < 2 powi (snd fmt + 1)"
    using assms by (auto simp: representable_def)
  have "- x = of_int (- m) * 2 powi e" "\<bar>- m\<bar> < 2 ^ fst fmt" "\<bar>- x\<bar> < 2 powi (snd fmt + 1)" using r by simp_all
  then show ?thesis using r(3) unfolding representable_def by blast
qed

lemma representable_0: "2 \<le> snd fmt + int (fst fmt) \<Longrightarrow> representable fmt 0"
  unfolding representable_def by (intro exI[of _ 0]) auto

lemma representable_rnd: "rnd fmt x = Fin y \<Longrightarrow> 1 \<le> fst fmt \<Longrightarrow> 1 \<le> snd fmt \<Longrightarrow> representable fmt y"
  using representable_rnd_pos[of x fmt] representable_uminus[OF representable_rnd_pos[of "- x" fmt]] representable_0[of fmt]
  by (auto simp: rnd_eq Let_def not_le split: if_splits)

lemma rnd_rnd: "rnd fmt x = Fin y \<Longrightarrow> 1 \<le> fst fmt \<Longrightarrow> 1 \<le> snd fmt \<Longrightarrow> rnd fmt y = Fin y"
  by (rule rnd_exact[OF representable_rnd])

text \<open>Rounding stays on its side of a representable bound.\<close>

lemma rnd_le_representable: "x \<le> b \<Longrightarrow> representable fmt b \<Longrightarrow> 1 \<le> fst fmt \<Longrightarrow> 1 \<le> snd fmt \<Longrightarrow> fle (rnd fmt x) (Fin b)"
  using rnd_mono[of x b fmt] rnd_exact[of fmt b] by simp

lemma rnd_ge_representable: "b \<le> x \<Longrightarrow> representable fmt b \<Longrightarrow> 1 \<le> fst fmt \<Longrightarrow> 1 \<le> snd fmt \<Longrightarrow> fle (Fin b) (rnd fmt x)"
  using rnd_mono[of b x fmt] rnd_exact[of fmt b] by simp

lemma formats [simp]: "1 \<le> fst F32" "1 \<le> fst F64" "Suc 0 \<le> fst F32" "Suc 0 \<le> fst F64" "1 \<le> snd F32" "1 \<le> snd F64"
  by (simp_all add: F32_def F64_def)

end
