(* ===== verification/Link_Metrics.thy ===== *)
theory Link_Metrics
  imports Ieee_Float
begin

text \<open>
  Link quality and trust: the loss-aware cost of \<^verbatim>\<open>src/src/router/treemath.rs\<close>, the trust score of a peer with its decay and
  boost, and the trust-adjusted cost of \<^verbatim>\<open>PeerData\<close> in \<^verbatim>\<open>src/src/router/mod.rs\<close>, in floating point as the code computes them.
\<close>

section \<open>Definitions\<close>

definition as_micros :: "nat \<Rightarrow> nat" where
  "as_micros d = d div 1000"

definition effective_cost :: "nat \<Rightarrow> fl \<Rightarrow> u64" where
  "effective_cost lag loss_rate =
     (let base_us = of_int_fl F64 (int (as_micros lag));
          effective = fmul F64 base_us (fadd F64 (Fin 1) (fmul F64 loss_rate (Fin 9))) in
      as_uint effective)"

definition TRUST_INITIAL :: fl where "TRUST_INITIAL = Fin 1"
definition TRUST_MIN :: fl where "TRUST_MIN = lit F32 (1 / 100)"
definition TRUST_MAX :: fl where "TRUST_MAX = Fin 4"

definition trust_adjusted_cost_with :: "u64 \<Rightarrow> fl \<Rightarrow> u64" where
  "trust_adjusted_cost_with cost trust =
     (let base = of_int_fl F64 (uint cost);
          trust = fclamp trust TRUST_MIN TRUST_MAX;
          adjusted = fdiv F64 base trust in
      if fle (of_int_fl F64 (uint (- 1 :: u64))) adjusted then - 1 else as_uint adjusted)"

definition decay_trust :: "fl \<Rightarrow> fl" where
  "decay_trust trust = fmax (fmul F32 trust (Fin (1 / 2))) TRUST_MIN"

definition boost_trust :: "fl \<Rightarrow> fl" where
  "boost_trust trust = fmin (fmul F32 trust (lit F32 (12 / 10))) TRUST_MAX"

text \<open>The moving averages of the loss rate: a lost keepalive and an answered one.\<close>

definition loss_up :: "fl \<Rightarrow> fl" where
  "loss_up loss_rate = fadd F32 (fmul F32 loss_rate (Fin (7 / 8))) (Fin (1 / 8))"

definition loss_down :: "fl \<Rightarrow> fl" where
  "loss_down loss_rate = fmul F32 loss_rate (Fin (7 / 8))"

section \<open>Monotone operations\<close>

lemma fle_Fin: "fle (Fin x) a \<Longrightarrow> fle a (Fin y) \<Longrightarrow> \<exists>z. a = Fin z \<and> x \<le> z \<and> z \<le> y"
  by (cases a) auto

lemma fmul_mono:
  "0 \<le> x \<Longrightarrow> x \<le> x' \<Longrightarrow> 0 \<le> y \<Longrightarrow> y \<le> y' \<Longrightarrow> 1 \<le> fst fmt \<Longrightarrow> 1 \<le> snd fmt \<Longrightarrow>
     fle (fmul fmt (Fin x) (Fin y)) (fmul fmt (Fin x') (Fin y'))"
  by (simp add: rnd_mono mult_mono)

lemma as_uint_Fin:
  assumes "0 < a" "a < of_int (2 ^ LENGTH('a) - 1)"
  shows "uint (of_int \<lfloor>a\<rfloor> :: 'a::len word) = \<lfloor>a\<rfloor>"
proof -
  have "0 \<le> \<lfloor>a\<rfloor>" "\<lfloor>a\<rfloor> < 2 ^ LENGTH('a)" using assms by (auto simp: floor_less_iff)
  then show ?thesis by (simp add: take_bit_int_eq_self_iff unsigned_of_int)
qed

lemma as_uint_mono:
  assumes "fle x y"
  shows "(as_uint x :: 'a::len word) \<le> as_uint y"
proof -
  have max: "w \<le> (- 1 :: 'a word)" for w by (rule word_n1_ge)
  have "(of_int \<lfloor>a\<rfloor> :: 'a word) \<le> of_int \<lfloor>b\<rfloor>"
    if "0 < a" "a \<le> b" "b < of_int (2 ^ LENGTH('a) - 1)" for a b :: rat
    using that as_uint_Fin[of a, where 'a = 'a] as_uint_Fin[of b, where 'a = 'a] floor_mono[of a b]
    by (simp add: word_le_def del: of_int_diff)
  then show ?thesis using assms max by (cases x; cases y) (auto simp: as_uint_def simp del: of_int_diff)
qed

section \<open>Cost\<close>

lemma effective_cost_mono:
  assumes "lag \<le> lag'" "0 \<le> l" "l \<le> l'" "l' \<le> 1"
  shows "effective_cost lag (Fin l) \<le> effective_cost lag' (Fin l')"
proof -
  have r: "representable F64 (of_int n)" if "0 \<le> n" "n < 2 ^ 10" for n
    unfolding representable_def using that
    by (intro exI[of _ n] exI[of _ 0]) (auto simp: F64_def power_int_def)
  have m: "fle (rnd F64 (l * 9)) (rnd F64 (l' * 9))" using assms by (intro rnd_mono) auto
  have "fle (Fin 0) (rnd F64 (l * 9))" "fle (rnd F64 (l' * 9)) (Fin 9)"
    using rnd_nonneg[of "l * 9" F64] rnd_le_representable[of "l' * 9" 9 F64] r[of 9] assms by auto
  then obtain a a' where a: "rnd F64 (l * 9) = Fin a" "rnd F64 (l' * 9) = Fin a'" "0 \<le> a" "a \<le> a'" "a' \<le> 9"
    using m by (cases "rnd F64 (l * 9)"; cases "rnd F64 (l' * 9)") auto
  have "fle (Fin 1) (rnd F64 (1 + a))" "fle (rnd F64 (1 + a)) (rnd F64 (1 + a'))" "fle (rnd F64 (1 + a')) (Fin 10)"
    using a rnd_ge_representable[of 1 "1 + a" F64] r[of 1] rnd_mono[of "1 + a" "1 + a'" F64] rnd_le_representable[of "1 + a'" 10 F64] r[of 10] by auto
  then obtain b b' where b: "rnd F64 (1 + a) = Fin b" "rnd F64 (1 + a') = Fin b'" "1 \<le> b" "b \<le> b'"
    by (cases "rnd F64 (1 + a)"; cases "rnd F64 (1 + a')") auto
  define c where "c = (of_int (int (as_micros lag)) :: rat)"
  define c' where "c' = (of_int (int (as_micros lag')) :: rat)"
  have c: "0 \<le> c" "c \<le> c'" using assms(1) by (simp_all add: c_def c'_def as_micros_def div_le_mono)
  have "fle (fmul F64 (rnd F64 c) (Fin b)) (fmul F64 (rnd F64 c') (Fin b'))"
    using rnd_mono[OF c(2), of F64] rnd_nonneg[OF c(1), of F64] b(3,4)
    by (cases "rnd F64 c"; cases "rnd F64 c'") (auto simp: inf_sign_def intro!: rnd_mono mult_mono)
  then show ?thesis
    using a b by (simp add: effective_cost_def of_int_fl_def c_def c'_def as_uint_mono)
qed

text \<open>More trust, less cost; the clamp never leaves the trust range.\<close>

definition trust_ok :: "fl \<Rightarrow> bool" where
  "trust_ok t \<longleftrightarrow> fle TRUST_MIN t \<and> fle t TRUST_MAX"

definition tmin :: rat where "tmin = 5368709 / 536870912"

lemma trust_min_value: "TRUST_MIN = Fin tmin"
  by code_simp

lemma tmin_bounds: "0 < tmin" "tmin < 1"
  by (simp_all add: tmin_def)

lemma trust_ok_iff: "trust_ok t \<longleftrightarrow> (\<exists>x. t = Fin x \<and> tmin \<le> x \<and> x \<le> 4)"
  by (cases t) (auto simp: trust_ok_def trust_min_value TRUST_MAX_def)

lemma fclamp_trust: "t \<noteq> NaN \<Longrightarrow> trust_ok (fclamp t TRUST_MIN TRUST_MAX)"
  using tmin_bounds by (cases t) (auto simp: fclamp_def trust_ok_iff trust_min_value TRUST_MAX_def)

lemma fclamp_mono: "fle t t' \<Longrightarrow> fle (fclamp t TRUST_MIN TRUST_MAX) (fclamp t' TRUST_MIN TRUST_MAX)"
  using tmin_bounds by (cases t; cases t') (auto simp: fclamp_def trust_min_value TRUST_MAX_def)

lemma adjusted_mono:
  assumes "cost \<le> cost'" "fle t' t"
  shows "fle (fdiv F64 (of_int_fl F64 (uint cost)) (fclamp t TRUST_MIN TRUST_MAX))
             (fdiv F64 (of_int_fl F64 (uint cost')) (fclamp t' TRUST_MIN TRUST_MAX))"
proof -
  have nan: "t \<noteq> NaN" "t' \<noteq> NaN" using assms(2) by auto
  obtain x x' where x: "fclamp t TRUST_MIN TRUST_MAX = Fin x" "fclamp t' TRUST_MIN TRUST_MAX = Fin x'" "0 < x'" "x' \<le> x"
    using fclamp_trust[OF nan(1)] fclamp_trust[OF nan(2)] fclamp_mono[OF assms(2)] tmin_bounds by (auto simp: trust_ok_iff)
  define c c' where "c = (of_int (uint cost) :: rat)" and "c' = (of_int (uint cost') :: rat)"
  have c: "0 \<le> c" "c \<le> c'" unfolding c_def c'_def using assms(1) by (simp_all only: of_int_le_iff of_int_0_le_iff word_le_def uint_ge_0)
  have "fle (rnd F64 c) (rnd F64 c')" "fle (Fin 0) (rnd F64 c)" using c by (auto intro!: rnd_mono rnd_nonneg)
  then show ?thesis
    using x by (cases "rnd F64 c"; cases "rnd F64 c'")
      (auto simp: of_int_fl_def c_def[symmetric] c'_def[symmetric] simp del: of_int_uint intro!: rnd_mono frac_le)
qed

lemma trust_adjusted_mono:
  assumes "cost \<le> cost'" "fle t' t"
  shows "trust_adjusted_cost_with cost t \<le> trust_adjusted_cost_with cost' t'"
  using adjusted_mono[OF assms] as_uint_mono[OF adjusted_mono[OF assms], where 'a = 64] fle_trans word_n1_ge
  unfolding trust_adjusted_cost_with_def Let_def by (auto split: if_splits)

section \<open>Trust\<close>

lemma rnd_between:
  assumes "a \<le> x" "x \<le> b" "rnd F32 a = Fin a'" "rnd F32 b = Fin b'"
  obtains y where "rnd F32 x = Fin y" "a' \<le> y" "y \<le> b'"
  using assms rnd_mono[of a x F32] rnd_mono[of x b F32] by (cases "rnd F32 x") auto

lemma decay_ok:
  assumes "trust_ok t"
  shows "trust_ok (decay_trust t)"
proof -
  obtain x where t: "t = Fin x" "tmin \<le> x" "x \<le> 4" using assms by (auto simp: trust_ok_iff)
  have b: "rnd F32 0 = Fin 0" "rnd F32 2 = Fin 2" by code_simp+
  obtain y where "rnd F32 (x * (1 / 2)) = Fin y" "0 \<le> y" "y \<le> 2"
    by (rule rnd_between[OF _ _ b, of "x * (1 / 2)"]) (use t tmin_bounds in auto)
  then show ?thesis
    using t tmin_bounds by (auto simp: decay_trust_def trust_ok_iff fmax_def trust_min_value)
qed

lemma boost_ok:
  assumes "trust_ok t"
  shows "trust_ok (boost_trust t)"
proof -
  define r where "r = (10066330 / 8388608 :: rat)"
  have l: "lit F32 (12 / 10) = Fin r" unfolding r_def by code_simp
  obtain x where t: "t = Fin x" "tmin \<le> x" "x \<le> 4" using assms by (auto simp: trust_ok_iff)
  have b: "rnd F32 tmin = Fin tmin" "rnd F32 8 = Fin 8" by code_simp+
  have r: "1 \<le> r" "r \<le> 2" by (simp_all add: r_def)
  have "tmin * 1 \<le> x * r" "x * r \<le> 4 * 2" using t r tmin_bounds by (intro mult_mono; simp)+
  then have xr: "tmin \<le> x * r" "x * r \<le> 8" by simp_all
  obtain y where "rnd F32 (x * r) = Fin y" "tmin \<le> y" "y \<le> 8"
    by (rule rnd_between[OF xr b])
  then show ?thesis
    using t tmin_bounds l by (auto simp: boost_trust_def trust_ok_iff fmin_def TRUST_MAX_def)
qed

definition loss_ok :: "fl \<Rightarrow> bool" where
  "loss_ok l \<longleftrightarrow> fle (Fin 0) l \<and> fle l (Fin 1)"

lemma loss_down_bound:
  assumes "loss_ok l"
  obtains y where "loss_down l = Fin y" "0 \<le> y" "y \<le> 7 / 8"
proof -
  obtain x where l: "l = Fin x" "0 \<le> x" "x \<le> 1" using assms by (cases l) (auto simp: loss_ok_def)
  have b: "rnd F32 0 = Fin 0" "rnd F32 (7 / 8) = Fin (7 / 8)" by code_simp+
  show ?thesis
    by (rule rnd_between[OF _ _ b, of "x * (7 / 8)"]) (use l that in \<open>auto simp: loss_down_def\<close>)
qed

lemma loss_down_ok: "loss_ok l \<Longrightarrow> loss_ok (loss_down l)"
  by (erule loss_down_bound) (auto simp: loss_ok_def)

lemma loss_up_ok:
  assumes "loss_ok l"
  shows "loss_ok (loss_up l)"
proof -
  obtain y where y: "loss_down l = Fin y" "0 \<le> y" "y \<le> 7 / 8" using assms by (rule loss_down_bound)
  have b: "rnd F32 0 = Fin 0" "rnd F32 1 = Fin 1" by code_simp+
  obtain z where "rnd F32 (y + 1 / 8) = Fin z" "0 \<le> z" "z \<le> 1"
    by (rule rnd_between[OF _ _ b, of "y + 1 / 8"]) (use y in auto)
  then show ?thesis using y by (simp add: loss_up_def loss_down_def loss_ok_def)
qed

section \<open>Properties\<close>

text \<open>The routing cost is sane. With a loss rate in the unit interval, the loss-aware cost never decreases when the
  latency or the loss rate grows, rounding included; and the trust-adjusted cost that ranks next hops never decreases
  when the cost grows or the trust shrinks.\<close>

theorem routing_cost_monotone:
  assumes "lag \<le> lag'" "0 \<le> l" "l \<le> l'" "l' \<le> 1" "fle t' t"
  shows "effective_cost lag (Fin l) \<le> effective_cost lag' (Fin l') \<and>
    trust_adjusted_cost_with (effective_cost lag (Fin l)) t \<le> trust_adjusted_cost_with (effective_cost lag' (Fin l')) t'"
  using effective_cost_mono[OF assms(1-4)] trust_adjusted_mono[OF _ assms(5)] by blast

theorem routing_cost_monotone_witness:
  "trust_adjusted_cost_with (effective_cost 5000000 (Fin 0)) (Fin 1) \<le>
     trust_adjusted_cost_with (effective_cost 5000000 (Fin (1 / 2))) (Fin (1 / 4)) \<and>
   effective_cost 5000000 (Fin (1 / 2)) = 27500"
proof -
  have m: "int (as_micros 5000000) = 5000" by (simp add: as_micros_def)
  have "fmul F64 (of_int_fl F64 5000) (fadd F64 (Fin 1) (fmul F64 (Fin (1 / 2)) (Fin 9))) = Fin 27500" by code_simp
  then have "effective_cost 5000000 (Fin (1 / 2)) = 27500" unfolding effective_cost_def Let_def m by (simp only: as_uint_def) simp
  then show ?thesis
    using routing_cost_monotone[of 5000000 5000000 0 "1 / 2" "Fin (1 / 4)" "Fin 1"] by (simp del: One_nat_def)
qed

text \<open>Trust and loss stay in range. Decay and boost keep a trust score within \<^verbatim>\<open>TRUST_MIN\<close> and \<^verbatim>\<open>TRUST_MAX\<close>, so no sequence of
  probe results excludes a peer for good or makes it unbeatable, and the moving averages keep the loss rate within the unit
  interval, in single-precision arithmetic.\<close>

theorem trust_and_loss_in_range:
  assumes "trust_ok t" "loss_ok l"
  shows "trust_ok (decay_trust t) \<and> trust_ok (boost_trust t) \<and> loss_ok (loss_up l) \<and> loss_ok (loss_down l)"
  using decay_ok[OF assms(1)] boost_ok[OF assms(1)] loss_up_ok[OF assms(2)] loss_down_ok[OF assms(2)] by blast

theorem trust_and_loss_in_range_witness:
  "trust_ok TRUST_INITIAL \<and> loss_ok (Fin 0) \<and> trust_ok (boost_trust TRUST_INITIAL) \<and> loss_up (Fin 0) = Fin (1 / 8)"
proof -
  have t: "trust_ok TRUST_INITIAL" "loss_ok (Fin 0)" by code_simp+
  have "loss_up (Fin 0) = Fin (1 / 8)" by code_simp
  then show ?thesis using trust_and_loss_in_range[OF t] t by simp
qed

end
