(* ===== verification/Hyperbolic.thy ===== *)
theory Hyperbolic
  imports Crypto_Example Ieee_Float
begin

text \<open>
  Hyperbolic coordinates: \<^verbatim>\<open>src/src/hyperbolic.rs\<close>. The bit patterns of \<^verbatim>\<open>f64\<close> values, the remainder, the embedding of a
  tree position, the coordinate codec with its sanitising, and the distance. The transcendental functions of the
  platform are the fields of the record \<^verbatim>\<open>libm\<close>, a parameter of the distance; its law states the ranges of
  these functions, which the C standard and their documentation give.
\<close>

section \<open>Bit patterns\<close>

text \<open>\<^verbatim>\<open>from_bits\<close> and \<^verbatim>\<open>to_bits\<close>: the sign, eleven exponent bits, 52 fraction bits. The model has one zero, written with a clear sign
  bit: a coordinate received as minus zero is sent on as plus zero.\<close>

definition f64_from_bits :: "u64 \<Rightarrow> fl" where
  "f64_from_bits b =
     (let e = uint (take_bit 11 (drop_bit 52 b)); m = uint (take_bit 52 b);
          x = (if e = 2047 then (if m = 0 then PInf else NaN)
               else if e = 0 then Fin (of_int m * 2 powi (- 1074))
               else Fin (of_int (2 ^ 52 + m) * 2 powi (e - 1075))) in
      if bit b 63 then fneg x else x)"

definition f64_magnitude :: "rat \<Rightarrow> int" where
  "f64_magnitude a =
     (if a = 0 then 0
      else let e = max (expo a) (- 1022); m = \<lfloor>a / 2 powi (e - 52)\<rfloor> in
           if m < 2 ^ 52 then m else (e + 1023) * 2 ^ 52 + (m - 2 ^ 52))"

definition f64_to_bits :: "fl \<Rightarrow> u64" where
  "f64_to_bits x =
     (case x of
        NaN \<Rightarrow> 0x7FF8000000000000 | PInf \<Rightarrow> 0x7FF0000000000000 | NInf \<Rightarrow> 0xFFF0000000000000
      | Fin a \<Rightarrow> of_int ((if a < 0 then 2 ^ 63 else 0) + f64_magnitude \<bar>a\<bar>))"

section \<open>Remainder\<close>

text \<open>\<^verbatim>\<open>%\<close> is exact; \<^verbatim>\<open>rem_euclid\<close> adds the divisor to a negative remainder, and that sum is rounded.\<close>

definition frem :: "fl \<Rightarrow> fl \<Rightarrow> fl" where
  "frem x y =
     (case (x, y) of
        (Fin a, Fin b) \<Rightarrow> Fin (a - b * of_int (if 0 \<le> a / b then \<lfloor>a / b\<rfloor> else \<lceil>a / b\<rceil>))
      | (Fin a, PInf) \<Rightarrow> Fin a | (Fin a, NInf) \<Rightarrow> Fin a | _ \<Rightarrow> NaN)"

definition rem_euclid :: "fl \<Rightarrow> fl \<Rightarrow> fl" where
  "rem_euclid x y = (let r = frem x y in if flt r (Fin 0) then fadd F64 r (fabs y) else r)"

section \<open>Coordinates\<close>

definition PI :: fl where "PI = Fin (884279719003555 / 281474976710656)"
definition TWO_PI :: fl where "TWO_PI = fmul F64 (Fin 2) PI"
definition RADIAL_STEP :: fl where "RADIAL_STEP = Fin 1"
definition RHO_MAX :: fl where "RHO_MAX = Fin 350"
definition ANGULAR_SPREAD :: rat where "ANGULAR_SPREAD = 8"

record HypCoord =
  rho :: fl
  theta :: fl

definition HypCoord_origin :: HypCoord where
  "HypCoord_origin = \<lparr>rho = Fin 0, theta = Fin 0\<rparr>"

record libm =
  f_sin :: "fl \<Rightarrow> fl"
  f_cosh :: "fl \<Rightarrow> fl"
  f_sinh :: "fl \<Rightarrow> fl"
  f_acosh :: "fl \<Rightarrow> fl"

definition distance :: "libm \<Rightarrow> HypCoord \<Rightarrow> HypCoord \<Rightarrow> fl" where
  "distance L self other =
     (let a = fclamp (rho self) (Fin 0) RHO_MAX;
          b = fclamp (rho other) (Fin 0) RHO_MAX;
          dtheta = fsub F64 (theta self) (theta other);
          sin_half = f_sin L (fmul F64 (Fin (1 / 2)) dtheta);
          cosh_d = fadd F64 (f_cosh L (fsub F64 a b))
            (fmul F64 (fmul F64 (fmul F64 (fmul F64 (Fin 2) (f_sinh L a)) (f_sinh L b)) sin_half) sin_half) in
      f_acosh L (fmax cosh_d (Fin 1)))"

definition HypCoord_encode :: "HypCoord \<Rightarrow> bytes" where
  "HypCoord_encode c = le_bytes 8 (f64_to_bits (rho c)) @ le_bytes 8 (f64_to_bits (theta c))"

definition HypCoord_decode :: "bytes \<Rightarrow> HypCoord" where
  "HypCoord_decode data =
     (let rho' = f64_from_bits (from_le (take 8 data));
          theta' = f64_from_bits (from_le (drop 8 data));
          rho' = (if is_finite rho' then fclamp rho' (Fin 0) RHO_MAX else Fin 0);
          theta' = (if is_finite theta' then rem_euclid theta' TWO_PI else Fin 0) in
      \<lparr>rho = rho', theta = theta'\<rparr>)"

definition hash01 :: "crypto \<Rightarrow> bytes \<Rightarrow> fl" where
  "hash01 C pub_key =
     (let val = from_le (take 8 (blake2b C 64 pub_key)) :: u64 in
      fdiv F64 (of_int_fl F64 (uint val)) (of_int_fl F64 (uint (- 1 :: u64))))"

definition angle_from_key :: "crypto \<Rightarrow> bytes \<Rightarrow> fl" where
  "angle_from_key C pub_key = fmul F64 (fmul F64 (hash01 C pub_key) (Fin 2)) PI"

definition from_tree_depth :: "crypto \<Rightarrow> u32 \<Rightarrow> bytes \<Rightarrow> HypCoord" where
  "from_tree_depth C depth pub_key =
     (let rho' = fmin (fmul F64 (of_int_fl F64 (uint depth)) RADIAL_STEP) RHO_MAX in
      \<lparr>rho = rho', theta = angle_from_key C pub_key\<rparr>)"

text \<open>\<^verbatim>\<open>ANGULAR_SPREAD.powi(n)\<close>: a power of 8 is a power of two, so every product is exact until it overflows at the exponent
  1023, and a negative power is the reciprocal. The exponent \<^verbatim>\<open>depth as i32 - 1\<close> is the signed reading of a 32-bit word.\<close>

definition spread_powi :: "int \<Rightarrow> fl" where
  "spread_powi n =
     (let p = (if \<bar>n\<bar> \<le> 341 then Fin (ANGULAR_SPREAD ^ nat \<bar>n\<bar>) else PInf) in
      if 0 \<le> n then p else fdiv F64 (Fin 1) p)"

definition from_tree_position :: "crypto \<Rightarrow> u32 \<Rightarrow> fl \<Rightarrow> bytes \<Rightarrow> HypCoord" where
  "from_tree_position C depth parent_theta pub_key =
     (if depth = 0 then HypCoord_origin
      else let rho' = fmin (fmul F64 (of_int_fl F64 (uint depth)) RADIAL_STEP) RHO_MAX;
               sector = fdiv F64 TWO_PI (spread_powi (sint (depth - 1)));
               offset = fmul F64 (fsub F64 (hash01 C pub_key) (Fin (1 / 2))) sector;
               theta' = rem_euclid (fadd F64 parent_theta offset) TWO_PI in
           \<lparr>rho = rho', theta = theta'\<rparr>)"

section \<open>Round trip of bit patterns\<close>

lemma f64_split:
  assumes "0 < a" "representable F64 a"
  obtains n E where "E = max (expo a) (- 1022)" "a / 2 powi (E - 52) = of_int n" "a = of_int n * 2 powi (E - 52)"
    "0 < n" "n < 2 ^ 53" "E \<le> 1023" "n < 2 ^ 52 \<longrightarrow> E = - 1022"
proof -
  define E where "E = max (expo a) (- 1022)"
  define n where "n = rne (a / quantum F64 a)"
  have q: "quantum F64 a = 2 powi (E - 52)" by (simp add: quantum_def F64_def E_def)
  obtain m e where me: "a = of_int m * 2 powi e" "\<bar>m\<bar> < 2 ^ fst F64" "2 - snd F64 - int (fst F64) \<le> e" "\<bar>a\<bar> < 2 powi (snd F64 + 1)"
    using assms(2) unfolding representable_def by blast
  have a: "a = of_int n * 2 powi (E - 52)"
    using rnd_pos_exact[OF assms(1) me(1-3)] unfolding rnd_pos_def n_def q by simp
  have d: "a / 2 powi (E - 52) = of_int n" using a powi2_pos[of "E - 52"] by (simp add: field_simps)
  have n0: "0 < n" using assms(1) a powi2_pos[of "E - 52"] by (simp add: zero_less_mult_iff)
  have b: "2 powi expo a \<le> a" "a < 2 powi (expo a + 1)" using expo_bounds[OF assms(1)] by auto
  have "of_int n * 2 powi (E - 52) < (2 :: rat) powi (E + 1)"
    using b(2) powi2_mono[of "expo a + 1" "E + 1"] unfolding a[symmetric] by (simp add: E_def)
  also have "\<dots> = of_int (2 ^ 53) * 2 powi (E - 52)" by (rule powi2_split) simp
  finally have n1: "n < 2 ^ 53" using powi2_pos[of "E - 52"] by (simp only: mult_less_cancel_right_pos of_int_less_iff)
  have "(2 :: rat) powi expo a < 2 powi 1024" using b(1) me(4) by (simp add: F64_def)
  then have e: "expo a < 1024" using powi2_mono[of 1024 "expo a"] by linarith
  have "E = - 1022" if "n < 2 ^ 52"
  proof (rule ccontr)
    assume "E \<noteq> - 1022"
    then have "2 powi E \<le> of_int n * (2 :: rat) powi (E - 52)" using b(1) unfolding a[symmetric] by (simp add: E_def max_def split: if_splits)
    moreover have "(2 :: rat) powi E = of_int (2 ^ 52) * 2 powi (E - 52)" by (rule powi2_split) simp
    ultimately have "(of_int (2 ^ 52) :: rat) \<le> of_int n" using powi2_pos[of "E - 52"] by (simp only: mult_le_cancel_right_pos)
    then show False using that by (simp only: of_int_le_iff)
  qed
  then show ?thesis using that[OF E_def d a n0 n1] e by (simp add: E_def)
qed

text \<open>The magnitude of a bit pattern, in its two fields.\<close>

lemma f64_fields:
  assumes "0 \<le> m" "m < 2 ^ 52" "0 \<le> e" "e < 2 ^ 11"
  shows "f64_from_bits (of_int ((if s then 2 ^ 63 else 0) + (e * 2 ^ 52 + m))) =
    (let x = (if e = 2047 then (if m = 0 then PInf else NaN)
               else if e = 0 then Fin (of_int m * 2 powi (- 1074))
               else Fin (of_int (2 ^ 52 + m) * 2 powi (e - 1075))) in
     if s then fneg x else x)"
proof -
  define N where "N = (if s then 2 ^ 63 else 0) + (e * 2 ^ 52 + m)"
  have N: "0 \<le> N" "N < 2 ^ 64" using assms by (auto simp: N_def)
  then have u: "uint (of_int N :: u64) = N" by (simp add: unsigned_of_int take_bit_int_eq_self_iff)
  define k where "k = (if s then 2 ^ 11 else 0) + e"
  have k: "N = m + 2 ^ 52 * k" "0 \<le> k" using assms(3) by (simp_all add: N_def k_def)
  have "N mod 2 ^ 52 = m" unfolding k using assms by (simp only: mod_mult_self2 mod_pos_pos_trivial)
  then have m: "uint (take_bit 52 (of_int N :: u64)) = m" by (subst unsigned_take_bit_eq) (simp only: u take_bit_eq_mod)
  have d: "N div 2 ^ 52 = k" unfolding k(1) using assms by (simp add: div_pos_pos_trivial)
  have "uint (take_bit 11 (drop_bit 52 (of_int N :: u64))) = (N div 2 ^ 52) mod 2 ^ 11"
    using N by (subst unsigned_take_bit_eq, subst unsigned_drop_bit_eq)
      (simp add: u take_bit_int_eq_self drop_bit_eq_div take_bit_eq_mod)
  then have e: "uint (take_bit 11 (drop_bit 52 (of_int N :: u64))) = e" using assms d by (auto simp: k_def)
  have "bit (of_int N :: u64) 63 \<longleftrightarrow> bit N 63" by (simp add: bit_word_of_int_iff)
  also have "\<dots> \<longleftrightarrow> odd (N div 2 ^ 63)" by (simp add: bit_iff_odd)
  also have "N div 2 ^ 63 = (if s then 1 else 0)" using assms by (auto simp: N_def)
  finally have s: "bit (of_int N :: u64) 63 \<longleftrightarrow> s" by simp
  show ?thesis unfolding f64_from_bits_def N_def[symmetric] m e s by (simp only: Let_def)
qed

lemma f64_magnitude_fields:
  assumes "0 \<le> a" "representable F64 a"
  obtains e m where "f64_magnitude a = e * 2 ^ 52 + m" "0 \<le> m" "m < 2 ^ 52" "0 \<le> e" "e < 2047"
    "a = (if e = 0 then of_int m * 2 powi (- 1074) else of_int (2 ^ 52 + m) * 2 powi (e - 1075))"
proof (cases "a = 0")
  case True
  then show ?thesis using that[of 0 0] by (simp add: f64_magnitude_def)
next
  case False
  then have "0 < a" using assms(1) by simp
  then obtain n E where n: "E = max (expo a) (- 1022)" "a / 2 powi (E - 52) = of_int n" "a = of_int n * 2 powi (E - 52)"
    "0 < n" "n < 2 ^ 53" "E \<le> 1023" "n < 2 ^ 52 \<longrightarrow> E = - 1022" by (rule f64_split[OF _ assms(2)])
  have g: "f64_magnitude a = (if n < 2 ^ 52 then n else (E + 1023) * 2 ^ 52 + (n - 2 ^ 52))"
    unfolding f64_magnitude_def Let_def n(1)[symmetric] n(2) using False by simp
  show ?thesis
  proof (cases "n < 2 ^ 52")
    case True
    then have "E = - 1022" using n(7) by simp
    then have "a = of_int n * 2 powi (- 1074)" using n(3) by simp
    then have "a = (if (0 :: int) = 0 then of_int n * 2 powi (- 1074) else of_int (2 ^ 52 + n) * 2 powi (0 - 1075))"
      by (simp only: if_True simp_thms)
    then show ?thesis by (rule that[rotated 5]) (use True n(4) g in simp_all)
  next
    case c: False
    have "- 1022 \<le> E" using n(1) by simp
    then show ?thesis using that[of "E + 1023" "n - 2 ^ 52"] n(3,5,6) g c by (simp add: algebra_simps)
  qed
qed

lemma f64_bits_round_trip:
  assumes "representable F64 a"
  shows "f64_from_bits (f64_to_bits (Fin a)) = Fin a"
proof -
  have "representable F64 \<bar>a\<bar>" using assms representable_uminus by (cases "0 \<le> a") auto
  then obtain e m where f: "f64_magnitude \<bar>a\<bar> = e * 2 ^ 52 + m" "0 \<le> m" "m < 2 ^ 52" "0 \<le> e" "e < 2047"
    "\<bar>a\<bar> = (if e = 0 then of_int m * 2 powi (- 1074) else of_int (2 ^ 52 + m) * 2 powi (e - 1075))"
    by (rule f64_magnitude_fields[rotated]) auto
  have "f64_from_bits (f64_to_bits (Fin a)) = (if a < 0 then fneg (Fin \<bar>a\<bar>) else Fin \<bar>a\<bar>)"
    unfolding f64_to_bits_def fl.case f(1) using f64_fields[OF f(2-4), of "a < 0"] f(5,6) by (auto simp: Let_def)
  then show ?thesis by simp
qed

lemma f64_from_bits_representable:
  assumes "f64_from_bits b = Fin a"
  shows "representable F64 a"
proof -
  define e m where "e = uint (take_bit 11 (drop_bit 52 b))" and "m = uint (take_bit 52 b)"
  have m: "0 \<le> m" "m < 2 ^ 52" using take_bit_int_less_exp[of 52 "uint b"] by (simp_all add: m_def unsigned_take_bit_eq)
  have e: "0 \<le> e" "e < 2 ^ 11" using take_bit_int_less_exp[of 11 "uint (drop_bit 52 b)"] by (simp_all add: e_def unsigned_take_bit_eq)
  have lt: "of_int (2 ^ 52 + m) * (2 :: rat) powi (e - 1075) < 2 powi 1024" if "e < 2047"
  proof -
    have "of_int (2 ^ 52 + m) * (2 :: rat) powi (e - 1075) < of_int (2 ^ 53) * 2 powi (e - 1075)"
      using m by (intro mult_strict_right_mono powi2_pos) (simp add: of_int_less_iff del: of_int_add of_int_power)
    also have "\<dots> = 2 powi (e - 1022)" by (rule powi2_split[symmetric]) simp
    also have "\<dots> \<le> 2 powi 1024" using that by (intro powi2_mono) simp
    finally show ?thesis .
  qed
  have sub: "of_int m * (2 :: rat) powi (- 1074) < 2 powi 1024"
  proof -
    have "of_int m * (2 :: rat) powi (- 1074) < of_int (2 ^ 52) * 2 powi (- 1074)"
      using m by (intro mult_strict_right_mono powi2_pos) (simp only: of_int_less_iff)
    also have "\<dots> = 2 powi (- 1022)" by (rule powi2_split[symmetric]) simp
    also have "\<dots> \<le> 2 powi 1024" by (intro powi2_mono) simp
    finally show ?thesis .
  qed
  define x :: rat where "x = (if e = 0 then of_int m * 2 powi (- 1074) else of_int (2 ^ 52 + m) * 2 powi (e - 1075))"
  have "e \<noteq> 2047" "a = x \<or> a = - x"
    using assms unfolding f64_from_bits_def Let_def e_def[symmetric] m_def[symmetric] x_def by (auto split: if_splits)
  moreover have "representable F64 x" if "e \<noteq> 2047"
  proof (cases "e = 0")
    case True
    have "\<bar>x\<bar> < 2 powi (snd F64 + 1)" using True sub m by (simp add: x_def F64_def abs_mult)
    then show ?thesis unfolding representable_def using True m
      by (intro exI[of _ m] exI[of _ "- 1074"]) (auto simp: x_def F64_def)
  next
    case False
    have "\<bar>x\<bar> < 2 powi (snd F64 + 1)" using False lt m e that by (simp add: x_def F64_def abs_mult)
    then show ?thesis unfolding representable_def using False m e
      by (intro exI[of _ "2 ^ 52 + m"] exI[of _ "e - 1075"]) (auto simp: x_def F64_def)
  qed
  ultimately show ?thesis using representable_uminus[of F64 x] by auto
qed

section \<open>Ranges\<close>

definition fl_in :: "rat \<Rightarrow> rat \<Rightarrow> fl \<Rightarrow> bool" where
  "fl_in lo hi x \<longleftrightarrow> (\<exists>z. x = Fin z \<and> lo \<le> z \<and> z \<le> hi \<and> representable F64 z)"

lemma fl_in_Fin: "fl_in lo hi (Fin z) \<longleftrightarrow> lo \<le> z \<and> z \<le> hi \<and> representable F64 z"
  by (auto simp: fl_in_def)

lemma rnd_fl_in:
  assumes "lo \<le> x" "x \<le> hi" "representable F64 lo" "representable F64 hi"
  shows "fl_in lo hi (rnd F64 x)"
proof -
  have "fle (Fin lo) (rnd F64 x)" "fle (rnd F64 x) (Fin hi)"
    using rnd_ge_representable[OF assms(1,3)] rnd_le_representable[OF assms(2,4)] by simp_all
  then obtain z where "rnd F64 x = Fin z" "lo \<le> z" "z \<le> hi" by (cases "rnd F64 x") auto
  then show ?thesis using representable_rnd[of F64 x z] by (simp add: fl_in_def)
qed

lemma representable_small: "\<bar>n\<bar> < 2 ^ 53 \<Longrightarrow> representable F64 (of_int n)"
proof -
  assume "\<bar>n\<bar> < 2 ^ 53"
  moreover have "\<bar>of_int n :: rat\<bar> < 2 powi 1024"
  proof -
    have "(of_int \<bar>n\<bar> :: rat) < of_int (2 ^ 53)" using calculation by (simp only: of_int_less_iff)
    also have "\<dots> = 2 powi 53" by simp
    also have "\<dots> \<le> 2 powi 1024" by (rule powi2_mono) simp
    finally show ?thesis by simp
  qed
  ultimately show ?thesis unfolding representable_def by (intro exI[of _ n] exI[of _ 0]) (simp add: F64_def)
qed

definition two_pi :: rat where "two_pi = 884279719003555 / 140737488355328"

lemma TWO_PI_value: "TWO_PI = Fin two_pi"
  by code_simp

lemma two_pi_bounds: "6 < two_pi" "two_pi < 7"
  by (simp_all add: two_pi_def)

lemma representable_two_pi: "representable F64 two_pi" "representable F64 (- two_pi)"
proof -
  show "representable F64 two_pi"
    using representable_rnd[of F64 "2 * (884279719003555 / 281474976710656)" two_pi] TWO_PI_value
    by (simp add: TWO_PI_def PI_def)
  then show "representable F64 (- two_pi)" by (rule representable_uminus)
qed

lemma representable_consts: "representable F64 0" "representable F64 1" "representable F64 350"
  using representable_small[of 0] representable_small[of 1] representable_small[of 350] by simp_all

lemma trunc_remainder:
  fixes a b :: rat
  assumes "b > 0"
  defines "t \<equiv> (if 0 \<le> a / b then \<lfloor>a / b\<rfloor> else \<lceil>a / b\<rceil>)"
  shows "\<bar>a - b * of_int t\<bar> < b" "\<bar>a - b * of_int t\<bar> \<le> \<bar>a\<bar>" "0 \<le> a \<Longrightarrow> 0 \<le> a - b * of_int t"
    "a \<le> 0 \<Longrightarrow> a - b * of_int t \<le> 0"
proof -
  define q where "q = a / b"
  have a: "a = b * q" using assms(1) by (simp add: q_def)
  have e: "a - b * of_int t = b * (q - of_int t)" by (simp add: a algebra_simps)
  have f: "\<bar>q - of_int t\<bar> < 1" "\<bar>q - of_int t\<bar> \<le> \<bar>q\<bar>" "0 \<le> q \<Longrightarrow> 0 \<le> q - of_int t" "q \<le> 0 \<Longrightarrow> q - of_int t \<le> 0"
    unfolding t_def q_def[symmetric] by (auto split: if_splits; linarith)+
  show "\<bar>a - b * of_int t\<bar> < b" unfolding e using f(1) assms(1) by (simp add: abs_mult)
  show "\<bar>a - b * of_int t\<bar> \<le> \<bar>a\<bar>" unfolding e using f(2) assms(1) by (simp only: a abs_mult) (simp add: mult_left_mono)
  show "0 \<le> a - b * of_int t" if "0 \<le> a" unfolding e using f(3) assms(1) that a by (simp add: zero_le_mult_iff)
  show "a - b * of_int t \<le> 0" if "a \<le> 0" unfolding e using f(4) assms(1) that a by (simp add: mult_le_0_iff)
qed

text \<open>The remainder of representable numbers is representable: it is a multiple of the smaller of the two units.\<close>

lemma remainder_representable:
  assumes "representable fmt a" "representable fmt b" "0 < b" "r = a - b * of_int t" "\<bar>r\<bar> < b" "\<bar>r\<bar> \<le> \<bar>a\<bar>"
  shows "representable fmt r"
proof -
  obtain m e where m: "a = of_int m * 2 powi e" "\<bar>m\<bar> < 2 ^ fst fmt" "2 - snd fmt - int (fst fmt) \<le> e" "\<bar>a\<bar> < 2 powi (snd fmt + 1)"
    using assms(1) unfolding representable_def by blast
  obtain n f where n: "b = of_int n * 2 powi f" "\<bar>n\<bar> < 2 ^ fst fmt" "2 - snd fmt - int (fst fmt) \<le> f"
    using assms(2) unfolding representable_def by blast
  have lt: "\<bar>r\<bar> < 2 powi (snd fmt + 1)" using m(4) assms(6) by linarith
  have unit: "\<bar>k\<bar> \<le> \<bar>j\<bar>" if "\<bar>of_int k * (2 :: rat) powi g\<bar> \<le> \<bar>of_int j * 2 powi g\<bar>" for k j g
    using that powi2_pos[of g] by (simp add: abs_mult)
  show ?thesis
  proof (cases "e \<le> f")
    case True
    then have "(2 :: rat) powi f = of_int (2 ^ nat (f - e)) * 2 powi e" by (intro powi2_split) simp
    then have r: "r = of_int (m - n * 2 ^ nat (f - e) * t) * 2 powi e" using m(1) n(1) assms(4) by (simp add: algebra_simps)
    have "\<bar>m - n * 2 ^ nat (f - e) * t\<bar> \<le> \<bar>m\<bar>" using assms(6) unfolding r m(1) by (rule unit)
    then have "\<bar>m - n * 2 ^ nat (f - e) * t\<bar> < 2 ^ fst fmt" using m(2) by linarith
    then show ?thesis unfolding representable_def using r m(3) lt by blast
  next
    case False
    then have "(2 :: rat) powi e = of_int (2 ^ nat (e - f)) * 2 powi f" by (intro powi2_split) simp
    then have r: "r = of_int (m * 2 ^ nat (e - f) - n * t) * 2 powi f" using m(1) n(1) assms(4) by (simp add: algebra_simps)
    have "\<bar>r\<bar> \<le> \<bar>b\<bar>" using assms(3,5) by simp
    then have "\<bar>m * 2 ^ nat (e - f) - n * t\<bar> \<le> \<bar>n\<bar>" unfolding r n(1) by (rule unit)
    then have "\<bar>m * 2 ^ nat (e - f) - n * t\<bar> < 2 ^ fst fmt" using n(2) by linarith
    then show ?thesis unfolding representable_def using r n(3) lt by blast
  qed
qed

lemma rem_euclid_fl_in:
  assumes "representable F64 a"
  shows "fl_in 0 two_pi (rem_euclid (Fin a) TWO_PI)"
proof -
  define t where "t = (if 0 \<le> a / two_pi then \<lfloor>a / two_pi\<rfloor> else \<lceil>a / two_pi\<rceil>)"
  define r where "r = a - two_pi * of_int t"
  have p: "0 < two_pi" using two_pi_bounds by simp
  have b: "\<bar>r\<bar> < two_pi" "\<bar>r\<bar> \<le> \<bar>a\<bar>" using trunc_remainder(1,2)[OF p, of a] by (simp_all only: r_def t_def)
  have rr: "representable F64 r" by (rule remainder_representable[OF assms representable_two_pi(1) p r_def b])
  have f: "frem (Fin a) (Fin two_pi) = Fin r" by (simp add: frem_def r_def t_def)
  show ?thesis
  proof (cases "r < 0")
    case True
    have "fl_in 0 two_pi (rnd F64 (r + two_pi))"
      using b True by (intro rnd_fl_in representable_consts representable_two_pi) auto
    then show ?thesis using True p by (simp add: rem_euclid_def f TWO_PI_value fabs_def)
  next
    case False
    then show ?thesis using b rr by (simp add: rem_euclid_def f TWO_PI_value fl_in_def)
  qed
qed

lemma rem_euclid_id: "0 \<le> a \<Longrightarrow> a < two_pi \<Longrightarrow> rem_euclid (Fin a) TWO_PI = Fin a"
proof -
  assume a: "0 \<le> a" "a < two_pi"
  then have "\<lfloor>a / two_pi\<rfloor> = 0" by (simp add: floor_eq_iff)
  then show ?thesis using a by (simp add: rem_euclid_def frem_def TWO_PI_value)
qed

section \<open>Coordinates are in range\<close>

definition coord_ok :: "HypCoord \<Rightarrow> bool" where
  "coord_ok c \<longleftrightarrow> fl_in 0 350 (rho c) \<and> fl_in 0 two_pi (theta c)"

lemma sanitised_fl_in:
  assumes "\<And>a. x = Fin a \<Longrightarrow> representable F64 a"
  shows "fl_in 0 350 (if is_finite x then fclamp x (Fin 0) RHO_MAX else Fin 0)"
    "fl_in 0 two_pi (if is_finite x then rem_euclid x TWO_PI else Fin 0)"
  using assms representable_consts two_pi_bounds rem_euclid_fl_in
  by (cases x; force simp: is_finite_def fclamp_def RHO_MAX_def fl_in_def)+

lemma decode_coord_ok: "coord_ok (HypCoord_decode data)"
  unfolding coord_ok_def HypCoord_decode_def Let_def HypCoord.simps
  by (intro conjI sanitised_fl_in f64_from_bits_representable)

lemma from_le_f64: "from_le (le_bytes 8 (w :: u64)) = w"
  by (rule from_le_le_bytes) simp

lemma decode_encode_coord:
  assumes "coord_ok c"
  shows "HypCoord_decode (HypCoord_encode c) = (if theta c = TWO_PI then c\<lparr>theta := Fin 0\<rparr> else c)"
proof -
  obtain r t where r: "rho c = Fin r" "0 \<le> r" "r \<le> 350" "representable F64 r"
    and t: "theta c = Fin t" "0 \<le> t" "t \<le> two_pi" "representable F64 t"
    using assms unfolding coord_ok_def fl_in_def by blast
  have p: "rem_euclid TWO_PI TWO_PI = Fin 0" using two_pi_bounds by (simp add: rem_euclid_def frem_def TWO_PI_value)
  have "rem_euclid (Fin t) TWO_PI = (if Fin t = TWO_PI then Fin 0 else Fin t)"
    using rem_euclid_id[of t] t p by (auto simp: TWO_PI_value)
  then show ?thesis
    using r t by (simp add: HypCoord_decode_def HypCoord_encode_def from_le_f64 f64_bits_round_trip Let_def is_finite_def
      fclamp_def RHO_MAX_def)
qed

text \<open>The embedding of a tree position. The key hash is in the unit interval, the sector no wider than the circle.\<close>

lemma u64_max_f64: "of_int_fl F64 (uint (- 1 :: u64)) = Fin (2 ^ 64)"
  by code_simp

lemma representable_2_64: "representable F64 (2 ^ 64)"
  using representable_rnd[of F64 "of_int (uint (- 1 :: u64))" "2 ^ 64"] u64_max_f64 unfolding of_int_fl_def
  by (simp del: of_int_uint)

lemma hash01_fl_in: "fl_in 0 1 (hash01 C k)"
proof -
  define v where "v = (from_le (take 8 (blake2b C 64 k)) :: u64)"
  have "(of_int (uint v) :: rat) \<le> of_int (2 ^ 64)" using uint_lt2p[of v] by (simp only: of_int_le_iff) simp
  then have "fl_in 0 (2 ^ 64) (of_int_fl F64 (uint v))"
    unfolding of_int_fl_def using representable_2_64 by (intro rnd_fl_in representable_consts) (simp_all del: of_int_uint)
  then obtain z where z: "of_int_fl F64 (uint v) = Fin z" "0 \<le> z" "z \<le> 2 ^ 64" unfolding fl_in_def by blast
  have "fl_in 0 1 (rnd F64 (z / 2 ^ 64))" using z by (intro rnd_fl_in representable_consts) simp_all
  then show ?thesis by (simp add: hash01_def Let_def v_def[symmetric] z(1) u64_max_f64 del: of_int_uint)
qed

lemma representable_half: "representable F64 (1 / 2)" "representable F64 (- (1 / 2))"
proof -
  show "representable F64 (1 / 2)"
    unfolding representable_def by (intro exI[of _ 1] exI[of _ "- 1"]) (simp add: F64_def power_int_def)
  then show "representable F64 (- (1 / 2))" by (rule representable_uminus)
qed

lemma sector_fl_in:
  assumes "0 \<le> n"
  shows "fl_in 0 two_pi (fdiv F64 TWO_PI (spread_powi n))"
proof (cases "n \<le> 341")
  case True
  have "1 \<le> (8 :: rat) ^ nat n" by simp
  then have "two_pi / 8 ^ nat n \<le> two_pi" using two_pi_bounds by (simp add: divide_le_eq mult_le_cancel_left1)
  then have "fl_in 0 two_pi (rnd F64 (two_pi / 8 ^ nat n))"
    using two_pi_bounds by (intro rnd_fl_in representable_consts representable_two_pi) simp_all
  then show ?thesis using True assms by (simp add: spread_powi_def ANGULAR_SPREAD_def TWO_PI_value)
next
  case False
  then show ?thesis using assms representable_consts two_pi_bounds by (simp add: spread_powi_def TWO_PI_value fl_in_def)
qed

lemma tree_rho: "fl_in 0 350 (fmin (fmul F64 (of_int_fl F64 (uint (depth :: u32))) RADIAL_STEP) RHO_MAX)"
proof -
  have "uint depth < 2 ^ 32" using uint_lt2p[of depth] by simp
  then have "representable F64 (of_int (uint depth))" by (intro representable_small) simp
  moreover from this have "of_int_fl F64 (uint depth) = Fin (of_int (uint depth))"
    unfolding of_int_fl_def by (rule rnd_exact) simp
  ultimately show ?thesis
    using rnd_exact[of F64 "of_int (uint depth)"] representable_consts
    by (auto simp: RADIAL_STEP_def RHO_MAX_def fmin_def fl_in_def simp del: of_int_uint)
qed

lemma mult_fl_in:
  assumes "fl_in (- (1 / 2)) (1 / 2) x" "fl_in 0 two_pi y"
  shows "fl_in (- two_pi) two_pi (fmul F64 x y)"
proof -
  obtain a b where ab: "x = Fin a" "y = Fin b" "\<bar>a\<bar> \<le> 1 / 2" "0 \<le> b" "b \<le> two_pi" using assms unfolding fl_in_def by auto
  have "\<bar>a * b\<bar> \<le> 1 * two_pi" unfolding abs_mult using ab by (intro mult_mono) auto
  then show ?thesis using ab(1,2) rnd_fl_in[OF _ _ representable_two_pi(2,1), of "a * b"] by simp
qed

lemma from_tree_position_ok:
  assumes "depth \<le> 2 ^ 31" "fl_in 0 two_pi parent_theta"
  shows "coord_ok (from_tree_position C depth parent_theta k)"
proof (cases "depth = 0")
  case True
  then show ?thesis using representable_consts two_pi_bounds by (simp add: from_tree_position_def HypCoord_origin_def coord_ok_def fl_in_def)
next
  case False
  define n where "n = sint (depth - 1)"
  have n: "0 \<le> n"
  proof -
    have "uint depth \<le> 2 ^ 31" "uint depth \<noteq> 0" using assms(1) False by (simp_all add: word_le_def uint_0_iff)
    moreover from this have "1 \<le> uint depth" using uint_ge_0[of depth] by linarith
    ultimately have "0 \<le> uint (depth - 1)" "uint (depth - 1) < 2 ^ 31" using uint_sub_lem[of 1 depth] by simp_all
    moreover from this have "signed_take_bit 31 (uint (depth - 1)) = uint (depth - 1)" by (intro signed_take_bit_int_eq_self) linarith+
    moreover have "n = signed_take_bit 31 (uint (depth - 1))" by (simp add: n_def sint_uint)
    ultimately show ?thesis by simp
  qed
  obtain p where p: "parent_theta = Fin p" "0 \<le> p" "p \<le> two_pi" using assms(2) unfolding fl_in_def by blast
  obtain h where h: "hash01 C k = Fin h" "0 \<le> h" "h \<le> 1" using hash01_fl_in[of C k] unfolding fl_in_def by blast
  have "fl_in (- (1 / 2)) (1 / 2) (fsub F64 (hash01 C k) (Fin (1 / 2)))"
    using rnd_fl_in[OF _ _ representable_half(2,1), of "h - 1 / 2"] h by (simp add: fsub_def)
  then have "fl_in (- two_pi) two_pi (fmul F64 (fsub F64 (hash01 C k) (Fin (1 / 2))) (fdiv F64 TWO_PI (spread_powi n)))"
    by (rule mult_fl_in[OF _ sector_fl_in[OF n]])
  then obtain q where q: "fmul F64 (fsub F64 (hash01 C k) (Fin (1 / 2))) (fdiv F64 TWO_PI (spread_powi n)) = Fin q"
    "- two_pi \<le> q" "q \<le> two_pi" unfolding fl_in_def by blast
  have "fl_in (- 14) 14 (rnd F64 (p + q))"
    using p q two_pi_bounds representable_small[of 14] representable_small[of "- 14"] by (intro rnd_fl_in) auto
  then obtain s where s: "rnd F64 (p + q) = Fin s" "representable F64 s" unfolding fl_in_def by blast
  have "fl_in 0 two_pi (rem_euclid (fadd F64 parent_theta (fmul F64 (fsub F64 (hash01 C k) (Fin (1 / 2))) (fdiv F64 TWO_PI (spread_powi n)))) TWO_PI)"
    unfolding q(1) p(1) fadd.simps s(1) by (rule rem_euclid_fl_in[OF s(2)])
  then show ?thesis using tree_rho False unfolding from_tree_position_def Let_def coord_ok_def n_def by simp
qed

text \<open>A depth beyond the signed range turns the sector into an infinity and the angle into not-a-number.\<close>

lemma from_tree_position_nan:
  assumes "2 ^ 31 < depth" "depth < - 1000" "fl_in 0 two_pi parent_theta"
  shows "theta (from_tree_position C depth parent_theta k) = NaN"
proof -
  define n where "n = sint (depth - 1)"
  have d: "2 ^ 31 < uint depth" "uint depth < 2 ^ 32 - 1000" using assms(1,2) by (simp_all add: word_less_def)
  have d1: "uint (depth - 1) = uint depth - 1" using d(1) uint_sub_lem[of 1 depth] by simp
  have "(uint depth - 1 + 2 ^ 31) mod 2 ^ 32 = (uint depth - 1 - 2 ^ 31 + 2 ^ 32) mod 2 ^ 32" by simp
  also have "\<dots> = (uint depth - 1 - 2 ^ 31) mod 2 ^ 32" by (rule mod_add_self2)
  also have "\<dots> = uint depth - 1 - 2 ^ 31" using d by (intro mod_pos_pos_trivial) simp_all
  finally have "n = uint depth - 1 - 2 ^ 32"
    unfolding n_def sint_uint d1 by (simp add: signed_take_bit_eq_take_bit_shift take_bit_eq_mod)
  then have "n < - 341" using d(2) by simp
  then have sec: "fdiv F64 TWO_PI (spread_powi n) = PInf"
    using two_pi_bounds by (simp add: spread_powi_def TWO_PI_value inf_sign_def)
  obtain p where p: "parent_theta = Fin p" using assms(3) unfolding fl_in_def by blast
  obtain h where h: "hash01 C k = Fin h" "0 \<le> h" "h \<le> 1" using hash01_fl_in[of C k] unfolding fl_in_def by blast
  have "fl_in (- (1 / 2)) (1 / 2) (fsub F64 (hash01 C k) (Fin (1 / 2)))"
    using rnd_fl_in[OF _ _ representable_half(2,1), of "h - 1 / 2"] h by (simp add: fsub_def)
  then obtain x where x: "fsub F64 (hash01 C k) (Fin (1 / 2)) = Fin x" unfolding fl_in_def by blast
  have "depth \<noteq> 0" using assms(1) by auto
  then show ?thesis
    unfolding from_tree_position_def Let_def n_def[symmetric] sec x p
    by (auto simp: TWO_PI_value inf_sign_def rem_euclid_def frem_def)
qed

section \<open>Distance\<close>

text \<open>The ranges of the platform functions: the sine is in the unit interval, the hyperbolic functions of arguments within the radial bound stay
  below $2^{505}$, the area hyperbolic cosine of a finite number from one upwards is a number from 0 to 711.\<close>

definition libm_ok :: "libm \<Rightarrow> bool" where
  "libm_ok L \<longleftrightarrow>
     (\<forall>x. fl_in (- two_pi) two_pi x \<longrightarrow> fl_in (- 1) 1 (f_sin L x)) \<and>
     (\<forall>x. fl_in (- 350) 350 x \<longrightarrow> fl_in 1 (2 ^ 505) (f_cosh L x)) \<and>
     (\<forall>x. fl_in 0 350 x \<longrightarrow> fl_in 0 (2 ^ 505) (f_sinh L x)) \<and>
     (\<forall>x. fl_in 1 (2 ^ 1023) x \<longrightarrow> fl_in 0 711 (f_acosh L x))"

lemma libm_okD:
  assumes "libm_ok L"
  shows "fl_in (- two_pi) two_pi x \<Longrightarrow> fl_in (- 1) 1 (f_sin L x)"
    "fl_in (- 350) 350 x \<Longrightarrow> fl_in 1 (2 ^ 505) (f_cosh L x)"
    "fl_in 0 350 x \<Longrightarrow> fl_in 0 (2 ^ 505) (f_sinh L x)"
    "fl_in 1 (2 ^ 1023) x \<Longrightarrow> fl_in 0 711 (f_acosh L x)"
  using assms unfolding libm_ok_def by simp_all

lemma representable_pow2: "n < 1024 \<Longrightarrow> representable F64 (2 ^ n)" "n < 1024 \<Longrightarrow> representable F64 (- (2 ^ n))"
proof -
  assume n: "n < 1024"
  have "(2 :: rat) ^ n < 2 powi 1024" using powi2_strict[of "int n" 1024] n by (simp add: power_int_of_nat)
  then show r: "representable F64 (2 ^ n)"
    unfolding representable_def by (intro exI[of _ 1] exI[of _ "int n"]) (simp add: F64_def)
  show "representable F64 (- (2 ^ n))" by (rule representable_uminus[OF r])
qed

lemma fl_in_mono: "fl_in lo hi x \<Longrightarrow> lo' \<le> lo \<Longrightarrow> hi \<le> hi' \<Longrightarrow> fl_in lo' hi' x"
  unfolding fl_in_def by fastforce

lemma fl_in_fmul:
  assumes "fl_in 0 (2 ^ m) x" "fl_in 0 (2 ^ n) y" "m + n < 1024"
  shows "fl_in 0 (2 ^ (m + n)) (fmul F64 x y)"
proof -
  obtain a b where ab: "x = Fin a" "y = Fin b" "0 \<le> a" "a \<le> 2 ^ m" "0 \<le> b" "b \<le> 2 ^ n" using assms(1,2) unfolding fl_in_def by auto
  have "a * b \<le> 2 ^ (m + n)" unfolding power_add using ab by (intro mult_mono) auto
  then show ?thesis using ab rnd_fl_in[OF _ _ representable_consts(1) representable_pow2(1)[OF assms(3)], of "a * b"] by simp
qed

text \<open>Multiplying twice by the same sine gives a non-negative number again.\<close>

lemma fl_in_square:
  assumes "fl_in 0 (2 ^ m) x" "fl_in (- 1) 1 s" "m < 1024"
  shows "fl_in 0 (2 ^ m) (fmul F64 (fmul F64 x s) s)"
proof -
  obtain a b where ab: "x = Fin a" "s = Fin b" "0 \<le> a" "a \<le> 2 ^ m" "- 1 \<le> b" "b \<le> 1" using assms(1,2) unfolding fl_in_def by auto
  have P: "fl_in lo hi (rnd F64 y)" if "lo \<le> y" "y \<le> hi" "lo \<in> {0, - (2 ^ m)}" "hi \<in> {0, 2 ^ m}" for lo hi y
    using that representable_consts(1) representable_pow2[OF assms(3)] by (auto intro!: rnd_fl_in)
  have mul: "c * d \<le> 2 ^ m" if "0 \<le> c" "c \<le> 2 ^ m" "0 \<le> d" "d \<le> 1" for c d :: rat
    using mult_mono[of c "2 ^ m" d 1] that by simp
  show ?thesis
  proof (cases "0 \<le> b")
    case True
    then obtain z where "rnd F64 (a * b) = Fin z" "0 \<le> z" "z \<le> 2 ^ m"
      using P[of 0 "a * b" "2 ^ m"] mul[of a b] ab unfolding fl_in_def by auto
    then show ?thesis using P[of 0 "z * b" "2 ^ m"] mul[of z b] ab True by simp
  next
    case False
    then obtain z where z: "rnd F64 (a * b) = Fin z" "- (2 ^ m) \<le> z" "z \<le> 0"
      using P[of "- (2 ^ m)" "a * b" 0] mul[of a "- b"] ab unfolding fl_in_def by (auto simp: mult_le_0_iff)
    have "(- z) * (- b) \<le> 2 ^ m" using mul[of "- z" "- b"] z ab False by simp
    then show ?thesis using P[of 0 "z * b" "2 ^ m"] z ab False by (simp add: mult_nonpos_nonpos)
  qed
qed

lemma clamped_rho: "coord_ok c \<Longrightarrow> fl_in 0 350 (fclamp (rho c) (Fin 0) RHO_MAX)"
  by (auto simp: coord_ok_def fl_in_def fclamp_def RHO_MAX_def)

lemma distance_fl_in:
  assumes "libm_ok L" "coord_ok c" "coord_ok d"
  shows "fl_in 0 711 (distance L c d)"
proof -
  define a b where "a = fclamp (rho c) (Fin 0) RHO_MAX" and "b = fclamp (rho d) (Fin 0) RHO_MAX"
  define s where "s = f_sin L (fmul F64 (Fin (1 / 2)) (fsub F64 (theta c) (theta d)))"
  have ab: "fl_in 0 350 a" "fl_in 0 350 b" unfolding a_def b_def using assms(2,3) by (auto intro: clamped_rho)
  obtain x y where xy: "theta c = Fin x" "theta d = Fin y" "\<bar>x - y\<bar> \<le> two_pi"
    using assms(2,3) unfolding coord_ok_def fl_in_def by auto
  have "fl_in (- two_pi) two_pi (rnd F64 (x - y))" using xy(3) by (intro rnd_fl_in representable_two_pi) auto
  then obtain z where z: "rnd F64 (x - y) = Fin z" "\<bar>z\<bar> \<le> two_pi" unfolding fl_in_def by auto
  have "fl_in (- two_pi) two_pi (rnd F64 (z / 2))" using z(2) by (intro rnd_fl_in representable_two_pi) auto
  then have "fl_in (- two_pi) two_pi (fmul F64 (Fin (1 / 2)) (fsub F64 (theta c) (theta d)))"
    unfolding xy(1,2) fsub_def fneg.simps fadd.simps add_uminus_conv_diff z(1) fmul.simps by (simp only: mult.commute[of "1 / 2"] times_divide_eq_right mult_1_right)
  then have s: "fl_in (- 1) 1 s" unfolding s_def by (rule libm_okD(1)[OF assms(1)])
  obtain u v where uv: "a = Fin u" "b = Fin v" "0 \<le> u" "u \<le> 350" "0 \<le> v" "v \<le> 350" using ab unfolding fl_in_def by auto
  have "fl_in (- 350) 350 (rnd F64 (u - v))"
    using uv representable_small[of 350] representable_small[of "- 350"] by (intro rnd_fl_in) auto
  then have "fl_in (- 350) 350 (fsub F64 a b)" using uv(1,2) by (simp add: fsub_def)
  then obtain p where p: "f_cosh L (fsub F64 a b) = Fin p" "1 \<le> p" "p \<le> 2 ^ 505"
    using libm_okD(2)[OF assms(1)] unfolding fl_in_def by meson
  have sh: "fl_in 0 (2 ^ 505) (f_sinh L a)" "fl_in 0 (2 ^ 505) (f_sinh L b)" using libm_okD(3)[OF assms(1)] ab by auto
  have "fl_in 0 (2 ^ 1) (Fin 2)" using representable_small[of 2] by (simp add: fl_in_def)
  then have "fl_in 0 (2 ^ (1 + 505 + 505)) (fmul F64 (fmul F64 (Fin 2) (f_sinh L a)) (f_sinh L b))"
    using sh by (intro fl_in_fmul) auto
  then have "fl_in 0 (2 ^ 1011) (fmul F64 (fmul F64 (fmul F64 (fmul F64 (Fin 2) (f_sinh L a)) (f_sinh L b)) s) s)"
    using s by (intro fl_in_square) simp_all
  then obtain q where q: "fmul F64 (fmul F64 (fmul F64 (fmul F64 (Fin 2) (f_sinh L a)) (f_sinh L b)) s) s = Fin q" "0 \<le> q" "q \<le> 2 ^ 1011"
    unfolding fl_in_def by blast
  have "p + q \<le> 2 ^ 1011 + 2 ^ 1011" using p(3) q(3) power_increasing[of 505 1011 "2 :: rat"] by linarith
  then have "p + q \<le> 2 ^ 1012" by simp
  then have "p + q \<le> 2 ^ 1023" using power_increasing[of 1012 1023 "2 :: rat"] by linarith
  then have "fl_in 1 (2 ^ 1023) (rnd F64 (p + q))" using p q by (intro rnd_fl_in representable_consts representable_pow2) auto
  then have "fl_in 1 (2 ^ 1023) (fmax (rnd F64 (p + q)) (Fin 1))" by (auto simp: fl_in_def fmax_def)
  then have "fl_in 0 711 (f_acosh L (fmax (rnd F64 (p + q)) (Fin 1)))" by (rule libm_okD(4)[OF assms(1)])
  then show ?thesis
    unfolding distance_def Let_def a_def[symmetric] b_def[symmetric] s_def[symmetric] p(1) q(1) by simp
qed

section \<open>An example of the platform functions\<close>

text \<open>The first terms of the series, clipped to the ranges: functions that satisfy the law.\<close>

definition ex_libm :: libm where
  "ex_libm = \<lparr>f_sin = (\<lambda>x. fclamp x (Fin (- 1)) (Fin 1)), f_cosh = (\<lambda>x. fadd F64 (Fin 1) (fmul F64 x x)),
     f_sinh = (\<lambda>x. x), f_acosh = (\<lambda>x. fmin (fsub F64 x (Fin 1)) (Fin 711))\<rparr>"

lemma ex_cosh: "fl_in (- 350) 350 x \<Longrightarrow> fl_in 1 (2 ^ 505) (fadd F64 (Fin 1) (fmul F64 x x))"
proof -
  assume "fl_in (- 350) 350 x"
  then obtain a where a: "x = Fin a" "\<bar>a\<bar> \<le> 350" unfolding fl_in_def by auto
  have "a * a = \<bar>a\<bar> * \<bar>a\<bar>" by simp
  also have "\<dots> \<le> 350 * 350" using a(2) by (intro mult_mono) auto
  finally have "fl_in 0 122500 (rnd F64 (a * a))"
    using representable_small[of 122500] representable_consts by (intro rnd_fl_in) auto
  then obtain z where z: "rnd F64 (a * a) = Fin z" "0 \<le> z" "z \<le> 122500" unfolding fl_in_def by blast
  have "fl_in 1 122501 (rnd F64 (1 + z))" using z representable_small[of 122501] representable_consts by (intro rnd_fl_in) auto
  then have "fl_in 1 (2 ^ 505) (rnd F64 (1 + z))" by (rule fl_in_mono) auto
  then show ?thesis using a z by simp
qed

lemma ex_acosh: "fl_in 1 (2 ^ 1023) x \<Longrightarrow> fl_in 0 711 (fmin (fsub F64 x (Fin 1)) (Fin 711))"
proof -
  assume "fl_in 1 (2 ^ 1023) x"
  then obtain a where a: "x = Fin a" "1 \<le> a" "a \<le> 2 ^ 1023" unfolding fl_in_def by auto
  have "a - 1 \<le> 2 ^ 1023" using a(3) by linarith
  then have "fl_in 0 (2 ^ 1023) (rnd F64 (a - 1))" using a(2)
    by (intro rnd_fl_in[OF _ _ representable_consts(1) representable_pow2(1)]) simp_all
  then obtain z where "rnd F64 (a - 1) = Fin z" "0 \<le> z" "representable F64 z" unfolding fl_in_def by blast
  then show ?thesis using a representable_small[of 711] by (simp add: fsub_def fmin_def fl_in_def)
qed

lemma ex_sin: "fl_in (- two_pi) two_pi x \<Longrightarrow> fl_in (- 1) 1 (fclamp x (Fin (- 1)) (Fin 1))"
  using representable_consts(2) representable_uminus[OF representable_consts(2)] by (auto simp: fl_in_def fclamp_def)

lemma ex_libm_ok: "libm_ok ex_libm"
proof -
  have "fl_in 0 (2 ^ 505) x" if "fl_in 0 350 x" for x by (rule fl_in_mono[OF that]) auto
  then show ?thesis unfolding libm_ok_def ex_libm_def libm.simps by (intro conjI allI impI ex_sin ex_cosh ex_acosh) auto
qed

section \<open>Properties\<close>

text \<open>Coordinate codec. Whatever sixteen bytes arrive, the decoded coordinate is finite, with a radius from 0 to 350 and an angle from
  0 to the full circle; and a coordinate in that range decodes from its encoding, except that an angle equal to the full
  circle, which the rounding of \<^verbatim>\<open>rem_euclid\<close> can produce, comes back as zero.\<close>

theorem coordinate_codec:
  "coord_ok (HypCoord_decode data) \<and>
   (coord_ok c \<longrightarrow> HypCoord_decode (HypCoord_encode c) = (if theta c = TWO_PI then c\<lparr>theta := Fin 0\<rparr> else c))"
  by (simp add: decode_coord_ok decode_encode_coord)

theorem coordinate_codec_witness:
  "HypCoord_decode (HypCoord_encode \<lparr>rho = Fin (7 / 2), theta = Fin 1\<rparr>) = \<lparr>rho = Fin (7 / 2), theta = Fin 1\<rparr>"
proof -
  have "representable F64 (7 / 2)" unfolding representable_def
    by (intro exI[of _ 7] exI[of _ "- 1"]) (simp add: F64_def power_int_def)
  then have "coord_ok \<lparr>rho = Fin (7 / 2), theta = Fin 1\<rparr>"
    using representable_consts two_pi_bounds by (simp add: coord_ok_def fl_in_Fin)
  then show ?thesis using coordinate_codec[of "[]" "\<lparr>rho = Fin (7 / 2), theta = Fin 1\<rparr>"] two_pi_bounds by (simp add: TWO_PI_value)
qed

text \<open>C36. Embedding and distance. The coordinate of a tree position at a depth up to $2^{31}$ under a parent angle in range is in
  range, and the distance of any two coordinates in range is a finite number from 0 to 711, so the comparisons of greedy routing never
  see a value that is not a number. A depth above $2^{31}$ and below $2^{32} - 1000$, which a neighbour may announce, makes the
  exponent of the sector negative and the node's own angle not a number.\<close>

theorem embedding_and_distance:
  assumes "libm_ok L" "fl_in 0 two_pi parent_theta"
  shows "(depth \<le> 2 ^ 31 \<longrightarrow> coord_ok (from_tree_position C depth parent_theta k)) \<and>
    (coord_ok c \<and> coord_ok d \<longrightarrow> fl_in 0 711 (distance L c d)) \<and>
    (2 ^ 31 < depth' \<and> depth' < - 1000 \<longrightarrow> theta (from_tree_position C depth' parent_theta k) = NaN)"
  using from_tree_position_ok[OF _ assms(2)] from_tree_position_nan[OF _ _ assms(2)] distance_fl_in[OF assms(1)] by blast

theorem embedding_and_distance_witness:
  "coord_ok (from_tree_position ex 5 (Fin 3) (replicate 32 7)) \<and>
   fl_in 0 711 (distance ex_libm HypCoord_origin (from_tree_position ex 5 (Fin 3) (replicate 32 7))) \<and>
   theta (from_tree_position ex 0x90000000 (Fin 3) (replicate 32 7)) = NaN"
proof -
  have t: "fl_in 0 two_pi (Fin 3)" using representable_small[of 3] two_pi_bounds by (simp add: fl_in_def)
  have "coord_ok HypCoord_origin" using representable_consts two_pi_bounds by (simp add: coord_ok_def HypCoord_origin_def fl_in_def)
  then show ?thesis
    using embedding_and_distance[OF ex_libm_ok t, of 5 ex "replicate 32 7" HypCoord_origin "from_tree_position ex 5 (Fin 3) (replicate 32 7)" "0x90000000"]
    by simp
qed

end
