(* ===== verification/Address.thy ===== *)
theory Address
  imports Crypto_Example
begin

text \<open>
  Addresses derived from public keys: \<^verbatim>\<open>src/src/address.rs\<close>. The number of leading one bits of the key hash is the work baked into the
  key; the address stores that number and the bits that follow it, the subnet prefix the same with fewer bits.
\<close>

section \<open>Definitions\<close>

definition key_hash :: "crypto \<Rightarrow> bytes \<Rightarrow> bytes" where
  "key_hash C pub_key = blake2b C 64 pub_key"

text \<open>The two nested loops with the labelled break: the flag tells whether the outer loop goes on.\<close>

fun ones_in_byte :: "u8 \<Rightarrow> nat list \<Rightarrow> nat \<Rightarrow> nat \<times> bool" where
  "ones_in_byte byte [] ones = (ones, True)"
| "ones_in_byte byte (b # bits) ones =
     (if byte AND push_bit b 1 \<noteq> 0 then ones_in_byte byte bits (ones + 1) else (ones, False))"

fun leading_ones :: "bytes \<Rightarrow> nat \<Rightarrow> nat" where
  "leading_ones [] ones = ones"
| "leading_ones (byte # hash) ones =
     (case ones_in_byte byte (rev [0..<8]) ones of
        (ones, True) \<Rightarrow> leading_ones hash ones
      | (ones, False) \<Rightarrow> ones)"

definition key_difficulty_bits :: "crypto \<Rightarrow> bytes \<Rightarrow> nat" where
  "key_difficulty_bits C pub_key = leading_ones (key_hash C pub_key) 0"

text \<open>The copying loop over the bit numbers; reading the hash beyond its end panics.\<close>

fun copy_bits :: "bytes \<Rightarrow> nat \<Rightarrow> nat list \<Rightarrow> bytes \<Rightarrow> bytes result" where
  "copy_bits hash start_bit [] addr = Inr addr"
| "copy_bits hash start_bit (i # is) addr =
     (let src_bit = start_bit + i; src_byte = src_bit div 8; src_bit_in_byte = 7 - src_bit mod 8 in
      and_then (idx hash src_byte) (\<lambda>byte.
      let b = drop_bit src_bit_in_byte byte AND 1;
          dst_byte = 2 + i div 8; dst_bit_in_byte = 7 - i mod 8 in
      copy_bits hash start_bit is (addr[dst_byte := addr ! dst_byte OR push_bit dst_bit_in_byte b])))"

definition addr_from_hash :: "bytes \<Rightarrow> bytes result" where
  "addr_from_hash hash =
     (let ones = leading_ones hash 0;
          addr = replicate 16 0;
          addr = addr[0 := 2];
          addr = addr[1 := of_nat ones] in
      copy_bits hash (ones + 1) [0..<112] addr)"

definition subnet_from_hash :: "bytes \<Rightarrow> bytes result" where
  "subnet_from_hash hash =
     (let ones = leading_ones hash 0;
          subnet = replicate 8 0;
          subnet = subnet[0 := 3];
          subnet = subnet[1 := of_nat ones] in
      copy_bits hash (ones + 1) [0..<48] subnet)"

definition address_from_key :: "crypto \<Rightarrow> bytes \<Rightarrow> bytes result" where
  "address_from_key C pub_key = addr_from_hash (key_hash C pub_key)"

definition subnet_from_key :: "crypto \<Rightarrow> bytes \<Rightarrow> bytes result" where
  "subnet_from_key C pub_key = subnet_from_hash (key_hash C pub_key)"

section \<open>Bits\<close>

text \<open>The bits of a byte string, most significant first.\<close>

definition byte_bits :: "u8 \<Rightarrow> bool list" where
  "byte_bits b = map (bit b) (rev [0..<8])"

definition bits_of :: "bytes \<Rightarrow> bool list" where
  "bits_of bs = concat (map byte_bits bs)"

lemma length_byte_bits [simp]: "length (byte_bits b) = 8"
  by (simp add: byte_bits_def)

lemma bits_of_Cons [simp]: "bits_of (b # bs) = byte_bits b @ bits_of bs"
  by (simp add: bits_of_def)

lemma bits_of_Nil [simp]: "bits_of [] = []"
  by (simp add: bits_of_def)

lemma length_bits_of [simp]: "length (bits_of bs) = 8 * length bs"
  by (induction bs) auto

lemma nth_bits_of: "i < 8 * length bs \<Longrightarrow> bits_of bs ! i = bit (bs ! (i div 8)) (7 - i mod 8)"
proof (induction bs arbitrary: i)
  case (Cons b bs)
  show ?case
  proof (cases "i < 8")
    case True
    then show ?thesis by (simp add: nth_append byte_bits_def rev_nth del: upt_Suc)
  next
    case False
    then have "i div 8 = Suc ((i - 8) div 8)" "i mod 8 = (i - 8) mod 8" by (simp_all add: div_if mod_if)
    then show ?thesis using Cons False by (simp add: nth_append)
  qed
qed simp

lemma and_bit: "byte AND push_bit b 1 \<noteq> 0 \<longleftrightarrow> bit (byte :: u8) b"
proof -
  have "bit (byte AND push_bit b 1) n \<longleftrightarrow> n = b \<and> bit byte b" for n
    using bit_imp_le_length[of byte b] by (auto simp: bit_and_iff bit_exp_iff)
  then show ?thesis by (metis bit_eq_iff bit_0_eq bot_apply bot_bool_def)
qed

lemma ones_in_byte: "ones_in_byte byte bits ones =
    (ones + length (takeWhile (\<lambda>b. b) (map (bit byte) bits)), list_all (\<lambda>b. b) (map (bit byte) bits))"
  by (induction bits arbitrary: ones) (simp_all only: ones_in_byte.simps and_bit, auto)

lemma leading_ones: "leading_ones hash ones = ones + length (takeWhile (\<lambda>b. b) (bits_of hash))"
proof (induction hash arbitrary: ones)
  case (Cons b hash)
  have t: "takeWhile (\<lambda>b. b) (xs @ ys) = (if list_all (\<lambda>b. b) xs then xs @ takeWhile (\<lambda>b. b) ys else takeWhile (\<lambda>b. b) xs)" for xs ys
    by (induction xs) auto
  have a: "list_all (\<lambda>b. b) xs \<Longrightarrow> length (takeWhile (\<lambda>b. b) xs) = length xs" for xs by (induction xs) auto
  show ?case using Cons a[of "byte_bits b"] by (auto simp add: ones_in_byte byte_bits_def[symmetric] t simp del: upt_Suc split: bool.splits prod.splits)
qed simp

section \<open>Copying\<close>

lemma bit_or_shift:
  assumes "d < 8"
  shows "bit (x OR push_bit d (drop_bit s y AND 1) :: u8) n \<longleftrightarrow> bit x n \<or> n = d \<and> bit y s"
proof -
  have "bit (push_bit d (drop_bit s y AND 1) :: u8) n \<longleftrightarrow> n = d \<and> bit y s"
    using assms by (simp only: bit_push_bit_iff bit_and_iff bit_1_iff bit_drop_bit_eq comp_def) auto
  then show ?thesis by (simp only: bit_or_iff)
qed

text \<open>Bit \<open>j\<close> of the target, from byte 2 on, is the bit of the hash it was copied from.\<close>

lemma copy_bits_ok:
  assumes "\<forall>i \<in> set is. start + i < 8 * length hash \<and> 2 + i div 8 < length addr"
  shows "\<exists>addr'. copy_bits hash start is addr = Inr addr' \<and> length addr' = length addr \<and> take 2 addr' = take 2 addr \<and>
    (\<forall>j. 2 + j div 8 < length addr \<longrightarrow>
       (bit (addr' ! (2 + j div 8)) (7 - j mod 8) \<longleftrightarrow>
        bit (addr ! (2 + j div 8)) (7 - j mod 8) \<or> j \<in> set is \<and> bits_of hash ! (start + j)))"
  using assms
proof (induction "is" arbitrary: addr)
  case (Cons i "is")
  define src where "src = hash ! ((start + i) div 8)"
  define addr1 where "addr1 = addr[2 + i div 8 := addr ! (2 + i div 8) OR push_bit (7 - i mod 8) (drop_bit (7 - (start + i) mod 8) src AND 1)]"
  have b: "start + i < 8 * length hash" "2 + i div 8 < length addr" using Cons.prems by auto
  have s: "bit src (7 - (start + i) mod 8) = bits_of hash ! (start + i)" using nth_bits_of[OF b(1)] by (simp add: src_def)
  have "(start + i) div 8 < length hash" using b(1) by (simp add: less_mult_imp_div_less mult.commute)
  then have step: "copy_bits hash start (i # is) addr = copy_bits hash start is addr1"
    by (simp add: Let_def addr1_def src_def)
  have "\<forall>i \<in> set is. start + i < 8 * length hash \<and> 2 + i div 8 < length addr1" using Cons.prems by (simp add: addr1_def)
  from Cons.IH[OF this] obtain addr' where r: "copy_bits hash start is addr1 = Inr addr'" "length addr' = length addr1" "take 2 addr' = take 2 addr1"
    "\<forall>j. 2 + j div 8 < length addr1 \<longrightarrow>
       (bit (addr' ! (2 + j div 8)) (7 - j mod 8) \<longleftrightarrow>
        bit (addr1 ! (2 + j div 8)) (7 - j mod 8) \<or> j \<in> set is \<and> bits_of hash ! (start + j))" by blast
  have one: "bit (addr1 ! (2 + j div 8)) (7 - j mod 8) \<longleftrightarrow> bit (addr ! (2 + j div 8)) (7 - j mod 8) \<or> j = i \<and> bits_of hash ! (start + i)" for j
  proof (cases "j div 8 = i div 8")
    case True
    have "7 - j mod 8 = 7 - i mod 8 \<longleftrightarrow> j mod 8 = i mod 8" using mod_less_divisor[of 8 j] mod_less_divisor[of 8 i] by linarith
    then have "7 - j mod 8 = 7 - i mod 8 \<longleftrightarrow> j = i" using True by (metis div_mult_mod_eq)
    moreover have "7 - i mod 8 < 8" by simp
    note bit_or_shift[OF this]
    ultimately show ?thesis using True b(2) s by (simp only: addr1_def nth_list_update_eq)
  next
    case False
    then have "j \<noteq> i" by auto
    then show ?thesis using False by (simp add: addr1_def)
  qed
  have "length addr1 = length addr" "take 2 addr1 = take 2 addr" by (simp_all add: addr1_def)
  then show ?case unfolding step using r one by auto
qed simp

lemma copy_bits_panics:
  assumes "i \<in> set is" "8 * length hash \<le> start + i" "\<forall>i \<in> set is. 2 + i div 8 < length addr"
  shows "copy_bits hash start is addr = Inl (Panic ''index out of bounds'')"
  using assms
proof (induction "is" arbitrary: addr)
  case (Cons k "is")
  show ?case
  proof (cases "(start + k) div 8 < length hash")
    case True
    then have "start + k < 8 * length hash" by (simp add: div_less_iff_less_mult mult.commute)
    then have "i \<in> set is" using Cons.prems by auto
    then show ?thesis using Cons True by (simp add: Let_def)
  next
    case False
    then show ?thesis by (simp add: Let_def idx_def)
  qed
qed simp

text \<open>The bits of an address after its first two bytes.\<close>

lemma copied:
  assumes "8 * length hash \<ge> start + 8 * n"
  shows "\<exists>tail. copy_bits hash start [0..<8 * n] ([p, c] @ replicate n 0) = Inr ([p, c] @ tail) \<and> length tail = n \<and>
    bits_of tail = take (8 * n) (drop start (bits_of hash))"
proof -
  have "\<forall>i \<in> set [0..<8 * n]. start + i < 8 * length hash \<and> 2 + i div 8 < length ([p, c] @ replicate n 0)"
    using assms by (auto simp: less_mult_imp_div_less mult.commute)
  from copy_bits_ok[OF this] obtain addr' where a: "copy_bits hash start [0..<8 * n] ([p, c] @ replicate n 0) = Inr addr'" "length addr' = n + 2"
    "take 2 addr' = [p, c]"
    "\<forall>j. 2 + j div 8 < n + 2 \<longrightarrow> (bit (addr' ! (2 + j div 8)) (7 - j mod 8) \<longleftrightarrow> j < 8 * n \<and> bits_of hash ! (start + j))"
    by (auto simp: nth_Cons numeral_2_eq_2 split: nat.splits)
  have "bits_of (drop 2 addr') ! j = take (8 * n) (drop start (bits_of hash)) ! j" if "j < 8 * n" for j
  proof -
    have "j div 8 < n" using that by (simp add: less_mult_imp_div_less mult.commute)
    then show ?thesis using that a(2,4) assms by (simp add: nth_bits_of)
  qed
  then have "bits_of (drop 2 addr') = take (8 * n) (drop start (bits_of hash))"
    using a(2) assms by (intro nth_equalityI) auto
  moreover have "addr' = [p, c] @ drop 2 addr'" using a(3) append_take_drop_id[of 2 addr'] by metis
  ultimately show ?thesis using a(1,2) by (intro exI[of _ "drop 2 addr'"]) auto
qed

lemma bits_of_inj: "bits_of xs = bits_of ys \<Longrightarrow> xs = ys"
proof -
  assume e: "bits_of xs = bits_of ys"
  then have l: "length xs = length ys" by (metis length_bits_of mult_cancel1 zero_neq_numeral)
  show ?thesis
  proof (rule nth_equalityI[OF l], rule bit_eqI)
    fix i n assume i: "i < length xs" and "possible_bit TYPE(u8) n"
    then have n: "n < 8" by (simp add: possible_bit_word)
    have "bits_of xs ! (8 * i + (7 - n)) = bits_of ys ! (8 * i + (7 - n))" using e by simp
    moreover have "8 * i + (7 - n) < 8 * length xs" using i by linarith
    moreover have "(8 * i + (7 - n)) mod 8 = 7 - n" by (simp only: mod_mult_self4) simp
    then have "(8 * i + (7 - n)) div 8 = i" "7 - (8 * i + (7 - n)) mod 8 = n" using n by (simp_all del: diff_is_0_eq)
    ultimately show "bit (xs ! i) n = bit (ys ! i) n" using l by (simp only: nth_bits_of)
  qed
qed

lemma bits_of_take: "bits_of (take n xs) = take (8 * n) (bits_of xs)"
  by (induction xs arbitrary: n) (auto simp: take_Cons split: nat.splits)

section \<open>Properties\<close>

text \<open>C37. Addresses of keys. The difficulty of a key is the number of leading one bits of its hash. While at least 113 bits follow them,
  the address is the byte 2, that number modulo 256 and the 112 bits after the zero that ends them, and the subnet
  prefix is the byte 3, the same number and the first 48 of those bits, so that every address of a key lies under its
  subnet bits; with fewer bits left, the address function panics instead.\<close>

theorem address_of_key:
  fixes k :: bytes
  assumes "digest_sizes C"
  defines "ones \<equiv> key_difficulty_bits C k" and "h \<equiv> bits_of (key_hash C k)"
  shows "ones = length (takeWhile (\<lambda>b. b) h) \<and>
    (ones < 400 \<longrightarrow> (\<exists>tail. address_from_key C k = Inr (2 # of_nat ones # tail) \<and> length tail = 14 \<and>
       bits_of tail = take 112 (drop (ones + 1) h) \<and> subnet_from_key C k = Inr (3 # of_nat ones # take 6 tail))) \<and>
    (400 \<le> ones \<longrightarrow> address_from_key C k = Inl (Panic ''index out of bounds''))"
proof (intro conjI impI)
  have l: "length (key_hash C k) = 64" using assms(1) by (simp add: key_hash_def digest_sizes_def)
  have o: "leading_ones (key_hash C k) 0 = ones" by (simp add: ones_def key_difficulty_bits_def)
  show "ones = length (takeWhile (\<lambda>b. b) h)" unfolding o[symmetric] h_def by (simp add: leading_ones)
  show "\<exists>tail. address_from_key C k = Inr (2 # of_nat ones # tail) \<and> length tail = 14 \<and>
       bits_of tail = take 112 (drop (ones + 1) h) \<and> subnet_from_key C k = Inr (3 # of_nat ones # take 6 tail)" if lt: "ones < 400"
  proof -
    obtain tail where t: "copy_bits (key_hash C k) (ones + 1) [0..<8 * 14] ([2, of_nat ones] @ replicate 14 0) = Inr ([2, of_nat ones] @ tail)"
      "length tail = 14" "bits_of tail = take (8 * 14) (drop (ones + 1) (bits_of (key_hash C k)))"
      using copied[of "ones + 1" 14 "key_hash C k" 2 "of_nat ones"] l lt by auto
    obtain tail' where t': "copy_bits (key_hash C k) (ones + 1) [0..<8 * 6] ([3, of_nat ones] @ replicate 6 0) = Inr ([3, of_nat ones] @ tail')"
      "length tail' = 6" "bits_of tail' = take (8 * 6) (drop (ones + 1) (bits_of (key_hash C k)))"
      using copied[of "ones + 1" 6 "key_hash C k" 3 "of_nat ones"] l lt by auto
    have "bits_of tail' = bits_of (take 6 tail)" unfolding bits_of_take t(3) t'(3) by simp
    then have "tail' = take 6 tail" by (rule bits_of_inj)
    moreover have "(replicate 16 (0 :: u8))[0 := 2, 1 := of_nat ones] = [2, of_nat ones] @ replicate 14 0"
      "(replicate 8 (0 :: u8))[0 := 3, 1 := of_nat ones] = [3, of_nat ones] @ replicate 6 0" by (simp_all add: numeral_eq_Suc)
    ultimately show ?thesis
      using t t' unfolding address_from_key_def subnet_from_key_def addr_from_hash_def subnet_from_hash_def Let_def o h_def by auto
  qed
  show "address_from_key C k = Inl (Panic ''index out of bounds'')" if ge: "400 \<le> ones"
  proof -
    have "copy_bits (key_hash C k) (ones + 1) [0..<112] ((replicate 16 0)[0 := 2, 1 := of_nat ones]) = Inl (Panic ''index out of bounds'')"
      by (rule copy_bits_panics[of 111]) (use l ge in auto)
    then show ?thesis unfolding address_from_key_def addr_from_hash_def Let_def o .
  qed
qed

theorem address_of_key_witness:
  "key_difficulty_bits ex [0xE0, 1] = 3 \<and>
   (\<exists>tail. address_from_key ex [0xE0, 1] = Inr (2 # 3 # tail) \<and> subnet_from_key ex [0xE0, 1] = Inr (3 # 3 # take 6 tail))"
proof -
  have "key_difficulty_bits ex [0xE0, 1] = 3" by code_simp
  then show ?thesis using address_of_key[OF ex_digests, of "[0xE0, 1]"] by auto
qed

end
