(* ===== verification/Router_State.thy ===== *)
theory Router_State
  imports Session_Manager Cuckoo Header Onion Link_Metrics Hyperbolic Address
begin

text \<open>
  The state of the router, \<^verbatim>\<open>RouterState\<close> and \<^verbatim>\<open>PeerData\<close> of \<^verbatim>\<open>src/src/router/mod.rs\<close>, with the operations every handler uses:
  registering and removing a link or a peer, the landmark set and the transmission to a peer over its parallel links.
  What lies outside the router is the record \<^verbatim>\<open>env\<close>: the cryptography, the platform's transcendental functions,
  the bounded channels to the writer tasks (a channel is a value of the parameter type \<^verbatim>\<open>'c\<close>; \<^verbatim>\<open>try_send\<close> returns its outcome and the
  channel afterwards) and the room in the channel to the application. Every clock reading of one call is the same
  argument \<^verbatim>\<open>now\<close>. Three fields record what leaves the state: the frames handed to links, the packets handed to the
  application, and the callbacks that were spawned. The metric counters are not part of the state.
\<close>

section \<open>Environment\<close>

datatype TrySend = SendOk | SendFull | SendClosed

record InboundPacket =
  ip_from :: bytes
  ip_payload :: bytes

record 'c env =
  suite :: crypto
  math :: libm
  try_send :: "'c \<Rightarrow> bytes \<Rightarrow> TrySend \<times> 'c"
  is_closed :: "'c \<Rightarrow> bool"
  traffic_room :: "InboundPacket list \<Rightarrow> bool"

abbreviation tag_of :: "'c env \<Rightarrow> bytes \<Rightarrow> bytes" where
  "tag_of E k \<equiv> routing_tag (blake2b (suite E)) k"

abbreviation filter_hash :: "'c env \<Rightarrow> bytes \<Rightarrow> bytes" where
  "filter_hash E \<equiv> blake2b (suite E) 8"

section \<open>Types\<close>

type_synonym PeerId = bytes

definition K :: nat where "K = 3"

definition MAX_PARALLEL_LINKS_PER_PEER :: nat where "MAX_PARALLEL_LINKS_PER_PEER = 8"

record TreeAnnounce =
  ta_root :: bytes
  ta_path_cost :: u64
  ta_received_at :: instant
  ta_depth :: u32

record TreeState =
  ts_parent :: "PeerId option"
  ts_root :: bytes
  ts_root_seq :: u64
  ts_parent_cost :: u64

record ControlDigest =
  cd_trees :: "(PeerId \<times> u64 \<times> PeerId option) list"
  cd_own_depth :: u32
  cd_onion_eph_pub :: bytes
  cd_peer_count :: nat

record 'c PeerData =
  pd_pub_key :: PeerId
  pd_lag :: nat
  pd_jitter :: nat
  pd_loss_rate :: fl
  pd_last_rx_time :: instant
  pd_last_tx_time :: instant
  pd_cuckoo :: "CuckooFilter list"
  pd_peer_cuckoo_gen :: "u64 list"
  pd_trees :: "TreeAnnounce option list"
  pd_txs :: "'c list"
  pd_next_tx :: u64
  pd_priority :: u8
  pd_rx_bytes :: u64
  pd_tx_bytes :: u64
  pd_connected_at :: instant
  pd_pending_sig_req_time :: "(u64 \<times> instant) option"
  pd_sig_req_seq :: u64
  pd_onion_eph_pub :: "bytes option"
  pd_trust :: fl

datatype CoverTraffic = CoverOff | CoverLight | CoverConstant
datatype OnionFormat = FormatAuto | FormatSphinx | FormatLegacy

datatype callback = PathNotified bytes | HolePunched bytes bytes

type_synonym ReputationEntry = "u64 \<times> fl \<times> instant"

record 'c RouterState =
  rs_signing_key :: bytes
  rs_pub_key :: PeerId
  rs_peers :: "(PeerId \<times> 'c PeerData) list"
  rs_trees :: "TreeState list"
  rs_sessions :: SessionManager
  rs_path_notify :: bool
  rs_landmarks :: "bytes list"
  rs_pending_lookups :: "(u64 \<times> instant) list"
  rs_coord_table :: "(bytes \<times> HypCoord) list"
  rs_own_coord :: HypCoord
  rs_own_depth :: u32
  rs_tick :: u32
  rs_cuckoo_generation :: "u64 list"
  rs_onion_keys :: OnionKeyChain
  rs_onion_seen :: "bytes list \<times> bytes set"
  rs_remote_onion_keys :: "(bytes \<times> u64 \<times> bytes \<times> instant) list"
  rs_own_onion_key_seq :: u64
  rs_peer_capabilities :: "(bytes \<times> u32 \<times> u64 \<times> instant) list"
  rs_own_caps_seq :: u64
  rs_onion_format :: OnionFormat
  rs_cover_mode :: CoverTraffic
  rs_pending_probes :: "(u64 \<times> PeerId \<times> instant) list"
  rs_reputation :: "(bytes \<times> (bytes \<times> ReputationEntry) list) list"
  rs_own_reputation_seq :: u64
  rs_hole_punch_cb :: bool
  rs_path_negative_cache :: "((PeerId \<times> bytes) \<times> instant) list"
  rs_last_control_digest :: "ControlDigest option"
  rs_last_control_tick :: u32
  rs_control_interval :: u32
  rs_last_topology_change_tick :: u32
  rs_traffic :: "InboundPacket list"
  rs_sent :: "(PeerId \<times> bytes) list"
  rs_callbacks :: "callback list"

definition CONTROL_MIN_INTERVAL :: u32 where "CONTROL_MIN_INTERVAL = 1"

section \<open>Construction\<close>

definition RouterState_new :: "crypto \<Rightarrow> bytes \<Rightarrow> bytes \<Rightarrow> bytes \<Rightarrow> instant \<Rightarrow> bytes \<Rightarrow> 'c RouterState" where
  "RouterState_new C kem_rnd dsa_seed onion_priv now signing_key =
     (let pub_key = ed_pub_of C signing_key;
          trees = replicate K \<lparr>ts_parent = None, ts_root = pub_key, ts_root_seq = 0, ts_parent_cost = 0\<rparr>;
          own_coord = HypCoord_origin in
      \<lparr>rs_signing_key = signing_key, rs_pub_key = pub_key, rs_peers = [], rs_trees = trees,
       rs_sessions = SessionManager_new C kem_rnd dsa_seed now signing_key,
       rs_path_notify = False, rs_landmarks = [], rs_pending_lookups = [],
       rs_coord_table = [(pub_key, own_coord)], rs_own_coord = own_coord, rs_own_depth = 0, rs_tick = 0,
       rs_cuckoo_generation = replicate K 0,
       rs_onion_keys = with_identity_fallback C now onion_priv signing_key,
       rs_onion_seen = ([], {}), rs_remote_onion_keys = [], rs_own_onion_key_seq = 0,
       rs_peer_capabilities = [], rs_own_caps_seq = 0, rs_onion_format = FormatAuto, rs_cover_mode = CoverLight,
       rs_pending_probes = [], rs_reputation = [], rs_own_reputation_seq = 0, rs_hole_punch_cb = False,
       rs_path_negative_cache = [], rs_last_control_digest = None, rs_last_control_tick = 0,
       rs_control_interval = CONTROL_MIN_INTERVAL, rs_last_topology_change_tick = 0,
       rs_traffic = [], rs_sent = [], rs_callbacks = []\<rparr>)"

section \<open>Peers\<close>

definition set_insert :: "'a \<Rightarrow> 'a list \<Rightarrow> 'a list" where
  "set_insert x xs = (if x \<in> set xs then xs else xs @ [x])"

definition update_landmarks :: "'c RouterState \<Rightarrow> 'c RouterState" where
  "update_landmarks rs =
     (let landmarks = (if 2 < length (rs_peers rs) then [rs_pub_key rs] else []);
          landmarks = fold (\<lambda>(peer_key, peer) lms.
            if \<exists>ann \<in> set (pd_trees peer). (case ann of Some a \<Rightarrow> ta_depth a \<le> 1 | None \<Rightarrow> False)
            then set_insert peer_key lms else lms) (rs_peers rs) landmarks in
      rs\<lparr>rs_landmarks := landmarks\<rparr>)"

definition PeerData_new :: "instant \<Rightarrow> PeerId \<Rightarrow> 'c \<Rightarrow> u8 \<Rightarrow> 'c PeerData" where
  "PeerData_new now pub_key tx priority =
     \<lparr>pd_pub_key = pub_key, pd_lag = 100 * 10 ^ 6, pd_jitter = 0, pd_loss_rate = Fin 0,
      pd_last_rx_time = now, pd_last_tx_time = now, pd_cuckoo = replicate K CuckooFilter_new,
      pd_peer_cuckoo_gen = replicate K 0, pd_trees = replicate K None, pd_txs = [tx], pd_next_tx = 0,
      pd_priority = priority, pd_rx_bytes = 0, pd_tx_bytes = 0, pd_connected_at = now,
      pd_pending_sig_req_time = None, pd_sig_req_seq = 0, pd_onion_eph_pub = None, pd_trust = TRUST_INITIAL\<rparr>"

definition add_peer :: "instant \<Rightarrow> PeerId \<Rightarrow> 'c \<Rightarrow> u8 \<Rightarrow> 'c RouterState \<Rightarrow> 'c RouterState" where
  "add_peer now pub_key tx priority rs =
     (case map_of (rs_peers rs) pub_key of
        Some existing \<Rightarrow>
          if MAX_PARALLEL_LINKS_PER_PEER \<le> length (pd_txs existing) then rs
          else rs\<lparr>rs_peers := AList.update pub_key (existing\<lparr>pd_txs := pd_txs existing @ [tx]\<rparr>) (rs_peers rs)\<rparr>
      | None \<Rightarrow>
          update_landmarks (rs\<lparr>rs_peers := AList.update pub_key (PeerData_new now pub_key tx priority) (rs_peers rs)\<rparr>))"

definition reset_tree :: "PeerId \<Rightarrow> PeerId \<Rightarrow> TreeState \<Rightarrow> TreeState" where
  "reset_tree own_key pub_key tree =
     (if ts_parent tree = Some pub_key then tree\<lparr>ts_parent := None, ts_root := own_key, ts_parent_cost := 0\<rparr> else tree)"

definition remove_peer :: "PeerId \<Rightarrow> 'c RouterState \<Rightarrow> 'c RouterState" where
  "remove_peer pub_key rs =
     (let rs = rs\<lparr>rs_peers := AList.delete pub_key (rs_peers rs)\<rparr>;
          rs = rs\<lparr>rs_coord_table := AList.delete pub_key (rs_coord_table rs)\<rparr>;
          rs = update_landmarks rs;
          rs = rs\<lparr>rs_trees := map (reset_tree (rs_pub_key rs) pub_key) (rs_trees rs)\<rparr> in
      rs\<lparr>rs_sessions := SessionManager_remove pub_key (rs_sessions rs)\<rparr>)"

text \<open>\<^verbatim>\<open>peers.get_mut(k)\<close> with an update of the entry, nothing when there is none.\<close>

definition upd_peer :: "PeerId \<Rightarrow> ('c PeerData \<Rightarrow> 'c PeerData) \<Rightarrow> 'c RouterState \<Rightarrow> 'c RouterState" where
  "upd_peer k f rs =
     (case map_of (rs_peers rs) k of
        None \<Rightarrow> rs
      | Some peer \<Rightarrow> rs\<lparr>rs_peers := AList.update k (f peer) (rs_peers rs)\<rparr>)"

abbreviation touch_rx :: "instant \<Rightarrow> PeerId \<Rightarrow> 'c RouterState \<Rightarrow> 'c RouterState" where
  "touch_rx now k \<equiv> upd_peer k (\<lambda>peer. peer\<lparr>pd_last_rx_time := now\<rparr>)"

section \<open>Transmission\<close>

text \<open>The walk over the links, starting at the cursor; a frame that a link takes ends it.\<close>

fun try_links :: "'c env \<Rightarrow> bytes \<Rightarrow> nat list \<Rightarrow> 'c list \<Rightarrow> bool \<times> 'c list" where
  "try_links E data [] txs = (False, txs)"
| "try_links E data (i # is) txs =
     (let (r, tx) = try_send E (txs ! i) data; txs = txs[i := tx] in
      case r of SendOk \<Rightarrow> (True, txs) | SendFull \<Rightarrow> try_links E data is txs | SendClosed \<Rightarrow> try_links E data is txs)"

definition send_to_peer :: "'c env \<Rightarrow> instant \<Rightarrow> PeerId \<Rightarrow> bytes \<Rightarrow> 'c RouterState \<Rightarrow> 'c RouterState" where
  "send_to_peer E now peer_key data rs =
     (case map_of (rs_peers rs) peer_key of
        None \<Rightarrow> rs
      | Some peer \<Rightarrow>
          if pd_txs peer = [] then rs
          else let n = length (pd_txs peer);
                   start = unat (pd_next_tx peer) mod n;
                   peer = peer\<lparr>pd_next_tx := pd_next_tx peer + 1\<rparr>;
                   (sent, txs) = try_links E data (map (\<lambda>offset. (start + offset) mod n) [0..<n]) (pd_txs peer) in
               if sent
               then rs\<lparr>rs_peers := AList.update peer_key
                        (peer\<lparr>pd_txs := txs, pd_tx_bytes := pd_tx_bytes peer + of_nat (length data), pd_last_tx_time := now\<rparr>)
                        (rs_peers rs),
                       rs_sent := rs_sent rs @ [(peer_key, data)]\<rparr>
               else rs\<lparr>rs_peers := AList.update peer_key (peer\<lparr>pd_txs := filter (\<lambda>tx. \<not> is_closed E tx) txs\<rparr>) (rs_peers rs)\<rparr>)"

text \<open>The loops that send one frame to a list of peers.\<close>

definition send_to_peers :: "'c env \<Rightarrow> instant \<Rightarrow> PeerId list \<Rightarrow> bytes \<Rightarrow> 'c RouterState \<Rightarrow> 'c RouterState" where
  "send_to_peers E now peer_keys data rs = fold (\<lambda>pk. send_to_peer E now pk data) peer_keys rs"

definition broadcast :: "'c env \<Rightarrow> instant \<Rightarrow> bytes \<Rightarrow> 'c RouterState \<Rightarrow> 'c RouterState" where
  "broadcast E now data rs = send_to_peers E now (map fst (rs_peers rs)) data rs"

definition flood_except :: "'c env \<Rightarrow> instant \<Rightarrow> PeerId \<Rightarrow> bytes \<Rightarrow> 'c RouterState \<Rightarrow> 'c RouterState" where
  "flood_except E now from data rs = send_to_peers E now (filter (\<lambda>pk. pk \<noteq> from) (map fst (rs_peers rs))) data rs"

section \<open>What a transmission leaves alone\<close>

text \<open>A peer without its links and counters, and a router without its channels and its log: what routing decisions read.\<close>

definition peer_view :: "'c PeerData \<Rightarrow> 'c PeerData" where
  "peer_view p = p\<lparr>pd_txs := [], pd_next_tx := 0, pd_tx_bytes := 0, pd_last_tx_time := 0\<rparr>"

definition node_view :: "'c RouterState \<Rightarrow> (PeerId \<times> 'c PeerData) list \<times> 'c RouterState" where
  "node_view rs = (map (map_prod id peer_view) (rs_peers rs), rs\<lparr>rs_peers := [], rs_sent := []\<rparr>)"

text \<open>The contract of a transmitter: it changes nothing a decision reads, and what it logs is the frame it was given.\<close>

locale transmitter =
  fixes send :: "'k \<Rightarrow> 'd \<Rightarrow> 's \<Rightarrow> 's"
    and view :: "'s \<Rightarrow> 'v"
    and log :: "'s \<Rightarrow> ('k \<times> 'd) list"
  assumes keeps: "view (send k d s) = view s"
    and logs: "log (send k d s) = log s \<or> log (send k d s) = log s @ [(k, d)]"
begin

lemma keeps_all: "view (fold (\<lambda>k. send k d) ks s) = view s"
  by (induction ks arbitrary: s) (simp_all add: keeps)

lemma logs_all: "\<exists>ks'. log (fold (\<lambda>k. send k d) ks s) = log s @ map (\<lambda>k. (k, d)) ks' \<and> set ks' \<subseteq> set ks \<and> length ks' \<le> length ks"
proof (induction ks arbitrary: s)
  case (Cons k ks)
  obtain ks' where ks': "log (fold (\<lambda>k. send k d) ks (send k d s)) = log (send k d s) @ map (\<lambda>k. (k, d)) ks'"
    "set ks' \<subseteq> set ks" "length ks' \<le> length ks" using Cons by blast
  show ?case
  proof (cases "log (send k d s) = log s")
    case True
    then show ?thesis using ks' by (intro exI[of _ ks']) auto
  next
    case False
    then have "log (send k d s) = log s @ [(k, d)]" using logs by blast
    then show ?thesis using ks' by (intro exI[of _ "k # ks'"]) auto
  qed
qed simp

end

lemma map_update_same: "map_of ps k = Some p \<Longrightarrow> f (k, q) = f (k, p) \<Longrightarrow> map f (AList.update k q ps) = map f ps"
  by (induction ps) (auto split: if_splits)

lemma try_links_length: "length (snd (try_links E d is txs)) = length txs"
  by (induction E d "is" txs rule: try_links.induct) (auto simp: Let_def split: prod.splits TrySend.splits)

lemma send_to_peer_view: "node_view (send_to_peer E now k d rs) = node_view rs"
  by (auto simp: send_to_peer_def node_view_def Let_def peer_view_def split: option.splits prod.splits
      intro!: map_update_same)

lemma send_to_peer_log:
  "rs_sent (send_to_peer E now k d rs) = rs_sent rs \<or> rs_sent (send_to_peer E now k d rs) = rs_sent rs @ [(k, d)]"
  by (auto simp: send_to_peer_def Let_def split: option.splits prod.splits)

interpretation tx: transmitter "send_to_peer E now" node_view rs_sent
  by unfold_locales (rule send_to_peer_view, rule send_to_peer_log)

lemma broadcast_view [simp]:
  "node_view (send_to_peer E now k d rs) = node_view rs"
  "node_view (send_to_peers E now ks d rs) = node_view rs"
  "node_view (broadcast E now d rs) = node_view rs"
  "node_view (flood_except E now from d rs) = node_view rs"
  by (simp_all add: broadcast_def flood_except_def send_to_peers_def tx.keeps tx.keeps_all)

lemma broadcast_log:
  "\<exists>ks. rs_sent (broadcast E now d rs) = rs_sent rs @ map (\<lambda>k. (k, d)) ks \<and> set ks \<subseteq> fst ` set (rs_peers rs)"
  "\<exists>ks. rs_sent (flood_except E now from d rs) = rs_sent rs @ map (\<lambda>k. (k, d)) ks \<and> set ks \<subseteq> fst ` set (rs_peers rs) - {from}"
  using tx.logs_all[of E now d "map fst (rs_peers rs)" rs] tx.logs_all[of E now d "filter (\<lambda>pk. pk \<noteq> from) (map fst (rs_peers rs))" rs]
  by (fastforce simp: broadcast_def flood_except_def send_to_peers_def)+

text \<open>Equal views: the same table of peers up to the links, and equal fields.\<close>

lemma node_view_eqD:
  assumes "node_view rs = node_view rs'"
  shows "rs_signing_key rs = rs_signing_key rs'" "rs_pub_key rs = rs_pub_key rs'" "rs_trees rs = rs_trees rs'"
    "rs_sessions rs = rs_sessions rs'" "rs_path_notify rs = rs_path_notify rs'" "rs_landmarks rs = rs_landmarks rs'"
    "rs_pending_lookups rs = rs_pending_lookups rs'" "rs_coord_table rs = rs_coord_table rs'" "rs_own_coord rs = rs_own_coord rs'"
    "rs_own_depth rs = rs_own_depth rs'" "rs_tick rs = rs_tick rs'" "rs_cuckoo_generation rs = rs_cuckoo_generation rs'"
    "rs_onion_keys rs = rs_onion_keys rs'" "rs_onion_seen rs = rs_onion_seen rs'" "rs_remote_onion_keys rs = rs_remote_onion_keys rs'"
    "rs_own_onion_key_seq rs = rs_own_onion_key_seq rs'" "rs_peer_capabilities rs = rs_peer_capabilities rs'"
    "rs_own_caps_seq rs = rs_own_caps_seq rs'" "rs_onion_format rs = rs_onion_format rs'" "rs_cover_mode rs = rs_cover_mode rs'"
    "rs_pending_probes rs = rs_pending_probes rs'" "rs_reputation rs = rs_reputation rs'"
    "rs_own_reputation_seq rs = rs_own_reputation_seq rs'" "rs_hole_punch_cb rs = rs_hole_punch_cb rs'"
    "rs_path_negative_cache rs = rs_path_negative_cache rs'" "rs_last_control_digest rs = rs_last_control_digest rs'"
    "rs_last_control_tick rs = rs_last_control_tick rs'" "rs_control_interval rs = rs_control_interval rs'"
    "rs_last_topology_change_tick rs = rs_last_topology_change_tick rs'" "rs_traffic rs = rs_traffic rs'"
    "rs_callbacks rs = rs_callbacks rs'" "map fst (rs_peers rs) = map fst (rs_peers rs')"
    "length (rs_peers rs) = length (rs_peers rs')"
proof -
  have p: "map (map_prod id peer_view) (rs_peers rs) = map (map_prod id peer_view) (rs_peers rs')"
    using assms by (simp add: node_view_def)
  have "map fst (map (map_prod id peer_view) (rs_peers rs)) = map fst (map (map_prod id peer_view) (rs_peers rs'))" by (simp only: p)
  then show "map fst (rs_peers rs) = map fst (rs_peers rs')" by (simp add: comp_def)
  show "length (rs_peers rs) = length (rs_peers rs')" using arg_cong[OF p, of length] by simp
qed (use assms in \<open>cases rs; cases rs'; simp add: node_view_def\<close>)+

lemmas send_fields [simp] =
  node_view_eqD[OF broadcast_view(1)] node_view_eqD[OF broadcast_view(2)]
  node_view_eqD[OF broadcast_view(3)] node_view_eqD[OF broadcast_view(4)]

lemma map_of_view: "map_of (map (map_prod id peer_view) ps) k = map_option peer_view (map_of ps k)"
  by (induction ps) auto

lemma node_view_peer: "node_view rs = node_view rs' \<Longrightarrow> map_option peer_view (map_of (rs_peers rs) k) = map_option peer_view (map_of (rs_peers rs') k)"
  unfolding map_of_view[symmetric] by (simp add: node_view_def)

text \<open>Fields an update of one peer leaves alone.\<close>

lemma upd_peer_fields [simp]:
  "rs_pub_key (upd_peer k f rs) = rs_pub_key rs" "rs_trees (upd_peer k f rs) = rs_trees rs" "rs_sessions (upd_peer k f rs) = rs_sessions rs"
  "rs_signing_key (upd_peer k f rs) = rs_signing_key rs"
  "rs_coord_table (upd_peer k f rs) = rs_coord_table rs" "rs_own_coord (upd_peer k f rs) = rs_own_coord rs"
  "rs_path_negative_cache (upd_peer k f rs) = rs_path_negative_cache rs" "rs_reputation (upd_peer k f rs) = rs_reputation rs"
  "rs_pending_lookups (upd_peer k f rs) = rs_pending_lookups rs" "rs_remote_onion_keys (upd_peer k f rs) = rs_remote_onion_keys rs"
  "rs_peer_capabilities (upd_peer k f rs) = rs_peer_capabilities rs" "rs_onion_seen (upd_peer k f rs) = rs_onion_seen rs"
  "rs_control_interval (upd_peer k f rs) = rs_control_interval rs" "rs_pending_probes (upd_peer k f rs) = rs_pending_probes rs"
  "rs_last_control_tick (upd_peer k f rs) = rs_last_control_tick rs" "rs_tick (upd_peer k f rs) = rs_tick rs"
  "rs_last_topology_change_tick (upd_peer k f rs) = rs_last_topology_change_tick rs"
  "rs_sent (upd_peer k f rs) = rs_sent rs" "rs_traffic (upd_peer k f rs) = rs_traffic rs" "rs_callbacks (upd_peer k f rs) = rs_callbacks rs"
  "rs_onion_keys (upd_peer k f rs) = rs_onion_keys rs" "rs_landmarks (upd_peer k f rs) = rs_landmarks rs"
  by (simp_all add: upd_peer_def split: option.splits)

lemma map_fst_update: "map_of ps k = Some p \<Longrightarrow> map fst (AList.update k q ps) = map fst ps"
  by (rule map_update_same) simp_all

lemma upd_peer_keys [simp]: "map fst (rs_peers (upd_peer k f rs)) = map fst (rs_peers rs)"
  by (auto simp: upd_peer_def map_fst_update split: option.splits)

lemma map_of_upd_peer: "map_of (rs_peers (upd_peer k f rs)) k' = (if k' = k then map_option f (map_of (rs_peers rs) k) else map_of (rs_peers rs) k')"
  by (auto simp: upd_peer_def update_conv' split: option.splits)

section \<open>Spillover\<close>

definition accepts :: "'c env \<Rightarrow> bytes \<Rightarrow> 'c \<Rightarrow> bool" where
  "accepts E d tx \<longleftrightarrow> fst (try_send E tx d) = SendOk"

text \<open>The walk offers the frame to each link in turn until one takes it; the offered links are those in \<open>v\<close>.\<close>

definition offered :: "'c env \<Rightarrow> bytes \<Rightarrow> nat set \<Rightarrow> 'c list \<Rightarrow> 'c list" where
  "offered E d v txs = map (\<lambda>i. if i \<in> v then snd (try_send E (txs ! i) d) else txs ! i) [0..<length txs]"

lemma length_offered [simp]: "length (offered E d v txs) = length txs"
  by (simp add: offered_def)

lemma nth_offered: "i < length txs \<Longrightarrow> offered E d v txs ! i = (if i \<in> v then snd (try_send E (txs ! i) d) else txs ! i)"
  by (simp add: offered_def)

lemma offered_insert: "i < length txs \<Longrightarrow> i \<notin> v \<Longrightarrow> offered E d v (txs[i := snd (try_send E (txs ! i) d)]) = offered E d (insert i v) txs"
  by (intro nth_equalityI) (auto simp: nth_offered nth_list_update)

lemma try_links_refused:
  "\<not> accepts E d (txs ! i) \<Longrightarrow> try_links E d (i # is) txs = try_links E d is (txs[i := snd (try_send E (txs ! i) d)])"
  by (cases "try_send E (txs ! i) d"; cases "fst (try_send E (txs ! i) d)") (auto simp: accepts_def Let_def)

lemma try_links_none:
  assumes "distinct is" "set is \<subseteq> {..<length txs}" "\<forall>i \<in> set is. \<not> accepts E d (txs ! i)"
  shows "try_links E d is txs = (False, offered E d (set is) txs)"
  using assms
proof (induction "is" arbitrary: txs)
  case (Cons i "is")
  then show ?case by (simp add: try_links_refused offered_insert nth_list_update del: try_links.simps)
qed (simp add: offered_def map_nth)

lemma try_links_hit:
  assumes "distinct (is @ [i])" "set (is @ [i]) \<subseteq> {..<length txs}" "\<forall>j \<in> set is. \<not> accepts E d (txs ! j)" "accepts E d (txs ! i)"
  shows "try_links E d (is @ i # is') txs = (True, offered E d (set (is @ [i])) txs)"
  using assms
proof (induction "is" arbitrary: txs)
  case Nil
  have "txs[i := snd (try_send E (txs ! i) d)] = offered E d {i} txs"
    by (intro nth_equalityI) (auto simp: nth_offered nth_list_update)
  then show ?case using Nil by (cases "try_send E (txs ! i) d") (simp add: accepts_def)
next
  case (Cons j "is")
  then show ?case by (simp add: try_links_refused offered_insert nth_list_update del: try_links.simps)
qed

text \<open>The rotation of the link numbers that starts at the cursor.\<close>

lemma shift_mod_inj: "x \<le> y \<Longrightarrow> y < n \<Longrightarrow> (start + x) mod n = (start + y) mod n \<Longrightarrow> x = (y :: nat)"
proof -
  assume a: "x \<le> y" "y < n" "(start + x) mod n = (start + y) mod n"
  then have "n dvd (start + y) - (start + x)" by (intro mod_eq_dvd_iff_nat[THEN iffD1]) auto
  then have "n dvd y - x" by simp
  then have "\<not> 0 < y - x" using dvd_imp_le[of n "y - x"] a(2) by auto
  then show ?thesis using a(1) by simp
qed

lemma rotation:
  assumes "0 < n"
  shows "distinct (map (\<lambda>offset. (start + offset) mod n) [0..<n])" "set (map (\<lambda>offset. (start + offset) mod n) [0..<n]) = {..<n}"
proof -
  have inj: "inj_on (\<lambda>offset. (start + offset) mod n) {..<n}"
  proof (rule inj_onI)
    fix x y assume "x \<in> {..<n}" "y \<in> {..<n}" "(start + x) mod n = (start + y) mod n"
    then show "x = y" using shift_mod_inj[of x y n start] shift_mod_inj[of y x n start] by (cases "x \<le> y") auto
  qed
  moreover have "(\<lambda>offset. (start + offset) mod n) ` {..<n} \<subseteq> {..<n}" using assms by auto
  ultimately have "(\<lambda>offset. (start + offset) mod n) ` {..<n} = {..<n}" by (intro endo_inj_surj) auto
  then show "distinct (map (\<lambda>offset. (start + offset) mod n) [0..<n])" "set (map (\<lambda>offset. (start + offset) mod n) [0..<n]) = {..<n}"
    using inj by (simp_all add: distinct_map lessThan_atLeast0)
qed

text \<open>A frame goes out exactly when some link takes it, and then on the first such link from the cursor; when
  none does, the links that are closed by then are dropped.\<close>

lemma send_accepted:
  assumes "map_of (rs_peers rs) k = Some p" "m < length (pd_txs p)" "\<forall>j < m. \<not> accepts E d (pd_txs p ! ((unat (pd_next_tx p) + j) mod length (pd_txs p)))"
    and "accepts E d (pd_txs p ! ((unat (pd_next_tx p) + m) mod length (pd_txs p)))"
  shows "rs_sent (send_to_peer E now k d rs) = rs_sent rs @ [(k, d)] \<and>
    map_option pd_txs (map_of (rs_peers (send_to_peer E now k d rs)) k) =
      Some (offered E d ((\<lambda>j. (unat (pd_next_tx p) + j) mod length (pd_txs p)) ` {..m}) (pd_txs p))"
proof -
  let ?n = "length (pd_txs p)"
  let ?s = "unat (pd_next_tx p) mod ?n"
  let ?r = "\<lambda>j. (?s + j) mod ?n"
  have n: "0 < ?n" using assms(2) by linarith
  have r: "?r j = (unat (pd_next_tx p) + j) mod ?n" for j by (simp add: mod_add_left_eq)
  have split: "map ?r [0..<?n] = map ?r [0..<m] @ ?r m # map ?r [Suc m..<?n]"
    using assms(2) upt_add_eq_append[of 0 m "?n - m"] upt_conv_Cons[of m ?n] by (simp add: less_imp_le_nat)
  have "distinct (map ?r [0..<m] @ [?r m])" "set (map ?r [0..<m] @ [?r m]) \<subseteq> {..<?n}"
    using rotation[OF n, of ?s] unfolding split by auto
  then have "try_links E d (map ?r [0..<?n]) (pd_txs p) = (True, offered E d (set (map ?r [0..<m] @ [?r m])) (pd_txs p))"
    unfolding split using assms(3,4) by (intro try_links_hit) (auto simp: r)
  moreover have "set (map ?r [0..<m] @ [?r m]) = ?r ` {..m}" by (auto simp: atMost_def less_Suc_eq_le le_less)
  ultimately show ?thesis using assms(1) n by (auto simp: send_to_peer_def Let_def r update_conv')
qed

lemma send_refused:
  assumes "map_of (rs_peers rs) k = Some p" "\<forall>tx \<in> set (pd_txs p). \<not> accepts E d tx"
  shows "rs_sent (send_to_peer E now k d rs) = rs_sent rs \<and>
    map_option pd_txs (map_of (rs_peers (send_to_peer E now k d rs)) k) =
      Some (filter (\<lambda>tx. \<not> is_closed E tx) (map (\<lambda>tx. snd (try_send E tx d)) (pd_txs p)))"
proof (cases "pd_txs p = []")
  case True
  then show ?thesis using assms(1) by (simp add: send_to_peer_def)
next
  case False
  let ?n = "length (pd_txs p)"
  let ?r = "\<lambda>j. (unat (pd_next_tx p) mod ?n + j) mod ?n"
  have n: "0 < ?n" using False by simp
  have "try_links E d (map ?r [0..<?n]) (pd_txs p) = (False, offered E d (set (map ?r [0..<?n])) (pd_txs p))"
    using assms(2) rotation[OF n, of "unat (pd_next_tx p) mod ?n"] n by (intro try_links_none) auto
  also have "offered E d (set (map ?r [0..<?n])) (pd_txs p) = map (\<lambda>tx. snd (try_send E tx d)) (pd_txs p)"
    unfolding rotation(2)[OF n] by (intro nth_equalityI) (simp_all add: nth_offered)
  finally show ?thesis using assms(1) False by (simp add: send_to_peer_def Let_def update_conv')
qed

section \<open>An example environment\<close>

text \<open>Channels that are queues with room for two frames, the empty list of frames being a fresh link.\<close>

definition ex_env :: "bytes list env" where
  "ex_env = \<lparr>suite = ex, math = ex_libm,
     try_send = (\<lambda>q d. if length q < 2 then (SendOk, q @ [d]) else (SendFull, q)),
     is_closed = (\<lambda>q. False), traffic_room = (\<lambda>ps. length ps < 16)\<rparr>"

definition ex_router :: "bytes \<Rightarrow> bytes list RouterState" where
  "ex_router sk = RouterState_new ex [1] [2] [3] 0 sk"

section \<open>Properties\<close>

text \<open>Spillover over parallel links. Sending to a peer offers the frame to its links in rotation from the cursor and hands it to the first
  link that takes it, so it is dropped only when no link of the peer takes it; the later links are not touched, the frame is logged once, and
  when no link takes it exactly the closed links leave the peer. A peer never has more than eight links.\<close>

theorem link_spillover:
  fixes E :: "'c env" and d :: bytes and now :: instant
  assumes "map_of (rs_peers rs) k = Some p"
  defines "link \<equiv> (\<lambda>j. (unat (pd_next_tx p) + j) mod length (pd_txs p))"
    and "rs' \<equiv> send_to_peer E now k d rs"
  shows "((\<exists>m < length (pd_txs p). accepts E d (pd_txs p ! link m) \<and> (\<forall>j < m. \<not> accepts E d (pd_txs p ! link j)) \<and>
       rs_sent rs' = rs_sent rs @ [(k, d)] \<and>
       map_option pd_txs (map_of (rs_peers rs') k) = Some (offered E d (link ` {..m}) (pd_txs p))) \<or>
     (\<forall>tx \<in> set (pd_txs p). \<not> accepts E d tx) \<and> rs_sent rs' = rs_sent rs \<and>
       map_option pd_txs (map_of (rs_peers rs') k) = Some (filter (\<lambda>tx. \<not> is_closed E tx) (map (\<lambda>tx. snd (try_send E tx d)) (pd_txs p)))) \<and>
    (length (pd_txs p) \<le> 8 \<longrightarrow>
      (\<exists>q. map_of (rs_peers (add_peer now k tx prio rs)) k = Some q \<and> length (pd_txs q) \<le> 8))"
proof (intro conjI)
  let ?n = "length (pd_txs p)"
  show "(\<exists>m < ?n. accepts E d (pd_txs p ! link m) \<and> (\<forall>j < m. \<not> accepts E d (pd_txs p ! link j)) \<and>
       rs_sent rs' = rs_sent rs @ [(k, d)] \<and>
       map_option pd_txs (map_of (rs_peers rs') k) = Some (offered E d (link ` {..m}) (pd_txs p))) \<or>
     (\<forall>tx \<in> set (pd_txs p). \<not> accepts E d tx) \<and> rs_sent rs' = rs_sent rs \<and>
       map_option pd_txs (map_of (rs_peers rs') k) = Some (filter (\<lambda>tx. \<not> is_closed E tx) (map (\<lambda>tx. snd (try_send E tx d)) (pd_txs p)))"
  proof (cases "\<exists>tx \<in> set (pd_txs p). accepts E d tx")
    case True
    then obtain i where i: "i < ?n" "accepts E d (pd_txs p ! i)" by (auto simp: in_set_conv_nth)
    then have "0 < ?n" by linarith
    then have "i \<in> link ` {..<?n}" using rotation(2)[of ?n "unat (pd_next_tx p)"] i(1) by (simp add: link_def lessThan_atLeast0)
    then obtain j where j: "j < ?n" "accepts E d (pd_txs p ! link j)" using i(2) by auto
    define m where "m = (LEAST j. accepts E d (pd_txs p ! link j))"
    have m: "accepts E d (pd_txs p ! link m)" "m \<le> j" unfolding m_def using j(2)
      LeastI[of "\<lambda>j. accepts E d (pd_txs p ! link j)" j] Least_le[of "\<lambda>j. accepts E d (pd_txs p ! link j)" j] by blast+
    have "\<forall>j < m. \<not> accepts E d (pd_txs p ! link j)" unfolding m_def using not_less_Least by blast
    then show ?thesis
      using m j send_accepted[OF assms(1), of m E d now] unfolding link_def rs'_def by (intro disjI1 exI[of _ m]) auto
  next
    case False
    then show ?thesis using send_refused[OF assms(1), of E d now] unfolding rs'_def by blast
  qed
  show "?n \<le> 8 \<longrightarrow> (\<exists>q. map_of (rs_peers (add_peer now k tx prio rs)) k = Some q \<and> length (pd_txs q) \<le> 8)"
    using assms(1) by (simp add: add_peer_def MAX_PARALLEL_LINKS_PER_PEER_def update_conv')
qed

theorem link_spillover_witness:
  "rs_sent (send_to_peer ex_env 0 [7] [42] ((ex_router [1])\<lparr>rs_peers := [([7], (PeerData_new 0 [7] [[1], [2]] 0)\<lparr>pd_txs := [[[1], [2]], []]\<rparr>)]\<rparr>)) = [([7], [42])]"
proof -
  let ?p = "(PeerData_new 0 [7] [[1], [2]] 0)\<lparr>pd_txs := [[[1], [2]], []]\<rparr> :: bytes list PeerData"
  have "map_of (rs_peers ((ex_router [1])\<lparr>rs_peers := [([7], ?p)]\<rparr>)) [7] = Some ?p" by simp
  from link_spillover[OF this, of ex_env "[42]" 0] show ?thesis
    by (auto simp: ex_router_def RouterState_new_def Let_def accepts_def ex_env_def)
qed

end
