(* ===== verification/Router_Lookup.thy ===== *)
theory Router_Lookup
  imports Router_State
begin

text \<open>
  Routing decisions: the negative-path cache of \<^verbatim>\<open>src/src/router/path_negative.rs\<close>, the consensus trust of \<^verbatim>\<open>src/src/router/reputation.rs\<close>, the lookup by
  routing tag of \<^verbatim>\<open>src/src/router/onion.rs\<close>, and greedy and full lookup of \<^verbatim>\<open>src/src/router/handlers.rs\<close>. The loops over the peers are folds in
  the iteration order of the table; the lemmas say what they select in whatever order.
\<close>

section \<open>Negative paths\<close>

definition PATH_NEG_TTL :: nat where "PATH_NEG_TTL = 60 * 10 ^ 9"
definition MAX_PATH_NEG_CACHE :: nat where "MAX_PATH_NEG_CACHE = 16384"
definition PATH_NEG_INITIAL_TTL :: u8 where "PATH_NEG_INITIAL_TTL = 4"

definition is_path_negative :: "instant \<Rightarrow> PeerId \<Rightarrow> bytes \<Rightarrow> 'c RouterState \<Rightarrow> bool" where
  "is_path_negative now peer tag rs =
     (case map_of (rs_path_negative_cache rs) (peer, tag) of
        Some t \<Rightarrow> duration_since now t < PATH_NEG_TTL
      | None \<Rightarrow> False)"

definition record_path_negative :: "instant \<Rightarrow> PeerId \<Rightarrow> bytes \<Rightarrow> 'c RouterState \<Rightarrow> 'c RouterState" where
  "record_path_negative now peer tag rs =
     (let cache = rs_path_negative_cache rs;
          cache = (if MAX_PATH_NEG_CACHE \<le> length cache
                   then let cutoff = now - int PATH_NEG_TTL;
                            victim = (case find (\<lambda>(_, t). t < cutoff) cache of
                                        Some (k, _) \<Rightarrow> Some k
                                      | None \<Rightarrow> (case cache of [] \<Rightarrow> None | (k, _) # _ \<Rightarrow> Some k)) in
                        (case victim of Some v \<Rightarrow> AList.delete v cache | None \<Rightarrow> cache)
                   else cache) in
      rs\<lparr>rs_path_negative_cache := AList.update (peer, tag) now cache\<rparr>)"

definition cleanup_path_negative_cache :: "instant \<Rightarrow> 'c RouterState \<Rightarrow> 'c RouterState" where
  "cleanup_path_negative_cache now rs =
     rs\<lparr>rs_path_negative_cache := filter (\<lambda>(_, t). duration_since now t < PATH_NEG_TTL) (rs_path_negative_cache rs)\<rparr>"

definition send_path_negative :: "'c env \<Rightarrow> instant \<Rightarrow> PeerId \<Rightarrow> bytes \<Rightarrow> u8 \<Rightarrow> 'c RouterState \<Rightarrow> 'c RouterState" where
  "send_path_negative E now to tag ttl rs =
     (if ttl = 0 then rs
      else send_to_peer E now to (PathNegative_encode \<lparr>ng_routing_tag = tag, ng_ttl = ttl\<rparr>) rs)"

section \<open>Consensus trust\<close>

definition REPUTATION_VALIDITY_MS :: u64 where "REPUTATION_VALIDITY_MS = 60 * 60 * 1000"
definition REPUTATION_MIN_QUORUM :: nat where "REPUTATION_MIN_QUORUM = 3"
definition REPUTATION_TRIM_FRAC :: rat where "REPUTATION_TRIM_FRAC = 1 / 4"
definition REPUTATION_WEIGHT_BITS :: nat where "REPUTATION_WEIGHT_BITS = 16"
definition REPUTATION_WEIGHT_FLOOR :: rat where "REPUTATION_WEIGHT_FLOOR = 1 / 16"

definition real_trust :: "fl \<Rightarrow> fl" where
  "real_trust score = fadd F32 TRUST_MIN (fmul F32 score (fsub F32 TRUST_MAX TRUST_MIN))"

definition observer_weight :: "crypto \<Rightarrow> bytes \<Rightarrow> fl" where
  "observer_weight C observer =
     fclamp (fdiv F64 (of_int_fl F64 (int (key_difficulty_bits C observer))) (of_int_fl F64 (int REPUTATION_WEIGHT_BITS)))
       (Fin REPUTATION_WEIGHT_FLOOR) (Fin 1)"

text \<open>\<^verbatim>\<open>sort_by\<close> is stable; the scores are numbers, so the comparison is a total preorder and the insertion below is
  its result.\<close>

fun insort_score :: "fl \<times> fl \<Rightarrow> (fl \<times> fl) list \<Rightarrow> (fl \<times> fl) list" where
  "insort_score x [] = [x]"
| "insort_score x (y # ys) = (if flt (snd y) (snd x) then y # insort_score x ys else x # y # ys)"

definition sort_scores :: "(fl \<times> fl) list \<Rightarrow> (fl \<times> fl) list" where
  "sort_scores xs = foldr insort_score xs []"

definition fresh_votes :: "crypto \<Rightarrow> instant \<Rightarrow> (bytes \<times> ReputationEntry) list \<Rightarrow> (fl \<times> fl) list" where
  "fresh_votes C now bucket =
     (let cutoff = now - int (unat REPUTATION_VALIDITY_MS) * 1000000 in
      map (\<lambda>(observer, (_, score, _)). (observer_weight C observer, real_trust score))
        (filter (\<lambda>(_, (_, _, t)). \<not> t < cutoff) bucket))"

definition trimmed_mean :: "(fl \<times> fl) list \<Rightarrow> fl option" where
  "trimmed_mean weighted =
     (if length weighted < REPUTATION_MIN_QUORUM then None
      else let weighted = sort_scores weighted;
               n = length weighted;
               trim = nat \<lfloor>of_nat n * REPUTATION_TRIM_FRAC\<rfloor>;
               kept = take (max (n - trim) (trim + 1) - trim) (drop trim weighted) in
           if kept = [] then None
           else let total_w = fold (\<lambda>(w, _) acc. fadd F64 acc w) kept (Fin 0) in
                if fle total_w (Fin (1 / 2 ^ 52)) then None
                else let weighted_sum = fold (\<lambda>(w, s) acc. fadd F64 acc (fmul F64 w s)) kept (Fin 0) in
                     Some (as_f32 (fdiv F64 weighted_sum total_w)))"

definition consensus_trust :: "'c env \<Rightarrow> instant \<Rightarrow> bytes \<Rightarrow> 'c RouterState \<Rightarrow> fl option" where
  "consensus_trust E now observed rs =
     (case map_of (rs_reputation rs) observed of
        None \<Rightarrow> None
      | Some bucket \<Rightarrow> trimmed_mean (fresh_votes (suite E) now bucket))"

definition combined_trust :: "'c env \<Rightarrow> instant \<Rightarrow> PeerId \<Rightarrow> fl \<Rightarrow> 'c RouterState \<Rightarrow> fl" where
  "combined_trust E now peer_key local rs =
     (case consensus_trust E now peer_key rs of
        Some c \<Rightarrow> fmul F32 (fadd F32 local c) (Fin (1 / 2))
      | None \<Rightarrow> local)"

section \<open>Lookup\<close>

text \<open>The slot of a running minimum.\<close>

definition keep_min :: "'k \<Rightarrow> 'w::linorder \<Rightarrow> ('k \<times> 'w) option \<Rightarrow> ('k \<times> 'w) option" where
  "keep_min k cost slot = (case slot of None \<Rightarrow> Some (k, cost) | Some (_, bc) \<Rightarrow> if cost < bc then Some (k, cost) else slot)"

definition claims :: "'c env \<Rightarrow> bytes \<Rightarrow> 'c PeerData \<Rightarrow> bool" where
  "claims E tag peer \<longleftrightarrow> (\<exists>t \<in> set [0..<K]. cuckoo_contains (filter_hash E) tag (pd_cuckoo peer ! t))"

abbreviation PeerData_cost :: "'c PeerData \<Rightarrow> u64" where
  "PeerData_cost peer \<equiv> effective_cost (pd_lag peer) (pd_loss_rate peer)"

definition route_cost :: "'c env \<Rightarrow> instant \<Rightarrow> 'c RouterState \<Rightarrow> PeerId \<times> 'c PeerData \<Rightarrow> u64" where
  "route_cost E now rs = (\<lambda>(peer_key, peer).
     trust_adjusted_cost_with (PeerData_cost peer) (combined_trust E now peer_key (pd_trust peer) rs))"

text \<open>The bodies of the loops over the peers, then the lookups.\<close>

definition tag_step :: "'c env \<Rightarrow> instant \<Rightarrow> bytes \<Rightarrow> PeerId option \<Rightarrow> 'c RouterState \<Rightarrow> PeerId \<times> 'c PeerData \<Rightarrow>
    (PeerId \<times> u64) option \<times> (PeerId \<times> u64) option \<Rightarrow> (PeerId \<times> u64) option \<times> (PeerId \<times> u64) option" where
  "tag_step E now tag exclude rs = (\<lambda>(peer_key, peer) (best, best_neg).
     if exclude = Some peer_key then (best, best_neg)
     else if \<not> claims E tag peer then (best, best_neg)
     else let cost = route_cost E now rs (peer_key, peer) in
          if is_path_negative now peer_key tag rs then (best, keep_min peer_key cost best_neg)
          else (keep_min peer_key cost best, best_neg))"

definition lookup_by_tag_excluding :: "'c env \<Rightarrow> instant \<Rightarrow> bytes \<Rightarrow> PeerId option \<Rightarrow> 'c RouterState \<Rightarrow> PeerId option" where
  "lookup_by_tag_excluding E now tag exclude rs =
     (let acc = fold (tag_step E now tag exclude rs) (rs_peers rs) (None, None) in
      map_option fst (case fst acc of Some b \<Rightarrow> Some b | None \<Rightarrow> snd acc))"

definition greedy_step :: "'c env \<Rightarrow> instant \<Rightarrow> HypCoord \<Rightarrow> PeerId option \<Rightarrow> 'c RouterState \<Rightarrow> fl \<Rightarrow> PeerId \<times> 'c PeerData \<Rightarrow>
    PeerId option \<times> fl \<Rightarrow> PeerId option \<times> fl" where
  "greedy_step E now dst_coord exclude rs own_dist = (\<lambda>(peer_key, peer) (best_peer, best_score).
     if exclude = Some peer_key then (best_peer, best_score)
     else case map_of (rs_coord_table rs) (pd_pub_key peer) of
            None \<Rightarrow> (best_peer, best_score)
          | Some peer_coord \<Rightarrow>
              let d = distance (math E) peer_coord dst_coord in
              if flt d own_dist
              then let trust = fclamp (combined_trust E now peer_key (pd_trust peer) rs) TRUST_MIN TRUST_MAX;
                       score = fdiv F64 d trust in
                   if flt score best_score then (Some peer_key, score) else (best_peer, best_score)
              else (best_peer, best_score))"

definition greedy_next_hop :: "'c env \<Rightarrow> instant \<Rightarrow> HypCoord \<Rightarrow> PeerId option \<Rightarrow> 'c RouterState \<Rightarrow> PeerId option" where
  "greedy_next_hop E now dst_coord exclude rs =
     (let own_dist = distance (math E) (rs_own_coord rs) dst_coord in
      fst (fold (greedy_step E now dst_coord exclude rs own_dist) (rs_peers rs) (None, PInf)))"

definition cuckoo_step :: "'c env \<Rightarrow> instant \<Rightarrow> bytes \<Rightarrow> 'c RouterState \<Rightarrow> PeerId \<times> 'c PeerData \<Rightarrow>
    (PeerId \<times> u64) option \<Rightarrow> (PeerId \<times> u64) option" where
  "cuckoo_step E now dst_tag rs = (\<lambda>(peer_key, peer) best.
     if claims E dst_tag peer then keep_min peer_key (route_cost E now rs (peer_key, peer)) best else best)"

definition xor_step :: "'c env \<Rightarrow> instant \<Rightarrow> PeerId \<Rightarrow> 'c RouterState \<Rightarrow> PeerId \<times> 'c PeerData \<Rightarrow>
    (PeerId \<times> bytes \<times> u64) option \<Rightarrow> (PeerId \<times> bytes \<times> u64) option" where
  "xor_step E now dst rs = (\<lambda>(peer_key, peer) best_dist.
     let dist = map2 (XOR) peer_key dst;
         cost = route_cost E now rs (peer_key, peer) in
     case best_dist of
       None \<Rightarrow> Some (peer_key, dist, cost)
     | Some (_, bd, bc) \<Rightarrow> if dist < bd \<or> dist = bd \<and> cost < bc then Some (peer_key, dist, cost) else best_dist)"

definition lookup :: "'c env \<Rightarrow> instant \<Rightarrow> PeerId \<Rightarrow> 'c RouterState \<Rightarrow> PeerId option" where
  "lookup E now dst rs =
     (let greedy = (case map_of (rs_coord_table rs) dst of
                      Some dst_coord \<Rightarrow> greedy_next_hop E now dst_coord None rs
                    | None \<Rightarrow> None) in
      case greedy of Some p \<Rightarrow> Some p
      | None \<Rightarrow>
          let dst_tag = tag_of E dst in
          case fold (cuckoo_step E now dst_tag rs) (rs_peers rs) None of
            Some (k, _) \<Rightarrow> Some k
          | None \<Rightarrow> map_option fst (fold (xor_step E now dst rs) (rs_peers rs) None))"

definition handle_path_negative :: "'c env \<Rightarrow> instant \<Rightarrow> PeerId \<Rightarrow> PathNegative \<Rightarrow> 'c RouterState \<Rightarrow> 'c RouterState" where
  "handle_path_negative E now from neg rs =
     (let rs = touch_rx now from rs;
          rs = record_path_negative now from (ng_routing_tag neg) rs in
      if 1 < ng_ttl neg
      then case lookup_by_tag_excluding E now (ng_routing_tag neg) (Some from) rs of
             Some next \<Rightarrow> send_path_negative E now next (ng_routing_tag neg) (ng_ttl neg - 1) rs
           | None \<Rightarrow> rs
      else rs)"

section \<open>Scans for the cheapest candidate\<close>

text \<open>The contract of a loop that keeps the cheapest candidate in a slot of its state: what the loops of the lookups have in common.\<close>

locale min_scan =
  fixes step :: "'x \<Rightarrow> 'a \<Rightarrow> 'a"
    and slot :: "'a \<Rightarrow> ('k \<times> 'w::linorder) option"
    and cand :: "'x \<Rightarrow> bool"
    and key :: "'x \<Rightarrow> 'k"
    and cost :: "'x \<Rightarrow> 'w"
  assumes slot_step: "slot (step x a) = (if cand x then keep_min (key x) (cost x) (slot a) else slot a)"
begin

lemma scan_None: "slot (fold step xs a) = None \<longleftrightarrow> slot a = None \<and> (\<forall>x \<in> set xs. \<not> cand x)"
  by (induction xs arbitrary: a) (auto simp: slot_step keep_min_def split: option.splits if_splits)

lemma scan_Some:
  assumes "slot (fold step xs a) = Some (k, c)"
  shows "(slot a = Some (k, c) \<or> (\<exists>x \<in> set xs. cand x \<and> key x = k \<and> cost x = c)) \<and>
    (\<forall>k' c'. slot a = Some (k', c') \<longrightarrow> c \<le> c') \<and> (\<forall>x \<in> set xs. cand x \<longrightarrow> c \<le> cost x)"
  using assms
proof (induction xs arbitrary: a)
  case (Cons x xs)
  have IH: "(slot (step x a) = Some (k, c) \<or> (\<exists>x \<in> set xs. cand x \<and> key x = k \<and> cost x = c)) \<and>
    (\<forall>k' c'. slot (step x a) = Some (k', c') \<longrightarrow> c \<le> c') \<and> (\<forall>x \<in> set xs. cand x \<longrightarrow> c \<le> cost x)"
    using Cons.prems by (intro Cons.IH) simp
  show ?case
  proof (cases "cand x")
    case True
    then show ?thesis using IH by (cases "slot a") (force simp: slot_step keep_min_def split: if_splits)+
  next
    case False
    then show ?thesis using IH by (auto simp: slot_step)
  qed
qed auto

lemma scan_cheapest:
  assumes "slot a = None"
  shows "(slot (fold step xs a) = None \<longleftrightarrow> \<not> (\<exists>x \<in> set xs. cand x)) \<and>
    (\<forall>k c. slot (fold step xs a) = Some (k, c) \<longrightarrow>
       (\<exists>x \<in> set xs. cand x \<and> key x = k \<and> cost x = c \<and> (\<forall>y \<in> set xs. cand y \<longrightarrow> cost x \<le> cost y)))"
  using scan_None[of xs a] scan_Some[of xs a] assms by fastforce

end

definition claimer :: "'c env \<Rightarrow> bytes \<Rightarrow> PeerId option \<Rightarrow> PeerId \<times> 'c PeerData \<Rightarrow> bool" where
  "claimer E tag exclude x \<longleftrightarrow> exclude \<noteq> Some (fst x) \<and> claims E tag (snd x)"

interpretation clean: min_scan "tag_step E now tag exclude rs" fst
    "\<lambda>x. claimer E tag exclude x \<and> \<not> is_path_negative now (fst x) tag rs" fst "route_cost E now rs"
  by unfold_locales (auto simp: tag_step_def claimer_def Let_def split: prod.splits)

interpretation negative: min_scan "tag_step E now tag exclude rs" snd
    "\<lambda>x. claimer E tag exclude x \<and> is_path_negative now (fst x) tag rs" fst "route_cost E now rs"
  by unfold_locales (auto simp: tag_step_def claimer_def Let_def split: prod.splits)

interpretation cuckoo: min_scan "cuckoo_step E now dst_tag rs" "\<lambda>a. a" "\<lambda>x. claims E dst_tag (snd x)" fst "route_cost E now rs"
  by unfold_locales (auto simp: cuckoo_step_def split: prod.splits)

lemma lookup_by_tag_None: "lookup_by_tag_excluding E now tag exclude rs = None \<longleftrightarrow> (\<forall>x \<in> set (rs_peers rs). \<not> claimer E tag exclude x)"
  unfolding lookup_by_tag_excluding_def Let_def
  using clean.scan_None[of E now tag exclude rs "rs_peers rs" "(None, None)"] negative.scan_None[of E now tag exclude rs "rs_peers rs" "(None, None)"]
  by (auto split: option.splits)

lemma lookup_by_tag_Some:
  assumes "lookup_by_tag_excluding E now tag exclude rs = Some k"
  obtains x where "x \<in> set (rs_peers rs)" "fst x = k" "claimer E tag exclude x"
    "is_path_negative now k tag rs \<longrightarrow> (\<forall>y \<in> set (rs_peers rs). claimer E tag exclude y \<longrightarrow> is_path_negative now (fst y) tag rs)"
    "\<And>y. y \<in> set (rs_peers rs) \<Longrightarrow> claimer E tag exclude y \<Longrightarrow> is_path_negative now (fst y) tag rs = is_path_negative now k tag rs \<Longrightarrow>
       route_cost E now rs x \<le> route_cost E now rs y"
proof -
  define acc where "acc = fold (tag_step E now tag exclude rs) (rs_peers rs) (None, None)"
  have r: "map_option fst (case fst acc of Some b \<Rightarrow> Some b | None \<Rightarrow> snd acc) = Some k"
    using assms unfolding lookup_by_tag_excluding_def acc_def Let_def .
  note c = clean.scan_cheapest[of "(None, None)" E now tag exclude rs "rs_peers rs", folded acc_def]
  note n = negative.scan_cheapest[of "(None, None)" E now tag exclude rs "rs_peers rs", folded acc_def]
  show ?thesis
  proof (cases "fst acc")
    case None
    then obtain w where w: "snd acc = Some (k, w)" using r by auto
    then obtain x where "x \<in> set (rs_peers rs)" "claimer E tag exclude x" "is_path_negative now (fst x) tag rs" "fst x = k"
      "\<forall>y \<in> set (rs_peers rs). claimer E tag exclude y \<and> is_path_negative now (fst y) tag rs \<longrightarrow> route_cost E now rs x \<le> route_cost E now rs y"
      using n by auto
    then show ?thesis using that[of x] None c by auto
  next
    case (Some b)
    then obtain w where w: "fst acc = Some (k, w)" using r by (cases b) auto
    then obtain x where "x \<in> set (rs_peers rs)" "claimer E tag exclude x" "\<not> is_path_negative now (fst x) tag rs" "fst x = k"
      "\<forall>y \<in> set (rs_peers rs). claimer E tag exclude y \<and> \<not> is_path_negative now (fst y) tag rs \<longrightarrow> route_cost E now rs x \<le> route_cost E now rs y"
      using c by auto
    then show ?thesis using that[of x] by auto
  qed
qed

section \<open>Greedy routing\<close>

definition greedy_cand :: "'c env \<Rightarrow> HypCoord \<Rightarrow> PeerId option \<Rightarrow> 'c RouterState \<Rightarrow> PeerId \<times> 'c PeerData \<Rightarrow> bool" where
  "greedy_cand E dst exclude rs x \<longleftrightarrow> exclude \<noteq> Some (fst x) \<and>
     (\<exists>c. map_of (rs_coord_table rs) (pd_pub_key (snd x)) = Some c \<and> flt (distance (math E) c dst) (distance (math E) (rs_own_coord rs) dst))"

lemma greedy_fold:
  assumes "fst (fold (greedy_step E now dst exclude rs (distance (math E) (rs_own_coord rs) dst)) ps a) = Some k"
  shows "fst a = Some k \<or> (\<exists>x \<in> set ps. fst x = k \<and> greedy_cand E dst exclude rs x)"
  using assms
proof (induction ps arbitrary: a)
  case (Cons x ps)
  have "fst (greedy_step E now dst exclude rs (distance (math E) (rs_own_coord rs) dst) x a) = fst a \<or>
    fst (greedy_step E now dst exclude rs (distance (math E) (rs_own_coord rs) dst) x a) = Some (fst x) \<and> greedy_cand E dst exclude rs x"
    by (auto simp: greedy_step_def greedy_cand_def Let_def split: prod.splits option.splits)
  then show ?case using Cons by fastforce
qed simp

lemma greedy_next_hop_Some:
  assumes "greedy_next_hop E now dst exclude rs = Some k"
  obtains p where "(k, p) \<in> set (rs_peers rs)" "greedy_cand E dst exclude rs (k, p)"
proof -
  have "\<exists>x \<in> set (rs_peers rs). fst x = k \<and> greedy_cand E dst exclude rs x"
    using assms greedy_fold[of E now dst exclude rs "rs_peers rs" "(None, PInf)" k] unfolding greedy_next_hop_def Let_def by simp
  then show ?thesis using that by (metis prod.collapse)
qed

text \<open>A chain of greedy hops across nodes, each node deciding in its own state, at its own time, and excluding whomever it likes.\<close>

inductive greedy_path :: "'c env \<Rightarrow> (PeerId \<Rightarrow> 'c RouterState) \<Rightarrow> HypCoord \<Rightarrow> PeerId list \<Rightarrow> bool"
  for E :: "'c env" and net :: "PeerId \<Rightarrow> 'c RouterState" and dst :: HypCoord where
  start: "greedy_path E net dst [n]"
| hop: "greedy_path E net dst (n' # ns) \<Longrightarrow> greedy_next_hop E now dst exclude (net n) = Some n' \<Longrightarrow> greedy_path E net dst (n # n' # ns)"

text \<open>Every node knows its neighbours' current coordinates.\<close>

definition coords_consistent :: "(PeerId \<Rightarrow> 'c RouterState) \<Rightarrow> bool" where
  "coords_consistent net \<longleftrightarrow> (\<forall>n k p. (k, p) \<in> set (rs_peers (net n)) \<longrightarrow>
     pd_pub_key p = k \<and> map_of (rs_coord_table (net n)) k \<in> {None, Some (rs_own_coord (net k))})"

lemma flt_trans: "flt x y \<Longrightarrow> flt y z \<Longrightarrow> flt x z"
  by (cases x; cases y; cases z) auto

lemma flt_irrefl [simp]: "\<not> flt x x"
  by (cases x) auto

lemma greedy_path_decreases:
  assumes "greedy_path E net dst ns" "coords_consistent net"
  shows "sorted_wrt (\<lambda>n m. flt (distance (math E) (rs_own_coord (net m)) dst) (distance (math E) (rs_own_coord (net n)) dst)) ns"
  using assms(1)
proof induction
  case (hop n' ns now exclude n)
  have "flt (distance (math E) (rs_own_coord (net n')) dst) (distance (math E) (rs_own_coord (net n)) dst)"
    using assms(2) unfolding coords_consistent_def
    by (rule_tac greedy_next_hop_Some[OF hop(2)]) (fastforce simp: greedy_cand_def)
  then show ?case using hop.IH by (auto intro: flt_trans)
qed simp

lemma greedy_path_distinct: "greedy_path E net dst ns \<Longrightarrow> coords_consistent net \<Longrightarrow> distinct ns"
proof -
  assume "greedy_path E net dst ns" "coords_consistent net"
  then have "sorted_wrt (\<lambda>n m. flt (distance (math E) (rs_own_coord (net m)) dst) (distance (math E) (rs_own_coord (net n)) dst)) ns"
    by (rule greedy_path_decreases)
  then show ?thesis by (induction ns) auto
qed

section \<open>The negative cache\<close>

lemma length_delete_le: "length (AList.delete k xs) \<le> length xs"
  by (simp add: AList.delete_eq)

lemma length_delete_member: "k \<in> fst ` set xs \<Longrightarrow> length (AList.delete k xs) < length xs"
proof -
  assume "k \<in> fst ` set xs"
  then obtain v where "(k, v) \<in> set xs" by auto
  then show ?thesis unfolding AList.delete_eq by (rule length_filter_less) simp
qed

lemma find_SomeD: "find P xs = Some x \<Longrightarrow> x \<in> set xs \<and> P x"
  by (auto simp: find_Some_iff)

lemma length_update: "length (AList.update k v xs) = (if k \<in> fst ` set xs then length xs else length xs + 1)"
  by (induction xs) auto

lemma record_path_negative_bound:
  assumes "length (rs_path_negative_cache rs) \<le> MAX_PATH_NEG_CACHE"
  shows "length (rs_path_negative_cache (record_path_negative now peer tag rs)) \<le> MAX_PATH_NEG_CACHE"
proof -
  define cache where "cache = rs_path_negative_cache rs"
  define victim where "victim = (case find (\<lambda>(_, t). t < now - int PATH_NEG_TTL) cache of
      Some (k, _) \<Rightarrow> Some k | None \<Rightarrow> (case cache of [] \<Rightarrow> None | (k, _) # _ \<Rightarrow> Some k))"
  have v: "\<exists>v. victim = Some v \<and> v \<in> fst ` set cache" if "cache \<noteq> []"
  proof (cases "find (\<lambda>(_, t). t < now - int PATH_NEG_TTL) cache")
    case None
    then show ?thesis using that by (auto simp: victim_def neq_Nil_conv)
  next
    case (Some x)
    then show ?thesis using find_SomeD[OF Some] by (cases x) (force simp: victim_def)
  qed
  have r: "rs_path_negative_cache (record_path_negative now peer tag rs) = AList.update (peer, tag) now
    (if MAX_PATH_NEG_CACHE \<le> length cache then (case victim of Some v \<Rightarrow> AList.delete v cache | None \<Rightarrow> cache) else cache)"
    unfolding record_path_negative_def cache_def victim_def Let_def by simp
  show ?thesis
  proof (cases "MAX_PATH_NEG_CACHE \<le> length cache")
    case True
    then have "cache \<noteq> []" by (auto simp: MAX_PATH_NEG_CACHE_def)
    then obtain v where "victim = Some v" "v \<in> fst ` set cache" using v by blast
    then show ?thesis using r True length_delete_member[of v cache] assms by (simp add: length_update cache_def)
  next
    case False
    then show ?thesis using r assms by (simp add: length_update cache_def)
  qed
qed

lemma record_path_negative_marks: "is_path_negative now peer tag (record_path_negative now peer tag rs)"
  by (simp add: record_path_negative_def is_path_negative_def Let_def update_conv' duration_since_def PATH_NEG_TTL_def)

lemma record_path_negative_fields [simp]:
  "rs_peers (record_path_negative now peer tag rs) = rs_peers rs" "rs_sent (record_path_negative now peer tag rs) = rs_sent rs"
  "rs_reputation (record_path_negative now peer tag rs) = rs_reputation rs"
  by (simp_all add: record_path_negative_def Let_def)

section \<open>Sorting and trimming votes\<close>

lemma mset_insort: "mset (insort_score x xs) = add_mset x (mset xs)"
  by (induction xs) auto

lemma mset_sort_scores [simp]: "mset (sort_scores xs) = mset xs"
  unfolding sort_scores_def by (induction xs) (simp_all add: mset_insort)

lemma set_sort_scores [simp]: "set (sort_scores xs) = set xs"
  by (metis mset_sort_scores set_mset_mset)

lemma length_sort_scores [simp]: "length (sort_scores xs) = length xs"
  by (metis mset_sort_scores size_mset)

lemma set_insort: "set (insort_score x xs) = insert x (set xs)"
  by (induction xs) auto

lemma sorted_insort:
  assumes "sorted_wrt (\<lambda>x y. fle (snd x) (snd y)) xs" "\<forall>y \<in> set (x # xs). snd y \<noteq> NaN"
  shows "sorted_wrt (\<lambda>x y. fle (snd x) (snd y)) (insort_score x xs)"
  using assms
proof (induction xs)
  case (Cons y xs)
  show ?case
  proof (cases "flt (snd y) (snd x)")
    case True
    then have "fle (snd y) (snd x)" by (simp add: flt_iff)
    then show ?thesis using Cons True by (auto simp: set_insort)
  next
    case False
    then have "fle (snd x) (snd y)" using Cons.prems fle_total by (auto simp: flt_iff)
    then show ?thesis using Cons.prems False by (auto intro: fle_trans)
  qed
qed simp

lemma sorted_scores: "\<forall>y \<in> set xs. snd y \<noteq> NaN \<Longrightarrow> sorted_wrt (\<lambda>x y. fle (snd x) (snd y)) (sort_scores xs)"
proof (induction xs)
  case (Cons x xs)
  then have "sorted_wrt (\<lambda>x y. fle (snd x) (snd y)) (sort_scores xs)" by simp
  moreover have "\<forall>y \<in> set (x # sort_scores xs). snd y \<noteq> NaN" using Cons.prems by auto
  ultimately show ?case unfolding sort_scores_def foldr.simps comp_def by (rule sorted_insort[unfolded sort_scores_def])
qed (simp add: sort_scores_def)

text \<open>If no more votes than are trimmed at an end violate a one-sided bound, no kept vote does.\<close>

lemma trim_end:
  assumes "\<forall>j < length ys. j \<le> i \<longrightarrow> P (ys ! j)" "i < length ys"
  shows "i < length (filter P ys)"
proof -
  have "filter P (take (Suc i) ys) = take (Suc i) ys" using assms by (auto simp: filter_id_conv in_set_conv_nth)
  then have "length (filter P (take (Suc i) ys)) = Suc i" using assms(2) by simp
  moreover have "filter P ys = filter P (take (Suc i) ys) @ filter P (drop (Suc i) ys)" by (metis append_take_drop_id filter_append)
  ultimately show ?thesis by simp
qed

lemma kept_in_range:
  assumes "sorted_wrt (\<lambda>x y. fle (snd x) (snd y)) ys" "\<forall>y \<in> set ys. snd y \<noteq> NaN" "lo \<noteq> NaN" "hi \<noteq> NaN"
    and "length (filter (\<lambda>v. \<not> (fle lo (snd v) \<and> fle (snd v) hi)) ys) \<le> trim"
    and "trim \<le> i" "i + trim < length ys"
  shows "fle lo (snd (ys ! i)) \<and> fle (snd (ys ! i)) hi"
proof -
  let ?P = "\<lambda>v. \<not> (fle lo (snd v) \<and> fle (snd v) hi)"
  have i: "i < length ys" using assms(7) by simp
  have low: "fle lo (snd (ys ! i))"
  proof (rule ccontr)
    assume c: "\<not> fle lo (snd (ys ! i))"
    have "?P (ys ! j)" if "j < length ys" "j \<le> i" for j
    proof -
      have "j = i \<or> fle (snd (ys ! j)) (snd (ys ! i))"
        using assms(1) i that by (cases "j = i") (auto simp: sorted_wrt_iff_nth_less)
      then show ?thesis using c fle_trans by blast
    qed
    then have "i < length (filter ?P ys)" using i by (intro trim_end) auto
    then show False using assms(5,6) by linarith
  qed
  have high: "fle (snd (ys ! i)) hi"
  proof (rule ccontr)
    assume c: "\<not> fle (snd (ys ! i)) hi"
    have "?P (rev ys ! j)" if "j < length (rev ys)" "j \<le> length ys - Suc i" for j
    proof -
      have j: "i \<le> length ys - Suc j" "length ys - Suc j < length ys" using that i by auto
      then have "length ys - Suc j = i \<or> fle (snd (ys ! i)) (snd (ys ! (length ys - Suc j)))"
        using assms(1) by (cases "length ys - Suc j = i") (auto simp: sorted_wrt_iff_nth_less)
      then show ?thesis using c fle_trans that by (auto simp: rev_nth)
    qed
    then have "length ys - Suc i < length (filter ?P (rev ys))" using i by (intro trim_end) auto
    then show False using assms(5,7) by (simp flip: rev_filter)
  qed
  show ?thesis using low high by simp
qed

section \<open>Exact sums\<close>

text \<open>A vote is a weight in sixteenths and a score in units of $2^{-30}$; sums of up to $2^{16}$ of them are exact.\<close>

definition vote :: "int \<times> int \<Rightarrow> fl \<times> fl" where
  "vote v = (Fin (of_int (fst v) / 16), Fin (of_int (snd v) / 2 ^ 30))"

definition vote_ok :: "int \<times> int \<Rightarrow> bool" where
  "vote_ok v \<longleftrightarrow> 1 \<le> fst v \<and> fst v \<le> 16 \<and> 0 \<le> snd v \<and> snd v \<le> 2 ^ 32"

lemma representable_scaled: "\<bar>m\<bar> < 2 ^ 53 \<Longrightarrow> e \<le> 1000 \<Longrightarrow> representable F64 (of_int m / 2 ^ e)"
proof -
  assume m: "\<bar>m\<bar> < 2 ^ 53" and e: "e \<le> (1000 :: nat)"
  have "(of_int \<bar>m\<bar> :: rat) < of_int (2 ^ 53)" using m by (simp only: of_int_less_iff)
  then have "\<bar>of_int m :: rat\<bar> < 2 ^ 53" by simp
  moreover have "\<bar>of_int m / 2 ^ e\<bar> \<le> \<bar>of_int m :: rat\<bar>" by (simp add: divide_le_eq mult_le_cancel_left1)
  moreover have "(2 :: rat) ^ 53 \<le> 2 powi 1024" using powi2_mono[of 53 1024] by simp
  ultimately have "\<bar>of_int m / 2 ^ e\<bar> < (2 :: rat) powi (snd F64 + 1)" by (simp add: F64_def)
  moreover have "of_int m / 2 ^ e = of_int m * (2 :: rat) powi (- int e)" by (simp add: power_int_minus divide_inverse)
  ultimately show ?thesis unfolding representable_def using m e by (intro exI[of _ m] exI[of _ "- int e"]) (auto simp: F64_def)
qed

lemma exact_scaled: "\<bar>m\<bar> < 2 ^ 53 \<Longrightarrow> e \<le> 1000 \<Longrightarrow> rnd F64 (of_int m / 2 ^ e) = Fin (of_int m / 2 ^ e)"
  using representable_scaled[of m e] by (intro rnd_exact) simp_all

lemma sum_weights_exact:
  assumes "\<forall>v \<in> set vs. vote_ok v" "0 \<le> a" "a + 16 * int (length vs) < 2 ^ 53"
  shows "fold (\<lambda>(w, _) acc. fadd F64 acc w) (map vote vs) (Fin (of_int a / 2 ^ 4)) = Fin (of_int (a + sum_list (map fst vs)) / 2 ^ 4)"
  using assms
proof (induction vs arbitrary: a)
  case (Cons v vs)
  have v: "vote_ok v" using Cons.prems by simp
  have "rnd F64 (of_int (a + fst v) / 2 ^ 4) = Fin (of_int (a + fst v) / 2 ^ 4)"
    using v Cons.prems(2,3) by (intro exact_scaled) (auto simp: vote_ok_def)
  then have "fadd F64 (Fin (of_int a / 2 ^ 4)) (fst (vote v)) = Fin (of_int (a + fst v) / 2 ^ 4)"
    by (simp add: vote_def add_divide_distrib)
  moreover have "fold (\<lambda>(w, _) acc. fadd F64 acc w) (map vote vs) (Fin (of_int (a + fst v) / 2 ^ 4)) =
      Fin (of_int (a + fst v + sum_list (map fst vs)) / 2 ^ 4)"
    using Cons.prems v by (intro Cons.IH) (auto simp: vote_ok_def)
  ultimately show ?case by (cases "vote v") (simp add: add.assoc)
qed simp

lemma sum_votes_exact:
  assumes "\<forall>v \<in> set vs. vote_ok v" "0 \<le> a" "a + 2 ^ 36 * int (length vs) < 2 ^ 53"
  shows "fold (\<lambda>(w, s) acc. fadd F64 acc (fmul F64 w s)) (map vote vs) (Fin (of_int a / 2 ^ 34)) =
    Fin (of_int (a + sum_list (map (\<lambda>v. fst v * snd v) vs)) / 2 ^ 34)"
  using assms
proof (induction vs arbitrary: a)
  case (Cons v vs)
  have v: "vote_ok v" using Cons.prems by simp
  have p: "0 \<le> fst v * snd v" "fst v * snd v \<le> 2 ^ 36"
    using v mult_mono[of "fst v" 16 "snd v" "2 ^ 32"] by (auto simp: vote_ok_def)
  have "rnd F64 (of_int (fst v * snd v) / 2 ^ 34) = Fin (of_int (fst v * snd v) / 2 ^ 34)"
    using p by (intro exact_scaled) auto
  then have m: "fmul F64 (fst (vote v)) (snd (vote v)) = Fin (of_int (fst v * snd v) / 2 ^ 34)" by (simp add: vote_def)
  have "rnd F64 (of_int (a + fst v * snd v) / 2 ^ 34) = Fin (of_int (a + fst v * snd v) / 2 ^ 34)"
    using p Cons.prems(2,3) by (intro exact_scaled) auto
  then have "fadd F64 (Fin (of_int a / 2 ^ 34)) (Fin (of_int (fst v * snd v) / 2 ^ 34)) = Fin (of_int (a + fst v * snd v) / 2 ^ 34)"
    by (simp add: add_divide_distrib)
  moreover have "fold (\<lambda>(w, s) acc. fadd F64 acc (fmul F64 w s)) (map vote vs) (Fin (of_int (a + fst v * snd v) / 2 ^ 34)) =
      Fin (of_int (a + fst v * snd v + sum_list (map (\<lambda>v. fst v * snd v) vs)) / 2 ^ 34)"
    using Cons.prems p by (intro Cons.IH) auto
  ultimately show ?case using m by (cases "vote v") (simp add: add.assoc)
qed simp

lemma weighted_mean_bounds:
  assumes "\<forall>v \<in> set vs. vote_ok v \<and> lo \<le> snd v \<and> snd v \<le> hi"
  shows "lo * sum_list (map fst vs) \<le> sum_list (map (\<lambda>v. fst v * snd v) vs)"
    "sum_list (map (\<lambda>v. fst v * snd v) vs) \<le> hi * sum_list (map fst vs)"
proof -
  have "fst v * lo \<le> fst v * snd v" "fst v * snd v \<le> fst v * hi" if "v \<in> set vs" for v
    using assms that by (auto simp: vote_ok_def intro!: mult_left_mono)
  then have "sum_list (map (\<lambda>v. fst v * lo) vs) \<le> sum_list (map (\<lambda>v. fst v * snd v) vs)"
    "sum_list (map (\<lambda>v. fst v * snd v) vs) \<le> sum_list (map (\<lambda>v. fst v * hi) vs)" by (auto intro: sum_list_mono)
  then show "lo * sum_list (map fst vs) \<le> sum_list (map (\<lambda>v. fst v * snd v) vs)"
    "sum_list (map (\<lambda>v. fst v * snd v) vs) \<le> hi * sum_list (map fst vs)" by (simp_all add: sum_list_const_mult mult.commute)
qed

text \<open>Weights and scores have that form.\<close>

lemma observer_weight_form: "\<exists>k. observer_weight C o' = Fin (of_int k / 16) \<and> 1 \<le> k \<and> k \<le> 16"
proof -
  define n where "n = int (key_difficulty_bits C o')"
  have d: "of_int_fl F64 (int REPUTATION_WEIGHT_BITS) = Fin 16"
    using representable_small[of 16] rnd_exact[of F64 16] by (simp add: of_int_fl_def REPUTATION_WEIGHT_BITS_def)
  have w: "observer_weight C o' = fclamp (fdiv F64 (rnd F64 (of_int n)) (Fin 16)) (Fin (1 / 16)) (Fin 1)"
    by (simp add: observer_weight_def d n_def REPUTATION_WEIGHT_FLOOR_def) (simp add: of_int_fl_def)
  show ?thesis
  proof (cases "n < 16")
    case True
    have "rnd F64 (of_int n) = Fin (of_int n)" using True n_def representable_small[of n] by (intro rnd_exact) auto
    moreover have "rnd F64 (of_int n / 16) = Fin (of_int n / 16)" using exact_scaled[of n 4] True n_def by simp
    ultimately show ?thesis
      using True n_def unfolding w by (intro exI[of _ "max n 1"]) (auto simp: fclamp_def max_def)
  next
    case False
    then have "fle (Fin 16) (rnd F64 (of_int n))" using representable_small[of 16] by (intro rnd_ge_representable) auto
    then have "fle (Fin 1) (fdiv F64 (rnd F64 (of_int n)) (Fin 16))"
      using representable_consts by (cases "rnd F64 (of_int n)") (auto intro!: rnd_ge_representable)
    then have "observer_weight C o' = Fin 1" unfolding w by (cases "fdiv F64 (rnd F64 (of_int n)) (Fin 16)") (auto simp: fclamp_def)
    then show ?thesis by (intro exI[of _ 16]) simp
  qed
qed

definition trange :: rat where "trange = 16735273 / 2 ^ 22"

lemma trust_span: "fsub F32 TRUST_MAX TRUST_MIN = Fin trange" "real_trust (Fin 1) = Fin 4" "real_trust (Fin 0) = TRUST_MIN"
  by code_simp+

lemma representable_f32_unit:
  assumes "representable F32 x" "1 / 2 ^ 7 \<le> x"
  shows "\<exists>m. x = of_int m / 2 ^ 30"
proof -
  obtain m e where "x = of_int m * 2 powi e" "\<bar>m\<bar> < 2 ^ fst F32" using assms(1) unfolding representable_def by blast
  then have m: "x = of_int m * 2 powi e" "\<bar>m\<bar> < 2 ^ 24" by (simp_all add: F32_def)
  have "- 30 \<le> e"
  proof (rule ccontr)
    assume "\<not> - 30 \<le> e"
    then have e: "(2 :: rat) powi e \<le> 2 powi (- 31)" by (intro powi2_mono) simp
    have "x < of_int (2 ^ 24) * 2 powi e" unfolding m(1) using m(2) by (intro mult_strict_right_mono powi2_pos) (simp only: of_int_less_iff)
    also have "\<dots> \<le> of_int (2 ^ 24) * 2 powi (- 31)" using e by (intro mult_left_mono) auto
    also have "\<dots> = 2 powi (- 7)" by (rule powi2_split[symmetric]) simp
    also have "\<dots> = 1 / 2 ^ 7" by (simp add: power_int_minus_divide)
    finally show False using assms(2) by simp
  qed
  then have "(2 :: rat) powi e = of_int (2 ^ nat (e + 30)) * 2 powi (- 30)" by (intro powi2_split) simp
  then have "x = of_int (m * 2 ^ nat (e + 30)) / 2 ^ 30" using m(1) by (simp add: power_int_minus_divide)
  then show ?thesis by blast
qed

lemma trange_exact: "0 < trange" "rnd F32 trange = Fin trange"
  by code_simp+

lemma real_trust_eq: "real_trust (Fin z) = fadd F32 (Fin tmin) (rnd F32 (z * trange))"
  unfolding real_trust_def trust_span(1) fmul.simps by (simp add: trust_min_value)

lemma real_trust_mono:
  assumes "0 \<le> y" "y \<le> z" "z \<le> 1"
  shows "fle (real_trust (Fin y)) (real_trust (Fin z))"
proof -
  have t: "fle (rnd F32 (y * trange)) (rnd F32 (z * trange))" "fle (Fin 0) (rnd F32 (y * trange))" "fle (rnd F32 (z * trange)) (Fin trange)"
    using assms trange_exact rnd_mono[of "z * trange" trange F32] mult_right_mono[of z 1 trange] by (auto intro!: rnd_nonneg rnd_mono mult_right_mono)
  then obtain a b where ab: "rnd F32 (y * trange) = Fin a" "rnd F32 (z * trange) = Fin b" "a \<le> b"
    by (cases "rnd F32 (y * trange)"; cases "rnd F32 (z * trange)") auto
  then show ?thesis by (simp add: real_trust_eq rnd_mono)
qed

lemma real_trust_form:
  assumes "0 \<le> z" "z \<le> 1"
  shows "\<exists>m. real_trust (Fin z) = Fin (of_int m / 2 ^ 30) \<and> 0 \<le> m \<and> m \<le> 2 ^ 32" "trust_ok (real_trust (Fin z))" "\<exists>y. real_trust (Fin z) = Fin y \<and> representable F32 y"
proof -
  have "fle (Fin tmin) (real_trust (Fin z))" "fle (real_trust (Fin z)) (Fin 4)"
    using real_trust_mono[of 0 z] real_trust_mono[of z 1] assms trust_span(2,3) by (simp_all add: trust_min_value)
  then obtain x where x: "real_trust (Fin z) = Fin x" "tmin \<le> x" "x \<le> 4" by (cases "real_trust (Fin z)") auto
  obtain b where "rnd F32 (z * trange) = Fin b"
    using x(1) by (cases "rnd F32 (z * trange)") (auto simp: real_trust_eq)
  then have "rnd F32 (tmin + b) = Fin x" using x(1) by (simp add: real_trust_eq)
  then have r: "representable F32 x" by (rule representable_rnd) simp_all
  then obtain m where m: "x = of_int m / 2 ^ 30" using representable_f32_unit[of x] x(2) by (auto simp: tmin_def)
  have "0 \<le> m" "(of_int m :: rat) \<le> of_int (2 ^ 32)" using x(2,3) tmin_bounds m by (auto simp: zero_less_divide_iff)
  then show "\<exists>m. real_trust (Fin z) = Fin (of_int m / 2 ^ 30) \<and> 0 \<le> m \<and> m \<le> 2 ^ 32" using x(1) m by (auto simp only: of_int_le_iff)
  show "trust_ok (real_trust (Fin z))" using x by (simp add: trust_ok_iff)
  show "\<exists>y. real_trust (Fin z) = Fin y \<and> representable F32 y" using x(1) r by blast
qed

lemma mean_in_range:
  assumes "\<forall>v \<in> set vs. vote_ok v \<and> lo \<le> snd v \<and> snd v \<le> hi" "vs \<noteq> []" "length vs \<le> 2 ^ 16"
    and "representable F32 (of_int lo / 2 ^ 30)" "representable F32 (of_int hi / 2 ^ 30)" "0 \<le> lo" "hi \<le> 2 ^ 32"
  defines "tw \<equiv> fold (\<lambda>(w, _) acc. fadd F64 acc w) (map vote vs) (Fin 0)"
    and "ws \<equiv> fold (\<lambda>(w, s) acc. fadd F64 acc (fmul F64 w s)) (map vote vs) (Fin 0)"
  shows "\<not> fle tw (Fin (1 / 2 ^ 52))" "fle (Fin (of_int lo / 2 ^ 30)) (as_f32 (fdiv F64 ws tw))" "fle (as_f32 (fdiv F64 ws tw)) (Fin (of_int hi / 2 ^ 30))"
proof -
  define W where "W = sum_list (map fst vs)"
  define S where "S = sum_list (map (\<lambda>v. fst v * snd v) vs)"
  have ok: "\<forall>v \<in> set vs. vote_ok v" using assms(1) by blast
  have tw: "tw = Fin (of_int W / 2 ^ 4)" using sum_weights_exact[OF ok, of 0] assms(3) by (simp add: tw_def W_def)
  have ws: "ws = Fin (of_int S / 2 ^ 34)" using sum_votes_exact[OF ok, of 0] assms(3) by (simp add: ws_def S_def)
  obtain v vs' where vs: "vs = v # vs'" using assms(2) by (cases vs) auto
  have "0 \<le> sum_list (map fst vs')" using ok vs by (intro sum_list_nonneg) (auto simp: vote_ok_def)
  then have W: "1 \<le> W" using ok vs by (simp add: W_def vote_ok_def)
  have S: "lo * W \<le> S" "S \<le> hi * W" using weighted_mean_bounds[OF assms(1)] by (simp_all add: W_def S_def)
  have le: "lo \<le> hi" using assms(1) vs by auto
  show "\<not> fle tw (Fin (1 / 2 ^ 52))" using W by (simp add: tw)
  define q :: rat where "q = (of_int S / 2 ^ 34) / (of_int W / 2 ^ 4)"
  have q: "q = of_int S / of_int W / 2 ^ 30" by (simp add: q_def field_simps)
  have "of_int lo \<le> (of_int S / of_int W :: rat)" "(of_int S / of_int W :: rat) \<le> of_int hi"
    using S W by (simp_all add: le_divide_eq divide_le_eq flip: of_int_mult)
  then have b: "of_int lo / 2 ^ 30 \<le> q" "q \<le> of_int hi / 2 ^ 30" unfolding q by (simp_all add: divide_right_mono)
  have r64: "representable F64 (of_int lo / 2 ^ 30)" "representable F64 (of_int hi / 2 ^ 30)"
    using representable_scaled[of lo 30] representable_scaled[of hi 30] assms(6,7) le by auto
  have d: "fdiv F64 ws tw = rnd F64 q" using W by (simp add: ws tw q_def)
  obtain y where y: "rnd F64 q = Fin y" "of_int lo / 2 ^ 30 \<le> y" "y \<le> of_int hi / 2 ^ 30"
    using rnd_fl_in[OF b r64] unfolding fl_in_def by blast
  have "as_f32 (fdiv F64 ws tw) = rnd F32 y" by (simp add: d y(1) as_f32_def)
  then show "fle (Fin (of_int lo / 2 ^ 30)) (as_f32 (fdiv F64 ws tw))" "fle (as_f32 (fdiv F64 ws tw)) (Fin (of_int hi / 2 ^ 30))"
    using rnd_ge_representable[OF y(2) assms(4)] rnd_le_representable[OF y(3) assms(5)] by simp_all
qed

lemma subset_map: "set ys \<subseteq> f ` set xs \<Longrightarrow> \<exists>us. ys = map f us \<and> set us \<subseteq> set xs"
proof (induction ys)
  case (Cons y ys)
  then obtain us v where "ys = map f us" "set us \<subseteq> set xs" "y = f v" "v \<in> set xs" by auto
  then show ?case by (intro exI[of _ "v # us"]) auto
qed auto

text \<open>The trimmed mean of well-formed votes lies in any range that all but a quarter of the votes agree on.\<close>

lemma trimmed_mean_robust:
  assumes "\<forall>v \<in> set vs. vote_ok v" "3 \<le> length vs" "length vs \<le> 2 ^ 16"
    and "representable F32 (of_int lo / 2 ^ 30)" "representable F32 (of_int hi / 2 ^ 30)" "0 \<le> lo" "hi \<le> 2 ^ 32"
    and "length (filter (\<lambda>v. \<not> (lo \<le> snd v \<and> snd v \<le> hi)) vs) \<le> length vs div 4"
  shows "\<exists>c. trimmed_mean (map vote vs) = Some c \<and> fle (Fin (of_int lo / 2 ^ 30)) c \<and> fle c (Fin (of_int hi / 2 ^ 30))"
proof -
  define ys where "ys = sort_scores (map vote vs)"
  define n where "n = length vs"
  define trim where "trim = n div 4"
  define kept where "kept = take (n - trim - trim) (drop trim ys)"
  have in_range: "fle (Fin (of_int lo / 2 ^ 30)) (snd (vote v)) \<and> fle (snd (vote v)) (Fin (of_int hi / 2 ^ 30)) \<longleftrightarrow> lo \<le> snd v \<and> snd v \<le> hi" for v
    by (simp add: vote_def divide_le_cancel)
  have "mset ys = mset (map vote vs)" by (simp add: ys_def)
  then have "mset (filter P ys) = mset (filter P (map vote vs))" for P by (simp add: mset_filter)
  then have lf: "length (filter P ys) = length (filter P (map vote vs))" for P by (metis size_mset)
  have few: "length (filter (\<lambda>v. \<not> (fle (Fin (of_int lo / 2 ^ 30)) (snd v) \<and> fle (snd v) (Fin (of_int hi / 2 ^ 30)))) ys) \<le> trim"
    using assms(8) by (simp only: lf filter_map comp_def in_range length_map trim_def n_def)
  have nn: "\<forall>y \<in> set ys. snd y \<noteq> NaN" by (auto simp: ys_def vote_def)
  have sorted: "sorted_wrt (\<lambda>x y. fle (snd x) (snd y)) ys" unfolding ys_def by (rule sorted_scores) (auto simp: vote_def)
  have ly: "length ys = n" by (simp add: ys_def n_def)
  have n3: "2 * trim + 1 \<le> n" "3 \<le> n" using assms(2) by (auto simp: trim_def n_def)
  have kr: "fle (Fin (of_int lo / 2 ^ 30)) (snd y) \<and> fle (snd y) (Fin (of_int hi / 2 ^ 30))" if mem: "y \<in> set kept" for y
  proof -
    obtain j where j: "j < n - trim - trim" "y = ys ! (trim + j)" using mem ly by (auto simp: kept_def in_set_conv_nth)
    then show ?thesis using kept_in_range[OF sorted nn _ _ few, of "trim + j"] ly by simp
  qed
  have "set kept \<subseteq> vote ` set vs" unfolding kept_def ys_def by (metis list.set_map set_drop_subset set_sort_scores set_take_subset subset_trans)
  from subset_map[OF this] obtain us where us: "kept = map vote us" "set us \<subseteq> set vs" by blast
  have A: "\<forall>v \<in> set us. vote_ok v \<and> lo \<le> snd v \<and> snd v \<le> hi"
  proof
    fix v assume "v \<in> set us"
    moreover from this have "vote v \<in> set kept" using us(1) by simp
    ultimately show "vote_ok v \<and> lo \<le> snd v \<and> snd v \<le> hi" using kr in_range us(2) assms(1) by blast
  qed
  have lk: "length us = n - trim - trim" using arg_cong[OF us(1), of length] ly by (simp add: kept_def del: map_eq_conv)
  then have B: "us \<noteq> []" "length us \<le> 2 ^ 16" using n3 assms(3) by (auto simp: n_def)
  note m = mean_in_range[OF A B assms(4-7), folded us(1)]
  have fl: "nat \<lfloor>of_nat n * REPUTATION_TRIM_FRAC\<rfloor> = trim"
    using floor_divide_of_nat_eq[of n 4, where 'a = rat] by (simp add: trim_def REPUTATION_TRIM_FRAC_def)
  have mx: "max (n - trim) (trim + 1) - trim = n - trim - trim" using n3 by simp
  have "kept \<noteq> []" using us(1) B(1) by simp
  then show ?thesis
    using m n3(2) unfolding trimmed_mean_def Let_def ys_def[symmetric] ly fl mx kept_def[symmetric] by (simp add: REPUTATION_MIN_QUORUM_def n_def)
qed

lemma vote_forms: "\<forall>x \<in> set xs. \<exists>v. f x = vote v \<and> vote_ok v \<Longrightarrow> \<exists>vs. map f xs = map vote vs \<and> (\<forall>v \<in> set vs. vote_ok v)"
proof (induction xs)
  case (Cons x xs)
  then obtain v vs where "f x = vote v" "vote_ok v" "map f xs = map vote vs" "\<forall>v \<in> set vs. vote_ok v" by auto
  then show ?case by (intro exI[of _ "v # vs"]) auto
qed simp

lemma fresh_votes_form:
  assumes "\<forall>(_, _, score, _) \<in> set bucket. \<exists>z. score = Fin z \<and> 0 \<le> z \<and> z \<le> 1"
  shows "\<exists>vs. fresh_votes C now bucket = map vote vs \<and> (\<forall>v \<in> set vs. vote_ok v)"
proof -
  have "\<exists>v. (observer_weight C k, real_trust score) = vote v \<and> vote_ok v" if "(k, q, score, t) \<in> set bucket" for k q score t
  proof -
    obtain z where z: "score = Fin z" "0 \<le> z" "z \<le> 1" using assms \<open>(k, q, score, t) \<in> set bucket\<close> by fastforce
    obtain w m where "observer_weight C k = Fin (of_int w / 16)" "1 \<le> w" "w \<le> 16"
      "real_trust (Fin z) = Fin (of_int m / 2 ^ 30)" "0 \<le> m" "m \<le> 2 ^ 32"
      using observer_weight_form[of C k] real_trust_form(1)[OF z(2,3)] by blast
    then show ?thesis using z(1) by (intro exI[of _ "(w, m)"]) (simp add: vote_def vote_ok_def)
  qed
  then show ?thesis unfolding fresh_votes_def Let_def by (intro vote_forms) auto
qed

section \<open>Example routers\<close>

text \<open>A filter in which every slot holds the fingerprint of a tag, a peer with that filter, and a router with two such peers.\<close>

definition ex_claiming :: "bytes \<Rightarrow> bytes \<Rightarrow> bytes list PeerData" where
  "ex_claiming tag k = (PeerData_new 0 k [] 0)\<lparr>pd_cuckoo :=
     replicate 3 \<lparr>cf_buckets = replicate 512 (replicate 4 (fingerprint (filter_hash ex_env) tag)), cf_count = 2048\<rparr>\<rparr>"

lemma ex_claims: "claims ex_env tag (ex_claiming tag k)"
  by (simp add: claims_def ex_claiming_def K_def cuckoo_contains_def contains_slot_def bucket1_less Let_def upt_rec)

definition ex_two_peers :: "bytes \<Rightarrow> bytes list RouterState" where
  "ex_two_peers tag = (ex_router [1])\<lparr>rs_peers := [([7], ex_claiming tag [7]), ([8], ex_claiming tag [8])]\<rparr>"

text \<open>A node one unit away from the origin, with a neighbour at the origin.\<close>

definition ex_net :: "PeerId \<Rightarrow> bytes list RouterState" where
  "ex_net n = (if n = [1]
     then (ex_router [1])\<lparr>rs_peers := [([2], PeerData_new 0 [2] [] 0)], rs_coord_table := [([2], HypCoord_origin)],
            rs_own_coord := \<lparr>rho = Fin 1, theta = Fin 0\<rparr>\<rparr>
     else ex_router n)"

text \<open>Three nodes in a ring, each at the same place and each with a stale coordinate of the next one.\<close>

definition ex_stale :: "u8 \<Rightarrow> u8 \<Rightarrow> u8 \<Rightarrow> bytes list RouterState" where
  "ex_stale before n after = (ex_router [n])\<lparr>rs_peers := [([before], PeerData_new 0 [before] [] 0), ([after], PeerData_new 0 [after] [] 0)],
     rs_coord_table := [([after], HypCoord_origin)], rs_own_coord := \<lparr>rho = Fin 1, theta = Fin 0\<rparr>\<rparr>"

definition ex_votes :: "(bytes \<times> ReputationEntry) list" where
  "ex_votes = [([1], (1, Fin (1 / 2), 0)), ([2], (1, Fin (1 / 2), 0)), ([3], (1, Fin 0, 0)), ([4], (1, Fin (1 / 2), 0))]"

section \<open>Properties\<close>

text \<open>C10. Lookup by routing tag. The peer that is chosen is not the excluded one and one of its filters claims the tag; it is under a recent negative
  only when every claiming peer is, and among the claiming peers in the same standing none has a lower trust-adjusted cost;
  and there is no result only when no other peer claims the tag, so negatives alone never black-hole a
  destination.\<close>

theorem tag_lookup_correct:
  "(lookup_by_tag_excluding E now tag exclude rs = None \<longleftrightarrow> (\<forall>(k, p) \<in> set (rs_peers rs). exclude = Some k \<or> \<not> claims E tag p)) \<and>
   (lookup_by_tag_excluding E now tag exclude rs = Some k \<longrightarrow>
     (\<exists>p. (k, p) \<in> set (rs_peers rs) \<and> exclude \<noteq> Some k \<and> claims E tag p \<and>
       (\<forall>(k', p') \<in> set (rs_peers rs). exclude \<noteq> Some k' \<and> claims E tag p' \<longrightarrow>
          (is_path_negative now k tag rs \<longrightarrow> is_path_negative now k' tag rs) \<and>
          (is_path_negative now k' tag rs = is_path_negative now k tag rs \<longrightarrow> route_cost E now rs (k, p) \<le> route_cost E now rs (k', p')))))"
proof (intro conjI impI)
  show "lookup_by_tag_excluding E now tag exclude rs = None \<longleftrightarrow> (\<forall>(k, p) \<in> set (rs_peers rs). exclude = Some k \<or> \<not> claims E tag p)"
    unfolding lookup_by_tag_None claimer_def by auto
next
  assume "lookup_by_tag_excluding E now tag exclude rs = Some k"
  then obtain x where x: "x \<in> set (rs_peers rs)" "fst x = k" "claimer E tag exclude x"
    "is_path_negative now k tag rs \<longrightarrow> (\<forall>y \<in> set (rs_peers rs). claimer E tag exclude y \<longrightarrow> is_path_negative now (fst y) tag rs)"
    "\<And>y. y \<in> set (rs_peers rs) \<Longrightarrow> claimer E tag exclude y \<Longrightarrow> is_path_negative now (fst y) tag rs = is_path_negative now k tag rs \<Longrightarrow>
       route_cost E now rs x \<le> route_cost E now rs y" by (rule lookup_by_tag_Some) blast
  show "\<exists>p. (k, p) \<in> set (rs_peers rs) \<and> exclude \<noteq> Some k \<and> claims E tag p \<and>
       (\<forall>(k', p') \<in> set (rs_peers rs). exclude \<noteq> Some k' \<and> claims E tag p' \<longrightarrow>
          (is_path_negative now k tag rs \<longrightarrow> is_path_negative now k' tag rs) \<and>
          (is_path_negative now k' tag rs = is_path_negative now k tag rs \<longrightarrow> route_cost E now rs (k, p) \<le> route_cost E now rs (k', p')))"
    using x by (intro exI[of _ "snd x"]) (fastforce simp: claimer_def)
qed

theorem tag_lookup_correct_witness:
  "lookup_by_tag_excluding ex_env 0 [5, 5] (Some [7]) (ex_two_peers [5, 5]) = Some [8]"
proof -
  obtain k where k: "lookup_by_tag_excluding ex_env 0 [5, 5] (Some [7]) (ex_two_peers [5, 5]) = Some k"
    using tag_lookup_correct[of ex_env 0 "[5, 5]" "Some [7]" "ex_two_peers [5, 5]"] ex_claims[of "[5, 5]" "[8]"]
    by (cases "lookup_by_tag_excluding ex_env 0 [5, 5] (Some [7]) (ex_two_peers [5, 5])") (auto simp: ex_two_peers_def)
  then have "k \<in> {[7], [8]}" "k \<noteq> [7]"
    using tag_lookup_correct[of ex_env 0 "[5, 5]" "Some [7]" "ex_two_peers [5, 5]" k] by (auto simp: ex_two_peers_def)
  then show ?thesis using k by simp
qed

lemma ex_closer:
  "flt (distance ex_libm HypCoord_origin HypCoord_origin) (distance ex_libm \<lparr>rho = Fin 1, theta = Fin 0\<rparr> HypCoord_origin)"
  "flt (fdiv F64 (distance ex_libm HypCoord_origin HypCoord_origin) (fclamp TRUST_INITIAL TRUST_MIN TRUST_MAX)) PInf"
  by code_simp+

lemmas ex_greedy_simps = greedy_next_hop_def greedy_step_def ex_net_def ex_stale_def PeerData_new_def combined_trust_def consensus_trust_def
  ex_router_def RouterState_new_def ex_env_def Let_def

text \<open>C20. Greedy forwarding makes progress. A node chooses only a peer that is not excluded and whose coordinate in the node's table is strictly closer to the
  destination than the node itself. If, besides, every table holds the current coordinates of the node's peers, and these do not change
  while the packet travels, the distance strictly decreases along every chain of greedy hops, whatever each node excludes and however trust reorders its
  candidates: no node is visited twice, and there are at most as many hops as nodes. The condition is needed: with stale coordinates three nodes that
  never send a packet back to where it came from pass it round in a ring.\<close>

theorem greedy_loop_free:
  "(greedy_next_hop E now dst exclude rs = Some k \<longrightarrow> exclude \<noteq> Some k \<and> (\<exists>p c. (k, p) \<in> set (rs_peers rs) \<and>
      map_of (rs_coord_table rs) (pd_pub_key p) = Some c \<and> flt (distance (math E) c dst) (distance (math E) (rs_own_coord rs) dst))) \<and>
   (coords_consistent net \<and> greedy_path E net dst ns \<longrightarrow>
      sorted_wrt (\<lambda>n m. flt (distance (math E) (rs_own_coord (net m)) dst) (distance (math E) (rs_own_coord (net n)) dst)) ns \<and> distinct ns \<and>
      (set ns \<subseteq> N \<and> finite N \<longrightarrow> length ns \<le> card N)) \<and>
   greedy_next_hop ex_env 0 HypCoord_origin (Some [3]) (ex_stale 3 1 2) = Some [2] \<and>
   greedy_next_hop ex_env 0 HypCoord_origin (Some [1]) (ex_stale 1 2 3) = Some [3] \<and>
   greedy_next_hop ex_env 0 HypCoord_origin (Some [2]) (ex_stale 2 3 1) = Some [1]"
proof (intro conjI impI)
  assume h: "greedy_next_hop E now dst exclude rs = Some k"
  show "exclude \<noteq> Some k" "\<exists>p c. (k, p) \<in> set (rs_peers rs) \<and>
      map_of (rs_coord_table rs) (pd_pub_key p) = Some c \<and> flt (distance (math E) c dst) (distance (math E) (rs_own_coord rs) dst)"
    by (rule greedy_next_hop_Some[OF h]; force simp: greedy_cand_def)+
next
  assume a: "coords_consistent net \<and> greedy_path E net dst ns"
  then show "sorted_wrt (\<lambda>n m. flt (distance (math E) (rs_own_coord (net m)) dst) (distance (math E) (rs_own_coord (net n)) dst)) ns"
    by (intro greedy_path_decreases) simp_all
  from a show d: "distinct ns" using greedy_path_distinct by blast
  show "length ns \<le> card N" if "set ns \<subseteq> N \<and> finite N" using card_mono[of N "set ns"] that d by (simp add: distinct_card)
qed (use ex_closer in \<open>simp_all add: ex_greedy_simps\<close>)

theorem greedy_loop_free_witness:
  "greedy_next_hop ex_env 0 HypCoord_origin None (ex_net [1]) = Some [2] \<and>
   flt (distance ex_libm (rs_own_coord (ex_net [2])) HypCoord_origin) (distance ex_libm (rs_own_coord (ex_net [1])) HypCoord_origin)"
proof -
  have h: "greedy_next_hop ex_env 0 HypCoord_origin None (ex_net [1]) = Some [2]" using ex_closer by (simp add: ex_greedy_simps)
  have p: "greedy_path ex_env ex_net HypCoord_origin [[1], [2]]"
    by (rule greedy_path.hop[where now = 0 and exclude = None]) (rule greedy_path.start, rule h)
  have c: "coords_consistent ex_net"
    by (auto simp: coords_consistent_def ex_net_def ex_router_def RouterState_new_def PeerData_new_def Let_def split: if_splits)
  have "sorted_wrt (\<lambda>n m. flt (distance (math ex_env) (rs_own_coord (ex_net m)) HypCoord_origin) (distance (math ex_env) (rs_own_coord (ex_net n)) HypCoord_origin)) [[1], [2]]"
    using greedy_loop_free[where E = ex_env and net = ex_net and dst = HypCoord_origin and ns = "[[1], [2]]"] p c by blast
  then show ?thesis using h by (simp add: ex_env_def)
qed

text \<open>C22. Consensus trust is robust to a quarter of the votes. With at least three and at most $2^{16}$ fresh observations with scores in the unit
  interval, if at most a quarter of them fall outside the trusts of the scores \<open>lo\<close> and \<open>hi\<close>, the consensus exists and
  lies in that range, exactly, in floating point. The quarter is of the number of votes, not of their weight: three voters with 3/19 of
  the weight decide against a fourth who has the rest.\<close>

theorem consensus_trust_robust:
  assumes "map_of (rs_reputation rs) observed = Some bucket"
    and "\<forall>(_, _, score, _) \<in> set bucket. \<exists>z. score = Fin z \<and> 0 \<le> z \<and> z \<le> 1"
    and "votes = fresh_votes (suite E) now bucket" "3 \<le> length votes" "length votes \<le> 2 ^ 16"
    and "0 \<le> lo" "lo \<le> 1" "0 \<le> hi" "hi \<le> 1"
    and "length (filter (\<lambda>(_, s). \<not> (fle (real_trust (Fin lo)) s \<and> fle s (real_trust (Fin hi)))) votes) \<le> length votes div 4"
  shows "(\<exists>c. consensus_trust E now observed rs = Some c \<and> fle (real_trust (Fin lo)) c \<and> fle c (real_trust (Fin hi))) \<and>
    trimmed_mean [(Fin (1 / 16), Fin 1), (Fin (1 / 16), Fin 1), (Fin 1, Fin 4), (Fin (1 / 16), Fin 1)] = Some (Fin 1)"
proof
  obtain vs where vs: "votes = map vote vs" "\<forall>v \<in> set vs. vote_ok v" using fresh_votes_form[OF assms(2)] assms(3) by blast
  obtain l h where lh: "real_trust (Fin lo) = Fin (of_int l / 2 ^ 30)" "0 \<le> l" "real_trust (Fin hi) = Fin (of_int h / 2 ^ 30)" "h \<le> 2 ^ 32"
    using real_trust_form(1)[of lo] real_trust_form(1)[of hi] assms(6-9) by blast
  have r: "representable F32 (of_int l / 2 ^ 30)" "representable F32 (of_int h / 2 ^ 30)"
    using real_trust_form(3)[of lo] real_trust_form(3)[of hi] assms(6-9) lh by auto
  have "(\<lambda>v. \<not> (fle (Fin (of_int l / 2 ^ 30)) (snd (vote v)) \<and> fle (snd (vote v)) (Fin (of_int h / 2 ^ 30)))) = (\<lambda>v. \<not> (l \<le> snd v \<and> snd v \<le> h))"
    by (auto simp: vote_def divide_le_cancel)
  then have "length (filter (\<lambda>v. \<not> (l \<le> snd v \<and> snd v \<le> h)) vs) \<le> length vs div 4"
    using assms(10) by (simp add: vs(1) lh filter_map comp_def case_prod_beta del: divide_le_cancel)
  moreover have "3 \<le> length vs" "length vs \<le> 2 ^ 16" using assms(4,5) vs(1) by simp_all
  ultimately show "\<exists>c. consensus_trust E now observed rs = Some c \<and> fle (real_trust (Fin lo)) c \<and> fle c (real_trust (Fin hi))"
    using trimmed_mean_robust[OF vs(2) _ _ r lh(2,4)] assms(1,3) vs(1) by (simp add: consensus_trust_def lh)
  show "trimmed_mean [(Fin (1 / 16), Fin 1), (Fin (1 / 16), Fin 1), (Fin 1, Fin 4), (Fin (1 / 16), Fin 1)] = Some (Fin 1)"
    by code_simp
qed

theorem consensus_trust_robust_witness:
  "\<exists>c. consensus_trust ex_env 0 [9] ((ex_router [1])\<lparr>rs_reputation := [([9], ex_votes)]\<rparr>) = Some c \<and>
     fle (real_trust (Fin (1 / 2))) c \<and> fle c (real_trust (Fin (1 / 2)))"
proof -
  let ?rs = "(ex_router [1])\<lparr>rs_reputation := [([9], ex_votes)]\<rparr> :: bytes list RouterState"
  have b: "map_of (rs_reputation ?rs) [9] = Some ex_votes" by simp
  have s: "\<forall>(_, _, score, _) \<in> set ex_votes. \<exists>z. score = Fin z \<and> 0 \<le> z \<and> z \<le> 1" by (auto simp: ex_votes_def intro: exI[of _ "1 / 2"])
  have v: "fresh_votes (suite ex_env) 0 ex_votes =
     map (\<lambda>(k, z). (observer_weight (suite ex_env) k, real_trust (Fin z))) [([1], 1 / 2), ([2], 1 / 2), ([3], 0), ([4], 1 / 2)]"
    by (simp add: fresh_votes_def ex_votes_def REPUTATION_VALIDITY_MS_def)
  have r: "fle (real_trust (Fin (1 / 2))) (real_trust (Fin (1 / 2)))" by (rule real_trust_mono) simp_all
  show ?thesis
    using consensus_trust_robust[OF b s HOL.refl, of ex_env 0 "1 / 2" "1 / 2"] unfolding v by (simp add: r)
qed

end
