(* ===== verification/Router_Trees.thy ===== *)
theory Router_Trees
  imports Router_Lookup
begin

text \<open>
  The three spanning trees and the embedding built on the first of them: the metrics of \<^verbatim>\<open>src/src/router/treemath.rs\<close>, parent selection, the signed
  announcements and the adaptive cadence of \<^verbatim>\<open>src/src/router/mod.rs\<close>, the announcement handler of \<^verbatim>\<open>src/src/router/handlers.rs\<close>, and the coordinates of
  \<^verbatim>\<open>src/src/router/coords.rs\<close>. The wall clock in seconds is an argument of parent selection, which derives the epoch from it.
\<close>

section \<open>Metrics\<close>

definition TREE_SEEDS :: "bytes list" where
  "TREE_SEEDS = [replicate 8 0, ascii ''Verdandi'', ascii ''Skuld___'']"

definition TREE_EPOCH_SECS :: nat where "TREE_EPOCH_SECS = 24 * 60 * 60"

definition current_tree_epoch :: "nat \<Rightarrow> u64" where
  "current_tree_epoch unix_secs = of_nat (unix_secs div TREE_EPOCH_SECS)"

definition tree_metric_at :: "crypto \<Rightarrow> bytes \<Rightarrow> bytes \<Rightarrow> u64 \<Rightarrow> bytes" where
  "tree_metric_at C pub_key seed epoch =
     (let salt = blake2b C 32 (ascii ''norn:tree-epoch'' @ seed @ le_bytes 8 epoch) in
      map2 (XOR) pub_key salt)"

definition tree_metric :: "crypto \<Rightarrow> bytes \<Rightarrow> bytes \<Rightarrow> bytes" where
  "tree_metric C pub_key seed = tree_metric_at C pub_key seed 0"

definition metric_less :: "bytes \<Rightarrow> bytes \<Rightarrow> bool" where
  "metric_less a b \<longleftrightarrow> a < b"

definition routing_tag_eq :: "bytes \<Rightarrow> bytes \<Rightarrow> bool" where
  "routing_tag_eq a b \<longleftrightarrow> a = b"

definition saturating_add :: "'a::len word \<Rightarrow> 'a word \<Rightarrow> 'a word" where
  "saturating_add a b = (if unat a + unat b < 2 ^ LENGTH('a) then a + b else - 1)"

section \<open>Parent selection\<close>

definition ANNOUNCE_EXPIRY :: nat where "ANNOUNCE_EXPIRY = 30 * 10 ^ 9"
definition PARENT_SWITCH_MARGIN_US :: u64 where "PARENT_SWITCH_MARGIN_US = 1000"

text \<open>The variables of the loop: the best root so far with its metric, the cost and the parent that give it, and the standing of the
  incumbent parent.\<close>

record tree_best =
  tb_root :: "bytes option"
  tb_root_metric :: "bytes option"
  tb_cost :: u64
  tb_parent :: "PeerId option"
  tb_incumbent :: "(bytes \<times> u64) option"

definition fix_tree_step :: "crypto \<Rightarrow> u64 \<Rightarrow> instant \<Rightarrow> nat \<Rightarrow> PeerId option \<Rightarrow> PeerId \<times> 'c PeerData \<Rightarrow> tree_best \<Rightarrow> tree_best" where
  "fix_tree_step C epoch now tree_id prev_parent = (\<lambda>(peer_key, peer) b.
     case pd_trees peer ! tree_id of
       None \<Rightarrow> b
     | Some ann \<Rightarrow>
         if ANNOUNCE_EXPIRY < duration_since now (ta_received_at ann) then b
         else let root_metric = tree_metric_at C (ta_root ann) (TREE_SEEDS ! tree_id) epoch;
                  peer_cost = PeerData_cost peer;
                  total_cost = saturating_add (ta_path_cost ann) peer_cost;
                  b = (if Some peer_key = prev_parent then b\<lparr>tb_incumbent := Some (root_metric, total_cost)\<rparr> else b);
                  better = (case tb_root_metric b of
                              None \<Rightarrow> True
                            | Some br \<Rightarrow> if metric_less root_metric br then True
                                         else if root_metric = br then total_cost < tb_cost b
                                         else False) in
              if better
              then b\<lparr>tb_root := Some (ta_root ann), tb_root_metric := Some root_metric, tb_cost := total_cost, tb_parent := Some peer_key\<rparr>
              else b)"

text \<open>The hysteresis after the loop.\<close>

definition keep_incumbent :: "PeerId option \<Rightarrow> tree_best \<Rightarrow> tree_best" where
  "keep_incumbent prev_parent b =
     (case (tb_root_metric b, tb_incumbent b) of
        (Some best_rm, Some (inc_rm, inc_cost)) \<Rightarrow>
          if inc_rm = best_rm \<and> tb_parent b \<noteq> prev_parent \<and> inc_cost \<le> saturating_add (tb_cost b) PARENT_SWITCH_MARGIN_US
          then b\<lparr>tb_parent := prev_parent, tb_cost := inc_cost\<rparr> else b
      | _ \<Rightarrow> b)"

definition tree_scan :: "crypto \<Rightarrow> u64 \<Rightarrow> instant \<Rightarrow> nat \<Rightarrow> 'c RouterState \<Rightarrow> tree_best" where
  "tree_scan C epoch now tree_id rs =
     (let prev_parent = ts_parent (rs_trees rs ! tree_id) in
      keep_incumbent prev_parent
        (fold (fix_tree_step C epoch now tree_id prev_parent) (rs_peers rs)
           \<lparr>tb_root = None, tb_root_metric = None, tb_cost = - 1, tb_parent = None, tb_incumbent = None\<rparr>))"

definition upd_tree :: "nat \<Rightarrow> (TreeState \<Rightarrow> TreeState) \<Rightarrow> 'c RouterState \<Rightarrow> 'c RouterState" where
  "upd_tree i f rs = rs\<lparr>rs_trees := (rs_trees rs)[i := f (rs_trees rs ! i)]\<rparr>"

definition fix_tree :: "crypto \<Rightarrow> nat \<Rightarrow> instant \<Rightarrow> nat \<Rightarrow> 'c RouterState \<Rightarrow> 'c RouterState" where
  "fix_tree C unix_secs now tree_id rs =
     (let epoch = current_tree_epoch unix_secs;
          my_metric = tree_metric_at C (rs_pub_key rs) (TREE_SEEDS ! tree_id) epoch;
          prev_parent = ts_parent (rs_trees rs ! tree_id);
          b = tree_scan C epoch now tree_id rs;
          use_self = (case tb_root_metric b of None \<Rightarrow> True | Some br \<Rightarrow> metric_less my_metric br);
          (new_parent, rs) =
            (if use_self
             then (None,
                   let rs = upd_tree tree_id (\<lambda>t. t\<lparr>ts_parent := None, ts_root := rs_pub_key rs, ts_parent_cost := 0,
                              ts_root_seq := ts_root_seq t + 1\<rparr>) rs in
                   if tree_id = 0 then rs\<lparr>rs_own_depth := 0\<rparr> else rs)
             else (tb_parent b,
                   let rs = upd_tree tree_id (\<lambda>t. t\<lparr>ts_parent := tb_parent b, ts_root := the (tb_root b), ts_parent_cost := tb_cost b\<rparr>) rs in
                   if tree_id = 0
                   then (case Option.bind (tb_parent b) (\<lambda>k. Option.bind (map_of (rs_peers rs) k) (\<lambda>p. pd_trees p ! 0)) of
                           Some ann \<Rightarrow> rs\<lparr>rs_own_depth := ta_depth ann + 1\<rparr>
                         | None \<Rightarrow> rs)
                   else rs)) in
      if new_parent \<noteq> prev_parent then rs\<lparr>rs_last_topology_change_tick := rs_tick rs\<rparr> else rs)"

section \<open>Announcements\<close>

definition send_announces :: "'c env \<Rightarrow> instant \<Rightarrow> nat \<Rightarrow> 'c RouterState \<Rightarrow> 'c RouterState" where
  "send_announces E now tree_id rs =
     (let tree = rs_trees rs ! tree_id;
          depth = (if tree_id = 0 then rs_own_depth rs else 0);
          ann_unsigned = \<lparr>an_tree_id = of_nat tree_id, an_root = ts_root tree, an_root_seq = ts_root_seq tree,
            an_path_cost = ts_parent_cost tree, an_sender = rs_pub_key rs, an_signature = replicate 64 0, an_depth = depth\<rparr>;
          signature = ed_sign (suite E) (rs_signing_key rs) (Announce_sign_bytes ann_unsigned);
          ann = ann_unsigned\<lparr>an_signature := signature\<rparr> in
      broadcast E now (Announce_encode ann) rs)"

definition handle_announce :: "crypto \<Rightarrow> instant \<Rightarrow> PeerId \<Rightarrow> Announce \<Rightarrow> 'c RouterState \<Rightarrow> 'c RouterState" where
  "handle_announce C now from ann rs =
     (if \<not> ed_verify C (an_sender ann) (Announce_sign_bytes ann) (an_signature ann) then rs
      else let tree_id = unat (an_tree_id ann) in
      if K \<le> tree_id then rs
      else let structural_change =
                 (case map_of (rs_peers rs) from of
                    None \<Rightarrow> False
                  | Some peer \<Rightarrow>
                      (case pd_trees peer ! tree_id of
                         Some prev \<Rightarrow> ta_root prev \<noteq> an_root ann \<or> ta_depth prev \<noteq> an_depth ann
                       | None \<Rightarrow> True));
               rs = upd_peer from (\<lambda>peer. peer\<lparr>pd_last_rx_time := now,
                      pd_trees := (pd_trees peer)[tree_id := Some \<lparr>ta_root = an_root ann, ta_path_cost = an_path_cost ann,
                        ta_received_at = now, ta_depth = an_depth ann\<rparr>]\<rparr>) rs;
               rs = (if structural_change then rs\<lparr>rs_last_topology_change_tick := rs_tick rs\<rparr> else rs) in
           update_landmarks rs)"

section \<open>Coordinates\<close>

definition MAX_COORD_TABLE_SIZE :: nat where "MAX_COORD_TABLE_SIZE = 16384"

definition update_own_coord :: "crypto \<Rightarrow> 'c RouterState \<Rightarrow> 'c RouterState" where
  "update_own_coord C rs =
     (let parent_theta = (case Option.bind (ts_parent (rs_trees rs ! 0)) (map_of (rs_coord_table rs)) of
                            Some c \<Rightarrow> theta c | None \<Rightarrow> Fin 0);
          own_coord = from_tree_position C (rs_own_depth rs) parent_theta (rs_pub_key rs);
          rs = rs\<lparr>rs_own_coord := own_coord, rs_coord_table := AList.update (rs_pub_key rs) own_coord (rs_coord_table rs)\<rparr> in
      rs\<lparr>rs_sessions := set_own_coord (HypCoord_encode own_coord) (rs_sessions rs)\<rparr>)"

text \<open>The eviction the bounded tables share: a full table that lacks the key gives up an entry that is neither a peer nor the node
  itself, or refuses the new one.\<close>

definition evict_for :: "nat \<Rightarrow> 'c RouterState \<Rightarrow> bytes \<Rightarrow> (bytes \<times> 'v) list \<Rightarrow> (bytes \<times> 'v) list option" where
  "evict_for cap rs k table =
     (if cap \<le> length table \<and> map_of table k = None
      then case find (\<lambda>v. map_of (rs_peers rs) v = None \<and> v \<noteq> rs_pub_key rs) (map fst table) of
             Some v \<Rightarrow> Some (AList.delete v table)
           | None \<Rightarrow> None
      else Some table)"

definition note_peer_coord :: "PeerId \<Rightarrow> bytes \<Rightarrow> 'c RouterState \<Rightarrow> 'c RouterState" where
  "note_peer_coord peer coord_bytes rs =
     (let coord = HypCoord_decode coord_bytes in
      if \<not> is_finite (rho coord) \<or> \<not> is_finite (theta coord) then rs
      else case evict_for MAX_COORD_TABLE_SIZE rs peer (rs_coord_table rs) of
             Some table \<Rightarrow> rs\<lparr>rs_coord_table := AList.update peer coord table\<rparr>
           | None \<Rightarrow> rs)"

definition broadcast_coord :: "'c env \<Rightarrow> instant \<Rightarrow> 'c RouterState \<Rightarrow> 'c RouterState" where
  "broadcast_coord E now rs =
     (let unsigned = \<lparr>co_version = COORD_FORMAT_V5, co_coord = HypCoord_encode (rs_own_coord rs), co_tree_depth = rs_own_depth rs,
            co_onion_eph_pub = kc_current_pub (rs_onion_keys rs), co_sig = replicate 64 0\<rparr>;
          sig = ed_sign (suite E) (rs_signing_key rs) (CoordAnnounce_sign_bytes unsigned);
          ann = unsigned\<lparr>co_sig := sig\<rparr> in
      broadcast E now (CoordAnnounce_encode_into ann [TYPE_COORD_ANNOUNCE]) rs)"

definition decay_peer :: "PeerId \<Rightarrow> 'c RouterState \<Rightarrow> 'c RouterState" where
  "decay_peer k = upd_peer k (\<lambda>peer. peer\<lparr>pd_trust := decay_trust (pd_trust peer)\<rparr>)"

definition boost_peer :: "PeerId \<Rightarrow> 'c RouterState \<Rightarrow> 'c RouterState" where
  "boost_peer k = upd_peer k (\<lambda>peer. peer\<lparr>pd_trust := boost_trust (pd_trust peer)\<rparr>)"

definition handle_coord_announce :: "crypto \<Rightarrow> PeerId \<Rightarrow> CoordAnnounce \<Rightarrow> 'c RouterState \<Rightarrow> 'c RouterState" where
  "handle_coord_announce C from_key ann rs =
     (if \<not> ed_verify C from_key (CoordAnnounce_sign_bytes ann) (co_sig ann) then rs
      else let coord = HypCoord_decode (co_coord ann) in
      if \<not> is_finite (rho coord) \<or> \<not> is_finite (theta coord) then rs
      else let expected_rho = rho (from_tree_position C (co_tree_depth ann) (Fin 0) from_key) in
      if flt (lit F64 (1 / 10 ^ 9)) (fabs (fsub F64 (rho coord) expected_rho)) then decay_peer from_key rs
      else if (case Option.bind (map_of (rs_peers rs) from_key) (\<lambda>p. pd_trees p ! 0) of
                 Some t0 \<Rightarrow> 2 < \<bar>uint (ta_depth t0) - uint (co_tree_depth ann)\<bar>
               | None \<Rightarrow> False) then decay_peer from_key rs
      else case evict_for MAX_COORD_TABLE_SIZE rs from_key (rs_coord_table rs) of
             None \<Rightarrow> rs
           | Some table \<Rightarrow>
               let rs = rs\<lparr>rs_coord_table := AList.update from_key coord table\<rparr> in
               upd_peer from_key (\<lambda>peer. peer\<lparr>pd_onion_eph_pub := Some (co_onion_eph_pub ann)\<rparr>) rs)"

section \<open>Cadence\<close>

definition CONTROL_MAX_INTERVAL :: u32 where "CONTROL_MAX_INTERVAL = 8"
definition CONVERGENCE_GRACE_TICKS :: u32 where "CONVERGENCE_GRACE_TICKS = 8"

definition control_digest :: "'c RouterState \<Rightarrow> ControlDigest" where
  "control_digest rs =
     \<lparr>cd_trees = map (\<lambda>i. let t = rs_trees rs ! i in (ts_root t, ts_root_seq t, ts_parent t)) [0..<K],
      cd_own_depth = rs_own_depth rs, cd_onion_eph_pub = kc_current_pub (rs_onion_keys rs), cd_peer_count = length (rs_peers rs)\<rparr>"

definition convergence_active :: "'c RouterState \<Rightarrow> bool" where
  "convergence_active rs \<longleftrightarrow> rs_tick rs - rs_last_topology_change_tick rs < CONVERGENCE_GRACE_TICKS"

definition maybe_broadcast_control :: "'c env \<Rightarrow> instant \<Rightarrow> 'c RouterState \<Rightarrow> 'c RouterState" where
  "maybe_broadcast_control E now rs =
     (let digest = control_digest rs;
          changed = (rs_last_control_digest rs \<noteq> Some digest);
          rs = (if changed then rs\<lparr>rs_last_topology_change_tick := rs_tick rs\<rparr> else rs);
          active = convergence_active rs;
          rs = rs\<lparr>rs_control_interval := (if changed \<or> active then CONTROL_MIN_INTERVAL
                                           else min (rs_control_interval rs + 1) CONTROL_MAX_INTERVAL)\<rparr>;
          due = (changed \<or> active \<or> rs_control_interval rs \<le> rs_tick rs - rs_last_control_tick rs) in
      if \<not> due then rs
      else let rs = fold (send_announces E now) [0..<K] rs;
               rs = broadcast_coord E now rs in
           rs\<lparr>rs_last_control_digest := Some digest, rs_last_control_tick := rs_tick rs\<rparr>)"

section \<open>What the scan selects\<close>

text \<open>A candidate is a peer with an unexpired announcement; it is ranked by the metric of the announced root, then by cost.\<close>

definition tree_cand :: "instant \<Rightarrow> nat \<Rightarrow> PeerId \<times> 'c PeerData \<Rightarrow> TreeAnnounce \<Rightarrow> bool" where
  "tree_cand now i x ann \<longleftrightarrow> pd_trees (snd x) ! i = Some ann \<and> duration_since now (ta_received_at ann) \<le> ANNOUNCE_EXPIRY"

definition cand_metric :: "crypto \<Rightarrow> u64 \<Rightarrow> nat \<Rightarrow> TreeAnnounce \<Rightarrow> bytes" where
  "cand_metric C epoch i ann = tree_metric_at C (ta_root ann) (TREE_SEEDS ! i) epoch"

definition cand_cost :: "PeerId \<times> 'c PeerData \<Rightarrow> TreeAnnounce \<Rightarrow> u64" where
  "cand_cost x ann = saturating_add (ta_path_cost ann) (PeerData_cost (snd x))"

definition best_inv :: "crypto \<Rightarrow> u64 \<Rightarrow> instant \<Rightarrow> nat \<Rightarrow> (PeerId \<times> 'c PeerData) set \<Rightarrow> tree_best \<Rightarrow> bool" where
  "best_inv C epoch now i X b \<longleftrightarrow>
     (case tb_root_metric b of
        None \<Rightarrow> (\<forall>x \<in> X. \<forall>ann. \<not> tree_cand now i x ann)
      | Some r \<Rightarrow>
          (\<exists>x \<in> X. \<exists>ann. tree_cand now i x ann \<and> tb_parent b = Some (fst x) \<and> tb_root b = Some (ta_root ann) \<and>
             r = cand_metric C epoch i ann \<and> tb_cost b = cand_cost x ann) \<and>
          (\<forall>x \<in> X. \<forall>ann. tree_cand now i x ann \<longrightarrow>
             r \<le> cand_metric C epoch i ann \<and> (r = cand_metric C epoch i ann \<longrightarrow> tb_cost b \<le> cand_cost x ann)))"

definition incumbent_inv :: "crypto \<Rightarrow> u64 \<Rightarrow> instant \<Rightarrow> nat \<Rightarrow> PeerId option \<Rightarrow> (PeerId \<times> 'c PeerData) set \<Rightarrow> tree_best \<Rightarrow> bool" where
  "incumbent_inv C epoch now i prev X b \<longleftrightarrow> (\<forall>m c. tb_incumbent b = Some (m, c) \<longrightarrow>
     (\<exists>x \<in> X. \<exists>ann. tree_cand now i x ann \<and> prev = Some (fst x) \<and> m = cand_metric C epoch i ann \<and> c = cand_cost x ann))"

lemma fix_tree_step_skip: "\<forall>ann. \<not> tree_cand now i x ann \<Longrightarrow> fix_tree_step C epoch now i prev x b = b"
  by (cases x) (auto simp: fix_tree_step_def tree_cand_def not_le split: option.splits)

definition cand_better :: "crypto \<Rightarrow> u64 \<Rightarrow> nat \<Rightarrow> PeerId \<times> 'c PeerData \<Rightarrow> TreeAnnounce \<Rightarrow> tree_best \<Rightarrow> bool" where
  "cand_better C epoch i x ann b \<longleftrightarrow> tb_root_metric b = None \<or> cand_metric C epoch i ann < the (tb_root_metric b) \<or>
     cand_metric C epoch i ann = the (tb_root_metric b) \<and> cand_cost x ann < tb_cost b"

lemma fix_tree_step_cand:
  assumes "tree_cand now i x ann"
  shows "fix_tree_step C epoch now i prev x b =
    (let b' = (if Some (fst x) = prev then b\<lparr>tb_incumbent := Some (cand_metric C epoch i ann, cand_cost x ann)\<rparr> else b) in
     if cand_better C epoch i x ann b
     then b'\<lparr>tb_root := Some (ta_root ann), tb_root_metric := Some (cand_metric C epoch i ann), tb_cost := cand_cost x ann, tb_parent := Some (fst x)\<rparr>
     else b')"
proof -
  obtain k p where x: "x = (k, p)" by (cases x)
  have a: "pd_trees p ! i = Some ann" "\<not> ANNOUNCE_EXPIRY < duration_since now (ta_received_at ann)"
    using assms by (auto simp: x tree_cand_def)
  show ?thesis
    unfolding x fix_tree_step_def prod.case a(1) option.case fst_conv cand_metric_def cand_cost_def snd_conv cand_better_def metric_less_def
    using a(2) by (cases "tb_root_metric b") (simp_all add: Let_def)
qed

lemma best_inv_step:
  assumes "best_inv C epoch now i X b"
  shows "best_inv C epoch now i (insert x X) (fix_tree_step C epoch now i prev x b)"
proof (cases "\<exists>ann. tree_cand now i x ann")
  case False
  then show ?thesis using assms by (auto simp: fix_tree_step_skip best_inv_def split: option.splits)
next
  case True
  then obtain ann where ann: "tree_cand now i x ann" by blast
  have uniq: "a = ann" if "tree_cand now i x a" for a using ann that by (simp add: tree_cand_def)
  define b' where "b' = fix_tree_step C epoch now i prev x b"
  let ?m = "cand_metric C epoch i ann" and ?c = "cand_cost x ann"
  show ?thesis
  proof (cases "cand_better C epoch i x ann b")
    case True
    then have b': "tb_root_metric b' = Some ?m" "tb_parent b' = Some (fst x)" "tb_root b' = Some (ta_root ann)" "tb_cost b' = ?c"
      by (simp_all add: b'_def fix_tree_step_cand[OF ann] Let_def)
    have "?m \<le> cand_metric C epoch i a \<and> (?m = cand_metric C epoch i a \<longrightarrow> ?c \<le> cand_cost y a)" if y: "y \<in> X" "tree_cand now i y a" for y a
    proof (cases "tb_root_metric b")
      case None
      then show ?thesis using assms y by (simp add: best_inv_def)
    next
      case (Some r)
      then have "r \<le> cand_metric C epoch i a" "r = cand_metric C epoch i a \<longrightarrow> tb_cost b \<le> cand_cost y a"
        using assms y by (simp_all add: best_inv_def)
      then show ?thesis using True Some by (auto simp: cand_better_def)
    qed
    then show ?thesis unfolding b'_def[symmetric] best_inv_def b' option.case using ann uniq by blast
  next
    case False
    then obtain r where r: "tb_root_metric b = Some r" "r \<le> ?m" "r = ?m \<longrightarrow> tb_cost b \<le> ?c" by (auto simp: cand_better_def not_less)
    have b': "tb_root_metric b' = tb_root_metric b" "tb_parent b' = tb_parent b" "tb_root b' = tb_root b" "tb_cost b' = tb_cost b"
      using False by (simp_all add: b'_def fix_tree_step_cand[OF ann] Let_def)
    show ?thesis using assms r(2,3) uniq unfolding b'_def[symmetric] best_inv_def b' r(1) option.case by blast
  qed
qed

lemma incumbent_inv_step:
  assumes "incumbent_inv C epoch now i prev X b"
  shows "incumbent_inv C epoch now i prev (insert x X) (fix_tree_step C epoch now i prev x b)"
proof (cases "\<exists>ann. tree_cand now i x ann")
  case False
  then show ?thesis using assms by (auto simp: fix_tree_step_skip incumbent_inv_def)
next
  case True
  then obtain ann where ann: "tree_cand now i x ann" by blast
  have "tb_incumbent (fix_tree_step C epoch now i prev x b) =
    (if Some (fst x) = prev then Some (cand_metric C epoch i ann, cand_cost x ann) else tb_incumbent b)"
    by (simp add: fix_tree_step_cand[OF ann] Let_def)
  then show ?thesis using assms ann unfolding incumbent_inv_def by (metis insert_iff option.inject prod.inject)
qed

lemma scan_inv_fold:
  assumes "best_inv C epoch now i X b" "incumbent_inv C epoch now i prev X b"
  shows "best_inv C epoch now i (X \<union> set xs) (fold (fix_tree_step C epoch now i prev) xs b) \<and>
    incumbent_inv C epoch now i prev (X \<union> set xs) (fold (fix_tree_step C epoch now i prev) xs b)"
  using assms
proof (induction xs arbitrary: X b)
  case (Cons x xs)
  then show ?case using Cons.IH[OF best_inv_step[OF Cons.prems(1)] incumbent_inv_step[OF Cons.prems(2)]] by simp
qed simp

lemma scan_inv:
  defines "b \<equiv> \<lparr>tb_root = None, tb_root_metric = None, tb_cost = - 1, tb_parent = None, tb_incumbent = None\<rparr>"
  shows "best_inv C epoch now i (set ps) (fold (fix_tree_step C epoch now i prev) ps b)"
    "incumbent_inv C epoch now i prev (set ps) (fold (fix_tree_step C epoch now i prev) ps b)"
proof -
  have "best_inv C epoch now i {} b" "incumbent_inv C epoch now i prev {} b" by (simp_all add: b_def best_inv_def incumbent_inv_def)
  from scan_inv_fold[OF this, of ps] show "best_inv C epoch now i (set ps) (fold (fix_tree_step C epoch now i prev) ps b)"
    "incumbent_inv C epoch now i prev (set ps) (fold (fix_tree_step C epoch now i prev) ps b)" by simp_all
qed

lemma tree_scan_None:
  assumes "tb_root_metric (tree_scan C epoch now i rs) = None"
  shows "\<forall>x \<in> set (rs_peers rs). \<forall>ann. \<not> tree_cand now i x ann"
proof -
  define prev where "prev = ts_parent (rs_trees rs ! i)"
  define b where "b = fold (fix_tree_step C epoch now i prev) (rs_peers rs)
    \<lparr>tb_root = None, tb_root_metric = None, tb_cost = - 1, tb_parent = None, tb_incumbent = None\<rparr>"
  have "best_inv C epoch now i (set (rs_peers rs)) b" unfolding b_def by (rule scan_inv)
  moreover have "tb_root_metric b = None"
    using assms unfolding tree_scan_def prev_def[symmetric] Let_def b_def[symmetric] keep_incumbent_def
    by (auto split: option.splits prod.splits if_splits)
  ultimately show ?thesis by (simp add: best_inv_def)
qed

text \<open>The result of the scan: a candidate for the least metric, within the margin of the cheapest one.\<close>

lemma le_saturating_add: "a \<le> saturating_add a b"
proof -
  have "a \<le> a + b" if "unat a + unat b < 2 ^ LENGTH('a)" for a b :: "'a::len word"
    using that by (simp add: word_le_nat_alt unat_word_ariths)
  then show ?thesis by (simp add: saturating_add_def)
qed

lemma saturating_add_mono: "a \<le> a' \<Longrightarrow> saturating_add a b \<le> saturating_add a' (b :: 'a::len word)"
proof -
  assume a: "a \<le> a'"
  have u: "unat (x + y) = unat x + unat y" if "unat x + unat y < 2 ^ LENGTH('a)" for x y :: "'a word"
    using that by (simp add: unat_word_ariths)
  show ?thesis using a u[of a b] u[of a' b] word_n1_ge[of "a + b"] by (auto simp: saturating_add_def word_le_nat_alt)
qed

lemma tree_scan_Some:
  assumes "tb_root_metric (tree_scan C epoch now i rs) = Some r"
  obtains x ann where "x \<in> set (rs_peers rs)" "tree_cand now i x ann" "tb_parent (tree_scan C epoch now i rs) = Some (fst x)"
    "r = cand_metric C epoch i ann" "tb_cost (tree_scan C epoch now i rs) = cand_cost x ann"
    "\<exists>a. tb_root (tree_scan C epoch now i rs) = Some (ta_root a) \<and> r = cand_metric C epoch i a"
    "\<And>y a. y \<in> set (rs_peers rs) \<Longrightarrow> tree_cand now i y a \<Longrightarrow> r \<le> cand_metric C epoch i a \<and>
       (r = cand_metric C epoch i a \<longrightarrow> cand_cost x ann \<le> saturating_add (cand_cost y a) PARENT_SWITCH_MARGIN_US)"
proof -
  define prev where "prev = ts_parent (rs_trees rs ! i)"
  define b where "b = fold (fix_tree_step C epoch now i prev) (rs_peers rs)
    \<lparr>tb_root = None, tb_root_metric = None, tb_cost = - 1, tb_parent = None, tb_incumbent = None\<rparr>"
  have inv: "best_inv C epoch now i (set (rs_peers rs)) b" "incumbent_inv C epoch now i prev (set (rs_peers rs)) b"
    unfolding b_def by (rule scan_inv)+
  have s: "tree_scan C epoch now i rs = keep_incumbent prev b" by (simp add: tree_scan_def prev_def b_def Let_def)
  have rm: "tb_root_metric b = Some r"
    using assms unfolding s keep_incumbent_def by (auto split: option.splits prod.splits if_splits)
  obtain x ann where x: "x \<in> set (rs_peers rs)" "tree_cand now i x ann" "tb_parent b = Some (fst x)" "tb_root b = Some (ta_root ann)"
    "r = cand_metric C epoch i ann" "tb_cost b = cand_cost x ann"
    using inv(1) unfolding best_inv_def rm option.case by blast
  have least: "r \<le> cand_metric C epoch i a" "r = cand_metric C epoch i a \<longrightarrow> tb_cost b \<le> cand_cost y a"
    if "y \<in> set (rs_peers rs)" "tree_cand now i y a" for y a
    using inv(1) that unfolding best_inv_def rm option.case by blast+
  have root: "\<exists>a. tb_root (keep_incumbent prev b) = Some (ta_root a) \<and> r = cand_metric C epoch i a"
    using x(4,5) by (auto simp: keep_incumbent_def split: option.splits prod.splits)
  show ?thesis
  proof (cases "keep_incumbent prev b = b")
    case True
    show ?thesis
    proof (rule that[unfolded s, OF x(1,2) _ x(5) _ root])
      show "r \<le> cand_metric C epoch i a \<and> (r = cand_metric C epoch i a \<longrightarrow> cand_cost x ann \<le> saturating_add (cand_cost y a) PARENT_SWITCH_MARGIN_US)"
        if "y \<in> set (rs_peers rs)" "tree_cand now i y a" for y a
        using least[OF that] le_saturating_add order_trans unfolding x(6) by blast
    qed (use x True in simp_all)
  next
    case False
    then obtain c where c: "tb_incumbent b = Some (r, c)" "c \<le> saturating_add (tb_cost b) PARENT_SWITCH_MARGIN_US"
      "keep_incumbent prev b = b\<lparr>tb_parent := prev, tb_cost := c\<rparr>"
      using rm by (auto simp: keep_incumbent_def split: option.splits prod.splits if_splits)
    obtain z a' where z: "z \<in> set (rs_peers rs)" "tree_cand now i z a'" "prev = Some (fst z)" "r = cand_metric C epoch i a'" "c = cand_cost z a'"
      using inv(2) c(1) unfolding incumbent_inv_def by blast
    show ?thesis
    proof (rule that[unfolded s, OF z(1,2) _ z(4) _ root])
      show "r \<le> cand_metric C epoch i a \<and> (r = cand_metric C epoch i a \<longrightarrow> cand_cost z a' \<le> saturating_add (cand_cost y a) PARENT_SWITCH_MARGIN_US)"
        if "y \<in> set (rs_peers rs)" "tree_cand now i y a" for y a
        using least[OF that] saturating_add_mono[of "tb_cost b" "cand_cost y a" PARENT_SWITCH_MARGIN_US] c(2) order_trans unfolding z(5) by blast
    qed (use c z in simp_all)
  qed
qed

section \<open>Election\<close>

text \<open>What parent selection promises of the tree state it leaves, in terms of the candidates alone: the root has the least metric of the node
  itself and all announced roots; a node without parent is its own root at cost zero; a parent announces a root of that
  metric, the cost is the announced cost plus the link's, and no candidate for the same root is cheaper by more than the
  switching margin.\<close>

definition elected :: "crypto \<Rightarrow> u64 \<Rightarrow> instant \<Rightarrow> nat \<Rightarrow> PeerId \<Rightarrow> (PeerId \<times> 'c PeerData) set \<Rightarrow> TreeState \<Rightarrow> bool" where
  "elected C epoch now i me peers t \<longleftrightarrow>
     (let metric = (\<lambda>root. tree_metric_at C root (TREE_SEEDS ! i) epoch) in
      metric (ts_root t) \<le> metric me \<and>
      (\<forall>x \<in> peers. \<forall>ann. tree_cand now i x ann \<longrightarrow> metric (ts_root t) \<le> metric (ta_root ann)) \<and>
      (case ts_parent t of
         None \<Rightarrow> ts_root t = me \<and> ts_parent_cost t = 0
       | Some k \<Rightarrow> \<exists>x \<in> peers. \<exists>ann. fst x = k \<and> tree_cand now i x ann \<and> metric (ta_root ann) = metric (ts_root t) \<and>
           ts_parent_cost t = cand_cost x ann \<and>
           (\<forall>y \<in> peers. \<forall>a. tree_cand now i y a \<and> metric (ta_root a) = metric (ts_root t) \<longrightarrow>
              ts_parent_cost t \<le> saturating_add (cand_cost y a) PARENT_SWITCH_MARGIN_US)))"

lemma fix_tree_state:
  fixes C :: crypto and s :: nat and now :: instant
  assumes "i < length (rs_trees rs)"
  defines "b \<equiv> tree_scan C (current_tree_epoch s) now i rs"
  defines "use_self \<equiv> (case tb_root_metric b of None \<Rightarrow> True
           | Some br \<Rightarrow> metric_less (tree_metric_at C (rs_pub_key rs) (TREE_SEEDS ! i) (current_tree_epoch s)) br)"
  shows "rs_trees (fix_tree C s now i rs) = (rs_trees rs)[i :=
    (if use_self then (rs_trees rs ! i)\<lparr>ts_parent := None, ts_root := rs_pub_key rs, ts_parent_cost := 0, ts_root_seq := ts_root_seq (rs_trees rs ! i) + 1\<rparr>
     else (rs_trees rs ! i)\<lparr>ts_parent := tb_parent b, ts_root := the (tb_root b), ts_parent_cost := tb_cost b\<rparr>)]"
proof -
  have d: "rs_trees (case z of None \<Rightarrow> r | Some a \<Rightarrow> r\<lparr>rs_own_depth := f a\<rparr>) = rs_trees r" for z :: "TreeAnnounce option" and r :: "'b RouterState" and f
    by (cases z) simp_all
  show ?thesis
    unfolding fix_tree_def Let_def b_def[symmetric] use_self_def[symmetric]
    by (cases use_self; cases "i = 0") (simp_all add: d upd_tree_def)
qed

lemma fix_tree_elected:
  assumes "i < length (rs_trees rs)"
  shows "elected C (current_tree_epoch s) now i (rs_pub_key rs) (set (rs_peers rs)) (rs_trees (fix_tree C s now i rs) ! i)"
proof -
  define ep where "ep = current_tree_epoch s"
  define b where "b = tree_scan C ep now i rs"
  let ?my = "tree_metric_at C (rs_pub_key rs) (TREE_SEEDS ! i) ep"
  show ?thesis
  proof (cases "tb_root_metric b")
    case None
    then have "\<forall>x \<in> set (rs_peers rs). \<forall>ann. \<not> tree_cand now i x ann" unfolding b_def by (rule tree_scan_None)
    then show ?thesis using None assms by (simp add: fix_tree_state elected_def Let_def b_def ep_def)
  next
    case (Some r)
    obtain x ann where x: "x \<in> set (rs_peers rs)" "tree_cand now i x ann" "tb_parent b = Some (fst x)" "r = cand_metric C ep i ann" "tb_cost b = cand_cost x ann"
      "\<exists>a. tb_root b = Some (ta_root a) \<and> r = cand_metric C ep i a"
      "\<And>y a. y \<in> set (rs_peers rs) \<Longrightarrow> tree_cand now i y a \<Longrightarrow> r \<le> cand_metric C ep i a \<and>
         (r = cand_metric C ep i a \<longrightarrow> cand_cost x ann \<le> saturating_add (cand_cost y a) PARENT_SWITCH_MARGIN_US)"
      using tree_scan_Some[OF Some[unfolded b_def]] unfolding b_def by blast
    show ?thesis
    proof (cases "metric_less ?my r")
      case True
      then have "?my \<le> cand_metric C ep i a" if "y \<in> set (rs_peers rs)" "tree_cand now i y a" for y a
        using x(7)[OF that] unfolding metric_less_def by (meson less_imp_le less_le_trans)
      then show ?thesis using True Some assms by (simp add: fix_tree_state elected_def Let_def b_def ep_def cand_metric_def)
    next
      case False
      then have le: "r \<le> ?my" by (simp add: metric_less_def not_less)
      obtain a where a: "tb_root b = Some (ta_root a)" "r = cand_metric C ep i a" using x(6) by blast
      have t: "ts_parent (rs_trees (fix_tree C s now i rs) ! i) = Some (fst x)" "ts_root (rs_trees (fix_tree C s now i rs) ! i) = ta_root a"
        "ts_parent_cost (rs_trees (fix_tree C s now i rs) ! i) = cand_cost x ann"
        using False Some assms x(3,5) a(1) by (simp_all add: fix_tree_state b_def ep_def)
      have r: "tree_metric_at C (ta_root a) (TREE_SEEDS ! i) ep = r" using a(2) by (simp add: cand_metric_def)
      have least: "\<forall>y \<in> set (rs_peers rs). \<forall>a. tree_cand now i y a \<longrightarrow> r \<le> tree_metric_at C (ta_root a) (TREE_SEEDS ! i) ep"
        using x(7) unfolding cand_metric_def by blast
      have cheap: "\<forall>y \<in> set (rs_peers rs). \<forall>a. tree_cand now i y a \<and> tree_metric_at C (ta_root a) (TREE_SEEDS ! i) ep = r \<longrightarrow>
          cand_cost x ann \<le> saturating_add (cand_cost y a) PARENT_SWITCH_MARGIN_US"
        using x(7) unfolding cand_metric_def by blast
      have par: "tree_metric_at C (ta_root ann) (TREE_SEEDS ! i) ep = r" using x(4) by (simp add: cand_metric_def)
      show ?thesis
        unfolding elected_def t Let_def ep_def[symmetric] r option.case using le least cheap par x(1,2) by blast
    qed
  qed
qed

section \<open>Cadence\<close>

lemma send_announces_view [simp]: "node_view (send_announces E now i rs) = node_view rs"
  by (simp add: send_announces_def Let_def)

lemma broadcast_coord_view [simp]: "node_view (broadcast_coord E now rs) = node_view rs"
  by (simp add: broadcast_coord_def Let_def)

lemma announces_view [simp]: "node_view (fold (send_announces E now) is rs) = node_view rs"
  by (induction "is" arbitrary: rs) simp_all

lemmas announce_fields [simp] =
  node_view_eqD[OF send_announces_view] node_view_eqD[OF broadcast_coord_view] node_view_eqD[OF announces_view]

lemma control_digest_view: "node_view rs = node_view rs' \<Longrightarrow> control_digest rs = control_digest rs'"
  by (simp add: control_digest_def node_view_eqD[of rs rs'])

lemma control_interval_range:
  "1 \<le> i \<Longrightarrow> i \<le> 8 \<Longrightarrow> 1 \<le> min (i + 1) CONTROL_MAX_INTERVAL \<and> min (i + 1) CONTROL_MAX_INTERVAL \<le> (8 :: u32)"
proof -
  assume i: "1 \<le> i" "i \<le> (8 :: u32)"
  have "unat i \<le> 8" "1 \<le> unat i" using i by (simp_all add: word_le_nat_alt)
  then have "unat (i + 1) = unat i + 1" by (simp add: unat_word_ariths)
  then show ?thesis using i by (auto simp: CONTROL_MAX_INTERVAL_def min_def word_le_nat_alt)
qed

lemma maybe_broadcast_cases:
  fixes rs :: "'c RouterState"
  defines "changed \<equiv> rs_last_control_digest rs \<noteq> Some (control_digest rs)"
  defines "active \<equiv> changed \<or> convergence_active rs"
  shows "rs_tick (maybe_broadcast_control E now rs) = rs_tick rs \<and> rs_trees (maybe_broadcast_control E now rs) = rs_trees rs \<and>
    rs_last_control_digest (maybe_broadcast_control E now rs) = Some (control_digest rs) \<and>
    rs_control_interval (maybe_broadcast_control E now rs) =
      (if active then CONTROL_MIN_INTERVAL else min (rs_control_interval rs + 1) CONTROL_MAX_INTERVAL) \<and>
    rs_last_control_tick (maybe_broadcast_control E now rs) =
      (if active \<or> min (rs_control_interval rs + 1) CONTROL_MAX_INTERVAL \<le> rs_tick rs - rs_last_control_tick rs then rs_tick rs
       else rs_last_control_tick rs)"
proof -
  have "control_digest (rs\<lparr>rs_last_topology_change_tick := t\<rparr>) = control_digest rs" for t by (simp add: control_digest_def)
  moreover have "convergence_active (rs\<lparr>rs_last_topology_change_tick := rs_tick rs\<rparr>)" by (simp add: convergence_active_def CONVERGENCE_GRACE_TICKS_def)
  ultimately show ?thesis
    unfolding maybe_broadcast_control_def Let_def active_def changed_def
    by (cases "rs_last_control_digest rs = Some (control_digest rs)"; cases "convergence_active rs") simp_all
qed

section \<open>Properties\<close>

text \<open>C21. Parent selection implements the election. For every tree, clock and table of peers, the tree state that \<^verbatim>\<open>fix_tree\<close> leaves satisfies the
  specification \<^const>\<open>elected\<close>: the root of least metric among the node and all unexpired announcements, the node itself when it has
  no parent, and otherwise a parent that announces that root at a cost within the hysteresis margin of the cheapest one. The other
  trees and the peers are unchanged.\<close>

theorem tree_election:
  assumes "i < length (rs_trees rs)"
  shows "elected C (current_tree_epoch s) now i (rs_pub_key rs) (set (rs_peers rs)) (rs_trees (fix_tree C s now i rs) ! i) \<and>
    (\<forall>j. j \<noteq> i \<longrightarrow> rs_trees (fix_tree C s now i rs) ! j = rs_trees rs ! j) \<and>
    length (rs_trees (fix_tree C s now i rs)) = length (rs_trees rs)"
  using fix_tree_elected[OF assms, of C s now] fix_tree_state[OF assms, of C s now] by simp

theorem tree_election_witness:
  "elected ex (current_tree_epoch 100000) 0 1 (rs_pub_key (ex_two_peers [5])) (set (rs_peers (ex_two_peers [5])))
     (rs_trees (fix_tree ex 100000 0 1 (ex_two_peers [5])) ! 1)"
proof -
  have "1 < length (rs_trees (ex_two_peers [5]))"
    by (simp add: ex_two_peers_def ex_router_def RouterState_new_def K_def Let_def)
  then show ?thesis using tree_election[of 1 "ex_two_peers [5]" ex 100000 0] by blast
qed

text \<open>Adaptive cadence. From an interval of one to eight ticks, a step of the cadence leaves one in the same range and a last broadcast less than
  eight ticks ago, so a neighbour's announcement, valid for thirty seconds, is refreshed before it expires at a tick per second; a changed digest or a
  recent topology change broadcasts at once and resets the interval, and the digest on record is always the current one.\<close>

theorem control_cadence:
  fixes E :: "'c env" and now :: instant
  assumes "1 \<le> rs_control_interval rs" "rs_control_interval rs \<le> 8"
  defines "rs' \<equiv> maybe_broadcast_control E now rs"
  shows "1 \<le> rs_control_interval rs' \<and> rs_control_interval rs' \<le> 8 \<and> rs_tick rs' - rs_last_control_tick rs' < 8 \<and>
    (8 * 10 ^ 9 < ANNOUNCE_EXPIRY) \<and> rs_last_control_digest rs' = Some (control_digest rs') \<and>
    (rs_last_control_digest rs \<noteq> Some (control_digest rs) \<or> convergence_active rs \<longrightarrow>
       rs_last_control_tick rs' = rs_tick rs \<and> rs_control_interval rs' = 1)"
proof -
  let ?i = "min (rs_control_interval rs + 1) CONTROL_MAX_INTERVAL"
  note c = maybe_broadcast_cases[of E now rs, folded rs'_def]
  have r: "1 \<le> ?i" "?i \<le> 8" using control_interval_range[OF assms(1,2)] by blast+
  have d: "control_digest rs' = control_digest rs"
    unfolding rs'_def maybe_broadcast_control_def Let_def by (simp add: control_digest_def convergence_active_def)
  have "rs_tick rs - rs_last_control_tick rs < 8" if "\<not> ?i \<le> rs_tick rs - rs_last_control_tick rs"
    using that r(2) by (meson less_le_trans not_less)
  then show ?thesis using c r d by (auto simp: CONTROL_MIN_INTERVAL_def ANNOUNCE_EXPIRY_def)
qed

theorem control_cadence_witness:
  "rs_control_interval (maybe_broadcast_control ex_env 0 (ex_router [1])) = 1 \<and>
   rs_last_control_digest (maybe_broadcast_control ex_env 0 (ex_router [1])) = Some (control_digest (maybe_broadcast_control ex_env 0 (ex_router [1])))"
proof -
  have "1 \<le> rs_control_interval (ex_router [1])" "rs_control_interval (ex_router [1]) \<le> 8"
    "rs_last_control_digest (ex_router [1]) = None"
    by (simp_all add: ex_router_def RouterState_new_def Let_def CONTROL_MIN_INTERVAL_def)
  then show ?thesis using control_cadence[of "ex_router [1]" ex_env 0] by simp
qed

end
