(* ===== verification/Sphinx.thy ===== *)
theory Sphinx
  imports Onion
begin

text \<open>
  The fixed-size onion of \<^verbatim>\<open>src/src/sphinx.rs\<close>: a cell of 1280 bytes that keeps its layout at every hop. The routing header is kept at a
  constant size by a filler computed in advance, the payload is wrapped in a LIONESS wide-block cipher per hop. The random bytes are the
  record \<open>sphinx_rnd\<close>: the ephemeral keys, the header tail, the unused part of the exit's entry and the payload padding.
\<close>

unbundle bit_operations_syntax

section \<open>Layout\<close>

definition TYPE_ONION_SPHINX :: u8 where "TYPE_ONION_SPHINX = 16"
definition MAX_HOPS :: nat where "MAX_HOPS = 5"
definition EPK_LEN :: nat where "EPK_LEN = 32"
definition TAG_LEN :: nat where "TAG_LEN = 16"
definition MAC_LEN :: nat where "MAC_LEN = 16"
definition FLAGS_LEN :: nat where "FLAGS_LEN = 1"
definition HOP_PAYLOAD :: nat where "HOP_PAYLOAD = FLAGS_LEN + TAG_LEN + EPK_LEN"
definition PER_HOP :: nat where "PER_HOP = HOP_PAYLOAD + MAC_LEN"
definition BETA_LEN :: nat where "BETA_LEN = PER_HOP * MAX_HOPS"
definition HEADER_LEN :: nat where "HEADER_LEN = EPK_LEN + MAC_LEN + BETA_LEN"
definition CELL_SIZE :: nat where "CELL_SIZE = ONION_CELL_SIZE"
definition PAYLOAD_LEN :: nat where "PAYLOAD_LEN = CELL_SIZE - 1 - TAG_LEN - HEADER_LEN"
definition FLAG_FORWARD :: u8 where "FLAG_FORWARD = 0"
definition FLAG_EXIT :: u8 where "FLAG_EXIT = 1"
definition OFF_TAG :: nat where "OFF_TAG = 1"
definition OFF_EPK :: nat where "OFF_EPK = OFF_TAG + TAG_LEN"
definition OFF_GAMMA :: nat where "OFF_GAMMA = OFF_EPK + EPK_LEN"
definition OFF_BETA :: nat where "OFF_BETA = OFF_GAMMA + MAC_LEN"
definition OFF_PAYLOAD :: nat where "OFF_PAYLOAD = OFF_BETA + BETA_LEN"
definition MAX_TRAFFIC_LEN :: nat where "MAX_TRAFFIC_LEN = PAYLOAD_LEN - 2"

lemma layout [simp]:
  "EPK_LEN = 32" "TAG_LEN = 16" "MAC_LEN = 16" "FLAGS_LEN = 1" "HOP_PAYLOAD = 49" "PER_HOP = 65" "BETA_LEN = 325" "CELL_SIZE = 1280"
  "PAYLOAD_LEN = 890" "OFF_TAG = 1" "OFF_EPK = 17" "OFF_GAMMA = 49" "OFF_BETA = 65" "OFF_PAYLOAD = 390" "MAX_TRAFFIC_LEN = 888" "MAX_HOPS = 5"
  by (simp_all add: EPK_LEN_def TAG_LEN_def MAC_LEN_def FLAGS_LEN_def HOP_PAYLOAD_def PER_HOP_def BETA_LEN_def CELL_SIZE_def ONION_CELL_SIZE_def
    PAYLOAD_LEN_def OFF_TAG_def OFF_EPK_def OFF_GAMMA_def OFF_BETA_def OFF_PAYLOAD_def MAX_TRAFFIC_LEN_def MAX_HOPS_def HEADER_LEN_def)

record SphinxHop =
  sh_routing_tag :: bytes
  sh_onion_pub :: bytes

datatype SphinxPeeled = SphinxForward bytes bytes | SphinxDeliver bytes

section \<open>Key schedule and ciphers\<close>

definition kdf :: "crypto \<Rightarrow> bytes \<Rightarrow> bytes \<Rightarrow> bytes" where
  "kdf C label s = blake2b C 32 (label @ s)"

definition rho_key :: "crypto \<Rightarrow> bytes \<Rightarrow> bytes" where "rho_key C s = kdf C (ascii ''norn-sphinx:rho:v1'') s"
definition mu_key :: "crypto \<Rightarrow> bytes \<Rightarrow> bytes" where "mu_key C s = kdf C (ascii ''norn-sphinx:mu:v1'') s"

definition lioness_keys :: "crypto \<Rightarrow> bytes \<Rightarrow> bytes list" where
  "lioness_keys C s =
     [kdf C (ascii ''norn-sphinx:lion1:v1'') s, kdf C (ascii ''norn-sphinx:lion2:v1'') s,
      kdf C (ascii ''norn-sphinx:lion3:v1'') s, kdf C (ascii ''norn-sphinx:lion4:v1'') s]"

definition chacha_apply :: "crypto \<Rightarrow> bytes \<Rightarrow> bytes \<Rightarrow> bytes" where
  "chacha_apply C key buf = chacha20_xor C key (replicate 12 0) buf"

definition chacha_keystream :: "crypto \<Rightarrow> bytes \<Rightarrow> nat \<Rightarrow> bytes" where
  "chacha_keystream C key n = chacha_apply C key (replicate n 0)"

definition mac16 :: "crypto \<Rightarrow> bytes \<Rightarrow> bytes \<Rightarrow> bytes" where "mac16 C key msg = blake2b_mac C 16 key msg"
definition mac32 :: "crypto \<Rightarrow> bytes \<Rightarrow> bytes \<Rightarrow> bytes" where "mac32 C key msg = blake2b_mac C 32 key msg"

definition LIONESS_L :: nat where "LIONESS_L = 32"

definition xor_into :: "bytes \<Rightarrow> bytes \<Rightarrow> bytes" where
  "xor_into dst src = map2 (XOR) dst src @ drop (length src) dst"

definition xor32 :: "bytes \<Rightarrow> bytes \<Rightarrow> bytes" where
  "xor32 a b = map (\<lambda>i. a ! i XOR b ! i) [0..<32]"

definition lioness_encrypt :: "crypto \<Rightarrow> bytes \<Rightarrow> bytes \<Rightarrow> bytes" where
  "lioness_encrypt C s buf =
     (let k = lioness_keys C s;
          l = take LIONESS_L buf;
          r = drop LIONESS_L buf;
          r = xor_into r (chacha_keystream C (xor32 l (k ! 0)) (length r));
          l = xor_into l (mac32 C (k ! 1) r);
          r = xor_into r (chacha_keystream C (xor32 l (k ! 2)) (length r));
          l = xor_into l (mac32 C (k ! 3) r) in
      l @ r)"

definition lioness_decrypt :: "crypto \<Rightarrow> bytes \<Rightarrow> bytes \<Rightarrow> bytes" where
  "lioness_decrypt C s buf =
     (let k = lioness_keys C s;
          l = take LIONESS_L buf;
          r = drop LIONESS_L buf;
          l = xor_into l (mac32 C (k ! 3) r);
          r = xor_into r (chacha_keystream C (xor32 l (k ! 2)) (length r));
          l = xor_into l (mac32 C (k ! 1) r);
          r = xor_into r (chacha_keystream C (xor32 l (k ! 0)) (length r)) in
      l @ r)"

definition x25519_shared :: "crypto \<Rightarrow> bytes \<Rightarrow> bytes \<Rightarrow> bytes" where
  "x25519_shared C local remote_pub = x25519_dh C local remote_pub"

section \<open>Construction\<close>

record sphinx_rnd =
  sr_eph :: "nat \<Rightarrow> bytes"
  sr_beta :: "nat \<Rightarrow> u8"
  sr_exit :: "nat \<Rightarrow> u8"
  sr_pad :: "nat \<Rightarrow> u8"

definition filler_step :: "crypto \<Rightarrow> bytes \<Rightarrow> bytes \<Rightarrow> bytes" where
  "filler_step C s filler =
     (let filler = filler @ replicate PER_HOP 0;
          stream = chacha_keystream C (rho_key C s) (BETA_LEN + PER_HOP);
          l = length filler in
      xor_into filler (drop (BETA_LEN + PER_HOP - l) stream))"

text \<open>One round of the loop that builds the header back to front; the state is the header and the code of the next hop.\<close>

definition sphinx_layer ::
  "crypto \<Rightarrow> sphinx_rnd \<Rightarrow> SphinxHop list \<Rightarrow> bytes list \<Rightarrow> bytes list \<Rightarrow> bytes \<Rightarrow> nat \<Rightarrow> bytes \<times> bytes \<Rightarrow> bytes \<times> bytes" where
  "sphinx_layer C rnd hops epks secrets filler i = (\<lambda>(beta, mac_acc).
     let nu = length hops;
         hop_payload = (if i = nu - 1 then FLAG_EXIT # map (sr_exit rnd) [0..<HOP_PAYLOAD - 1]
                        else FLAG_FORWARD # sh_routing_tag (hops ! (i + 1)) @ epks ! (i + 1));
         newbeta = hop_payload @ mac_acc @ take (BETA_LEN - PER_HOP) beta;
         stream = chacha_keystream C (rho_key C (secrets ! i)) BETA_LEN;
         newbeta = xor_into newbeta stream;
         newbeta = (if i = nu - 1 \<and> filler \<noteq> [] then take (BETA_LEN - length filler) newbeta @ filler else newbeta) in
     (newbeta, mac16 C (mu_key C (secrets ! i)) newbeta))"

definition build_sphinx :: "crypto \<Rightarrow> sphinx_rnd \<Rightarrow> SphinxHop list \<Rightarrow> bytes \<Rightarrow> bytes result" where
  "build_sphinx C rnd hops traffic =
     (let nu = length hops in
      if nu = 0 \<or> MAX_HOPS < nu then Inl (Bail ''sphinx build: hop count'')
      else if MAX_TRAFFIC_LEN < length traffic then Inl (Bail ''sphinx build: traffic'')
      else
        let epks = map (\<lambda>i. x25519_pub_of C (sr_eph rnd i)) [0..<nu];
            secrets = map (\<lambda>i. x25519_shared C (sr_eph rnd i) (sh_onion_pub (hops ! i))) [0..<nu];
            filler = fold (filler_step C) (take (nu - 1) secrets) [];
            (beta, mac_acc) = fold (sphinx_layer C rnd hops epks secrets filler) (rev [0..<nu])
              (map (sr_beta rnd) [0..<BETA_LEN], replicate MAC_LEN 0);
            payload = le_bytes 2 (of_nat (length traffic) :: u16) @ traffic @ map (sr_pad rnd) [0..<PAYLOAD_LEN - 2 - length traffic];
            payload = fold (lioness_encrypt C) (rev (take nu secrets)) payload in
        Inr (TYPE_ONION_SPHINX # sh_routing_tag (hops ! 0) @ epks ! 0 @ mac_acc @ beta @ payload))"

section \<open>Processing\<close>

definition process_sphinx :: "crypto \<Rightarrow> bytes \<Rightarrow> bytes list \<Rightarrow> SphinxPeeled result" where
  "process_sphinx C cell onion_privs =
     (if length cell \<noteq> CELL_SIZE then Inl (Bail ''sphinx process: cell size'')
      else if cell ! 0 \<noteq> TYPE_ONION_SPHINX then Inl (Bail ''sphinx process: wrong type byte'')
      else
        let epk = take EPK_LEN (drop OFF_EPK cell);
            gamma = take MAC_LEN (drop OFF_GAMMA cell);
            beta = take BETA_LEN (drop OFF_BETA cell);
            payload = drop OFF_PAYLOAD cell in
        case find (\<lambda>s. mac16 C (mu_key C s) beta = gamma) (map (\<lambda>priv. x25519_shared C priv epk) onion_privs) of
          None \<Rightarrow> Inl (Bail ''sphinx process: MAC mismatch (not for us)'')
        | Some s \<Rightarrow>
            let b = beta @ replicate PER_HOP 0;
                stream = chacha_keystream C (rho_key C s) (BETA_LEN + PER_HOP);
                b = xor_into b stream;
                flags = b ! 0;
                next_tag = take TAG_LEN (drop FLAGS_LEN b);
                next_epk = take (HOP_PAYLOAD - (FLAGS_LEN + TAG_LEN)) (drop (FLAGS_LEN + TAG_LEN) b);
                next_mac = take (PER_HOP - HOP_PAYLOAD) (drop HOP_PAYLOAD b);
                beta2 = take BETA_LEN (drop PER_HOP b);
                pl = lioness_decrypt C s payload in
            if flags = FLAG_EXIT then
              (let orig_len = unat (from_le [pl ! 0, pl ! 1] :: u16) in
               if length pl < 2 + orig_len then Inl (Bail ''sphinx process: bad inner payload length'')
               else Inr (SphinxDeliver (take orig_len (drop 2 pl))))
            else if flags = FLAG_FORWARD then
              Inr (SphinxForward next_tag (TYPE_ONION_SPHINX # next_tag @ next_epk @ next_mac @ beta2 @ pl))
            else Inl (Bail ''sphinx process: unknown flags byte''))"

definition replay_digest :: "crypto \<Rightarrow> bytes \<Rightarrow> bytes option" where
  "replay_digest C cell =
     (if length cell \<noteq> CELL_SIZE then None
      else Some (blake2b C 32 (ascii ''norn:sphinx-replay'' @ take EPK_LEN (drop OFF_EPK cell) @ take 16 (drop OFF_BETA cell))))"

section \<open>Ciphers\<close>

declare upt_rec_numeral [simp del]

lemma length_xor_into [simp]: "length (xor_into d s) = length d"
  by (simp add: xor_into_def)

lemma nth_xor: "i < length d \<Longrightarrow> xor_into d s ! i = (if i < length s then d ! i XOR s ! i else d ! i)"
  by (auto simp: xor_into_def nth_append)

lemma nth_xor_into: "i < length d \<Longrightarrow> length d \<le> length s \<Longrightarrow> xor_into d s ! i = d ! i XOR s ! i"
  by (simp add: nth_xor)

lemma xor_into_twice [simp]: "xor_into (xor_into d s) s = d"
  by (rule nth_equalityI) (simp_all add: nth_xor xor.assoc)

text \<open>The byte of the key stream at a position.\<close>

definition key_byte :: "crypto \<Rightarrow> bytes \<Rightarrow> nat \<Rightarrow> u8" where
  "key_byte C key i = chacha_keystream C key (Suc i) ! i"

lemma keystream_eq: "chacha_stream C \<Longrightarrow> chacha_keystream C key n = map (key_byte C key) [0..<n]"
proof -
  assume "chacha_stream C"
  then obtain ks where ks: "\<And>k m d. chacha20_xor C k m d = map2 (XOR) d (map (ks k m) [0..<length d])"
    unfolding chacha_stream_def by blast
  have stream: "chacha_keystream C key n = map (ks key (replicate 12 0)) [0..<n]" for n
    by (rule nth_equalityI) (simp_all add: chacha_keystream_def chacha_apply_def ks)
  show ?thesis by (rule nth_equalityI) (simp_all add: stream key_byte_def del: upt_Suc)
qed

lemma lioness_decrypt_encrypt: "chacha_stream C \<Longrightarrow> 32 \<le> length buf \<Longrightarrow> lioness_decrypt C s (lioness_encrypt C s buf) = buf"
  by (simp add: lioness_decrypt_def lioness_encrypt_def Let_def LIONESS_L_def)

lemma length_lioness [simp]: "length (lioness_encrypt C s buf) = length buf"
  by (simp add: lioness_encrypt_def Let_def)

section \<open>The header\<close>

definition sphinx_epks :: "crypto \<Rightarrow> sphinx_rnd \<Rightarrow> SphinxHop list \<Rightarrow> bytes list" where
  "sphinx_epks C rnd hops = map (\<lambda>i. x25519_pub_of C (sr_eph rnd i)) [0..<length hops]"

definition sphinx_secrets :: "crypto \<Rightarrow> sphinx_rnd \<Rightarrow> SphinxHop list \<Rightarrow> bytes list" where
  "sphinx_secrets C rnd hops = map (\<lambda>i. x25519_shared C (sr_eph rnd i) (sh_onion_pub (hops ! i))) [0..<length hops]"

definition sphinx_filler :: "crypto \<Rightarrow> sphinx_rnd \<Rightarrow> SphinxHop list \<Rightarrow> nat \<Rightarrow> bytes" where
  "sphinx_filler C rnd hops i = fold (filler_step C) (take i (sphinx_secrets C rnd hops)) []"

text \<open>The header and its code as hop number \<open>i\<close> gets them.\<close>

definition sphinx_header :: "crypto \<Rightarrow> sphinx_rnd \<Rightarrow> SphinxHop list \<Rightarrow> nat \<Rightarrow> bytes \<times> bytes" where
  "sphinx_header C rnd hops i =
     fold (sphinx_layer C rnd hops (sphinx_epks C rnd hops) (sphinx_secrets C rnd hops) (sphinx_filler C rnd hops (length hops - 1)))
       (rev [i..<length hops]) (map (sr_beta rnd) [0..<BETA_LEN], replicate MAC_LEN 0)"

abbreviation sphinx_beta :: "crypto \<Rightarrow> sphinx_rnd \<Rightarrow> SphinxHop list \<Rightarrow> nat \<Rightarrow> bytes" where
  "sphinx_beta C rnd hops i \<equiv> fst (sphinx_header C rnd hops i)"

abbreviation sphinx_mac :: "crypto \<Rightarrow> sphinx_rnd \<Rightarrow> SphinxHop list \<Rightarrow> nat \<Rightarrow> bytes" where
  "sphinx_mac C rnd hops i \<equiv> snd (sphinx_header C rnd hops i)"

definition header_key :: "crypto \<Rightarrow> sphinx_rnd \<Rightarrow> SphinxHop list \<Rightarrow> nat \<Rightarrow> bytes" where
  "header_key C rnd hops i = rho_key C (sphinx_secrets C rnd hops ! i)"

lemma length_secrets [simp]: "length (sphinx_secrets C rnd hops) = length hops"
  by (simp add: sphinx_secrets_def)

lemma filler_Suc: "i < length hops \<Longrightarrow> sphinx_filler C rnd hops (Suc i) = filler_step C (sphinx_secrets C rnd hops ! i) (sphinx_filler C rnd hops i)"
  by (simp add: sphinx_filler_def take_Suc_conv_app_nth)

lemma length_filler: "i \<le> length hops \<Longrightarrow> length (sphinx_filler C rnd hops i) = 65 * i"
proof (induction i)
  case (Suc i)
  then show ?case by (simp add: filler_Suc filler_step_def Let_def)
qed (simp add: sphinx_filler_def)

lemma nth_filler:
  assumes "chacha_stream C" "i < length hops" "i < 5" "j < 65 * Suc i"
  shows "sphinx_filler C rnd hops (Suc i) ! j =
    (if j < 65 * i then sphinx_filler C rnd hops i ! j else 0) XOR key_byte C (header_key C rnd hops i) (325 - 65 * i + j)"
proof -
  have "390 - (65 * i + 65) + j = 325 - 65 * i + j" using assms(3) by linarith
  then show ?thesis
    using assms length_filler[of i hops C rnd]
    by (simp add: filler_Suc filler_step_def Let_def nth_xor_into keystream_eq header_key_def nth_append del: upt_Suc)
qed

lemma header_step: "i < length hops \<Longrightarrow> sphinx_header C rnd hops i =
    sphinx_layer C rnd hops (sphinx_epks C rnd hops) (sphinx_secrets C rnd hops) (sphinx_filler C rnd hops (length hops - 1)) i
      (sphinx_header C rnd hops (Suc i))"
  by (simp add: sphinx_header_def upt_conv_Cons del: upt_Suc)

lemma mac_beta: "i < length hops \<Longrightarrow> sphinx_mac C rnd hops i = mac16 C (mu_key C (sphinx_secrets C rnd hops ! i)) (sphinx_beta C rnd hops i)"
  by (simp add: header_step[of i] sphinx_layer_def Let_def split_beta)

lemma length_mac: "digest_sizes C \<Longrightarrow> length (sphinx_mac C rnd hops i) = 16"
proof (cases "i < length hops")
  case False
  then show ?thesis by (simp add: sphinx_header_def)
qed (simp add: mac_beta mac16_def digest_sizes_def)

text \<open>The routing entry of a hop.\<close>

definition hop_entry :: "crypto \<Rightarrow> sphinx_rnd \<Rightarrow> SphinxHop list \<Rightarrow> nat \<Rightarrow> bytes" where
  "hop_entry C rnd hops i =
     (if i = length hops - 1 then FLAG_EXIT # map (sr_exit rnd) [0..<48]
      else FLAG_FORWARD # sh_routing_tag (hops ! (i + 1)) @ sphinx_epks C rnd hops ! (i + 1))"

definition hops_ok :: "SphinxHop list \<Rightarrow> bool" where
  "hops_ok hops \<longleftrightarrow> hops \<noteq> [] \<and> length hops \<le> 5 \<and> (\<forall>h \<in> set hops. length (sh_routing_tag h) = 16)"

lemma length_hop_entry:
  assumes "key_sizes C" "hops_ok hops" "i < length hops"
  shows "length (hop_entry C rnd hops i) = 49"
proof (cases "i = length hops - 1")
  case False
  then have "Suc i < length hops" using assms(3) by simp
  then have "length (sh_routing_tag (hops ! Suc i)) = 16" "length (sphinx_epks C rnd hops ! Suc i) = 32"
    using assms nth_mem by (auto simp: hops_ok_def sphinx_epks_def key_sizes_def simp del: upt_Suc)
  with False show ?thesis by (simp add: hop_entry_def)
qed (simp add: hop_entry_def)

lemma beta_layer:
  assumes "i < length hops"
  shows "sphinx_beta C rnd hops i =
    (let newbeta = xor_into (hop_entry C rnd hops i @ sphinx_mac C rnd hops (Suc i) @ take 260 (sphinx_beta C rnd hops (Suc i)))
           (chacha_keystream C (header_key C rnd hops i) 325);
         filler = sphinx_filler C rnd hops (length hops - 1) in
     if i = length hops - 1 \<and> filler \<noteq> [] then take (325 - length filler) newbeta @ filler else newbeta)"
  unfolding header_step[OF assms] sphinx_layer_def header_key_def hop_entry_def Let_def split_beta by simp

lemma length_beta:
  assumes C: "key_sizes C" "digest_sizes C" "hops_ok hops" and i: "i \<le> length hops"
  shows "length (sphinx_beta C rnd hops i) = 325"
  using i
proof (induction rule: inc_induct)
  case base
  show ?case by (simp add: sphinx_header_def)
next
  case (step i)
  have f: "length (sphinx_filler C rnd hops (length hops - 1)) \<le> 260"
    using C(3) length_filler[of "length hops - 1" hops C rnd] by (auto simp: hops_ok_def)
  have "length (if P then take (325 - length f) nb @ f else nb) = 325" if "length nb = 325" "length f \<le> 260" for P and f nb :: bytes
    using that by simp
  note with_filler = this[OF _ f]
  show ?case
    unfolding beta_layer[OF step.hyps(2)] Let_def
    by (rule with_filler)
      (simp add: length_hop_entry[OF C(1,3) step.hyps(2)] length_mac[OF C(2)] step.IH)
qed

text \<open>Before the exit, a header is the entry, the code and the shifted next header under the key stream.\<close>

lemma nth_beta:
  assumes C: "chacha_stream C" "key_sizes C" "digest_sizes C" "hops_ok hops" and i: "Suc i < length hops" and j: "j < 325"
  shows "sphinx_beta C rnd hops i ! j =
    (hop_entry C rnd hops i @ sphinx_mac C rnd hops (Suc i) @ sphinx_beta C rnd hops (Suc i)) ! j XOR key_byte C (header_key C rnd hops i) j"
proof -
  have l: "length (hop_entry C rnd hops i) = 49" "length (sphinx_mac C rnd hops (Suc i)) = 16" "length (sphinx_beta C rnd hops (Suc i)) = 325"
    using length_hop_entry[OF C(2,4), of i rnd] length_mac[OF C(3), of rnd hops "Suc i"] length_beta[OF C(2-4), of "Suc i" rnd] i by simp_all
  have "i \<noteq> length hops - 1" using i by simp
  then have b: "sphinx_beta C rnd hops i = xor_into (hop_entry C rnd hops i @ sphinx_mac C rnd hops (Suc i) @ take 260 (sphinx_beta C rnd hops (Suc i)))
      (chacha_keystream C (header_key C rnd hops i) 325)"
    using i by (simp only: beta_layer[OF Suc_lessD[OF i]] Let_def simp_thms if_False)
  show ?thesis using j l unfolding b by (simp add: nth_xor_into keystream_eq[OF C(1)] nth_append)
qed

text \<open>The tail of a header is the filler accumulated by the hops before it.\<close>

lemma exit_beta:
  assumes C: "key_sizes C" "digest_sizes C" "hops_ok hops"
  obtains xs where "sphinx_beta C rnd hops (length hops - 1) = xs @ sphinx_filler C rnd hops (length hops - 1)"
    "length xs = 325 - 65 * (length hops - 1)"
proof -
  let ?n = "length hops - 1" let ?f = "sphinx_filler C rnd hops ?n"
  have n: "?n < length hops" using C(3) by (auto simp: hops_ok_def)
  have f: "length ?f = 65 * ?n" by (rule length_filler) simp
  have b: "length (sphinx_beta C rnd hops ?n) = 325" by (rule length_beta[OF C]) simp
  have "\<exists>xs. (if True \<and> f \<noteq> [] then take k nb @ f else nb) = xs @ f" for f nb :: bytes and k by auto
  then obtain xs where xs: "sphinx_beta C rnd hops ?n = xs @ ?f"
    unfolding beta_layer[OF n] Let_def by (metis (mono_tags, lifting))
  then have "length xs = 325 - 65 * ?n" using b f by simp
  with xs that show ?thesis by blast
qed

lemma tail_step:
  assumes C: "chacha_stream C" "key_sizes C" "digest_sizes C" "hops_ok hops" and i: "Suc i < length hops" "i < 4"
    and IH: "\<forall>j < 65 * Suc i. sphinx_beta C rnd hops (Suc i) ! (325 - 65 * Suc i + j) = sphinx_filler C rnd hops (Suc i) ! j"
    and j: "j < 65 * i"
  shows "sphinx_beta C rnd hops i ! (325 - 65 * i + j) = sphinx_filler C rnd hops i ! j"
proof -
  define p where "p = 325 - 65 * i + j"
  have p: "p < 325" "\<not> p < 49" "\<not> p - 49 < 16" "p - 49 - 16 = 325 - 65 * Suc i + j" using j i unfolding p_def by auto
  have l: "length (hop_entry C rnd hops i) = 49" "length (sphinx_mac C rnd hops (Suc i)) = 16"
    using length_hop_entry[OF C(2,4), of i rnd] length_mac[OF C(3), of rnd hops "Suc i"] i by simp_all
  have "sphinx_beta C rnd hops i ! p = sphinx_beta C rnd hops (Suc i) ! (p - 49 - 16) XOR key_byte C (header_key C rnd hops i) p"
    unfolding nth_beta[OF C i(1) p(1)] nth_append l using p(2,3) by (simp only: if_False)
  also have "sphinx_beta C rnd hops (Suc i) ! (p - 49 - 16) = sphinx_filler C rnd hops (Suc i) ! j"
    using IH j unfolding p(4) by simp
  also have "\<dots> = sphinx_filler C rnd hops i ! j XOR key_byte C (header_key C rnd hops i) p"
    using nth_filler[OF C(1), of i hops j rnd] i j unfolding p_def by simp
  finally show ?thesis unfolding p_def[symmetric] by (simp add: xor.assoc)
qed

lemma beta_tail:
  assumes C: "chacha_stream C" "key_sizes C" "digest_sizes C" "hops_ok hops" and i: "i \<le> length hops - 1"
  shows "\<forall>j < 65 * i. sphinx_beta C rnd hops i ! (325 - 65 * i + j) = sphinx_filler C rnd hops i ! j"
  using i
proof (induction rule: inc_induct)
  case base
  obtain xs where xs: "sphinx_beta C rnd hops (length hops - 1) = xs @ sphinx_filler C rnd hops (length hops - 1)"
    "length xs = 325 - 65 * (length hops - 1)" by (rule exit_beta[OF C(2-4)])
  then show ?case unfolding xs(1) nth_append xs(2) by simp
next
  case (step i)
  then have "Suc i < length hops" "i < 4" using C(4) by (auto simp: hops_ok_def)
  with step.IH show ?case using tail_step[OF C, of i rnd] by blast
qed

text \<open>Unwrapping a header yields the entry, the next code and exactly the next header.\<close>

lemma unwrap_header:
  assumes C: "chacha_stream C" "key_sizes C" "digest_sizes C" "hops_ok hops" and i: "Suc i < length hops"
  shows "xor_into (sphinx_beta C rnd hops i @ replicate 65 0) (chacha_keystream C (header_key C rnd hops i) 390) =
    hop_entry C rnd hops i @ sphinx_mac C rnd hops (Suc i) @ sphinx_beta C rnd hops (Suc i)" (is "?B = ?E")
proof (rule nth_equalityI)
  have i': "i < 4" using i C(4) by (auto simp: hops_ok_def)
  have l: "length (hop_entry C rnd hops i) = 49" "length (sphinx_mac C rnd hops (Suc i)) = 16" "length (sphinx_beta C rnd hops (Suc i)) = 325"
    "length (sphinx_beta C rnd hops i) = 325"
    using length_hop_entry[OF C(2,4), of i rnd] length_mac[OF C(3), of rnd hops "Suc i"] length_beta[OF C(2-4), of _ rnd] i by simp_all
  then show "length ?B = length ?E" by simp
  fix j assume "j < length ?B"
  then have j: "j < 390" using l by simp
  have x: "?B ! j = (sphinx_beta C rnd hops i @ replicate 65 0) ! j XOR key_byte C (header_key C rnd hops i) j"
    using j l by (simp add: nth_xor_into keystream_eq[OF C(1)])
  show "?B ! j = ?E ! j"
  proof (cases "j < 325")
    case True
    then show ?thesis unfolding x using l by (simp add: nth_append[of "sphinx_beta C rnd hops i"] nth_beta[OF C i] xor.assoc)
  next
    case False
    define m where "m = j - 325 + 65 * i"
    have m: "m < 65 * Suc i" "\<not> m < 65 * i" "325 - 65 * Suc i + m = j - 49 - 16" "325 - 65 * i + m = j" "Suc i \<le> length hops - 1"
      using False j i' i unfolding m_def by auto
    have "sphinx_beta C rnd hops (Suc i) ! (j - 49 - 16) = sphinx_filler C rnd hops (Suc i) ! m"
      using spec[OF beta_tail[OF C m(5), of rnd], of m] m(1) unfolding m(3) by simp
    also have "\<dots> = key_byte C (header_key C rnd hops i) j"
      using nth_filler[OF C(1), of i hops m rnd] i i' m by simp
    finally have e: "sphinx_beta C rnd hops (Suc i) ! (j - 49 - 16) = key_byte C (header_key C rnd hops i) j" .
    have nj: "\<not> j - 49 < 16" "\<not> j < 49" "j - 325 < 65" using False j by auto
    show ?thesis unfolding x nth_append l using False nj e by simp
  qed
qed

section \<open>The journey of a cell\<close>

text \<open>The payload and the whole cell as hop number \<open>i\<close> gets them.\<close>

definition sphinx_payload :: "crypto \<Rightarrow> sphinx_rnd \<Rightarrow> SphinxHop list \<Rightarrow> bytes \<Rightarrow> nat \<Rightarrow> bytes" where
  "sphinx_payload C rnd hops traffic i =
     fold (lioness_encrypt C) (rev (drop i (sphinx_secrets C rnd hops)))
       (le_bytes 2 (of_nat (length traffic) :: u16) @ traffic @ map (sr_pad rnd) [0..<PAYLOAD_LEN - 2 - length traffic])"

definition sphinx_cell :: "crypto \<Rightarrow> sphinx_rnd \<Rightarrow> SphinxHop list \<Rightarrow> bytes \<Rightarrow> nat \<Rightarrow> bytes" where
  "sphinx_cell C rnd hops traffic i =
     TYPE_ONION_SPHINX # sh_routing_tag (hops ! i) @ sphinx_epks C rnd hops ! i @ sphinx_mac C rnd hops i @ sphinx_beta C rnd hops i @
       sphinx_payload C rnd hops traffic i"

lemma payload_Suc: "i < length hops \<Longrightarrow>
    sphinx_payload C rnd hops traffic i = lioness_encrypt C (sphinx_secrets C rnd hops ! i) (sphinx_payload C rnd hops traffic (Suc i))"
  by (simp add: sphinx_payload_def flip: Cons_nth_drop_Suc)

lemma length_fold_lioness: "length (fold (lioness_encrypt C) ss buf) = length buf"
  by (induction ss arbitrary: buf) simp_all

lemma length_payload: "length traffic \<le> 888 \<Longrightarrow> length (sphinx_payload C rnd hops traffic i) = 890"
  by (simp add: sphinx_payload_def length_fold_lioness)

lemma build_sphinx_cell:
  assumes "hops_ok hops" "length traffic \<le> 888"
  shows "build_sphinx C rnd hops traffic = Inr (sphinx_cell C rnd hops traffic 0)"
proof -
  have "take (length hops) (sphinx_secrets C rnd hops) = sphinx_secrets C rnd hops" by simp
  then show ?thesis
    using assms unfolding build_sphinx_def Let_def
    by (simp add: hops_ok_def sphinx_cell_def sphinx_payload_def sphinx_header_def sphinx_filler_def split_beta
      flip: sphinx_secrets_def sphinx_epks_def)
qed

lemma process_first:
  assumes "length tag = 16" "length epk = 32" "length gamma = 16" "length beta = 325" "length payload = 890"
    and "s = x25519_shared C p epk" "mac16 C (mu_key C s) beta = gamma"
  shows "process_sphinx C (TYPE_ONION_SPHINX # tag @ epk @ gamma @ beta @ payload) (p # ps) =
    (let b = xor_into (beta @ replicate 65 0) (chacha_keystream C (rho_key C s) 390); pl = lioness_decrypt C s payload in
     if b ! 0 = FLAG_EXIT then
       (let orig_len = unat (from_le [pl ! 0, pl ! 1] :: u16) in
        if length pl < 2 + orig_len then Inl (Bail ''sphinx process: bad inner payload length'')
        else Inr (SphinxDeliver (take orig_len (drop 2 pl))))
     else if b ! 0 = FLAG_FORWARD then
       Inr (SphinxForward (take 16 (drop 1 b))
         (TYPE_ONION_SPHINX # take 16 (drop 1 b) @ take 32 (drop 17 b) @ take 16 (drop 49 b) @ take 325 (drop 65 b) @ pl))
     else Inl (Bail ''sphinx process: unknown flags byte''))"
  using assms by (simp add: process_sphinx_def Let_def)

definition holds_sphinx_key :: "crypto \<Rightarrow> bytes list \<Rightarrow> SphinxHop \<Rightarrow> bool" where
  "holds_sphinx_key C privs h \<longleftrightarrow> (\<exists>p ps. privs = p # ps \<and> sh_onion_pub h = x25519_pub_of C p)"

text \<open>The laws the journey needs, and a path that fits the cell.\<close>

definition sphinx_setting :: "crypto \<Rightarrow> SphinxHop list \<Rightarrow> bytes \<Rightarrow> bool" where
  "sphinx_setting C hops traffic \<longleftrightarrow> dh_commutes C \<and> chacha_stream C \<and> key_sizes C \<and> digest_sizes C \<and> hops_ok hops \<and> length traffic \<le> 888"

lemma cell_lengths:
  assumes "sphinx_setting C hops traffic" "i < length hops"
  shows "length (sh_routing_tag (hops ! i)) = 16" "length (sphinx_epks C rnd hops ! i) = 32" "length (sphinx_mac C rnd hops i) = 16"
    "length (sphinx_beta C rnd hops i) = 325" "length (sphinx_payload C rnd hops traffic i) = 890"
  using assms length_mac[of C rnd hops i] length_beta[of C hops i rnd] length_payload[of traffic C rnd hops i]
  by (auto simp: sphinx_setting_def hops_ok_def sphinx_epks_def key_sizes_def)

lemma cell_peels:
  assumes S: "sphinx_setting C hops traffic" and i: "i < length hops" and k: "holds_sphinx_key C privs (hops ! i)"
  shows "process_sphinx C (sphinx_cell C rnd hops traffic i) privs =
    (let b = xor_into (sphinx_beta C rnd hops i @ replicate 65 0) (chacha_keystream C (header_key C rnd hops i) 390);
         pl = sphinx_payload C rnd hops traffic (Suc i) in
     if b ! 0 = FLAG_EXIT then
       (let orig_len = unat (from_le [pl ! 0, pl ! 1] :: u16) in
        if length pl < 2 + orig_len then Inl (Bail ''sphinx process: bad inner payload length'')
        else Inr (SphinxDeliver (take orig_len (drop 2 pl))))
     else if b ! 0 = FLAG_FORWARD then
       Inr (SphinxForward (take 16 (drop 1 b))
         (TYPE_ONION_SPHINX # take 16 (drop 1 b) @ take 32 (drop 17 b) @ take 16 (drop 49 b) @ take 325 (drop 65 b) @ pl))
     else Inl (Bail ''sphinx process: unknown flags byte''))"
proof -
  obtain p ps where p: "privs = p # ps" "sh_onion_pub (hops ! i) = x25519_pub_of C p" using k by (auto simp: holds_sphinx_key_def)
  have s: "sphinx_secrets C rnd hops ! i = x25519_shared C p (sphinx_epks C rnd hops ! i)"
    using S i p(2) by (simp add: sphinx_setting_def dh_commutes_def sphinx_secrets_def sphinx_epks_def x25519_shared_def)
  have d: "lioness_decrypt C (sphinx_secrets C rnd hops ! i) (sphinx_payload C rnd hops traffic i) = sphinx_payload C rnd hops traffic (Suc i)"
    using S by (simp add: payload_Suc[OF i] lioness_decrypt_encrypt length_payload sphinx_setting_def)
  show ?thesis
    unfolding sphinx_cell_def p(1) header_key_def d[symmetric]
    by (rule process_first[OF cell_lengths[OF S i] s]) (simp add: mac_beta[OF i])
qed

lemma cell_forward:
  assumes S: "sphinx_setting C hops traffic" and i: "Suc i < length hops" and k: "holds_sphinx_key C privs (hops ! i)"
  shows "process_sphinx C (sphinx_cell C rnd hops traffic i) privs =
    Inr (SphinxForward (sh_routing_tag (hops ! Suc i)) (sphinx_cell C rnd hops traffic (Suc i)))"
proof -
  have u: "xor_into (sphinx_beta C rnd hops i @ replicate 65 0) (chacha_keystream C (header_key C rnd hops i) 390) =
      FLAG_FORWARD # sh_routing_tag (hops ! Suc i) @ sphinx_epks C rnd hops ! Suc i @ sphinx_mac C rnd hops (Suc i) @ sphinx_beta C rnd hops (Suc i)"
    using unwrap_header[of C hops i rnd] S i by (auto simp: sphinx_setting_def hop_entry_def)
  show ?thesis
    unfolding cell_peels[OF S Suc_lessD[OF i] k] u Let_def
    using cell_lengths[OF S i] by (simp add: sphinx_cell_def FLAG_FORWARD_def FLAG_EXIT_def)
qed

lemma exit_flag:
  assumes C: "chacha_stream C" "key_sizes C" "digest_sizes C" "hops_ok hops"
  shows "xor_into (sphinx_beta C rnd hops (length hops - 1) @ replicate 65 0) (chacha_keystream C (header_key C rnd hops (length hops - 1)) 390) ! 0 =
    FLAG_EXIT"
proof -
  let ?n = "length hops - 1"
  have n: "?n < length hops" "?n \<le> 4" using C(4) by (auto simp: hops_ok_def)
  have f: "length (sphinx_filler C rnd hops ?n) = 65 * ?n" by (rule length_filler) simp
  have l: "length (sphinx_beta C rnd hops ?n) = 325" using length_beta[OF C(2-4), of ?n rnd] by simp
  have "(if P then take (325 - 65 * ?n) nb @ fl else nb) ! 0 = nb ! 0" if "length nb = 325" for P and nb fl :: bytes
    using that n(2) by (simp add: nth_append)
  moreover have "length (xor_into (hop_entry C rnd hops ?n @ sphinx_mac C rnd hops (Suc ?n) @ take 260 (sphinx_beta C rnd hops (Suc ?n)))
      (chacha_keystream C (header_key C rnd hops ?n) 325)) = 325"
    using length_hop_entry[OF C(2,4) n(1), of rnd] length_mac[OF C(3), of rnd hops "Suc ?n"] length_beta[OF C(2-4), of "Suc ?n" rnd] n(1) by simp
  ultimately have "sphinx_beta C rnd hops ?n ! 0 = xor_into (hop_entry C rnd hops ?n @ sphinx_mac C rnd hops (Suc ?n) @
      take 260 (sphinx_beta C rnd hops (Suc ?n))) (chacha_keystream C (header_key C rnd hops ?n) 325) ! 0"
    unfolding beta_layer[OF n(1)] Let_def f by blast
  also have "\<dots> = FLAG_EXIT XOR key_byte C (header_key C rnd hops ?n) 0"
    unfolding keystream_eq[OF C(1)] by (subst nth_xor) (simp_all add: hop_entry_def)
  finally show ?thesis using l by (simp add: nth_xor keystream_eq[OF C(1)] nth_append xor.assoc)
qed

lemma cell_exit:
  assumes S: "sphinx_setting C hops traffic" and i: "Suc i = length hops" and k: "holds_sphinx_key C privs (hops ! i)"
  shows "process_sphinx C (sphinx_cell C rnd hops traffic i) privs = Inr (SphinxDeliver traffic)"
proof -
  let ?m = "le_bytes 2 (of_nat (length traffic) :: u16)"
  have e: "i = length hops - 1" "i < length hops" using i by simp_all
  have flag: "xor_into (sphinx_beta C rnd hops i @ replicate 65 0) (chacha_keystream C (header_key C rnd hops i) 390) ! 0 = FLAG_EXIT"
    using exit_flag[of C hops rnd] S unfolding e(1) sphinx_setting_def by blast
  have pl: "sphinx_payload C rnd hops traffic (Suc i) = ?m @ traffic @ map (sr_pad rnd) [0..<PAYLOAD_LEN - 2 - length traffic]"
    using i by (simp add: sphinx_payload_def)
  have "from_le [(?m @ xs) ! 0, (?m @ xs) ! 1] = (of_nat (length traffic) :: u16)" for xs
  proof -
    have "[(?m @ xs) ! 0, (?m @ xs) ! 1] = ?m" by (rule nth_equalityI) (auto simp: nth_append less_Suc_eq)
    then show ?thesis by (simp add: from_le_le_bytes)
  qed
  moreover have "unat (of_nat (length traffic) :: u16) = length traffic" using S by (simp add: sphinx_setting_def unat_of_nat)
  ultimately show ?thesis
    unfolding cell_peels[OF S e(2) k] flag pl Let_def using S by (simp add: sphinx_setting_def)
qed

text \<open>The cells seen on the links when the hops process one after the other, and the delivered bytes.\<close>

fun sphinx_carry :: "crypto \<Rightarrow> bytes list list \<Rightarrow> bytes \<Rightarrow> (bytes list \<times> bytes) result" where
  "sphinx_carry C [] cell = Inl (Bail ''no hop left'')"
| "sphinx_carry C (k # ks) cell =
     and_then (process_sphinx C cell k) (\<lambda>r.
     case r of
       SphinxDeliver t \<Rightarrow> if ks = [] then Inr ([cell], t) else Inl (Bail ''early exit'')
     | SphinxForward tag cell' \<Rightarrow> and_then (sphinx_carry C ks cell') (\<lambda>(cs, t). Inr (cell # cs, t)))"

lemma sphinx_journey:
  assumes S: "sphinx_setting C hops traffic" and k: "list_all2 (holds_sphinx_key C) keys hops"
  shows "i < length hops \<Longrightarrow>
    sphinx_carry C (drop i keys) (sphinx_cell C rnd hops traffic i) = Inr (map (sphinx_cell C rnd hops traffic) [i..<length hops], traffic)"
proof (induction "length hops - i" arbitrary: i)
  case (Suc d)
  have len: "length keys = length hops" using k by (rule list_all2_lengthD)
  then have dr: "drop i keys = keys ! i # drop (Suc i) keys" using Suc.prems by (simp add: Cons_nth_drop_Suc)
  have ki: "holds_sphinx_key C (keys ! i) (hops ! i)" using list_all2_nthD2[OF k Suc.prems] by simp
  show ?case
  proof (cases "Suc i < length hops")
    case True
    then show ?thesis
      using Suc.hyps(1)[of "Suc i"] Suc.hyps(2) by (simp add: dr cell_forward[OF S True ki] upt_conv_Cons)
  next
    case False
    then have "Suc i = length hops" using Suc.prems by simp
    then show ?thesis using len by (simp add: dr cell_exit[OF S _ ki] upt_conv_Cons)
  qed
qed simp

lemma sphinx_cell_shape:
  assumes "sphinx_setting C hops traffic" "i < length hops"
  shows "length (sphinx_cell C rnd hops traffic i) = 1280" "take 16 (drop 1 (sphinx_cell C rnd hops traffic i)) = sh_routing_tag (hops ! i)"
    "hd (sphinx_cell C rnd hops traffic i) = TYPE_ONION_SPHINX"
  using cell_lengths[OF assms] by (simp_all add: sphinx_cell_def)

definition ex_sphinx_hop :: "u8 \<Rightarrow> SphinxHop" where
  "ex_sphinx_hop k = \<lparr>sh_routing_tag = replicate 16 k, sh_onion_pub = pad_to 32 [k]\<rparr>"

definition ex_sphinx_rnd :: sphinx_rnd where
  "ex_sphinx_rnd = \<lparr>sr_eph = (\<lambda>i. [of_nat i]), sr_beta = (\<lambda>i. 1), sr_exit = (\<lambda>i. 2), sr_pad = (\<lambda>i. 3)\<rparr>"

section \<open>Properties\<close>

text \<open>C7. Fixed-size onion delivery. For one to five hops whose current keys the sender knows and at most 888 bytes of traffic, whatever the
  random bytes, building the cell succeeds; every hop authenticates the header with its key and obtains exactly the header and payload
  meant for the next hop; the cell on every link has the same length and type byte and carries in clear the tag of the hop it goes to; and
  the last hop delivers exactly the traffic. A path that is empty or longer than five hops, or a larger traffic packet, is refused.\<close>

theorem sphinx_delivery:
  assumes "dh_commutes C" "chacha_stream C" "key_sizes C" "digest_sizes C"
    and "list_all2 (holds_sphinx_key C) keys hops" "\<forall>h \<in> set hops. length (sh_routing_tag h) = 16"
  shows "if hops \<noteq> [] \<and> length hops \<le> MAX_HOPS \<and> length traffic \<le> MAX_TRAFFIC_LEN
    then \<exists>cell cells. build_sphinx C rnd hops traffic = Inr cell \<and> sphinx_carry C keys cell = Inr (cells, traffic) \<and>
      map (\<lambda>c. take 16 (drop 1 c)) cells = map sh_routing_tag hops \<and>
      (\<forall>c \<in> set cells. length c = CELL_SIZE \<and> hd c = TYPE_ONION_SPHINX)
    else \<exists>m. build_sphinx C rnd hops traffic = Inl (Bail m)"
proof (cases "hops \<noteq> [] \<and> length hops \<le> MAX_HOPS \<and> length traffic \<le> MAX_TRAFFIC_LEN")
  case True
  then have S: "sphinx_setting C hops traffic" using assms by (simp add: sphinx_setting_def hops_ok_def)
  then have "build_sphinx C rnd hops traffic = Inr (sphinx_cell C rnd hops traffic 0)"
    by (intro build_sphinx_cell) (simp_all add: sphinx_setting_def)
  moreover have "sphinx_carry C keys (sphinx_cell C rnd hops traffic 0) = Inr (map (sphinx_cell C rnd hops traffic) [0..<length hops], traffic)"
    using sphinx_journey[OF S assms(5), of 0 rnd] True by simp
  moreover have "map (\<lambda>c. take 16 (drop 1 c)) (map (sphinx_cell C rnd hops traffic) [0..<length hops]) = map sh_routing_tag hops"
    using sphinx_cell_shape(2)[OF S] by (intro nth_equalityI) simp_all
  ultimately show ?thesis using True sphinx_cell_shape(1,3)[OF S] by auto
next
  case False
  then have "\<exists>m. build_sphinx C rnd hops traffic = Inl (Bail m)"
    by (cases "hops = [] \<or> MAX_HOPS < length hops") (simp_all add: build_sphinx_def Let_def not_le)
  with False show ?thesis by (simp only: if_False)
qed

theorem sphinx_delivery_witness:
  "\<exists>cell cells. build_sphinx ex ex_sphinx_rnd [ex_sphinx_hop 4, ex_sphinx_hop 5, ex_sphinx_hop 6] [42] = Inr cell \<and>
     sphinx_carry ex [[[4]], [[5]], [[6], [4]]] cell = Inr (cells, [42]) \<and>
     map (\<lambda>c. take 16 (drop 1 c)) cells = [replicate 16 4, replicate 16 5, replicate 16 6] \<and> (\<forall>c \<in> set cells. length c = 1280)"
proof -
  let ?hops = "[ex_sphinx_hop 4, ex_sphinx_hop 5, ex_sphinx_hop 6]" and ?keys = "[[[4]], [[5]], [[6], [4]]]"
  have "list_all2 (holds_sphinx_key ex) ?keys ?hops" "\<forall>h \<in> set ?hops. length (sh_routing_tag h) = 16"
    by (simp_all add: holds_sphinx_key_def ex_sphinx_hop_def ex_def)
  from sphinx_delivery[OF ex_dh ex_stream ex_key_sizes ex_digests this, of "[42]" ex_sphinx_rnd]
  show ?thesis by (auto simp: ex_sphinx_hop_def)
qed

declare upt_rec_numeral [simp]

end
