(* ===== verification/Router_Gossip.thy ===== *)
theory Router_Gossip
  imports Router_Trees Sphinx Session_Wire
begin

text \<open>
  Flooded announcements: onion keys (\<^verbatim>\<open>src/src/router/mod.rs\<close>), reputation reports and hole punches (\<^verbatim>\<open>src/src/router/reputation.rs\<close>) and capabilities
  (\<^verbatim>\<open>src/src/router/capabilities.rs\<close>). Each handler verifies the origin's signature, checks the validity period, drops what is not
  newer than the recorded sequence number, records it in a table with a cap (which for reports is
  checked for nodes not observed before only) and forwards it to every peer but the
  sender. The interface \<open>seq_flood\<close> is the contract they share. The wall clock in milliseconds is the argument \<open>now_ms\<close>.
\<close>

section \<open>Onion keys\<close>

definition ONION_KEY_VALIDITY_MS :: u64 where "ONION_KEY_VALIDITY_MS = 24 * 60 * 60 * 1000"
definition MAX_REMOTE_ONION_KEYS :: nat where "MAX_REMOTE_ONION_KEYS = 16384"

text \<open>Not older than the validity, and not more than a minute in the future.\<close>

definition announce_fresh :: "u64 \<Rightarrow> u64 \<Rightarrow> u64 \<Rightarrow> bool" where
  "announce_fresh now_ms valid_from_ms validity \<longleftrightarrow>
     saturating_sub now_ms valid_from_ms \<le> validity \<and> valid_from_ms \<le> saturating_add now_ms 60000"

definition record_remote_onion_key :: "instant \<Rightarrow> bytes \<Rightarrow> u64 \<Rightarrow> bytes \<Rightarrow> 'c RouterState \<Rightarrow> 'c RouterState" where
  "record_remote_onion_key now origin seq eph rs =
     (case evict_for MAX_REMOTE_ONION_KEYS rs origin (rs_remote_onion_keys rs) of
        Some table \<Rightarrow> rs\<lparr>rs_remote_onion_keys := AList.update origin (seq, eph, now) table\<rparr>
      | None \<Rightarrow> rs)"

definition broadcast_onion_key_announce :: "'c env \<Rightarrow> u64 \<Rightarrow> instant \<Rightarrow> 'c RouterState \<Rightarrow> 'c RouterState" where
  "broadcast_onion_key_announce E now_ms now rs =
     (let rs = rs\<lparr>rs_own_onion_key_seq := rs_own_onion_key_seq rs + 1\<rparr>;
          seq = rs_own_onion_key_seq rs;
          onion_eph_pub = kc_current_pub (rs_onion_keys rs);
          unsigned = \<lparr>ok_origin = rs_pub_key rs, ok_seq = seq, ok_valid_from_ms = now_ms, ok_onion_eph_pub = onion_eph_pub, ok_sig = replicate 64 0\<rparr>;
          sig = ed_sign (suite E) (rs_signing_key rs) (OnionKeyAnnounce_sign_bytes unsigned);
          ann = unsigned\<lparr>ok_sig := sig\<rparr>;
          rs = rs\<lparr>rs_remote_onion_keys := AList.update (rs_pub_key rs) (seq, onion_eph_pub, now) (rs_remote_onion_keys rs)\<rparr> in
      broadcast E now (OnionKeyAnnounce_encode ann) rs)"

definition handle_onion_key_announce :: "'c env \<Rightarrow> u64 \<Rightarrow> instant \<Rightarrow> PeerId \<Rightarrow> OnionKeyAnnounce \<Rightarrow> 'c RouterState \<Rightarrow> 'c RouterState" where
  "handle_onion_key_announce E now_ms now from ann rs =
     (if ok_origin ann = rs_pub_key rs then rs
      else if \<not> ed_verify (suite E) (ok_origin ann) (OnionKeyAnnounce_sign_bytes ann) (ok_sig ann) then rs
      else if \<not> announce_fresh now_ms (ok_valid_from_ms ann) ONION_KEY_VALIDITY_MS then rs
      else let is_newer = (case map_of (rs_remote_onion_keys rs) (ok_origin ann) of
                             Some (prev_seq, _, _) \<Rightarrow> prev_seq < ok_seq ann
                           | None \<Rightarrow> True) in
      if \<not> is_newer then rs
      else let rs = record_remote_onion_key now (ok_origin ann) (ok_seq ann) (ok_onion_eph_pub ann) rs;
               rs = upd_peer (ok_origin ann) (\<lambda>peer. peer\<lparr>pd_onion_eph_pub := Some (ok_onion_eph_pub ann)\<rparr>) rs in
           flood_except E now from (OnionKeyAnnounce_encode ann) rs)"

section \<open>Reputation\<close>

definition MAX_REPUTATION_OBSERVATIONS :: nat where "MAX_REPUTATION_OBSERVATIONS = 16384"

definition ReputationReport_score :: "ReputationReport \<Rightarrow> fl" where
  "ReputationReport_score r = fdiv F32 (of_int_fl F32 (uint (rr_score_q16 r))) (of_int_fl F32 (uint (- 1 :: u16)))"

definition record_reputation :: "bytes \<Rightarrow> bytes \<Rightarrow> u64 \<Rightarrow> fl \<Rightarrow> instant \<Rightarrow> 'c RouterState \<Rightarrow> 'c RouterState" where
  "record_reputation observer observed seq score recorded_at rs =
     (let total = sum_list (map (\<lambda>(_, m). length m) (rs_reputation rs));
          table = (if MAX_REPUTATION_OBSERVATIONS \<le> total \<and> map_of (rs_reputation rs) observed = None
                   then case find (\<lambda>v. map_of (rs_peers rs) v = None \<and> v \<noteq> rs_pub_key rs) (map fst (rs_reputation rs)) of
                          Some v \<Rightarrow> Some (AList.delete v (rs_reputation rs))
                        | None \<Rightarrow> None
                   else Some (rs_reputation rs)) in
      case table of
        None \<Rightarrow> rs
      | Some table \<Rightarrow>
          let bucket = (case map_of table observed of Some m \<Rightarrow> m | None \<Rightarrow> []) in
          rs\<lparr>rs_reputation := AList.update observed (AList.update observer (seq, score, recorded_at) bucket) table\<rparr>)"

text \<open>The quantised trust of one peer, and the report about it.\<close>

definition trust_q16 :: "fl \<Rightarrow> u16" where
  "trust_q16 trust =
     (let frac = fclamp (fdiv F32 (fsub F32 trust TRUST_MIN) (fsub F32 TRUST_MAX TRUST_MIN)) (Fin 0) (Fin 1) in
      as_uint (fmul F32 frac (of_int_fl F32 (uint (- 1 :: u16)))))"

definition report_peer :: "'c env \<Rightarrow> u64 \<Rightarrow> instant \<Rightarrow> bytes \<times> fl \<Rightarrow> 'c RouterState \<Rightarrow> 'c RouterState" where
  "report_peer E now_ms now = (\<lambda>(observed, trust) rs.
     let rs = rs\<lparr>rs_own_reputation_seq := rs_own_reputation_seq rs + 1\<rparr>;
         seq = rs_own_reputation_seq rs;
         unsigned = \<lparr>rr_observer = rs_pub_key rs, rr_observed = observed, rr_score_q16 = trust_q16 trust, rr_seq = seq,
           rr_valid_from_ms = now_ms, rr_sig = replicate 64 0\<rparr>;
         sig = ed_sign (suite E) (rs_signing_key rs) (ReputationReport_sign_bytes unsigned);
         report = unsigned\<lparr>rr_sig := sig\<rparr>;
         rs = record_reputation (rs_pub_key rs) observed seq (ReputationReport_score report) now rs in
     broadcast E now (ReputationReport_encode report) rs)"

definition broadcast_reputation :: "'c env \<Rightarrow> u64 \<Rightarrow> instant \<Rightarrow> 'c RouterState \<Rightarrow> 'c RouterState" where
  "broadcast_reputation E now_ms now rs =
     (let observed_with_trust = map (\<lambda>(_, p). (pd_pub_key p, pd_trust p)) (rs_peers rs) in
      fold (report_peer E now_ms now) observed_with_trust rs)"

definition handle_reputation_report :: "'c env \<Rightarrow> u64 \<Rightarrow> instant \<Rightarrow> PeerId \<Rightarrow> ReputationReport \<Rightarrow> 'c RouterState \<Rightarrow> 'c RouterState" where
  "handle_reputation_report E now_ms now from r rs =
     (if rr_observer r = rr_observed r then rs
      else if rr_observer r = rs_pub_key rs then rs
      else if \<not> ed_verify (suite E) (rr_observer r) (ReputationReport_sign_bytes r) (rr_sig r) then rs
      else if \<not> announce_fresh now_ms (rr_valid_from_ms r) REPUTATION_VALIDITY_MS then rs
      else let is_newer = (case Option.bind (map_of (rs_reputation rs) (rr_observed r)) (\<lambda>m. map_of m (rr_observer r)) of
                             Some (prev_seq, _, _) \<Rightarrow> prev_seq < rr_seq r
                           | None \<Rightarrow> True) in
      if \<not> is_newer then rs
      else let rs = record_reputation (rr_observer r) (rr_observed r) (rr_seq r) (ReputationReport_score r) now rs in
           flood_except E now from (ReputationReport_encode r) rs)"

section \<open>Capabilities\<close>

definition CAPABILITY_VALIDITY_MS :: u64 where "CAPABILITY_VALIDITY_MS = 24 * 60 * 60 * 1000"
definition MAX_CAPABILITY_ENTRIES :: nat where "MAX_CAPABILITY_ENTRIES = 16384"
definition CAP_ONION_SPHINX :: u32 where "CAP_ONION_SPHINX = push_bit 0 1"

definition record_capability :: "instant \<Rightarrow> bytes \<Rightarrow> u32 \<Rightarrow> u64 \<Rightarrow> 'c RouterState \<Rightarrow> 'c RouterState" where
  "record_capability now origin caps seq rs =
     (case evict_for MAX_CAPABILITY_ENTRIES rs origin (rs_peer_capabilities rs) of
        Some table \<Rightarrow> rs\<lparr>rs_peer_capabilities := AList.update origin (caps, seq, now) table\<rparr>
      | None \<Rightarrow> rs)"

definition broadcast_capabilities :: "'c env \<Rightarrow> u64 \<Rightarrow> instant \<Rightarrow> 'c RouterState \<Rightarrow> 'c RouterState" where
  "broadcast_capabilities E now_ms now rs =
     (let rs = rs\<lparr>rs_own_caps_seq := rs_own_caps_seq rs + 1\<rparr>;
          seq = rs_own_caps_seq rs;
          caps = CAP_ONION_SPHINX;
          unsigned = \<lparr>ca_origin = rs_pub_key rs, ca_caps = caps, ca_seq = seq, ca_valid_from_ms = now_ms, ca_sig = replicate 64 0\<rparr>;
          sig = ed_sign (suite E) (rs_signing_key rs) (CapabilityAnnounce_sign_bytes unsigned);
          ann = unsigned\<lparr>ca_sig := sig\<rparr>;
          rs = rs\<lparr>rs_peer_capabilities := AList.update (rs_pub_key rs) (caps, seq, now) (rs_peer_capabilities rs)\<rparr> in
      broadcast E now (CapabilityAnnounce_encode ann) rs)"

definition handle_capabilities :: "'c env \<Rightarrow> u64 \<Rightarrow> instant \<Rightarrow> PeerId \<Rightarrow> CapabilityAnnounce \<Rightarrow> 'c RouterState \<Rightarrow> 'c RouterState" where
  "handle_capabilities E now_ms now from ann rs =
     (if ca_origin ann = rs_pub_key rs then rs
      else if \<not> ed_verify (suite E) (ca_origin ann) (CapabilityAnnounce_sign_bytes ann) (ca_sig ann) then rs
      else if \<not> announce_fresh now_ms (ca_valid_from_ms ann) CAPABILITY_VALIDITY_MS then rs
      else let is_newer = (case map_of (rs_peer_capabilities rs) (ca_origin ann) of
                             Some (_, prev_seq, _) \<Rightarrow> prev_seq < ca_seq ann
                           | None \<Rightarrow> True) in
      if \<not> is_newer then rs
      else let rs = record_capability now (ca_origin ann) (ca_caps ann) (ca_seq ann) rs in
           flood_except E now from (CapabilityAnnounce_encode ann) rs)"

definition path_supports_sphinx :: "instant \<Rightarrow> OnionHop list \<Rightarrow> bytes \<Rightarrow> 'c RouterState \<Rightarrow> bool" where
  "path_supports_sphinx now relays dst rs =
     (if MAX_HOPS < length relays + 1 then False
      else let supported = (\<lambda>id. case map_of (rs_peer_capabilities rs) id of
                 Some (caps, _, recorded) \<Rightarrow> caps AND CAP_ONION_SPHINX \<noteq> 0 \<and>
                   duration_since now recorded < unat CAPABILITY_VALIDITY_MS * 1000000
               | None \<Rightarrow> False) in
           list_all (\<lambda>h. supported (oh_identity_ed_pub h)) relays \<and> supported dst)"

section \<open>Hole punches\<close>

definition handle_hole_punch :: "'c env \<Rightarrow> u64 \<Rightarrow> instant \<Rightarrow> PeerId \<Rightarrow> HolePunch \<Rightarrow> 'c RouterState \<Rightarrow> 'c RouterState" where
  "handle_hole_punch E now_ms now from hp rs =
     (if \<not> ed_verify (suite E) (hp_initiator hp) (HolePunch_sign_bytes hp) (hp_sig hp) then rs
      else if 60000 < clock_skew now_ms (hp_valid_from_ms hp) then rs
      else if hp_target hp = rs_pub_key rs
      then (if rs_hole_punch_cb rs then rs\<lparr>rs_callbacks := rs_callbacks rs @ [HolePunched (hp_initiator hp) (hp_endpoint hp)]\<rparr> else rs)
      else case lookup E now (hp_target hp) rs of
             Some next_hop \<Rightarrow> send_to_peer E now next_hop (HolePunch_encode hp) rs
           | None \<Rightarrow> rs)"

section \<open>Flooding\<close>

text \<open>A history of one kind of announcement at one node: deliveries from any peer at any time while the table is below its limit, and in between
  anything else that lowers no recorded sequence number. The list holds the announcements that had an effect, in order.\<close>

inductive floods :: "('p \<Rightarrow> 'a \<Rightarrow> 's \<Rightarrow> 's) \<Rightarrow> ('s \<Rightarrow> 'k \<Rightarrow> u64 option) \<Rightarrow> ('s \<Rightarrow> bool) \<Rightarrow> 's \<Rightarrow> 'a list \<Rightarrow> 's \<Rightarrow> bool"
  for handle :: "'p \<Rightarrow> 'a \<Rightarrow> 's \<Rightarrow> 's" and seq_of :: "'s \<Rightarrow> 'k \<Rightarrow> u64 option" and full :: "'s \<Rightarrow> bool" and s :: 's
where
  start: "floods handle seq_of full s [] s"
| delivery: "floods handle seq_of full s as s' \<Longrightarrow> \<not> full s' \<Longrightarrow>
    floods handle seq_of full s (if handle p a s' = s' then as else as @ [a]) (handle p a s')"
| other: "floods handle seq_of full s as s' \<Longrightarrow> \<forall>k q. seq_of s' k = Some q \<longrightarrow> (\<exists>q'. seq_of s'' k = Some q' \<and> q \<le> q') \<Longrightarrow>
    floods handle seq_of full s as s''"

text \<open>The contract of a flooded announcement with sequence numbers: what is not relayed changes nothing, what is not newer than the
  recorded number is not relayed, and what is relayed is recorded, and no other record touched, while the table is not full.\<close>

locale seq_flood =
  fixes handle :: "'p \<Rightarrow> 'a \<Rightarrow> 's \<Rightarrow> 's"
    and seq_of :: "'s \<Rightarrow> 'k \<Rightarrow> u64 option"
    and key :: "'a \<Rightarrow> 'k"
    and seq :: "'a \<Rightarrow> u64"
    and relays :: "'p \<Rightarrow> 'a \<Rightarrow> 's \<Rightarrow> bool"
    and full :: "'s \<Rightarrow> bool"
  assumes refused: "\<not> relays p a s \<Longrightarrow> handle p a s = s"
    and stale: "seq_of s (key a) = Some q \<Longrightarrow> seq a \<le> q \<Longrightarrow> \<not> relays p a s"
    and recorded: "relays p a s \<Longrightarrow> \<not> full s \<Longrightarrow> seq_of (handle p a s) = (seq_of s)(key a \<mapsto> seq a)"
begin

lemma increasing:
  assumes "floods handle seq_of full s as s'"
  shows "sorted_wrt (\<lambda>a b. key a = key b \<longrightarrow> seq a < seq b) as \<and> (\<forall>a \<in> set as. \<exists>q. seq_of s' (key a) = Some q \<and> seq a \<le> q) \<and>
    (\<forall>a \<in> set as. \<forall>q. seq_of s (key a) = Some q \<longrightarrow> q < seq a) \<and> (\<forall>k q. seq_of s k = Some q \<longrightarrow> (\<exists>q'. seq_of s' k = Some q' \<and> q \<le> q'))"
  using assms
proof (induction rule: floods.induct)
  case (delivery as s' p a)
  show ?case
  proof (cases "handle p a s' = s'")
    case False
    then have r: "relays p a s'" using refused by blast
    have newer: "q < seq a" if "seq_of s' (key a) = Some q" for q using stale[OF that] r not_le by blast
    note upd = recorded[OF r delivery.hyps(2)]
    have sorted: "sorted_wrt (\<lambda>a b. key a = key b \<longrightarrow> seq a < seq b) (as @ [a])"
      using delivery.IH newer by (force simp: sorted_wrt_append)
    have "q < seq a" if "seq_of s (key a) = Some q" for q using delivery.IH newer that by (meson order_le_less_trans)
    then have first: "\<forall>b \<in> set (as @ [a]). \<forall>q. seq_of s (key b) = Some q \<longrightarrow> q < seq b" using delivery.IH by simp
    have records: "\<forall>b \<in> set (as @ [a]). \<exists>q. seq_of (handle p a s') (key b) = Some q \<and> seq b \<le> q"
      using delivery.IH newer by (force simp: upd)
    have kept: "\<forall>k q. seq_of s k = Some q \<longrightarrow> (\<exists>q'. seq_of (handle p a s') k = Some q' \<and> q \<le> q')" using delivery.IH newer by (force simp: upd)
    show ?thesis using False sorted first records kept by simp
  qed (use delivery.IH in simp)
next
  case (other as s' s'')
  then show ?case by (meson order_trans)
qed simp

end

definition key_relays :: "'c env \<Rightarrow> u64 \<times> instant \<times> PeerId \<Rightarrow> OnionKeyAnnounce \<Rightarrow> 'c RouterState \<Rightarrow> bool" where
  "key_relays E p a rs \<longleftrightarrow> ok_origin a \<noteq> rs_pub_key rs \<and>
     ed_verify (suite E) (ok_origin a) (OnionKeyAnnounce_sign_bytes a) (ok_sig a) \<and>
     announce_fresh (fst p) (ok_valid_from_ms a) ONION_KEY_VALIDITY_MS \<and>
     (\<forall>q. map_option fst (map_of (rs_remote_onion_keys rs) (ok_origin a)) = Some q \<longrightarrow> q < ok_seq a)"

definition cap_relays :: "'c env \<Rightarrow> u64 \<times> instant \<times> PeerId \<Rightarrow> CapabilityAnnounce \<Rightarrow> 'c RouterState \<Rightarrow> bool" where
  "cap_relays E p a rs \<longleftrightarrow> ca_origin a \<noteq> rs_pub_key rs \<and>
     ed_verify (suite E) (ca_origin a) (CapabilityAnnounce_sign_bytes a) (ca_sig a) \<and>
     announce_fresh (fst p) (ca_valid_from_ms a) CAPABILITY_VALIDITY_MS \<and>
     (\<forall>q. map_option (fst \<circ> snd) (map_of (rs_peer_capabilities rs) (ca_origin a)) = Some q \<longrightarrow> q < ca_seq a)"

definition rep_seq :: "'c RouterState \<Rightarrow> bytes \<times> bytes \<Rightarrow> u64 option" where
  "rep_seq rs k = map_option fst (Option.bind (map_of (rs_reputation rs) (fst k)) (\<lambda>m. map_of m (snd k)))"

definition rep_relays :: "'c env \<Rightarrow> u64 \<times> instant \<times> PeerId \<Rightarrow> ReputationReport \<Rightarrow> 'c RouterState \<Rightarrow> bool" where
  "rep_relays E p r rs \<longleftrightarrow> rr_observer r \<noteq> rr_observed r \<and> rr_observer r \<noteq> rs_pub_key rs \<and>
     ed_verify (suite E) (rr_observer r) (ReputationReport_sign_bytes r) (rr_sig r) \<and>
     announce_fresh (fst p) (rr_valid_from_ms r) REPUTATION_VALIDITY_MS \<and>
     (\<forall>q. rep_seq rs (rr_observed r, rr_observer r) = Some q \<longrightarrow> q < rr_seq r)"

text \<open>Full tables.\<close>

definition keys_full :: "'c RouterState \<Rightarrow> bool" where
  "keys_full rs \<longleftrightarrow> MAX_REMOTE_ONION_KEYS \<le> length (rs_remote_onion_keys rs)"

definition caps_full :: "'c RouterState \<Rightarrow> bool" where
  "caps_full rs \<longleftrightarrow> MAX_CAPABILITY_ENTRIES \<le> length (rs_peer_capabilities rs)"

definition reps_full :: "'c RouterState \<Rightarrow> bool" where
  "reps_full rs \<longleftrightarrow> MAX_REPUTATION_OBSERVATIONS \<le> sum_list (map (\<lambda>(_, m). length m) (rs_reputation rs))"

abbreviation (input) key_seq :: "'c RouterState \<Rightarrow> bytes \<Rightarrow> u64 option" where
  "key_seq rs k \<equiv> map_option fst (map_of (rs_remote_onion_keys rs) k)"

abbreviation (input) cap_seq :: "'c RouterState \<Rightarrow> bytes \<Rightarrow> u64 option" where
  "cap_seq rs k \<equiv> map_option (fst \<circ> snd) (map_of (rs_peer_capabilities rs) k)"

lemma onion_key_step:
  "handle_onion_key_announce E now_ms now from a rs =
     (if key_relays E (now_ms, now, from) a rs
      then flood_except E now from (OnionKeyAnnounce_encode a)
             (upd_peer (ok_origin a) (\<lambda>peer. peer\<lparr>pd_onion_eph_pub := Some (ok_onion_eph_pub a)\<rparr>)
               (record_remote_onion_key now (ok_origin a) (ok_seq a) (ok_onion_eph_pub a) rs))
      else rs)"
  by (auto simp: handle_onion_key_announce_def key_relays_def Let_def split: option.splits)

lemma capability_step:
  "handle_capabilities E now_ms now from a rs =
     (if cap_relays E (now_ms, now, from) a rs
      then flood_except E now from (CapabilityAnnounce_encode a) (record_capability now (ca_origin a) (ca_caps a) (ca_seq a) rs)
      else rs)"
  by (auto simp: handle_capabilities_def cap_relays_def Let_def split: option.splits)

lemma reputation_step:
  "handle_reputation_report E now_ms now from r rs =
     (if rep_relays E (now_ms, now, from) r rs
      then flood_except E now from (ReputationReport_encode r)
             (record_reputation (rr_observer r) (rr_observed r) (rr_seq r) (ReputationReport_score r) now rs)
      else rs)"
  by (auto simp: handle_reputation_report_def rep_relays_def rep_seq_def Let_def split: option.splits)

lemma rep_seq_record:
  "\<not> reps_full rs \<Longrightarrow> rep_seq (record_reputation (rr_observer r) (rr_observed r) (rr_seq r) sc now rs) =
     (rep_seq rs)((rr_observed r, rr_observer r) \<mapsto> rr_seq r)"
  by (auto simp: record_reputation_def reps_full_def rep_seq_def Let_def update_conv' fun_eq_iff split: option.split)

interpretation okf: seq_flood "\<lambda>(now_ms, now, from). handle_onion_key_announce E now_ms now from" key_seq ok_origin ok_seq "key_relays E" keys_full
proof (unfold_locales, goal_cases)
  case (3 p a rs)
  then have "evict_for MAX_REMOTE_ONION_KEYS rs (ok_origin a) (rs_remote_onion_keys rs) = Some (rs_remote_onion_keys rs)"
    by (simp add: evict_for_def keys_full_def)
  then show ?case using 3(1) by (auto simp: onion_key_step record_remote_onion_key_def update_conv' fun_eq_iff split: prod.splits)
qed (auto simp: onion_key_step key_relays_def split: prod.splits)

interpretation caf: seq_flood "\<lambda>(now_ms, now, from). handle_capabilities E now_ms now from" cap_seq ca_origin ca_seq "cap_relays E" caps_full
proof (unfold_locales, goal_cases)
  case (3 p a rs)
  then have "evict_for MAX_CAPABILITY_ENTRIES rs (ca_origin a) (rs_peer_capabilities rs) = Some (rs_peer_capabilities rs)"
    by (simp add: evict_for_def caps_full_def)
  then show ?case using 3(1) by (auto simp: capability_step record_capability_def update_conv' fun_eq_iff split: prod.splits)
qed (auto simp: capability_step cap_relays_def split: prod.splits)

interpretation rpf: seq_flood "\<lambda>(now_ms, now, from). handle_reputation_report E now_ms now from" rep_seq
    "\<lambda>r. (rr_observed r, rr_observer r)" rr_seq "rep_relays E" reps_full
proof (unfold_locales, goal_cases)
  case (3 p r rs)
  have "rep_seq (flood_except E now k f rs') = rep_seq rs'" for now k f and rs' :: "'a RouterState" by (simp add: rep_seq_def fun_eq_iff)
  then show ?case using 3(1) rep_seq_record[OF 3(2)] by (auto simp: reputation_step split: prod.splits)
qed (auto simp: reputation_step rep_relays_def split: prod.splits)

text \<open>What a handler sends: nothing, or the announcement to peers other than the sender.\<close>

definition relayed_to_others :: "PeerId \<Rightarrow> bytes \<Rightarrow> 'c RouterState \<Rightarrow> 'c RouterState \<Rightarrow> bool" where
  "relayed_to_others from frame rs rs' \<longleftrightarrow>
     (\<exists>ks. rs_sent rs' = rs_sent rs @ map (\<lambda>k. (k, frame)) ks \<and> set ks \<subseteq> fst ` set (rs_peers rs) - {from})"

lemma relayed_refl [simp]: "relayed_to_others from f rs rs"
  by (auto simp: relayed_to_others_def intro: exI[of _ "[]"])

lemma relayed_flood: "rs_sent rs1 = rs_sent rs \<Longrightarrow> fst ` set (rs_peers rs1) = fst ` set (rs_peers rs) \<Longrightarrow>
    relayed_to_others from f rs (flood_except E now from f rs1)"
  using broadcast_log(2)[of E now "from" f rs1] by (simp add: relayed_to_others_def)

lemma record_keeps [simp]:
  "rs_sent (record_remote_onion_key now k q e rs) = rs_sent rs" "rs_peers (record_remote_onion_key now k q e rs) = rs_peers rs"
  "rs_sent (record_capability now k u q rs) = rs_sent rs" "rs_peers (record_capability now k u q rs) = rs_peers rs"
  "rs_sent (record_reputation a b q f now rs) = rs_sent rs" "rs_peers (record_reputation a b q f now rs) = rs_peers rs"
  by (simp_all add: record_remote_onion_key_def record_capability_def record_reputation_def Let_def split: option.splits)

lemma upd_peer_key_set: "fst ` set (rs_peers (upd_peer k f rs)) = fst ` set (rs_peers rs)"
  by (metis upd_peer_keys list.set_map)

lemma handlers_relay:
  "relayed_to_others from (OnionKeyAnnounce_encode a) rs (handle_onion_key_announce E now_ms now from a rs)"
  "relayed_to_others from (CapabilityAnnounce_encode c) rs (handle_capabilities E now_ms now from c rs)"
  "relayed_to_others from (ReputationReport_encode r) rs (handle_reputation_report E now_ms now from r rs)"
  by (simp_all add: onion_key_step capability_step reputation_step relayed_flood upd_peer_key_set)

text \<open>A table that is full of peers takes no new origin, and every copy is then relayed.\<close>

lemma full_refloods:
  assumes "key_relays E (now_ms, now, from) a rs" "evict_for MAX_REMOTE_ONION_KEYS rs (ok_origin a) (rs_remote_onion_keys rs) = None"
  shows "key_relays E (now_ms, now', from') a (handle_onion_key_announce E now_ms now from a rs)"
  using assms by (simp add: onion_key_step record_remote_onion_key_def) (simp add: key_relays_def)

definition ex_key_announce :: "u64 \<Rightarrow> OnionKeyAnnounce" where
  "ex_key_announce n = \<lparr>ok_origin = replicate 32 9, ok_seq = n, ok_valid_from_ms = 100, ok_onion_eph_pub = replicate 32 5,
     ok_sig = pad_to 64 (replicate 32 9)\<rparr>"

definition ex_hub :: "bytes list RouterState" where
  "ex_hub = (ex_router [1])\<lparr>rs_peers := [([7], PeerData_new 0 [7] [] 0), ([8], PeerData_new 0 [8] [] 0)]\<rparr>"

section \<open>Properties\<close>

text \<open>C15. Flooding stops. A handler relays an announcement, if at all, to peers other than the one it came from. Consider any history of deliveries of onion-key
  announcements, of capabilities or of reputation reports at a node, from any peers and at any times, with anything in between that keeps the
  records, and let the table stay below its limit of 16384 entries. Then the announcements of one origin (for reports: of one observer about
  one node) that have any effect have strictly increasing sequence numbers, all above what was recorded before: each takes effect at most once and none
  after a newer one. The limit matters: once the table is full of direct peers, a new origin is not recorded and every copy of its announcement is relayed
  again.\<close>

theorem flood_once:
  "relayed_to_others from (OnionKeyAnnounce_encode a) rs (handle_onion_key_announce E now_ms now from a rs) \<and>
   relayed_to_others from (CapabilityAnnounce_encode c) rs (handle_capabilities E now_ms now from c rs) \<and>
   relayed_to_others from (ReputationReport_encode r) rs (handle_reputation_report E now_ms now from r rs) \<and>
   (floods (\<lambda>(now_ms, now, from). handle_onion_key_announce E now_ms now from) (\<lambda>rs k. map_option fst (map_of (rs_remote_onion_keys rs) k)) keys_full rs0 keys rs1 \<longrightarrow>
      sorted_wrt (\<lambda>a b. ok_origin a = ok_origin b \<longrightarrow> ok_seq a < ok_seq b) keys \<and>
      (\<forall>a \<in> set keys. \<forall>q e t. map_of (rs_remote_onion_keys rs0) (ok_origin a) = Some (q, e, t) \<longrightarrow> q < ok_seq a)) \<and>
   (floods (\<lambda>(now_ms, now, from). handle_capabilities E now_ms now from) (\<lambda>rs k. map_option (fst \<circ> snd) (map_of (rs_peer_capabilities rs) k)) caps_full rs0 caps rs1 \<longrightarrow>
      sorted_wrt (\<lambda>a b. ca_origin a = ca_origin b \<longrightarrow> ca_seq a < ca_seq b) caps \<and>
      (\<forall>a \<in> set caps. \<forall>q e t. map_of (rs_peer_capabilities rs0) (ca_origin a) = Some (e, q, t) \<longrightarrow> q < ca_seq a)) \<and>
   (floods (\<lambda>(now_ms, now, from). handle_reputation_report E now_ms now from) rep_seq reps_full rs0 reps rs1 \<longrightarrow>
      sorted_wrt (\<lambda>a b. (rr_observed a, rr_observer a) = (rr_observed b, rr_observer b) \<longrightarrow> rr_seq a < rr_seq b) reps \<and>
      (\<forall>a \<in> set reps. \<forall>q. rep_seq rs0 (rr_observed a, rr_observer a) = Some q \<longrightarrow> q < rr_seq a)) \<and>
   (key_relays E (now_ms, now, from) a rs \<and> evict_for MAX_REMOTE_ONION_KEYS rs (ok_origin a) (rs_remote_onion_keys rs) = None \<longrightarrow>
      key_relays E (now_ms, now', from') a (handle_onion_key_announce E now_ms now from a rs))"
proof (intro conjI impI)
  assume "floods (\<lambda>(now_ms, now, from). handle_onion_key_announce E now_ms now from) (\<lambda>rs k. map_option fst (map_of (rs_remote_onion_keys rs) k)) keys_full rs0 keys rs1"
  note inc = okf.increasing[OF this]
  then show "sorted_wrt (\<lambda>a b. ok_origin a = ok_origin b \<longrightarrow> ok_seq a < ok_seq b) keys" by blast
  from inc show "\<forall>a \<in> set keys. \<forall>q e t. map_of (rs_remote_onion_keys rs0) (ok_origin a) = Some (q, e, t) \<longrightarrow> q < ok_seq a" by simp
next
  assume "floods (\<lambda>(now_ms, now, from). handle_capabilities E now_ms now from) (\<lambda>rs k. map_option (fst \<circ> snd) (map_of (rs_peer_capabilities rs) k)) caps_full rs0 caps rs1"
  note inc = caf.increasing[OF this]
  then show "sorted_wrt (\<lambda>a b. ca_origin a = ca_origin b \<longrightarrow> ca_seq a < ca_seq b) caps" by blast
  from inc show "\<forall>a \<in> set caps. \<forall>q e t. map_of (rs_peer_capabilities rs0) (ca_origin a) = Some (e, q, t) \<longrightarrow> q < ca_seq a" by simp
next
  assume "floods (\<lambda>(now_ms, now, from). handle_reputation_report E now_ms now from) rep_seq reps_full rs0 reps rs1"
  note inc = rpf.increasing[OF this]
  then show "sorted_wrt (\<lambda>a b. (rr_observed a, rr_observer a) = (rr_observed b, rr_observer b) \<longrightarrow> rr_seq a < rr_seq b) reps" by blast
  from inc show "\<forall>a \<in> set reps. \<forall>q. rep_seq rs0 (rr_observed a, rr_observer a) = Some q \<longrightarrow> q < rr_seq a" by blast
next
  assume "key_relays E (now_ms, now, from) a rs \<and> evict_for MAX_REMOTE_ONION_KEYS rs (ok_origin a) (rs_remote_onion_keys rs) = None"
  then show "key_relays E (now_ms, now', from') a (handle_onion_key_announce E now_ms now from a rs)" by (elim conjE) (rule full_refloods)
qed (rule handlers_relay)+

text \<open>Two deliveries of the example: the first makes the node send, and an older announcement after it has no effect.\<close>

theorem flood_once_witness:
  "let rs = handle_onion_key_announce ex_env 100 0 [7] (ex_key_announce 4) ex_hub in
   rs_sent rs \<noteq> rs_sent ex_hub \<and> handle_onion_key_announce ex_env 200 5 [8] (ex_key_announce 3) rs = rs"
proof -
  let ?h = "\<lambda>(now_ms, now, from). handle_onion_key_announce ex_env now_ms now from"
  have neq: "replicate 32 9 \<noteq> (1 # replicate 31 0 :: bytes)" "replicate 32 9 \<noteq> ([7] :: bytes)" "replicate 32 9 \<noteq> ([8] :: bytes)"
    by code_simp+
  have relays: "key_relays ex_env (100, 0, [7]) (ex_key_announce 4) ex_hub"
    by (simp add: neq key_relays_def ex_key_announce_def ex_hub_def ex_router_def RouterState_new_def Let_def ex_env_def ex_def pad_to_def
      announce_fresh_def saturating_sub_def saturating_add_def ONION_KEY_VALIDITY_MS_def)
  let ?rs = "?h (100, 0, [7]) (ex_key_announce 4) ex_hub" and ?seq = "\<lambda>rs k. map_option fst (map_of (rs_remote_onion_keys rs) k)"
  have sent: "rs_sent ?rs \<noteq> rs_sent ex_hub"
    unfolding prod.case onion_key_step if_P[OF relays]
    by (simp add: neq flood_except_def send_to_peers_def send_to_peer_def upd_peer_def record_remote_onion_key_def evict_for_def
      ex_hub_def ex_router_def RouterState_new_def Let_def ex_key_announce_def MAX_REMOTE_ONION_KEYS_def PeerData_new_def ex_env_def)
  then have changed: "?rs \<noteq> ex_hub" by metis
  have room: "\<not> keys_full ex_hub" by (simp add: keys_full_def ex_hub_def ex_router_def RouterState_new_def Let_def MAX_REMOTE_ONION_KEYS_def)
  then have room': "\<not> keys_full ?rs"
    using relays by (simp add: onion_key_step keys_full_def record_remote_onion_key_def evict_for_def ex_hub_def ex_router_def RouterState_new_def Let_def
      MAX_REMOTE_ONION_KEYS_def)
  have one: "floods ?h ?seq keys_full ex_hub [ex_key_announce 4] ?rs"
    using floods.delivery[where handle = ?h and full = keys_full and p = "(100, 0, [7])" and a = "ex_key_announce 4", OF floods.start room] changed by simp
  have "?h (200, 5, [8]) (ex_key_announce 3) ?rs = ?rs"
  proof (rule ccontr)
    assume "?h (200, 5, [8]) (ex_key_announce 3) ?rs \<noteq> ?rs"
    then have "floods ?h ?seq keys_full ex_hub [ex_key_announce 4, ex_key_announce 3] (?h (200, 5, [8]) (ex_key_announce 3) ?rs)"
      using floods.delivery[where p = "(200, 5, [8])" and a = "ex_key_announce 3", OF one room'] by simp
    then have "sorted_wrt (\<lambda>a b. ok_origin a = ok_origin b \<longrightarrow> ok_seq a < ok_seq b) [ex_key_announce 4, ex_key_announce 3]"
      using flood_once[where E = ex_env and ?rs0.0 = ex_hub] by blast
    then show False by (simp add: ex_key_announce_def)
  qed
  then show ?thesis using sent by (simp add: Let_def)
qed

end
