(* ===== verification/Router_Handlers.thy ===== *)
theory Router_Handlers
  imports Router_Gossip
begin

text \<open>
  The packet handlers of \<^verbatim>\<open>src/src/router/handlers.rs\<close> and the onion handlers of \<^verbatim>\<open>src/src/router/onion.rs\<close>. The private keys and the
  encapsulation randomness a handler draws are the record \<open>handler_rnd\<close>; \<open>now\<close> and \<open>now_ms\<close> are the monotonic and the wall clock. A
  handler that panics runs in a task of its own and the lock of the state recovers, so a panic leaves the state as it is at
  that point.
\<close>

unbundle bit_operations_syntax

record handler_rnd =
  hr_session_priv :: bytes
  hr_encap :: bytes
  hr_header_priv :: bytes

section \<open>Liveness probes\<close>

definition sig_data :: "u8 \<Rightarrow> u64 \<Rightarrow> u64 \<Rightarrow> bytes \<Rightarrow> bytes" where
  "sig_data tree_id seq timestamp_ms pub_key = [tree_id] @ encode_uvarint seq [] @ encode_uvarint timestamp_ms [] @ pub_key"

definition handle_sig_req :: "'c env \<Rightarrow> u64 \<Rightarrow> instant \<Rightarrow> PeerId \<Rightarrow> SigReq \<Rightarrow> 'c RouterState \<Rightarrow> 'c RouterState" where
  "handle_sig_req E now_ms now from req rs =
     (let rs = touch_rx now from rs;
          sign_data = sig_data (sq_tree_id req) (sq_seq req) now_ms (sq_pub_key req);
          signature = ed_sign (suite E) (rs_signing_key rs) sign_data;
          res = \<lparr>sr_tree_id = sq_tree_id req, sr_seq = sq_seq req, sr_timestamp_ms = now_ms, sr_signature = signature, sr_pub_key = rs_pub_key rs\<rparr> in
      send_to_peer E now from (SigRes_encode res) rs)"

text \<open>An answered probe: half the round trip enters the moving averages of latency and jitter, in whole microseconds.\<close>

definition measured :: "instant \<Rightarrow> instant \<Rightarrow> 'c PeerData \<Rightarrow> 'c PeerData" where
  "measured now sent_time peer =
     (let rtt = duration_since now sent_time;
          new_lag = rtt div 2;
          old_lag_us = of_nat (as_micros (pd_lag peer)) :: u64;
          new_lag_us = of_nat (as_micros new_lag) :: u64;
          diff = of_int \<bar>sint (new_lag_us - old_lag_us)\<bar> :: u64 in
      peer\<lparr>pd_jitter := unat ((of_nat (as_micros (pd_jitter peer)) * 7) div 8 + diff div 8 :: u64) * 1000,
           pd_lag := unat ((old_lag_us * 7) div 8 + new_lag_us div 8) * 1000,
           pd_loss_rate := loss_down (pd_loss_rate peer),
           pd_trust := boost_trust (pd_trust peer)\<rparr>)"

definition handle_sig_res :: "'c env \<Rightarrow> instant \<Rightarrow> PeerId \<Rightarrow> SigRes \<Rightarrow> 'c RouterState \<Rightarrow> 'c RouterState" where
  "handle_sig_res E now from res rs =
     (let sign_data = sig_data (sr_tree_id res) (sr_seq res) (sr_timestamp_ms res) (rs_pub_key rs) in
      if \<not> ed_verify (suite E) (sr_pub_key res) sign_data (sr_signature res) then rs
      else upd_peer from (\<lambda>peer.
        let pending = pd_pending_sig_req_time peer;
            peer = peer\<lparr>pd_last_rx_time := now, pd_pending_sig_req_time := None\<rparr> in
        case pending of
          Some (pending_seq, sent_time) \<Rightarrow> if pending_seq = sr_seq res then measured now sent_time peer else peer
        | None \<Rightarrow> peer) rs)"

section \<open>Filters and paths\<close>

definition handle_cuckoo :: "instant \<Rightarrow> PeerId \<Rightarrow> CuckooMsg \<Rightarrow> 'c RouterState \<Rightarrow> 'c RouterState" where
  "handle_cuckoo now from msg rs =
     (let tree_id = unat (cm_tree_id msg) in
      if K \<le> tree_id then rs
      else upd_peer from (\<lambda>peer.
        let peer = peer\<lparr>pd_last_rx_time := now\<rparr> in
        if pd_peer_cuckoo_gen peer ! tree_id < cm_generation msg
        then peer\<lparr>pd_peer_cuckoo_gen := (pd_peer_cuckoo_gen peer)[tree_id := cm_generation msg],
                  pd_cuckoo := (pd_cuckoo peer)[tree_id := cuckoo_decode (cm_data msg)]\<rparr>
        else peer\<lparr>pd_cuckoo := (pd_cuckoo peer)[tree_id := cuckoo_decode (cm_data msg)]\<rparr>) rs)"

definition MAX_PENDING_LOOKUPS :: nat where "MAX_PENDING_LOOKUPS = 10000"

definition handle_path_lookup :: "'c env \<Rightarrow> instant \<Rightarrow> PeerId \<Rightarrow> PathLookup \<Rightarrow> 'c RouterState \<Rightarrow> 'c RouterState" where
  "handle_path_lookup E now from lkp rs =
     (if map_of (rs_pending_lookups rs) (pl_id lkp) \<noteq> None then rs
      else if MAX_PENDING_LOOKUPS \<le> length (rs_pending_lookups rs) then rs
      else let rs = rs\<lparr>rs_pending_lookups := AList.update (pl_id lkp) now (rs_pending_lookups rs)\<rparr> in
      if pl_target lkp = rs_pub_key rs
      then send_to_peer E now from (PathNotify_encode
             \<lparr>pn_target = rs_pub_key rs, pn_source = pl_source lkp, pn_id = pl_id lkp, pn_path = pl_path lkp\<rparr>) rs
      else let target_tag = tag_of E (pl_target lkp);
               candidates = map (\<lambda>(peer_key, peer). (peer_key, PeerData_cost peer)) (filter (\<lambda>(_, peer). claims E target_tag peer) (rs_peers rs)) in
      if candidates \<noteq> []
      then let (best_peer, _) = hd (sort_key snd candidates);
               fwd = lkp\<lparr>pl_path := pl_path lkp @ [0]\<rparr> in
           send_to_peer E now best_peer (PathLookup_encode fwd) rs
      else let landmarks = rs_landmarks rs;
               rs = send_to_peers E now (filter (\<lambda>lm. lm \<noteq> from) landmarks) (PathLookup_encode lkp) rs in
           if rs_landmarks rs = [] then flood_except E now from (PathLookup_encode lkp) rs else rs)"

definition handle_path_notify :: "'c env \<Rightarrow> instant \<Rightarrow> PeerId \<Rightarrow> PathNotify \<Rightarrow> 'c RouterState \<Rightarrow> 'c RouterState" where
  "handle_path_notify E now from notify rs =
     (let rs = touch_rx now from rs in
      if pn_source notify = rs_pub_key rs
      then let rs = (case map_of (rs_pending_probes rs) (pn_id notify) of
                       Some (via, _) \<Rightarrow> boost_peer via (rs\<lparr>rs_pending_probes := AList.delete (pn_id notify) (rs_pending_probes rs)\<rparr>)
                     | None \<Rightarrow> rs) in
           if rs_path_notify rs then rs\<lparr>rs_callbacks := rs_callbacks rs @ [PathNotified (pn_target notify)]\<rparr> else rs
      else case lookup E now (pn_source notify) rs of
             Some next_hop \<Rightarrow> send_to_peer E now next_hop (PathNotify_encode notify) rs
           | None \<Rightarrow> rs)"

definition handle_path_broken :: "'c env \<Rightarrow> instant \<Rightarrow> PeerId \<Rightarrow> PathBroken \<Rightarrow> 'c RouterState \<Rightarrow> 'c RouterState" where
  "handle_path_broken E now from broken rs =
     (let rs = touch_rx now from rs in
      if pb_source broken = rs_pub_key rs then rs
      else case lookup E now (pb_source broken) rs of
             Some next_hop \<Rightarrow> send_to_peer E now next_hop (PathBroken_encode broken) rs
           | None \<Rightarrow> rs)"

section \<open>Traffic\<close>

definition MAX_FORWARD_HOPS :: nat where "MAX_FORWARD_HOPS = 32"

definition send_traffic_to :: "'c env \<Rightarrow> bytes \<Rightarrow> instant \<Rightarrow> PeerId \<Rightarrow> bytes \<Rightarrow> 'c RouterState \<Rightarrow> 'c RouterState" where
  "send_traffic_to E epk_priv now dst payload rs =
     (let src = rs_pub_key rs;
          (enc_header, tag) = encrypt_header (suite E) epk_priv src dst;
          padded = pad_payload payload;
          traffic = \<lparr>tr_path = [], tr_from = src, tr_enc_header = enc_header, tr_routing_tag = tag, tr_pkt_type = PKT_CONTROL,
            tr_dest_coord = map_option HypCoord_encode (map_of (rs_coord_table rs) dst), tr_watermark = 0, tr_payload = padded\<rparr>;
          encoded = Traffic_encode traffic in
      case lookup E now dst rs of
        Some next_hop \<Rightarrow> send_to_peer E now next_hop encoded rs
      | None \<Rightarrow> rs)"

text \<open>A control packet for this node: a handshake message.\<close>

definition deliver_control :: "'c env \<Rightarrow> handler_rnd \<Rightarrow> u64 \<Rightarrow> instant \<Rightarrow> Traffic \<Rightarrow> 'c RouterState \<Rightarrow> 'c RouterState" where
  "deliver_control E hr now_ms now traffic rs =
     (case unpad_payload (tr_payload traffic) of
        Inl _ \<Rightarrow> rs
      | Inr raw \<Rightarrow>
          if raw \<noteq> [] \<and> hd raw = SESSION_INIT_MAGIC then
            (let (ack_opt, sm) = handle_init (suite E) now_ms now_ms now (hr_session_priv hr) (hr_encap hr) raw (rs_sessions rs);
                 rs = rs\<lparr>rs_sessions := sm\<rparr> in
             case ack_opt of
               Inl _ \<Rightarrow> rs
             | Inr ack_bytes \<Rightarrow>
                 let rs = (case SessionInit_decode raw of
                             Inr init \<Rightarrow> note_peer_coord (si_ed_pub init) (si_sender_coord init) rs
                           | Inl _ \<Rightarrow> rs) in
                 if 33 \<le> length raw then send_traffic_to E (hr_header_priv hr) now (take 32 (drop 1 raw)) ack_bytes rs else rs)
          else if raw \<noteq> [] \<and> hd raw = SESSION_ACK_MAGIC then
            (let (ok, sm) = handle_ack (suite E) now_ms raw (rs_sessions rs);
                 rs = rs\<lparr>rs_sessions := sm\<rparr> in
             case ok of
               Inl _ \<Rightarrow> rs
             | Inr _ \<Rightarrow> (case SessionAck_decode raw of
                           Inr ack \<Rightarrow> note_peer_coord (sk_ed_pub ack) (sk_sender_coord ack) rs
                         | Inl _ \<Rightarrow> rs))
          else rs)"

text \<open>A data packet for this node: the session of the source named in the header decrypts it, whether established or not.\<close>

definition deliver_data :: "'c env \<Rightarrow> instant \<Rightarrow> Traffic \<Rightarrow> 'c RouterState \<Rightarrow> 'c RouterState" where
  "deliver_data E now traffic rs =
     (case decrypt_source_from_header (suite E) (tr_enc_header traffic) (rs_signing_key rs) of
        None \<Rightarrow> rs
      | Some source \<Rightarrow>
          (case map_of (sessions (rs_sessions rs)) source of
             None \<Rightarrow> rs
           | Some info \<Rightarrow>
               let (padded_pt, info) = SessionInfo_decrypt (suite E) now info (tr_payload traffic);
                   sm = rs_sessions rs;
                   rs = rs\<lparr>rs_sessions := sm\<lparr>sessions := AList.update source info (sessions sm)\<rparr>\<rparr> in
               case padded_pt of
                 Inl _ \<Rightarrow> rs
               | Inr padded_pt \<Rightarrow>
                   (case unpad_payload padded_pt of
                      Inl _ \<Rightarrow> rs
                    | Inr payload \<Rightarrow>
                        if traffic_room E (rs_traffic rs)
                        then rs\<lparr>rs_traffic := rs_traffic rs @ [\<lparr>ip_from = source, ip_payload = payload\<rparr>]\<rparr>
                        else rs)))"

definition forward_hop :: "'c env \<Rightarrow> instant \<Rightarrow> PeerId \<Rightarrow> Traffic \<Rightarrow> 'c RouterState \<Rightarrow> PeerId option" where
  "forward_hop E now from traffic rs =
     (let greedy_hop = Option.bind (map_option HypCoord_decode (tr_dest_coord traffic))
            (\<lambda>dc. greedy_next_hop E now dc (Some from) rs) in
      case greedy_hop of
        Some h \<Rightarrow> Some h
      | None \<Rightarrow> lookup_by_tag_excluding E now (tr_routing_tag traffic) (Some from) rs)"

text \<open>A packet in transit.\<close>

definition forward_traffic :: "'c env \<Rightarrow> instant \<Rightarrow> PeerId \<Rightarrow> Traffic \<Rightarrow> 'c RouterState \<Rightarrow> 'c RouterState" where
  "forward_traffic E now from traffic rs =
     (if of_nat MAX_FORWARD_HOPS \<le> tr_watermark traffic
      then send_path_negative E now from (tr_routing_tag traffic) PATH_NEG_INITIAL_TTL rs
      else case forward_hop E now from traffic rs of
             Some next_hop \<Rightarrow>
               let fwd = traffic\<lparr>tr_watermark := saturating_add (tr_watermark traffic) 1, tr_from := rs_pub_key rs\<rparr> in
               send_to_peer E now next_hop (Traffic_encode fwd) rs
           | None \<Rightarrow>
               if \<not> convergence_active rs then send_path_negative E now from (tr_routing_tag traffic) PATH_NEG_INITIAL_TTL rs else rs)"

definition handle_traffic :: "'c env \<Rightarrow> handler_rnd \<Rightarrow> u64 \<Rightarrow> instant \<Rightarrow> PeerId \<Rightarrow> Traffic \<Rightarrow> 'c RouterState \<Rightarrow> 'c RouterState" where
  "handle_traffic E hr now_ms now from traffic rs =
     (let rs = upd_peer from (\<lambda>peer. peer\<lparr>pd_last_rx_time := now,
                 pd_rx_bytes := pd_rx_bytes peer + of_nat (length (tr_payload traffic))\<rparr>) rs;
          my_tag = tag_of E (rs_pub_key rs) in
      if routing_tag_eq (tr_routing_tag traffic) my_tag
      then (if tr_pkt_type traffic = PKT_CONTROL then deliver_control E hr now_ms now traffic rs
            else if tr_pkt_type traffic = PKT_DATA then deliver_data E now traffic rs
            else rs)
      else forward_traffic E now from traffic rs)"

section \<open>Onions\<close>

definition is_onion_replay :: "'c env \<Rightarrow> OnionPacket \<Rightarrow> 'c RouterState \<Rightarrow> bool \<times> 'c RouterState" where
  "is_onion_replay E pkt rs =
     (let (seen, cache) = onion_digest_seen (onion_replay_digest (suite E) pkt) (rs_onion_seen rs) in
      (seen, rs\<lparr>rs_onion_seen := cache\<rparr>))"

definition handle_onion :: "'c env \<Rightarrow> handler_rnd \<Rightarrow> u64 \<Rightarrow> instant \<Rightarrow> PeerId \<Rightarrow> OnionPacket \<Rightarrow> 'c RouterState \<Rightarrow> 'c RouterState" where
  "handle_onion E hr now_ms now from pkt rs =
     (let rs = touch_rx now from rs;
          (replay, rs) = is_onion_replay E pkt rs in
      if replay then rs
      else case OnionPacket_peel (suite E) (rs_onion_keys rs) pkt of
             Inr (Forward inner_bytes) \<Rightarrow>
               (case OnionPacket_decode inner_bytes of
                  Inr inner \<Rightarrow>
                    let tag = op_routing_tag inner; encoded = OnionPacket_encode inner in
                    (case lookup_by_tag_excluding E now tag (Some from) rs of
                       Some next \<Rightarrow> send_to_peer E now next encoded rs
                     | None \<Rightarrow> send_path_negative E now from tag PATH_NEG_INITIAL_TTL rs)
                | Inl _ \<Rightarrow> rs)
           | Inr (Deliver traffic_bytes) \<Rightarrow>
               if traffic_bytes = [] then rs
               else if hd traffic_bytes = TRAFFIC
               then (case Traffic_decode (tl traffic_bytes) of
                       Inr traffic \<Rightarrow> handle_traffic E hr now_ms now from traffic rs
                     | Inl _ \<Rightarrow> rs)
               else rs
           | Inl _ \<Rightarrow> rs)"

definition handle_sphinx :: "'c env \<Rightarrow> handler_rnd \<Rightarrow> u64 \<Rightarrow> instant \<Rightarrow> PeerId \<Rightarrow> bytes \<Rightarrow> 'c RouterState \<Rightarrow> 'c RouterState" where
  "handle_sphinx E hr now_ms now from cell rs =
     (let rs = touch_rx now from rs;
          (replay, rs) = (case replay_digest (suite E) cell of
            Some digest \<Rightarrow> let (seen, cache) = onion_digest_seen digest (rs_onion_seen rs) in (seen, rs\<lparr>rs_onion_seen := cache\<rparr>)
          | None \<Rightarrow> (False, rs)) in
      if replay then rs
      else case process_sphinx (suite E) cell (sphinx_privs (rs_onion_keys rs)) of
             Inr (SphinxForward next_tag cell) \<Rightarrow>
               (case lookup_by_tag_excluding E now next_tag (Some from) rs of
                  Some next \<Rightarrow> send_to_peer E now next cell rs
                | None \<Rightarrow> send_path_negative E now from next_tag PATH_NEG_INITIAL_TTL rs)
           | Inr (SphinxDeliver traffic_bytes) \<Rightarrow>
               if traffic_bytes \<noteq> [] \<and> hd traffic_bytes = TRAFFIC
               then (case Traffic_decode (tl traffic_bytes) of
                       Inr traffic \<Rightarrow> handle_traffic E hr now_ms now from traffic rs
                     | Inl _ \<Rightarrow> rs)
               else rs
           | Inl _ \<Rightarrow> rs)"

end
