(* ===== verification/Router_Maintenance.thy ===== *)
theory Router_Maintenance
  imports Router_Handlers
begin

text \<open>
  The periodic maintenance of \<^verbatim>\<open>src/src/router/mod.rs\<close>, one call of \<^verbatim>\<open>do_maintenance\<close> per second: expiry of peers, the trees and the
  reachability filters, keep-alives, key rotations, retransmitted handshakes, the periodic announcements, route probes and the sweeps of
  the tables. The random draws of one call are the record \<open>maint_rnd\<close>; \<open>accel\<close> is the parsed value of the test knob
  \<^verbatim>\<open>NORN_ACCELERATE_ROTATIONS_SECS\<close> (\<open>None\<close> in production) and \<open>poison\<close> the tags of the malicious test mode (none in production).
\<close>

record maint_rnd =
  mr_coin :: "nat \<Rightarrow> nat \<Rightarrow> bool"
  mr_slots :: "nat \<Rightarrow> nat \<Rightarrow> nat \<Rightarrow> nat"
  mr_merge :: "nat \<Rightarrow> PeerId \<Rightarrow> nat \<Rightarrow> nat \<Rightarrow> nat \<Rightarrow> nat"
  mr_onion_priv :: bytes
  mr_kem :: bytes
  mr_session_priv :: "bytes \<Rightarrow> bytes"
  mr_header_priv :: "bytes \<Rightarrow> bytes"
  mr_probe_pick :: nat
  mr_probe_id :: u64

definition KEEPALIVE_TICKS :: u32 where "KEEPALIVE_TICKS = 5"
definition PEER_TIMEOUT :: nat where "PEER_TIMEOUT = 60 * 10 ^ 9"
definition KEY_ROTATION_INTERVAL :: u64 where "KEY_ROTATION_INTERVAL = 100"
definition CUCKOO_GEN_TICKS :: u32 where "CUCKOO_GEN_TICKS = 300"
definition SESSION_IDLE_EXPIRY :: nat where "SESSION_IDLE_EXPIRY = 300 * 10 ^ 9"
definition ONION_KEY_ROTATION_TICKS :: u32 where "ONION_KEY_ROTATION_TICKS = 3600"
definition REPUTATION_REPORT_TICKS :: u32 where "REPUTATION_REPORT_TICKS = 60"
definition ONION_KEY_ANNOUNCE_TICKS :: u32 where "ONION_KEY_ANNOUNCE_TICKS = 300"
definition CAPABILITY_BROADCAST_TICKS :: u32 where "CAPABILITY_BROADCAST_TICKS = 60"
definition PROBE_INTERVAL_TICKS :: u32 where "PROBE_INTERVAL_TICKS = 15"
definition PROBE_TIMEOUT :: nat where "PROBE_TIMEOUT = 10 * 10 ^ 9"

text \<open>\<^verbatim>\<open>is_multiple_of\<close>: only zero is a multiple of zero.\<close>

definition is_multiple_of :: "u32 \<Rightarrow> u32 \<Rightarrow> bool" where
  "is_multiple_of a b \<longleftrightarrow> (if b = 0 then a = 0 else a mod b = 0)"

definition rotation_interval :: "u64 option \<Rightarrow> u32 \<Rightarrow> u32" where
  "rotation_interval accel ticks = (case accel of Some s \<Rightarrow> ucast (max s 1) | None \<Rightarrow> ticks)"

section \<open>Reachability filters\<close>

definition advance_generation :: "u64 option \<Rightarrow> nat \<Rightarrow> 'c RouterState \<Rightarrow> 'c RouterState" where
  "advance_generation accel tree_id rs =
     (if is_multiple_of (rs_tick rs) (rotation_interval accel CUCKOO_GEN_TICKS) \<and> 0 < rs_tick rs
      then rs\<lparr>rs_cuckoo_generation := (rs_cuckoo_generation rs)[tree_id := rs_cuckoo_generation rs ! tree_id + 1]\<rparr>
      else rs)"

text \<open>The filter sent upstream: the own tag and the filters of every peer but the parent.\<close>

definition merged_filter :: "'c env \<Rightarrow> maint_rnd \<Rightarrow> bytes list \<Rightarrow> nat \<Rightarrow> 'c RouterState \<Rightarrow> CuckooFilter" where
  "merged_filter E mr poison tree_id rs =
     (let parent = ts_parent (rs_trees rs ! tree_id);
          my_tag = tag_of E (rs_pub_key rs);
          merged = snd (cuckoo_add (filter_hash E) (mr_coin mr tree_id 0) (mr_slots mr tree_id 0) my_tag CuckooFilter_new);
          merged = fold (\<lambda>(peer_key, peer) merged.
            if Some peer_key = parent then merged
            else cuckoo_merge (filter_hash E) (mr_merge mr tree_id peer_key) merged (pd_cuckoo peer ! tree_id)) (rs_peers rs) merged in
      fold (\<lambda>(i, tag) merged. snd (cuckoo_add (filter_hash E) (mr_coin mr tree_id (Suc i)) (mr_slots mr tree_id (Suc i)) tag merged))
        (List.enumerate 0 poison) merged)"

text \<open>The filter sent downstream has the parent's filter merged in.\<close>

definition full_merged_filter :: "'c env \<Rightarrow> maint_rnd \<Rightarrow> bytes list \<Rightarrow> nat \<Rightarrow> 'c RouterState \<Rightarrow> CuckooFilter" where
  "full_merged_filter E mr poison tree_id rs =
     (let fm = merged_filter E mr poison tree_id rs in
      case ts_parent (rs_trees rs ! tree_id) of
        Some parent_key \<Rightarrow>
          (case map_of (rs_peers rs) parent_key of
             Some peer \<Rightarrow> cuckoo_merge (filter_hash E) (mr_merge mr tree_id parent_key) fm (pd_cuckoo peer ! tree_id)
           | None \<Rightarrow> fm)
      | None \<Rightarrow> fm)"

definition cuckoo_do_maintenance ::
  "'c env \<Rightarrow> u64 option \<Rightarrow> maint_rnd \<Rightarrow> bytes list \<Rightarrow> instant \<Rightarrow> nat \<Rightarrow> 'c RouterState \<Rightarrow> 'c RouterState" where
  "cuckoo_do_maintenance E accel mr poison now tree_id rs =
     (let rs = advance_generation accel tree_id rs;
          generation = rs_cuckoo_generation rs ! tree_id;
          parent = ts_parent (rs_trees rs ! tree_id);
          merged = merged_filter E mr poison tree_id rs;
          full_merged = full_merged_filter E mr poison tree_id rs;
          msg = (\<lambda>f. CuckooMsg_encode \<lparr>cm_tree_id = of_nat tree_id, cm_generation = generation, cm_data = cuckoo_encode f\<rparr>);
          rs = (case parent of Some parent_key \<Rightarrow> send_to_peer E now parent_key (msg merged) rs | None \<Rightarrow> rs) in
      send_to_peers E now (filter (\<lambda>k. Some k \<noteq> parent) (map fst (rs_peers rs))) (msg full_merged) rs)"

section \<open>Peers\<close>

definition keepalive_peer :: "'c env \<Rightarrow> u64 \<Rightarrow> instant \<Rightarrow> PeerId \<Rightarrow> 'c RouterState \<Rightarrow> 'c RouterState" where
  "keepalive_peer E now_ms now peer_key rs =
     (let rs = upd_peer peer_key (\<lambda>peer.
            let peer = (if pd_pending_sig_req_time peer \<noteq> None
                        then peer\<lparr>pd_loss_rate := loss_up (pd_loss_rate peer), pd_trust := decay_trust (pd_trust peer)\<rparr> else peer) in
            peer\<lparr>pd_sig_req_seq := pd_sig_req_seq peer + 1\<rparr>) rs in
      case map_of (rs_peers rs) peer_key of
        None \<Rightarrow> rs
      | Some peer \<Rightarrow>
          let seq = pd_sig_req_seq peer;
              req = \<lparr>sq_tree_id = 0, sq_seq = seq, sq_timestamp_ms = now_ms, sq_pub_key = rs_pub_key rs\<rparr>;
              rs = upd_peer peer_key (\<lambda>peer. peer\<lparr>pd_pending_sig_req_time := Some (seq, now)\<rparr>) rs in
          send_to_peer E now peer_key (SigReq_encode req) rs)"

definition send_keepalives :: "'c env \<Rightarrow> u64 \<Rightarrow> instant \<Rightarrow> 'c RouterState \<Rightarrow> 'c RouterState" where
  "send_keepalives E now_ms now rs = fold (keepalive_peer E now_ms now) (map fst (rs_peers rs)) rs"

definition expire_peers :: "instant \<Rightarrow> 'c RouterState \<Rightarrow> 'c RouterState" where
  "expire_peers now rs =
     (let expired = map fst (filter (\<lambda>(_, p). PEER_TIMEOUT < duration_since now (pd_last_rx_time p)) (rs_peers rs)) in
      fold remove_peer expired rs)"

section \<open>Key rotation\<close>

definition rotate_onion_keys_if_due :: "'c env \<Rightarrow> u64 option \<Rightarrow> maint_rnd \<Rightarrow> u64 \<Rightarrow> instant \<Rightarrow> 'c RouterState \<Rightarrow> 'c RouterState" where
  "rotate_onion_keys_if_due E accel mr now_ms now rs =
     (if is_multiple_of (rs_tick rs) (rotation_interval accel ONION_KEY_ROTATION_TICKS) \<and> 0 < rs_tick rs
      then broadcast_onion_key_announce E now_ms now
             (rs\<lparr>rs_onion_keys := OnionKeyChain_rotate (suite E) now (mr_onion_priv mr) (rs_onion_keys rs)\<rparr>)
      else rs)"

definition rotate_pq_keys_if_due :: "'c env \<Rightarrow> u64 option \<Rightarrow> maint_rnd \<Rightarrow> instant \<Rightarrow> 'c RouterState \<Rightarrow> 'c RouterState" where
  "rotate_pq_keys_if_due E accel mr now rs =
     rs\<lparr>rs_sessions := snd (maybe_rotate_pq_keys (suite E) accel (mr_kem mr) now (rs_sessions rs))\<rparr>"

definition rotate_session_keys :: "'c env \<Rightarrow> maint_rnd \<Rightarrow> 'c RouterState \<Rightarrow> 'c RouterState" where
  "rotate_session_keys E mr rs =
     (let sm = rs_sessions rs in
      rs\<lparr>rs_sessions := sm\<lparr>sessions := map (\<lambda>(k, info).
           if established info \<and> 0 < local_seq info \<and> local_seq info mod KEY_ROTATION_INTERVAL = 0
           then (k, rotate_local_key (suite E) (mr_session_priv mr k) info) else (k, info)) (sessions sm)\<rparr>\<rparr>)"

section \<open>Probes\<close>

definition probe_candidates :: "'c env \<Rightarrow> 'c RouterState \<Rightarrow> (PeerId \<times> bytes) list" where
  "probe_candidates E rs =
     (let known_identities = filter (\<lambda>k. k \<noteq> rs_pub_key rs) (map fst (rs_peers rs) @ map fst (rs_remote_onion_keys rs)) in
      concat (map (\<lambda>(peer_key, peer).
        map (\<lambda>target. (peer_key, target))
          (filter (\<lambda>target. target \<noteq> peer_key \<and> list_ex (cuckoo_contains (filter_hash E) (tag_of E target)) (pd_cuckoo peer)) known_identities))
        (rs_peers rs)))"

definition probe_cuckoo_claim :: "'c env \<Rightarrow> maint_rnd \<Rightarrow> instant \<Rightarrow> 'c RouterState \<Rightarrow> 'c RouterState" where
  "probe_cuckoo_claim E mr now rs =
     (let candidates = probe_candidates E rs in
      if candidates = [] then rs
      else let (via, target) = candidates ! (mr_probe_pick mr mod length candidates);
               msg = \<lparr>pl_target = target, pl_source = rs_pub_key rs, pl_id = mr_probe_id mr, pl_path = []\<rparr>;
               rs = send_to_peer E now via (PathLookup_encode msg) rs in
           rs\<lparr>rs_pending_probes := AList.update (mr_probe_id mr) (via, now) (rs_pending_probes rs)\<rparr>)"

definition cleanup_stale_probes :: "instant \<Rightarrow> 'c RouterState \<Rightarrow> 'c RouterState" where
  "cleanup_stale_probes now rs =
     (let expired = filter (\<lambda>(_, _, t). PROBE_TIMEOUT < duration_since now t) (rs_pending_probes rs) in
      fold (\<lambda>(i, via, _) rs. decay_peer via (rs\<lparr>rs_pending_probes := AList.delete i (rs_pending_probes rs)\<rparr>)) expired rs)"

section \<open>Sweeps\<close>

definition cleanup_stale_lookups :: "instant \<Rightarrow> 'c RouterState \<Rightarrow> 'c RouterState" where
  "cleanup_stale_lookups now rs =
     rs\<lparr>rs_pending_lookups := filter (\<lambda>(_, t). duration_since now t < 10 * 10 ^ 9) (rs_pending_lookups rs)\<rparr>"

definition cleanup_stale_sessions :: "instant \<Rightarrow> 'c RouterState \<Rightarrow> 'c RouterState" where
  "cleanup_stale_sessions now rs =
     (let sm = rs_sessions rs in
      rs\<lparr>rs_sessions := sm\<lparr>sessions := filter (\<lambda>(_, info). duration_since now (last_used info) < SESSION_IDLE_EXPIRY) (sessions sm)\<rparr>\<rparr>)"

definition resend_pending_inits :: "'c env \<Rightarrow> maint_rnd \<Rightarrow> u64 \<Rightarrow> instant \<Rightarrow> 'c RouterState \<Rightarrow> 'c RouterState" where
  "resend_pending_inits E mr now_ms now rs =
     (let (pending_inits, sm) = pending_handshake_inits (suite E) now_ms now (rs_sessions rs);
          rs = rs\<lparr>rs_sessions := sm\<rparr> in
      fold (\<lambda>(dst, init). send_traffic_to E (mr_header_priv mr dst) now dst init) pending_inits rs)"

section \<open>One tick\<close>

definition maintain_tree ::
  "'c env \<Rightarrow> u64 option \<Rightarrow> maint_rnd \<Rightarrow> bytes list \<Rightarrow> u64 \<Rightarrow> instant \<Rightarrow> nat \<Rightarrow> 'c RouterState \<Rightarrow> 'c RouterState" where
  "maintain_tree E accel mr poison now_ms now i rs =
     cuckoo_do_maintenance E accel mr poison now i (fix_tree (suite E) (unat (now_ms div 1000)) now i rs)"

definition do_maintenance ::
  "'c env \<Rightarrow> u64 option \<Rightarrow> maint_rnd \<Rightarrow> bytes list \<Rightarrow> u64 \<Rightarrow> instant \<Rightarrow> 'c RouterState \<Rightarrow> 'c RouterState" where
  "do_maintenance E accel mr poison now_ms now rs =
     (let rs = rs\<lparr>rs_tick := rs_tick rs + 1\<rparr>;
          rs = expire_peers now rs;
          rs = fold (maintain_tree E accel mr poison now_ms now) [0..<K] rs;
          rs = update_own_coord (suite E) rs;
          rs = maybe_broadcast_control E now rs;
          rs = (if is_multiple_of (rs_tick rs) KEEPALIVE_TICKS then send_keepalives E now_ms now rs else rs);
          rs = rotate_session_keys E mr rs;
          rs = rotate_onion_keys_if_due E accel mr now_ms now rs;
          rs = rotate_pq_keys_if_due E accel mr now rs;
          rs = resend_pending_inits E mr now_ms now rs;
          rs = (if rs_tick rs = 1 \<or> is_multiple_of (rs_tick rs) ONION_KEY_ANNOUNCE_TICKS then broadcast_onion_key_announce E now_ms now rs else rs);
          rs = (if rs_tick rs = 1 \<or> is_multiple_of (rs_tick rs) CAPABILITY_BROADCAST_TICKS then broadcast_capabilities E now_ms now rs else rs);
          rs = (if is_multiple_of (rs_tick rs) PROBE_INTERVAL_TICKS \<and> 0 < rs_tick rs then probe_cuckoo_claim E mr now rs else rs);
          rs = (if is_multiple_of (rs_tick rs) REPUTATION_REPORT_TICKS \<and> 0 < rs_tick rs then broadcast_reputation E now_ms now rs else rs);
          rs = cleanup_stale_probes now rs;
          rs = cleanup_stale_lookups now rs;
          rs = cleanup_stale_sessions now rs in
      cleanup_path_negative_cache now rs)"

end
