(* ===== verification/Router_Dispatch.thy ===== *)
theory Router_Dispatch
  imports Router_Maintenance
begin

text \<open>
  \<^verbatim>\<open>dispatch\<close> of \<^verbatim>\<open>src/src/router/mod.rs\<close>: the reading task of a link handles most frames at once and spawns a task for the rest (packets
  in transit after a random delay, onion layers for this node). A spawned task is a value of type \<open>task\<close>; \<open>run_task\<close> is one critical section of it,
  and a task that releases the lock between a lookup and the transmission continues as a new task. The permit of the
  forwarding semaphore is held if available and never decides anything.
\<close>

datatype task =
    TaskTraffic PeerId Traffic
  | TaskOnion PeerId OnionPacket
  | TaskSphinx PeerId bytes
  | TaskForward PeerId bytes bytes
  | TaskSend PeerId bytes
  | TaskNegative PeerId bytes

abbreviation (input) "DUMMY \<equiv> (0 :: u8)"
abbreviation (input) "KEEP_ALIVE \<equiv> (1 :: u8)"

section \<open>Frames\<close>

text \<open>A decoded frame goes to its handler, anything else is dropped.\<close>

definition with_decoded :: "'m result \<Rightarrow> ('m \<Rightarrow> 's \<Rightarrow> 's) \<Rightarrow> 's \<Rightarrow> 's" where
  "with_decoded decoded handle s = (case decoded of Inr m \<Rightarrow> handle m s | Inl _ \<Rightarrow> s)"

text \<open>The frames that are handled under the reader's lock.\<close>

definition dispatch_now :: "'c env \<Rightarrow> u64 \<Rightarrow> instant \<Rightarrow> PeerId \<Rightarrow> u8 \<Rightarrow> bytes \<Rightarrow> 'c RouterState \<Rightarrow> 'c RouterState" where
  "dispatch_now E now_ms now from ptype data =
     (if ptype = DUMMY then id
      else if ptype = KEEP_ALIVE then touch_rx now from
      else if ptype = SIG_REQ then with_decoded (SigReq_decode data) (handle_sig_req E now_ms now from)
      else if ptype = SIG_RES then with_decoded (SigRes_decode data) (handle_sig_res E now from)
      else if ptype = ANNOUNCE then with_decoded (Announce_decode data) (handle_announce (suite E) now from)
      else if ptype = CUCKOO_FILTER then with_decoded (CuckooMsg_decode data) (handle_cuckoo now from)
      else if ptype = PATH_LOOKUP then with_decoded (PathLookup_decode data) (handle_path_lookup E now from)
      else if ptype = PATH_NOTIFY then with_decoded (PathNotify_decode data) (handle_path_notify E now from)
      else if ptype = PATH_BROKEN then with_decoded (PathBroken_decode data) (handle_path_broken E now from)
      else if ptype = TYPE_COORD_ANNOUNCE then with_decoded (CoordAnnounce_decode data) (handle_coord_announce (suite E) from)
      else if ptype = TYPE_ONION_KEY_ANNOUNCE then with_decoded (OnionKeyAnnounce_decode data) (handle_onion_key_announce E now_ms now from)
      else if ptype = TYPE_CAPABILITIES then with_decoded (CapabilityAnnounce_decode data) (handle_capabilities E now_ms now from)
      else if ptype = TYPE_REPUTATION_REPORT then with_decoded (ReputationReport_decode data) (handle_reputation_report E now_ms now from)
      else if ptype = TYPE_HOLE_PUNCH then with_decoded (HolePunch_decode data) (handle_hole_punch E now_ms now from)
      else if ptype = TYPE_PATH_NEGATIVE then with_decoded (PathNegative_decode data) (handle_path_negative E now from)
      else id)"

definition dispatch ::
  "'c env \<Rightarrow> handler_rnd \<Rightarrow> u64 \<Rightarrow> instant \<Rightarrow> PeerId \<Rightarrow> bytes \<Rightarrow> 'c RouterState \<Rightarrow> 'c RouterState \<times> task list" where
  "dispatch E hr now_ms now from frame rs =
     (case frame of
        [] \<Rightarrow> (rs, [])
      | ptype # data \<Rightarrow>
          let my_tag = tag_of E (rs_pub_key rs) in
          if ptype = TRAFFIC then
            (case Traffic_decode data of
               Inl _ \<Rightarrow> (rs, [])
             | Inr traffic \<Rightarrow>
                 if routing_tag_eq (tr_routing_tag traffic) my_tag then (handle_traffic E hr now_ms now from traffic rs, [])
                 else (rs, [TaskTraffic from traffic]))
          else if ptype = TYPE_ONION then
            (case OnionPacket_decode data of
               Inl _ \<Rightarrow> (rs, [])
             | Inr pkt \<Rightarrow>
                 if routing_tag_eq (op_routing_tag pkt) my_tag then (rs, [TaskOnion from pkt])
                 else (rs, [TaskForward from (op_routing_tag pkt) (OnionPacket_encode pkt)]))
          else if ptype = TYPE_ONION_SPHINX then
            (if length frame \<noteq> CELL_SIZE then (rs, [])
             else let cell_tag = take 16 (drop 1 frame) in
                  if routing_tag_eq cell_tag my_tag then (rs, [TaskSphinx from frame])
                  else (rs, [TaskForward from cell_tag frame]))
          else (dispatch_now E now_ms now from ptype data rs, []))"

section \<open>Tasks\<close>

fun run_task :: "'c env \<Rightarrow> handler_rnd \<Rightarrow> u64 \<Rightarrow> instant \<Rightarrow> task \<Rightarrow> 'c RouterState \<Rightarrow> 'c RouterState \<times> task list" where
  "run_task E hr now_ms now (TaskTraffic from traffic) rs = (handle_traffic E hr now_ms now from traffic rs, [])"
| "run_task E hr now_ms now (TaskOnion from pkt) rs = (handle_onion E hr now_ms now from pkt rs, [])"
| "run_task E hr now_ms now (TaskSphinx from cell) rs = (handle_sphinx E hr now_ms now from cell rs, [])"
| "run_task E hr now_ms now (TaskForward from tag frame) rs =
     (case lookup_by_tag_excluding E now tag (Some from) rs of
        Some next_hop \<Rightarrow> (rs, [TaskSend next_hop frame])
      | None \<Rightarrow> (rs, [TaskNegative from tag]))"
| "run_task E hr now_ms now (TaskSend next_hop frame) rs = (send_to_peer E now next_hop frame rs, [])"
| "run_task E hr now_ms now (TaskNegative from tag) rs = (send_path_negative E now from tag PATH_NEG_INITIAL_TTL rs, [])"

end
