(* ===== verification/Packet_Conn.thy ===== *)
theory Packet_Conn
  imports Router_Dispatch
begin

text \<open>
  \<^verbatim>\<open>PacketConn\<close> of \<^verbatim>\<open>src/src/router/conn.rs\<close>, the interface of the router to the application and the transports, with
  \<^verbatim>\<open>encrypt_and_dispatch\<close> and the crypto worker pool of \<^verbatim>\<open>src/src/router/mod.rs\<close>. The queues of the workers are lists bounded by
  their capacity; the shuffle of \<^verbatim>\<open>select_relays\<close> is an argument. \<open>handle_conn\<close> is the life of a link on the whole stream of bytes it will read.
\<close>

section \<open>Sending\<close>

definition encrypt_and_dispatch ::
  "'c env \<Rightarrow> bytes \<Rightarrow> instant \<Rightarrow> bytes \<Rightarrow> bytes \<Rightarrow> bytes \<Rightarrow> 'c RouterState \<Rightarrow> unit result \<times> 'c RouterState" where
  "encrypt_and_dispatch E epk_priv now pub_key payload dst rs =
     (let padded = pad_payload payload in
      case map_of (sessions (rs_sessions rs)) dst of
        None \<Rightarrow> (Inl (Bail ''session not established''), rs)
      | Some info \<Rightarrow>
          let (ciphertext, info) = SessionInfo_encrypt (suite E) now info padded;
              sm = rs_sessions rs;
              rs = rs\<lparr>rs_sessions := sm\<lparr>sessions := AList.update dst info (sessions sm)\<rparr>\<rparr> in
          case ciphertext of
            Inl e \<Rightarrow> (Inl e, rs)
          | Inr ciphertext \<Rightarrow>
              let (enc_header, tag) = encrypt_header (suite E) epk_priv pub_key dst;
                  dest_coord = map_option HypCoord_encode (map_of (rs_coord_table rs) dst);
                  traffic = \<lparr>tr_path = [], tr_from = pub_key, tr_enc_header = enc_header, tr_routing_tag = tag, tr_pkt_type = PKT_DATA,
                    tr_dest_coord = dest_coord, tr_watermark = 0, tr_payload = ciphertext\<rparr> in
              (case lookup E now dst rs of
                 Some next_hop \<Rightarrow> (Inr (), send_to_peer E now next_hop (Traffic_encode traffic) rs)
               | None \<Rightarrow> (Inl (Bail ''no route''), rs)))"

text \<open>Every sending operation refuses a destination without an established session and starts a handshake unless one is running.\<close>

definition start_handshake :: "'c env \<Rightarrow> handler_rnd \<Rightarrow> u64 \<Rightarrow> instant \<Rightarrow> bytes \<Rightarrow> 'c RouterState \<Rightarrow> 'c RouterState" where
  "start_handshake E hr now_ms now dst rs =
     (let (init_bytes, sm) = get_or_initiate_bytes (suite E) now_ms now (hr_session_priv hr) dst (rs_sessions rs);
          rs = rs\<lparr>rs_sessions := sm\<rparr>;
          init_data = (case init_bytes of Some d \<Rightarrow> d | None \<Rightarrow> []) in
      if init_data \<noteq> [] then send_traffic_to E (hr_header_priv hr) now dst init_data rs else rs)"

section \<open>The worker pool\<close>

record CryptoJob =
  cj_payload :: bytes
  cj_dst :: bytes

definition WORKER_QUEUE :: nat where "WORKER_QUEUE = 8192"

definition worker_index :: "CryptoJob list list \<Rightarrow> bytes \<Rightarrow> nat" where
  "worker_index senders dst = unat (from_le (take 8 dst) :: u64) mod length senders"

definition try_submit :: "bytes \<Rightarrow> bytes \<Rightarrow> CryptoJob list list \<Rightarrow> bool \<times> CryptoJob list list" where
  "try_submit payload dst senders =
     (if senders = [] then (False, senders)
      else let i = worker_index senders dst in
           if length (senders ! i) < WORKER_QUEUE
           then (True, senders[i := senders ! i @ [\<lparr>cj_payload = payload, cj_dst = dst\<rparr>]])
           else (False, senders))"

section \<open>The connection handle\<close>

record 'c PacketConn =
  pc_inner :: "'c RouterState"
  pc_pub_key :: bytes
  pc_signing_key :: bytes
  pc_min_peer_difficulty_bits :: u32
  pc_crypto_pool :: "CryptoJob list list option"
  pc_obfs_key :: "bytes option"

text \<open>The two tasks the constructor spawns are the maintenance tick \<open>do_maintenance\<close> and the decoy traffic \<open>cover_round\<close> below.\<close>

definition PacketConn_new :: "crypto \<Rightarrow> bytes \<Rightarrow> bytes \<Rightarrow> bytes \<Rightarrow> instant \<Rightarrow> bytes \<Rightarrow> 'c PacketConn" where
  "PacketConn_new C kem_rnd dsa_seed onion_priv now signing_key =
     \<lparr>pc_inner = RouterState_new C kem_rnd dsa_seed onion_priv now signing_key, pc_pub_key = ed_pub_of C signing_key,
      pc_signing_key = signing_key, pc_min_peer_difficulty_bits = 0, pc_crypto_pool = None, pc_obfs_key = None\<rparr>"

definition enable_crypto_pool :: "nat \<Rightarrow> 'c PacketConn \<Rightarrow> 'c PacketConn" where
  "enable_crypto_pool workers pc =
     (if workers = 0 \<or> pc_crypto_pool pc \<noteq> None then pc else pc\<lparr>pc_crypto_pool := Some (replicate workers [])\<rparr>)"

definition write_to :: "'c env \<Rightarrow> handler_rnd \<Rightarrow> u64 \<Rightarrow> instant \<Rightarrow> bytes \<Rightarrow> bytes \<Rightarrow> 'c PacketConn \<Rightarrow> unit result \<times> 'c PacketConn" where
  "write_to E hr now_ms now payload dst pc =
     (if \<not> is_established dst (rs_sessions (pc_inner pc))
      then (Inl (Bail ''session not established''), pc\<lparr>pc_inner := start_handshake E hr now_ms now dst (pc_inner pc)\<rparr>)
      else let (submitted, pool) = (case pc_crypto_pool pc of
                 Some senders \<Rightarrow> let (ok, senders) = try_submit payload dst senders in (ok, Some senders)
               | None \<Rightarrow> (False, None));
               pc = pc\<lparr>pc_crypto_pool := pool\<rparr> in
           if submitted then (Inr (), pc)
           else let (r, rs) = encrypt_and_dispatch E (hr_header_priv hr) now (pc_pub_key pc) payload dst (pc_inner pc) in
                (r, pc\<lparr>pc_inner := rs\<rparr>))"

text \<open>One round of worker number \<open>i\<close>.\<close>

definition crypto_worker :: "'c env \<Rightarrow> bytes \<Rightarrow> instant \<Rightarrow> nat \<Rightarrow> 'c PacketConn \<Rightarrow> 'c PacketConn" where
  "crypto_worker E epk_priv now i pc =
     (case pc_crypto_pool pc of
        None \<Rightarrow> pc
      | Some senders \<Rightarrow>
          (case senders ! i of
             [] \<Rightarrow> pc
           | job # jobs \<Rightarrow>
               pc\<lparr>pc_crypto_pool := Some (senders[i := jobs]),
                  pc_inner := snd (encrypt_and_dispatch E epk_priv now (pc_pub_key pc) (cj_payload job) (cj_dst job) (pc_inner pc))\<rparr>))"

text \<open>The loop that encrypts a batch under one lock of the session: it stops at the first failure.\<close>

fun encrypt_batch :: "crypto \<Rightarrow> instant \<Rightarrow> SessionInfo \<Rightarrow> bytes list \<Rightarrow> bytes list result \<times> SessionInfo" where
  "encrypt_batch C now info [] = (Inr [], info)"
| "encrypt_batch C now info (p # ps) =
     (let (ciphertext, info) = SessionInfo_encrypt C now info (pad_payload p) in
      case ciphertext of
        Inl e \<Rightarrow> (Inl e, info)
      | Inr c \<Rightarrow> (let (cs, info) = encrypt_batch C now info ps in (map_sum id ((#) c) cs, info)))"

definition write_to_batch ::
  "'c env \<Rightarrow> handler_rnd \<Rightarrow> u64 \<Rightarrow> instant \<Rightarrow> bytes list \<Rightarrow> bytes \<Rightarrow> 'c PacketConn \<Rightarrow> nat result \<times> 'c PacketConn" where
  "write_to_batch E hr now_ms now payloads dst pc =
     (if payloads = [] then (Inr 0, pc)
      else if \<not> is_established dst (rs_sessions (pc_inner pc))
      then (Inl (Bail ''session not established''), pc\<lparr>pc_inner := start_handshake E hr now_ms now dst (pc_inner pc)\<rparr>)
      else let pub_key = pc_pub_key pc;
               (enc_header, tag) = encrypt_header (suite E) (hr_header_priv hr) pub_key dst;
               rs = pc_inner pc;
               dest_coord = map_option HypCoord_encode (map_of (rs_coord_table rs) dst) in
           case map_of (sessions (rs_sessions rs)) dst of
             None \<Rightarrow> (Inl (Bail ''session not established''), pc)
           | Some info \<Rightarrow>
               let (cs, info) = encrypt_batch (suite E) now info payloads;
                   sm = rs_sessions rs;
                   rs = rs\<lparr>rs_sessions := sm\<lparr>sessions := AList.update dst info (sessions sm)\<rparr>\<rparr>;
                   frame = (\<lambda>c. Traffic_encode \<lparr>tr_path = [], tr_from = pub_key, tr_enc_header = enc_header, tr_routing_tag = tag,
                     tr_pkt_type = PKT_DATA, tr_dest_coord = dest_coord, tr_watermark = 0, tr_payload = c\<rparr>) in
               case cs of
                 Inl e \<Rightarrow> (Inl e, pc\<lparr>pc_inner := rs\<rparr>)
               | Inr cs \<Rightarrow>
                   (case lookup E now dst rs of
                      None \<Rightarrow> (Inl (Bail ''no route''), pc\<lparr>pc_inner := rs\<rparr>)
                    | Some next_hop \<Rightarrow>
                        (Inr (length cs), pc\<lparr>pc_inner := fold (\<lambda>c. send_to_peer E now next_hop (frame c)) cs rs\<rparr>)))"

section \<open>Onions\<close>

definition select_relays :: "(OnionHop list \<Rightarrow> OnionHop list) \<Rightarrow> nat \<Rightarrow> 'c RouterState \<Rightarrow> OnionHop list" where
  "select_relays shuffle n rs =
     (let hops = List.map_filter (\<lambda>(_, p). map_option (\<lambda>eph. \<lparr>oh_identity_ed_pub = pd_pub_key p, oh_ephemeral_x_pub = eph\<rparr>) (pd_onion_eph_pub p))
            (rs_peers rs) in
      take n (shuffle hops))"

definition onion_hop_for :: "crypto \<Rightarrow> bytes \<Rightarrow> 'c RouterState \<Rightarrow> OnionHop option" where
  "onion_hop_for C identity rs =
     (let hop = (\<lambda>eph. Some \<lparr>oh_identity_ed_pub = identity, oh_ephemeral_x_pub = eph\<rparr>) in
      if identity = rs_pub_key rs then hop (kc_current_pub (rs_onion_keys rs))
      else case Option.bind (map_of (rs_peers rs) identity) pd_onion_eph_pub of
             Some eph \<Rightarrow> hop eph
           | None \<Rightarrow>
               (case map_of (rs_remote_onion_keys rs) identity of
                  Some (_, eph, _) \<Rightarrow> hop eph
                | None \<Rightarrow> (case ed25519_pub_to_x25519 C identity of Inr x \<Rightarrow> hop x | Inl _ \<Rightarrow> None)))"

text \<open>The encrypted data packet that goes into an onion.\<close>

definition onion_traffic :: "'c env \<Rightarrow> bytes \<Rightarrow> instant \<Rightarrow> bytes \<Rightarrow> bytes \<Rightarrow> bytes \<Rightarrow> 'c RouterState \<Rightarrow> bytes result \<times> 'c RouterState" where
  "onion_traffic E epk_priv now pub_key payload dst rs =
     (let dest_coord = map_option HypCoord_encode (map_of (rs_coord_table rs) dst);
          (ct, sm) = SessionManager_encrypt (suite E) now dst (pad_payload payload) (rs_sessions rs);
          rs = rs\<lparr>rs_sessions := sm\<rparr> in
      case ct of
        Inl e \<Rightarrow> (Inl e, rs)
      | Inr ciphertext \<Rightarrow>
          let (enc_header, tag) = encrypt_header (suite E) epk_priv pub_key dst in
          (Inr (Traffic_encode \<lparr>tr_path = [], tr_from = pub_key, tr_enc_header = enc_header, tr_routing_tag = tag, tr_pkt_type = PKT_DATA,
             tr_dest_coord = dest_coord, tr_watermark = 0, tr_payload = ciphertext\<rparr>), rs))"

definition send_via_relay :: "'c env \<Rightarrow> instant \<Rightarrow> bytes \<Rightarrow> bytes \<Rightarrow> 'c RouterState \<Rightarrow> unit result \<times> 'c RouterState" where
  "send_via_relay E now first_relay frame rs =
     (case lookup E now first_relay rs of
        Some next_hop \<Rightarrow> (Inr (), send_to_peer E now next_hop frame rs)
      | None \<Rightarrow> (Inl (Bail ''no route to first relay''), rs))"

definition sphinx_hop :: "'c env \<Rightarrow> OnionHop \<Rightarrow> SphinxHop" where
  "sphinx_hop E h = \<lparr>sh_routing_tag = tag_of E (oh_identity_ed_pub h), sh_onion_pub = oh_ephemeral_x_pub h\<rparr>"

definition write_to_onion_sphinx ::
  "'c env \<Rightarrow> handler_rnd \<Rightarrow> sphinx_rnd \<Rightarrow> u64 \<Rightarrow> instant \<Rightarrow> bytes \<Rightarrow> bytes \<Rightarrow> OnionHop list \<Rightarrow> 'c PacketConn \<Rightarrow> unit result \<times> 'c PacketConn" where
  "write_to_onion_sphinx E hr sr now_ms now payload dst relays pc =
     (if relays = [] then write_to E hr now_ms now payload dst pc
      else if MAX_HOPS < length relays + 1 then (Inl (Bail ''sphinx onion: too many relays''), pc)
      else case onion_hop_for (suite E) dst (pc_inner pc) of
             None \<Rightarrow> (Inl (Bail ''no onion ephemeral pub known for dst''), pc)
           | Some dest_hop \<Rightarrow>
               if \<not> is_established dst (rs_sessions (pc_inner pc))
               then (Inl (Bail ''session not established''), pc\<lparr>pc_inner := start_handshake E hr now_ms now dst (pc_inner pc)\<rparr>)
               else let (traffic, rs) = onion_traffic E (hr_header_priv hr) now (pc_pub_key pc) payload dst (pc_inner pc);
                        pc = pc\<lparr>pc_inner := rs\<rparr> in
               case traffic of
                 Inl e \<Rightarrow> (Inl e, pc)
               | Inr traffic_bytes \<Rightarrow>
                   if MAX_TRAFFIC_LEN < length traffic_bytes then (Inl (Bail ''sphinx onion: Traffic exceeds payload budget''), pc)
                   else case build_sphinx (suite E) sr (map (sphinx_hop E) relays @ [sphinx_hop E dest_hop]) traffic_bytes of
                          Inl e \<Rightarrow> (Inl e, pc)
                        | Inr cell \<Rightarrow>
                            let (r, rs) = send_via_relay E now (oh_identity_ed_pub (hd relays)) cell (pc_inner pc) in (r, pc\<lparr>pc_inner := rs\<rparr>))"

definition write_to_onion ::
  "'c env \<Rightarrow> handler_rnd \<Rightarrow> sphinx_rnd \<Rightarrow> (nat \<Rightarrow> bytes) \<Rightarrow> u64 \<Rightarrow> instant \<Rightarrow> bytes \<Rightarrow> bytes \<Rightarrow> OnionHop list \<Rightarrow> 'c PacketConn \<Rightarrow>
     unit result \<times> 'c PacketConn" where
  "write_to_onion E hr sr layer_rnd now_ms now payload dst relays pc =
     (if relays = [] then write_to E hr now_ms now payload dst pc
      else let use_sphinx = (case rs_onion_format (pc_inner pc) of
                 FormatLegacy \<Rightarrow> False | FormatSphinx \<Rightarrow> True | FormatAuto \<Rightarrow> path_supports_sphinx now relays dst (pc_inner pc)) in
      if use_sphinx then write_to_onion_sphinx E hr sr now_ms now payload dst relays pc
      else case onion_hop_for (suite E) dst (pc_inner pc) of
             None \<Rightarrow> (Inl (Bail ''no onion ephemeral pub known for dst''), pc)
           | Some dest_hop \<Rightarrow>
               if \<not> is_established dst (rs_sessions (pc_inner pc))
               then (Inl (Bail ''session not established''), pc\<lparr>pc_inner := start_handshake E hr now_ms now dst (pc_inner pc)\<rparr>)
               else let (traffic, rs) = onion_traffic E (hr_header_priv hr) now (pc_pub_key pc) payload dst (pc_inner pc);
                        pc = pc\<lparr>pc_inner := rs\<rparr> in
               case traffic of
                 Inl e \<Rightarrow> (Inl e, pc)
               | Inr traffic_bytes \<Rightarrow>
                   (case build_onion (suite E) layer_rnd relays dest_hop traffic_bytes of
                      Inl e \<Rightarrow> (Inl (Bail ''failed to build onion''), pc)
                    | Inr onion_pkt \<Rightarrow>
                        let (r, rs) = send_via_relay E now (oh_identity_ed_pub (hd relays)) (OnionPacket_encode onion_pkt) (pc_inner pc) in
                        (r, pc\<lparr>pc_inner := rs\<rparr>)))"

section \<open>Links\<close>

text \<open>A link comes up: the peer is registered and a handshake started unless there is a session.\<close>

definition open_conn :: "'c env \<Rightarrow> handler_rnd \<Rightarrow> u64 \<Rightarrow> instant \<Rightarrow> PeerId \<Rightarrow> 'c \<Rightarrow> u8 \<Rightarrow> 'c RouterState \<Rightarrow> 'c RouterState" where
  "open_conn E hr now_ms now remote_pub_key tx priority rs =
     (let rs = add_peer now remote_pub_key tx priority rs;
          (init_bytes, sm) = get_or_initiate_bytes (suite E) now_ms now (hr_session_priv hr) remote_pub_key (rs_sessions rs);
          rs = rs\<lparr>rs_sessions := sm\<rparr> in
      case init_bytes of
        Some init_data \<Rightarrow> send_traffic_to E (hr_header_priv hr) now remote_pub_key init_data rs
      | None \<Rightarrow> rs)"

text \<open>The reader loop on the bytes the link will deliver; \<open>clock\<close> and \<open>draws\<close> give the clock readings and randomness of the successive frames.
  Every frame consumes at least one byte.\<close>

lemma read_len_shrinks: "read_len acc r = Inr (l, r') \<Longrightarrow> length r' < length r"
  by (induction acc r rule: read_len.induct) (auto simp: Let_def less_Suc_eq split: if_splits)

lemma read_frame_shrinks: "read_frame r = Inr (f, r') \<Longrightarrow> length r' < length r"
  by (auto simp: read_frame_def and_then_Inr_iff split: if_splits dest!: read_len_shrinks)

function read_loop ::
  "'c env \<Rightarrow> (nat \<Rightarrow> handler_rnd) \<Rightarrow> (nat \<Rightarrow> u64 \<times> instant) \<Rightarrow> nat \<Rightarrow> PeerId \<Rightarrow> bytes \<Rightarrow> 'c RouterState \<Rightarrow> 'c RouterState \<times> task list" where
  "read_loop E draws clock i remote_pub_key reader rs =
     (case read_frame reader of
        Inl _ \<Rightarrow> (remove_peer remote_pub_key rs, [])
      | Inr (frame, reader) \<Rightarrow>
          let (rs, ts) = dispatch E (draws i) (fst (clock i)) (snd (clock i)) remote_pub_key frame rs;
              (rs, ts') = read_loop E draws clock (Suc i) remote_pub_key reader rs in
          (rs, ts @ ts'))"
  by pat_completeness auto

termination
  by (relation "measure (\<lambda>(_, _, _, _, _, reader, _). length reader)") (auto dest: read_frame_shrinks)

definition handle_conn ::
  "'c env \<Rightarrow> (nat \<Rightarrow> handler_rnd) \<Rightarrow> (nat \<Rightarrow> u64 \<times> instant) \<Rightarrow> PeerId \<Rightarrow> 'c \<Rightarrow> u8 \<Rightarrow> bytes \<Rightarrow> 'c RouterState \<Rightarrow> 'c RouterState \<times> task list" where
  "handle_conn E draws clock remote_pub_key tx priority reader rs =
     read_loop E draws clock 1 remote_pub_key reader
       (open_conn E (draws 0) (fst (clock 0)) (snd (clock 0)) remote_pub_key tx priority rs)"

section \<open>Further operations\<close>

definition record_kernel_link_stats :: "PeerId \<Rightarrow> nat \<Rightarrow> fl \<Rightarrow> 'c RouterState \<Rightarrow> 'c RouterState" where
  "record_kernel_link_stats peer rtt loss_rate =
     upd_peer peer (\<lambda>p. let clamped = fclamp loss_rate (Fin 0) (Fin 1) in
       p\<lparr>pd_lag := rtt, pd_loss_rate := fadd F32 (fmul F32 (pd_loss_rate p) (Fin (3 / 4))) (fmul F32 clamped (Fin (1 / 4)))\<rparr>)"

definition send_hole_punch :: "'c env \<Rightarrow> u64 \<Rightarrow> instant \<Rightarrow> PeerId \<Rightarrow> bytes \<Rightarrow> bytes \<Rightarrow> 'c PacketConn \<Rightarrow> 'c PacketConn" where
  "send_hole_punch E now_ms now rendezvous target endpoint pc =
     (if 255 < length endpoint then pc
      else let unsigned = \<lparr>hp_initiator = pc_pub_key pc, hp_target = target, hp_valid_from_ms = now_ms, hp_endpoint = endpoint, hp_sig = replicate 64 0\<rparr>;
               sig = ed_sign (suite E) (pc_signing_key pc) (HolePunch_sign_bytes unsigned);
               hp = unsigned\<lparr>hp_sig := sig\<rparr> in
           pc\<lparr>pc_inner := send_to_peer E now rendezvous (HolePunch_encode hp) (pc_inner pc)\<rparr>)"

definition send_lookup :: "'c env \<Rightarrow> u64 \<Rightarrow> instant \<Rightarrow> bytes \<Rightarrow> 'c PacketConn \<Rightarrow> 'c PacketConn" where
  "send_lookup E lookup_id now partial pc =
     (let target = take 32 partial @ replicate (32 - length partial) 0;
          msg = \<lparr>pl_target = target, pl_source = pc_pub_key pc, pl_id = lookup_id, pl_path = []\<rparr> in
      pc\<lparr>pc_inner := broadcast E now (PathLookup_encode msg) (pc_inner pc)\<rparr>)"

definition set_onion_format :: "OnionFormat \<Rightarrow> 'c PacketConn \<Rightarrow> 'c PacketConn" where
  "set_onion_format fmt pc = pc\<lparr>pc_inner := (pc_inner pc)\<lparr>rs_onion_format := fmt\<rparr>\<rparr>"

definition set_cover_traffic :: "CoverTraffic \<Rightarrow> 'c PacketConn \<Rightarrow> 'c PacketConn" where
  "set_cover_traffic mode pc = pc\<lparr>pc_inner := (pc_inner pc)\<lparr>rs_cover_mode := mode\<rparr>\<rparr>"

definition close :: "'c PacketConn \<Rightarrow> 'c PacketConn" where
  "close pc = pc\<lparr>pc_inner := (pc_inner pc)\<lparr>rs_peers := []\<rparr>\<rparr>"

text \<open>Cover traffic: the size of a decoy and one round of the loop, with a roll and a coin per peer.\<close>

definition cover_frame_blocks :: "u8 \<Rightarrow> nat" where
  "cover_frame_blocks roll = (if roll \<le> 79 then 2 else if roll \<le> 94 then 3 else 4)"

definition cover_frame :: "u8 \<Rightarrow> bytes" where
  "cover_frame roll = DUMMY # replicate (cover_frame_blocks roll * PAD_BLOCK - 1) 0"

definition cover_round :: "'c env \<Rightarrow> (PeerId \<Rightarrow> bool \<times> u8) \<Rightarrow> instant \<Rightarrow> 'c RouterState \<Rightarrow> 'c RouterState" where
  "cover_round E draw now rs =
     (if rs_cover_mode rs = CoverOff then rs
      else fold (\<lambda>peer rs. if rs_cover_mode rs = CoverConstant \<or> fst (draw peer) then send_to_peer E now peer (cover_frame (snd (draw peer))) rs else rs)
             (map fst (rs_peers rs)) rs)"

end
