(* ===== verification/Session_Protocol.thy ===== *)
theory Session_Protocol
  imports Session_Manager Crypto_Example
begin

text \<open>
  What two session managers promise each other: a handshake ends in two sessions that read each other's
  packets, a packet is accepted once, reordered packets are delivered, crossing handshakes converge, only
  authenticated messages change the table, and the two places where the protocol as coded is weaker than its
  comments say (one key and nonce sequence for both directions; a replayed SessionInit replaces the secret).
\<close>

section \<open>Shared lemmas\<close>

lemma encrypt_succeeds:
  assumes "aead_total C" "dh_inv C a" "length p \<le> 2 ^ 38 - 64"
  obtains ct a' where "SessionInfo_encrypt C now a p = (Inr ct, a')"
proof -
  let ?k = "packet_key C (local_x25519_priv a) (remote_x25519_pub a) (pq_shared a)"
  have "aead_seal C ?k (packet_nonce (local_seq a)) (local_x25519_pub a) p \<noteq> None"
    using assms(1,3) unfolding aead_total_def by blast
  then obtain buf where "aead_seal C ?k (packet_nonce (local_seq a)) (local_x25519_pub a) p = Some buf" by blast
  then show ?thesis using encrypt_eq[OF assms(2), of now p] by (intro that) (simp add: Let_def)
qed

text \<open>In a fresh pair, the first packet of either end is read by the other, in the managers that hold them.\<close>

lemma fresh_pair_sym: "fresh_pair C a b \<Longrightarrow> fresh_pair C b a"
  unfolding fresh_pair_def linked_def by metis

lemma fresh_pair_talk:
  assumes C: "dh_commutes C" "aead_correct C" "aead_total C" "key_sizes C"
    and f: "fresh_pair C a b" and p: "length p \<le> 2 ^ 38 - 64"
    and m: "map_of (sessions A) pb = Some a" "map_of (sessions B) pa = Some b"
  shows "\<exists>ct A' B'. SessionManager_encrypt C n pb p A = (Inr ct, A') \<and> SessionManager_decrypt C n' pa ct B = (Inr p, B')"
proof -
  have inv: "dh_inv C a" "dh_inv C b" "linked a b" "established a" "established b" using f by (auto simp: fresh_pair_def)
  obtain ct a' where enc: "SessionInfo_encrypt C n a p = (Inr ct, a')"
    using encrypt_succeeds[OF C(3) inv(1) p] by blast
  have "window_ok (window_of b) (local_seq a)"
    using f rw.check_iff[OF rw.rel_start] by (simp add: fresh_pair_def)
  then obtain b' where "SessionInfo_decrypt C n' b ct = (Inr p, b')"
    using decrypt_encrypt[OF C(1,2,4) inv(1-3) enc] by blast
  then show ?thesis
    using enc inv m by (simp add: SessionManager_encrypt_def SessionManager_decrypt_def)
qed

text \<open>Two managers that can complete a handshake started by the first.\<close>

definition can_shake :: "crypto \<Rightarrow> instant \<Rightarrow> SessionManager \<Rightarrow> SessionManager \<Rightarrow> bool" where
  "can_shake C n A B \<longleftrightarrow>
     keys_ok C (pq_keys A) \<and> length (own_coord A) = 16 \<and> pin_allows C A B \<and>
     length (own_coord B) = 16 \<and> pin_allows C B A \<and> \<not> fst (rate_limited n (our_pub C A) B) \<and>
     map_of (sessions B) (our_pub C A) = None"

text \<open>Two new managers can, whatever their keys.\<close>

lemma can_shake_new:
  assumes "kem_correct C"
  shows "can_shake C n (SessionManager_new C k1 d1 n1 s1) (SessionManager_new C k2 d2 n2 s2)"
  by (auto simp: can_shake_def SessionManager_new_def keys_ok_def PqKeys_generate_def Let_def pin_allows_def
      rate_limited_def rate_room_def MAX_INITS_PER_WINDOW_def MAX_INIT_RATE_LOG_ENTRIES_def split: prod.split)

definition exA :: SessionManager where "exA = SessionManager_new ex [1] [2] 0 [3]"
definition exB :: SessionManager where "exB = SessionManager_new ex [4] [5] 0 [6]"

lemma ex_can_shake: "can_shake ex n exA exB"
  unfolding exA_def exB_def by (rule can_shake_new) (rule ex_kem)

section \<open>A handshake establishes a working session\<close>

text \<open>C3. Handshake and data. Let A start a handshake with B (\<^verbatim>\<open>initiate\<close>), B answer the
  SessionInit (\<^verbatim>\<open>handle_init\<close>) and A take the SessionAck (\<^verbatim>\<open>handle_ack\<close>), with clocks within the time window, B
  not rate limiting A, no conflicting pinned key and no older session at B. Then both calls succeed, and each
  end can encrypt any payload to the other, who decrypts exactly that payload.\<close>

theorem handshake_then_data:
  assumes C: "sigs_correct C" "kem_correct C" "key_sizes C" "dh_commutes C" "aead_correct C" "aead_total C"
    and AB: "can_shake C n1 A B"
    and clock: "clock_skew t1 t0 \<le> HANDSHAKE_TIME_WINDOW_MS" "clock_skew t3 t2 \<le> HANDSHAKE_TIME_WINDOW_MS"
    and init: "initiate C t0 n0 xA (our_pub C B) A = (init, A1)"
  shows "\<exists>ack B1 A2. handle_init C t1 t2 n1 xB rnd init B = (Inr ack, B1) \<and> handle_ack C t3 ack A1 = (Inr (), A2) \<and>
    is_established (our_pub C B) A2 \<and> is_established (our_pub C A) B1 \<and>
    (\<forall>p n n'. length p \<le> 2 ^ 38 - 64 \<longrightarrow>
      (\<exists>ct A3 B2. SessionManager_encrypt C n (our_pub C B) p A2 = (Inr ct, A3) \<and>
                  SessionManager_decrypt C n' (our_pub C A) ct B1 = (Inr p, B2)) \<and>
      (\<exists>ct A3 B2. SessionManager_encrypt C n (our_pub C A) p B1 = (Inr ct, B2) \<and>
                  SessionManager_decrypt C n' (our_pub C B) ct A2 = (Inr p, A3)))"
proof -
  obtain ack B1 A2 a b where h: "handle_init C t1 t2 n1 xB rnd init B = (Inr ack, B1)" "handle_ack C t3 ack A1 = (Inr (), A2)"
    and m: "map_of (sessions A2) (our_pub C B) = Some a" "map_of (sessions B1) (our_pub C A) = Some b"
    and f: "fresh_pair C a b"
    using handshake_completes[OF C(1-3) _ _ _ _ _ _ _ clock init] AB unfolding can_shake_def by metis
  show ?thesis
  proof (rule exI[of _ ack], rule exI[of _ B1], rule exI[of _ A2], intro conjI allI impI)
    show "is_established (our_pub C B) A2" "is_established (our_pub C A) B1"
      using m f by (simp_all add: is_established_def fresh_pair_def)
    fix p :: bytes and n n' assume p: "length p \<le> 2 ^ 38 - 64"
    show "\<exists>ct A3 B2. SessionManager_encrypt C n (our_pub C B) p A2 = (Inr ct, A3) \<and>
        SessionManager_decrypt C n' (our_pub C A) ct B1 = (Inr p, B2)"
      using fresh_pair_talk[OF C(4-6,3) f p m] by blast
    show "\<exists>ct A3 B2. SessionManager_encrypt C n (our_pub C A) p B1 = (Inr ct, B2) \<and>
        SessionManager_decrypt C n' (our_pub C B) ct A2 = (Inr p, A3)"
      using fresh_pair_talk[OF C(4-6,3) fresh_pair_sym[OF f] p m(2,1)] by blast
  qed (use h in simp_all)
qed

theorem handshake_then_data_witness:
  "\<exists>ack B1 A2. handle_init ex 0 0 0 [8] [9] (fst (initiate ex 0 0 [7] (our_pub ex exB) exA)) exB = (Inr ack, B1) \<and>
     handle_ack ex 0 ack (snd (initiate ex 0 0 [7] (our_pub ex exB) exA)) = (Inr (), A2) \<and>
     (\<exists>ct A3 B2. SessionManager_encrypt ex 0 (our_pub ex exB) [42] A2 = (Inr ct, A3) \<and>
                 SessionManager_decrypt ex 0 (our_pub ex exA) ct B1 = (Inr [42], B2))"
proof -
  have c: "clock_skew 0 0 \<le> HANDSHAKE_TIME_WINDOW_MS" by code_simp
  have l: "length [42 :: u8] \<le> 2 ^ 38 - 64" by simp
  obtain init A1 where i: "initiate ex 0 0 [7] (our_pub ex exB) exA = (init, A1)" by force
  from handshake_then_data[OF ex_sigs ex_kem ex_key_sizes ex_dh ex_aead ex_can_shake c c i, of 0 "[8]" "[9]"] l
  show ?thesis unfolding i by (metis fst_conv snd_conv)
qed

section \<open>Packets\<close>

definition exSa :: SessionInfo where
  "exSa = (SessionInfo_new ex 0 [] [1] (x25519_pub_of ex [2]))\<lparr>established := True\<rparr>"

definition exSb :: SessionInfo where
  "exSb = (SessionInfo_new ex 0 [] [2] (x25519_pub_of ex [1]))\<lparr>established := True\<rparr>"

lemma ex_linked: "dh_inv ex exSa" "dh_inv ex exSb" "linked exSa exSb" "window_of exSb = (0, 0)" "local_seq exSa = 0"
  by (simp_all add: exSa_def exSb_def SessionInfo_new_def dh_inv_def linked_def window_of_def)

text \<open>C4. No replay. In every history of a session (encryptions, successful and failed decryptions, key
  rotations, handshake messages and retransmissions in any order) the sequence numbers of the accepted packets
  are pairwise distinct: no packet is accepted twice.\<close>

theorem packet_accepted_once:
  "session_run C (SessionInfo_new C now e k r) qs t \<Longrightarrow> distinct qs"
  using session_run_window[of C "SessionInfo_new C now e k r" qs t "{}"] rw.rel_start
  by (simp add: SessionInfo_new_def window_of_def)

theorem packet_accepted_once_witness:
  "\<exists>t. session_run ex (SessionInfo_new ex 0 [] [2] (x25519_pub_of ex [1])) [0] t \<and> distinct [0 :: u64]"
proof -
  let ?s = "SessionInfo_new ex 0 [] [2] (x25519_pub_of ex [1])"
  obtain ct a' where enc: "SessionInfo_encrypt ex 0 exSa [7] = (Inr ct, a')"
    by (rule encrypt_succeeds[OF ex_aead(2) ex_linked(1), of "[7]" 0]) auto
  note ct = encrypted_packet[OF ex_linked(1) ex_aead(1) ex_key_sizes enc]
  have l: "dh_inv ex ?s" "linked exSa ?s" "window_ok (window_of ?s) (local_seq exSa)"
    using rw.check_iff[OF rw.rel_start]
    by (simp_all add: exSa_def SessionInfo_new_def dh_inv_def linked_def window_of_def)
  obtain u where "SessionInfo_decrypt ex 0 ?s ct = (Inr [7], u)"
    using decrypt_encrypt[OF ex_dh ex_aead(1) ex_key_sizes ex_linked(1) l(1,2) enc l(3)] by blast
  then have "session_run ex ?s ([] @ [from_le (take 8 (drop 32 ct))]) u" by (rule session_run.accept[OF session_run.start])
  then have r: "session_run ex ?s [0] u" using ct(2) ex_linked(5) by simp
  then show ?thesis using packet_accepted_once[OF r] by blast
qed

text \<open>C18. Reordered delivery. A sender encrypts a list of payloads; the receiver gets any subset of the packets
  in any order in which no packet comes after one that is 64 or more sequence numbers newer, and that are new to its
  replay window (\<open>A\<close> is the set of numbers it accepted before). Then every one of them decrypts to its payload.\<close>

theorem reordered_delivery:
  assumes "dh_commutes C" "aead_correct C" "key_sizes C"
    and "dh_inv C a" "encrypt_all C now a ps = map Inr cts" "unat (local_seq a) + length ps < 2 ^ 64"
    and "dh_inv C b" "linked a b" "window_rel (window_of b) A"
    and "\<forall>i \<in> set ks. i < length ps" "distinct ks" "\<forall>i \<in> set ks. unat (local_seq a) + i \<notin> A"
      "\<forall>k < length ks. (\<forall>x \<in> A. x < unat (local_seq a) + ks ! k + 64) \<and> (\<forall>j < k. ks ! j < ks ! k + 64)"
  shows "decrypt_all C now' b (map ((!) cts) ks) = map (\<lambda>i. Inr (ps ! i)) ks"
  using deliver_reordered[OF assms] .

theorem reordered_delivery_witness:
  "\<exists>c0 c1. encrypt_all ex 0 exSa [[7], [8]] = map Inr [c0, c1] \<and>
     decrypt_all ex 0 exSb [c1, c0] = [Inr [8], Inr [7]]"
proof -
  obtain c0 a1 where e0: "SessionInfo_encrypt ex 0 exSa [7] = (Inr c0, a1)"
    by (rule encrypt_succeeds[OF ex_aead(2) ex_linked(1), of "[7]" 0]) auto
  obtain c1 a2 where e1: "SessionInfo_encrypt ex 0 a1 [8] = (Inr c1, a2)"
    by (rule encrypt_succeeds[OF ex_aead(2) encrypt_dh_inv[OF ex_linked(1) e0], of "[8]" 0]) auto
  have e: "encrypt_all ex 0 exSa [[7], [8]] = map Inr [c0, c1]" using e0 e1 by simp
  have w: "window_rel (window_of exSb) {}" using rw.rel_start ex_linked(4) by simp
  have "decrypt_all ex 0 exSb (map ((!) [c0, c1]) [1, 0]) = map (\<lambda>i. Inr ([[7], [8]] ! i)) [1, 0]"
    by (rule reordered_delivery[OF ex_dh ex_aead(1) ex_key_sizes ex_linked(1) e _ ex_linked(2,3) w])
      (auto simp: ex_linked(5) less_Suc_eq nth_Cons')
  then show ?thesis using e by auto
qed

section \<open>Crossing handshakes\<close>

lemma cross_run_trans: "cross_run pa pb st' st'' \<Longrightarrow> cross_run pa pb st st' \<Longrightarrow> cross_run pa pb st st''"
  by (induction rule: cross_run.induct) (auto intro: cross_run.step)

lemma cross_run_finishes: "\<exists>a' b' s t. cross_run pa pb (a, b, x, y) (a', b', Done s, Done t)"
proof (induction "pending x + pending y" arbitrary: a b x y rule: less_induct)
  case less
  show ?case
  proof (cases "pending x + pending y > 0")
    case True
    then obtain a1 b1 x1 y1 where st: "cross_step pa pb (a, b, x, y) (a1, b1, x1, y1)"
      using cross_step_exists[of x y pa pb a b] by (metis prod_cases4)
    then have "pending x1 + pending y1 < pending x + pending y" using cross_step_pending[OF st] by simp
    then obtain a' b' s t where "cross_run pa pb (a1, b1, x1, y1) (a', b', Done s, Done t)" using less by blast
    moreover have "cross_run pa pb (a, b, x, y) (a1, b1, x1, y1)" by (rule cross_run.step[OF cross_run.refl st])
    ultimately show ?thesis using cross_run_trans by blast
  next
    case False
    then show ?thesis by (cases x; cases y) (simp_all, metis cross_run.refl)
  qed
qed

text \<open>C19. Crossing handshakes converge. Two nodes with different keys initiate at the same time; the two Init and
  two Ack deliveries interleave in any order and encapsulate any secrets. From every reachable state the exchange
  can be completed, and when it is complete both ends are established, hold each other's X25519 key and hold
  the same post-quantum secret.\<close>

theorem crossing_handshakes_converge:
  assumes "pa \<noteq> pb" "cross_run pa pb (a, b, Sent, Sent) (a', b', x, y)"
  shows "(\<exists>a'' b'' s t. cross_run pa pb (a', b', x, y) (a'', b'', Done s, Done t)) \<and>
    (\<forall>s t. x = Done s \<and> y = Done t \<longrightarrow>
       linked a' b' \<and> linked b' a' \<and> pq_shared a' \<noteq> None \<and> established a' \<and> established b')"
  using cross_run_finishes[of pa pb a' b' x y] cross_converges[OF assms(1)] assms(2) by blast

theorem crossing_handshakes_converge_witness:
  "\<exists>a'' b'' s t. cross_run [1] [2] (exSa, exSb, Sent, Sent) (a'', b'', Done s, Done t)"
  using crossing_handshakes_converge[of "[1]" "[2]" exSa exSb exSa exSb Sent Sent] cross_run.refl by auto

section \<open>Only authenticated messages change a session\<close>

text \<open>C16. An accepted SessionInit is authentic. When \<^verbatim>\<open>handle_init\<close> succeeds, the message decodes, names this node as
  its recipient, is inside the time window, carries a valid Ed25519 signature of the identity it names and a
  valid ML-DSA signature, and its ML-DSA key is the one pinned for that identity, which stays pinned. Sessions with
  other peers are untouched.\<close>

theorem handle_init_authentic:
  assumes "handle_init C now_ms ack_ms now x_rnd enc_rnd data m = (Inr ack, m')"
  shows "\<exists>init. SessionInit_decode data = Inr init \<and> si_recipient_ed_pub init = our_pub C m \<and>
    clock_skew now_ms (si_timestamp_ms init) \<le> HANDSHAKE_TIME_WINDOW_MS \<and>
    ed_verify C (si_ed_pub init) (SessionInit_signed_bytes init) (si_signature init) \<and>
    dsa_verify C (si_ml_dsa_pub init) (SessionInit_signed_bytes init) (si_ml_dsa_sig init) \<and>
    map_of (pq_pins m) (si_ed_pub init) \<in> {None, Some (si_ml_dsa_pub init)} \<and>
    map_of (pq_pins m') (si_ed_pub init) = Some (si_ml_dsa_pub init) \<and>
    is_established (si_ed_pub init) m' \<and>
    (\<forall>peer. peer \<noteq> si_ed_pub init \<longrightarrow> map_of (sessions m') peer = map_of (sessions m) peer)"
  by (rule handle_init_ok[OF assms])
    (auto simp: SessionInit_verify_def SessionInit_signed_bytes_def our_pub_def is_established_def
      split: if_splits option.splits)

lemma ex_handshake:
  obtains init A1 ack B1 A2 where "initiate ex 0 0 [7] (our_pub ex exB) exA = (init, A1)"
    "handle_init ex 0 0 0 [8] [9] init exB = (Inr ack, B1)" "handle_ack ex 0 ack A1 = (Inr (), A2)"
proof -
  have c: "clock_skew 0 0 \<le> HANDSHAKE_TIME_WINDOW_MS" by code_simp
  obtain init A1 where i: "initiate ex 0 0 [7] (our_pub ex exB) exA = (init, A1)" by force
  show ?thesis
    using handshake_completes[OF ex_sigs ex_kem ex_key_sizes _ _ _ _ _ _ _ c c i] ex_can_shake[of 0] that[OF i]
    unfolding can_shake_def by metis
qed

theorem handle_init_authentic_witness:
  "\<exists>ack m' init. handle_init ex 0 0 0 [8] [9] (fst (initiate ex 0 0 [7] (our_pub ex exB) exA)) exB = (Inr ack, m') \<and>
     ed_verify ex (si_ed_pub init) (SessionInit_signed_bytes init) (si_signature init)"
proof -
  obtain init A1 ack B1 A2 where h: "initiate ex 0 0 [7] (our_pub ex exB) exA = (init, A1)"
    "handle_init ex 0 0 0 [8] [9] init exB = (Inr ack, B1)" "handle_ack ex 0 ack A1 = (Inr (), A2)" by (rule ex_handshake)
  then show ?thesis using handle_init_authentic[OF h(2)] by auto
qed

text \<open>All that an acknowledgement has to satisfy.\<close>

definition ack_acceptable :: "crypto \<Rightarrow> u64 \<Rightarrow> SessionManager \<Rightarrow> SessionAck \<Rightarrow> bool" where
  "ack_acceptable C now_ms m ack \<longleftrightarrow> sk_recipient_ed_pub ack = our_pub C m \<and>
     clock_skew now_ms (sk_timestamp_ms ack) \<le> HANDSHAKE_TIME_WINDOW_MS \<and>
     ed_verify C (sk_ed_pub ack) (SessionAck_signed_bytes ack) (sk_signature ack) \<and>
     dsa_verify C (sk_ml_dsa_pub ack) (SessionAck_signed_bytes ack) (sk_ml_dsa_sig ack) \<and>
     map_of (pq_pins m) (sk_ed_pub ack) \<in> {None, Some (sk_ml_dsa_pub ack)} \<and> map_of (sessions m) (sk_ed_pub ack) \<noteq> None"

lemma handle_ack_acceptable:
  assumes "SessionAck_decode data = Inr ack" "ack_acceptable C now_ms m ack"
  shows "\<exists>m'. handle_ack C now_ms data m = (Inr (), m')"
proof -
  obtain p m1 where pin: "pq_verify_and_pin C (sk_ed_pub ack) (sk_ml_dsa_pub ack) (SessionAck_signed_bytes ack) (sk_ml_dsa_sig ack) m = (p, m1)" by force
  have "fst (pq_verify_and_pin C (sk_ed_pub ack) (sk_ml_dsa_pub ack) (SessionAck_signed_bytes ack) (sk_ml_dsa_sig ack) m) = Inr ()"
    using assms(2) unfolding ack_acceptable_def by (intro pq_verify_and_pin_accepts) simp_all
  moreover have "SessionAck_verify C now_ms ack (ed_pub_of C (our_signing_key m)) = Inr ()"
    using assms(2) by (auto simp: ack_acceptable_def SessionAck_verify_def SessionAck_signed_bytes_def our_pub_def not_less)
  ultimately show ?thesis using assms pin pq_verify_and_pin_frame[OF pin] by (auto simp: handle_ack_def ack_acceptable_def Let_def)
qed

lemma handle_init_session:
  assumes "handle_init C t1 t2 n x r init B = (Inr answer, B')" "SessionInit_decode init = Inr i"
  shows "map_of (sessions B') (si_ed_pub i) \<noteq> None"
  by (rule handle_init_ok[OF assms(1)]) (use assms(2) in simp)

lemma handle_ack_effect:
  assumes "handle_ack C now_ms data m = (Inr (), m')" "SessionAck_decode data = Inr ack"
  shows "map_of (pq_pins m') (sk_ed_pub ack) = Some (sk_ml_dsa_pub ack)" "is_established (sk_ed_pub ack) m'"
    "peer \<noteq> sk_ed_pub ack \<Longrightarrow> map_of (sessions m') peer = map_of (sessions m) peer"
  by (rule handle_ack_ok[OF assms(1)]; use assms(2) in \<open>simp add: is_established_def\<close>)+

text \<open>C17. Which SessionAcks are accepted. \<^verbatim>\<open>handle_ack\<close> succeeds exactly on a message that decodes, names this node as its recipient, is inside the time
  window, carries both valid signatures under the identity it names and the key pinned for it, and names an identity with which
  this node has a session. It then pins the key, establishes that session and touches no other. A session suffices, whoever started the handshake:
  answering a SessionInit also creates one, so that an acknowledgement is accepted from a peer to which this node never sent a SessionInit.\<close>

theorem handle_ack_authentic:
  "(fst (handle_ack C now_ms data m) = Inr () \<longleftrightarrow> (\<exists>ack. SessionAck_decode data = Inr ack \<and>
      sk_recipient_ed_pub ack = our_pub C m \<and> clock_skew now_ms (sk_timestamp_ms ack) \<le> HANDSHAKE_TIME_WINDOW_MS \<and>
      ed_verify C (sk_ed_pub ack) (SessionAck_signed_bytes ack) (sk_signature ack) \<and>
      dsa_verify C (sk_ml_dsa_pub ack) (SessionAck_signed_bytes ack) (sk_ml_dsa_sig ack) \<and>
      map_of (pq_pins m) (sk_ed_pub ack) \<in> {None, Some (sk_ml_dsa_pub ack)} \<and> map_of (sessions m) (sk_ed_pub ack) \<noteq> None)) \<and>
   (\<forall>m' ack. handle_ack C now_ms data m = (Inr (), m') \<and> SessionAck_decode data = Inr ack \<longrightarrow>
      map_of (pq_pins m') (sk_ed_pub ack) = Some (sk_ml_dsa_pub ack) \<and> is_established (sk_ed_pub ack) m' \<and>
      (\<forall>peer. peer \<noteq> sk_ed_pub ack \<longrightarrow> map_of (sessions m') peer = map_of (sessions m) peer)) \<and>
   (\<forall>t1 t2 n x r init i answer B B'. handle_init C t1 t2 n x r init B = (Inr answer, B') \<and> SessionInit_decode init = Inr i \<longrightarrow>
      map_of (sessions B') (si_ed_pub i) \<noteq> None)"
proof (intro conjI allI impI)
  show "fst (handle_ack C now_ms data m) = Inr () \<longleftrightarrow> (\<exists>ack. SessionAck_decode data = Inr ack \<and>
      sk_recipient_ed_pub ack = our_pub C m \<and> clock_skew now_ms (sk_timestamp_ms ack) \<le> HANDSHAKE_TIME_WINDOW_MS \<and>
      ed_verify C (sk_ed_pub ack) (SessionAck_signed_bytes ack) (sk_signature ack) \<and>
      dsa_verify C (sk_ml_dsa_pub ack) (SessionAck_signed_bytes ack) (sk_ml_dsa_sig ack) \<and>
      map_of (pq_pins m) (sk_ed_pub ack) \<in> {None, Some (sk_ml_dsa_pub ack)} \<and> map_of (sessions m) (sk_ed_pub ack) \<noteq> None)"
    unfolding ack_acceptable_def[symmetric]
  proof
    assume "fst (handle_ack C now_ms data m) = Inr ()"
    then obtain m' where "handle_ack C now_ms data m = (Inr (), m')" by (cases "handle_ack C now_ms data m") simp
    then show "\<exists>ack. SessionAck_decode data = Inr ack \<and> ack_acceptable C now_ms m ack"
      by (rule handle_ack_ok)
        (auto simp: ack_acceptable_def SessionAck_verify_def SessionAck_signed_bytes_def our_pub_def split: if_splits option.splits)
  qed (use handle_ack_acceptable in force)
next
  fix m' ack assume a: "handle_ack C now_ms data m = (Inr (), m') \<and> SessionAck_decode data = Inr ack"
  then show "map_of (pq_pins m') (sk_ed_pub ack) = Some (sk_ml_dsa_pub ack)" "is_established (sk_ed_pub ack) m'"
    using handle_ack_effect(1,2) by blast+
  show "map_of (sessions m') peer = map_of (sessions m) peer" if "peer \<noteq> sk_ed_pub ack" for peer
    using a that handle_ack_effect(3) by blast
next
  fix t1 t2 n x r init i answer B B'
  assume "handle_init C t1 t2 n x r init B = (Inr answer, B') \<and> SessionInit_decode init = Inr i"
  then show "map_of (sessions B') (si_ed_pub i) \<noteq> None" using handle_init_session by blast
qed

theorem handle_ack_authentic_witness:
  "\<exists>init A1 ack B1 A2 m. initiate ex 0 0 [7] (our_pub ex exB) exA = (init, A1) \<and>
     handle_init ex 0 0 0 [8] [9] init exB = (Inr ack, B1) \<and> handle_ack ex 0 ack A1 = (Inr (), A2) \<and>
     SessionAck_decode ack = Inr m \<and> is_established (sk_ed_pub m) A2"
proof -
  obtain init A1 ack B1 A2 where h: "initiate ex 0 0 [7] (our_pub ex exB) exA = (init, A1)"
    "handle_init ex 0 0 0 [8] [9] init exB = (Inr ack, B1)" "handle_ack ex 0 ack A1 = (Inr (), A2)" by (rule ex_handshake)
  note accepted = handle_ack_authentic[of ex 0 ack A1]
  obtain m where "SessionAck_decode ack = Inr m" using conjunct1[OF accepted] h(3) by auto
  moreover have "is_established (sk_ed_pub m) A2" using conjunct1[OF conjunct2[OF accepted]] h(3) calculation by blast
  ultimately show ?thesis using h by blast
qed

section \<open>Inbound handshakes are bounded\<close>

text \<open>C33. Rate limit. From a new manager and for calls at non-decreasing times, in any sliding window of
  \<^verbatim>\<open>INIT_RATE_WINDOW\<close> (10 s) at most \<^verbatim>\<open>MAX_INITS_PER_WINDOW\<close> (4) handshakes of one source pass the limiter, however many
  other sources send and whatever the eviction of the bounded log removes.\<close>

theorem init_rate_bound:
  assumes "sorted (map fst calls)" "\<forall>c \<in> set calls. 0 \<le> fst c"
  shows "in_window t0 (times_of src (admitted (SessionManager_new C k d n sk) calls)) \<le> MAX_INITS_PER_WINDOW"
proof -
  have "rate_inv (SessionManager_new C k d n sk) [] 0"
    by (simp add: rate_inv_def times_of_def rate_entry_def SessionManager_new_def)
  moreover have "in_window t (times_of s []) \<le> MAX_INITS_PER_WINDOW" for t s
    by (simp add: in_window_def times_of_def)
  ultimately show ?thesis
    using admitted_bound[of "SessionManager_new C k d n sk" "[]" 0 calls src t0] assms
    by (simp add: SessionManager_new_def)
qed

definition ex_calls :: "(instant \<times> bytes) list" where
  "ex_calls = [(1, [1]), (2, [1]), (3, [2]), (4, [1]), (5, [1]), (6, [1]), (20000000000, [1])]"

theorem init_rate_bound_witness:
  "in_window 0 (times_of [1] (admitted (SessionManager_new ex [] [] 0 []) ex_calls)) \<le> 4 \<and>
   admitted (SessionManager_new ex [] [] 0 []) ex_calls =
     [(1, [1]), (2, [1]), (3, [2]), (4, [1]), (5, [1]), (20000000000, [1])]"
proof -
  have s: "sorted (map fst ex_calls)" "\<forall>c \<in> set ex_calls. 0 \<le> fst c" by (simp_all add: ex_calls_def)
  have "admitted (SessionManager_new ex [] [] 0 []) ex_calls =
     [(1, [1]), (2, [1]), (3, [2]), (4, [1]), (5, [1]), (20000000000, [1])]"
    by (simp add: ex_calls_def SessionManager_new_def rate_limited_def rate_room_def Let_def INIT_RATE_WINDOW_def
        MAX_INITS_PER_WINDOW_def MAX_INIT_RATE_LOG_ENTRIES_def)
  then show ?thesis using init_rate_bound[OF s, of 0 "[1]" ex "[]" "[]" 0 "[]"] by (simp add: MAX_INITS_PER_WINDOW_def)
qed

definition tables_bounded :: "SessionManager \<Rightarrow> bool" where
  "tables_bounded m \<longleftrightarrow> length (init_rate_log m) \<le> MAX_INIT_RATE_LOG_ENTRIES \<and> length (pq_pins m) \<le> MAX_PQ_PINS"

lemma rate_limited_bounded: "rate_limited now src m = (r, m') \<Longrightarrow> tables_bounded m \<Longrightarrow> tables_bounded m'"
  using rate_log_bound[of now src m r m'] rate_limited_frame[of now src m r m'] by (simp add: tables_bounded_def)

lemma pin_bounded: "pq_verify_and_pin C e k msg sg m = (r, m') \<Longrightarrow> tables_bounded m \<Longrightarrow> tables_bounded m'"
  using pins_bound[of C e k msg sg m r m'] pq_verify_and_pin_frame[of C e k msg sg m r m'] by (simp add: tables_bounded_def)

text \<open>What the rate limiter, the pinning and an update of the sessions keep, the handshake handlers keep.\<close>

lemma handle_init_preserves:
  assumes "handle_init C t1 t2 n x rnd data m = (r, m')" "P m"
    and rate: "\<And>src m l m'. rate_limited n src m = (l, m') \<Longrightarrow> P m \<Longrightarrow> P m'"
    and pin: "\<And>e k msg sg m r m'. pq_verify_and_pin C e k msg sg m = (r, m') \<Longrightarrow> P m \<Longrightarrow> P m'"
    and sess: "\<And>m s. P m \<Longrightarrow> P (m\<lparr>sessions := s\<rparr>)"
  shows "P m'"
proof (cases "SessionInit_decode data")
  case (Inl e)
  then show ?thesis using assms by (simp add: handle_init_def)
next
  case (Inr init)
  obtain l m1 where l: "rate_limited n (si_ed_pub init) m = (l, m1)" by force
  obtain p m2 where p: "pq_verify_and_pin C (si_ed_pub init) (si_ml_dsa_pub init) (SessionInit_signed_bytes init) (si_ml_dsa_sig init) m1 = (p, m2)"
    by force
  have "m' = m1 \<or> m' = m2 \<or> (\<exists>s. m' = m2\<lparr>sessions := s\<rparr>)"
    using assms(1) Inr l p by (auto simp: handle_init_def Let_def split: if_splits sum.splits option.splits)
  moreover have "P m1" "P m2" using rate[OF l assms(2)] pin[OF p] by auto
  ultimately show ?thesis using sess by auto
qed

lemma handle_ack_preserves:
  assumes "handle_ack C t data m = (r, m')" "P m"
    and pin: "\<And>e k msg sg m r m'. pq_verify_and_pin C e k msg sg m = (r, m') \<Longrightarrow> P m \<Longrightarrow> P m'"
    and sess: "\<And>m s. P m \<Longrightarrow> P (m\<lparr>sessions := s\<rparr>)"
  shows "P m'"
proof (cases "SessionAck_decode data")
  case (Inl e)
  then show ?thesis using assms by (simp add: handle_ack_def)
next
  case (Inr ack)
  obtain p m2 where p: "pq_verify_and_pin C (sk_ed_pub ack) (sk_ml_dsa_pub ack) (SessionAck_signed_bytes ack) (sk_ml_dsa_sig ack) m = (p, m2)"
    by force
  have "m' = m \<or> m' = m2 \<or> (\<exists>s. m' = m2\<lparr>sessions := s\<rparr>)"
    using assms(1) Inr p by (auto simp: handle_ack_def Let_def split: if_splits sum.splits option.splits)
  then show ?thesis using pin[OF p assms(2)] assms(2) sess by auto
qed

lemma sessions_bounded: "tables_bounded m \<Longrightarrow> tables_bounded (m\<lparr>sessions := s\<rparr>)"
  by (simp add: tables_bounded_def)

lemma handle_init_bounded: "handle_init C t1 t2 n x rnd data m = (r, m') \<Longrightarrow> tables_bounded m \<Longrightarrow> tables_bounded m'"
  by (erule handle_init_preserves) (auto intro: rate_limited_bounded pin_bounded sessions_bounded)

lemma handle_ack_bounded: "handle_ack C t data m = (r, m') \<Longrightarrow> tables_bounded m \<Longrightarrow> tables_bounded m'"
  by (erule handle_ack_preserves) (auto intro: pin_bounded sessions_bounded)

lemma handle_init_signing_key: "handle_init C t1 t2 n x rnd data m = (r, m') \<Longrightarrow> our_signing_key m' = our_signing_key m"
  by (erule handle_init_preserves[where P = "\<lambda>m'. our_signing_key m' = our_signing_key m"])
     (simp_all add: rate_limited_frame(2) pq_verify_and_pin_frame(2))

lemma handle_ack_signing_key: "handle_ack C t data m = (r, m') \<Longrightarrow> our_signing_key m' = our_signing_key m"
  by (erule handle_ack_preserves[where P = "\<lambda>m'. our_signing_key m' = our_signing_key m"]) (simp_all add: pq_verify_and_pin_frame(2))

text \<open>What an attacker can make the manager remember is bounded, and a rejected handshake changes no session:
  whatever bytes arrive, \<^verbatim>\<open>handle_init\<close> and \<^verbatim>\<open>handle_ack\<close> keep the rate log within 4096 entries and the pinned keys
  within 8192, and when they return an error the session table is unchanged.\<close>

theorem handshake_input_bounded:
  assumes "tables_bounded m" "handle_init C t1 t2 n x rnd data m = (r, m')" "handle_ack C t3 data m = (q, m'')"
  shows "tables_bounded m' \<and> tables_bounded m'' \<and>
    ((\<exists>e. r = Inl e) \<longrightarrow> sessions m' = sessions m) \<and> ((\<exists>e. q = Inl e) \<longrightarrow> sessions m'' = sessions m)"
  using handle_init_bounded[OF assms(2,1)] handle_ack_bounded[OF assms(3,1)] handle_init_fail handle_ack_fail assms by blast

theorem handshake_input_bounded_witness:
  "tables_bounded exA \<and> handle_init ex 0 0 0 [] [] [] exA = (Inl (Bail ''invalid SessionInit magic''), exA) \<and>
   sessions (snd (handle_init ex 0 0 0 [] [] [] exA)) = sessions exA"
proof -
  have t: "tables_bounded exA" by (simp add: exA_def tables_bounded_def SessionManager_new_def)
  have i: "handle_init ex 0 0 0 [] [] [] exA = (Inl (Bail ''invalid SessionInit magic''), exA)"
    by (simp add: handle_init_def SessionInit_decode_def)
  obtain q m'' where a: "handle_ack ex 0 [] exA = (q, m'')" by force
  show ?thesis using handshake_input_bounded[OF t i a] t i by simp
qed

section \<open>Both directions share a key and a nonce sequence\<close>

lemma packet_body:
  assumes "dh_inv C s" "key_sizes C" "SessionInfo_encrypt C n s p = (Inr ct, t)"
  shows "aead_seal C (packet_key C (local_x25519_priv s) (remote_x25519_pub s) (pq_shared s))
     (packet_nonce (local_seq s)) (local_x25519_pub s) p = Some (drop 40 ct)"
proof -
  have "length (local_x25519_pub s) = 32" using assms(1,2) by (simp add: dh_inv_def key_sizes_def)
  then show ?thesis using assms(3) by (auto simp: encrypt_eq[OF assms(1)] Let_def split: option.splits)
qed

text \<open>C31. After a handshake the first packets of the two ends are sealed under one key and one nonce: there are
  a key and a nonce such that, whatever A sends first and whatever B sends first, the two packet bodies are their
  encryptions under this key and this nonce (the associated data differs, the ChaCha20 keystream and the Poly1305 key
  do not).\<close>

theorem both_directions_one_nonce:
  assumes C: "sigs_correct C" "kem_correct C" "key_sizes C" "dh_commutes C"
    and AB: "can_shake C n1 A B"
    and clock: "clock_skew t1 t0 \<le> HANDSHAKE_TIME_WINDOW_MS" "clock_skew t3 t2 \<le> HANDSHAKE_TIME_WINDOW_MS"
    and init: "initiate C t0 n0 xA (our_pub C B) A = (init, A1)"
  shows "\<exists>ack B1 A2. handle_init C t1 t2 n1 xB rnd init B = (Inr ack, B1) \<and> handle_ack C t3 ack A1 = (Inr (), A2) \<and>
    (\<exists>key nonce aad aad'. \<forall>n n' p q cp cq A3 B2.
       SessionManager_encrypt C n (our_pub C B) p A2 = (Inr cp, A3) \<and>
       SessionManager_encrypt C n' (our_pub C A) q B1 = (Inr cq, B2) \<longrightarrow>
       aead_seal C key nonce aad p = Some (drop 40 cp) \<and> aead_seal C key nonce aad' q = Some (drop 40 cq))"
proof -
  obtain ack B1 A2 a b where h: "handle_init C t1 t2 n1 xB rnd init B = (Inr ack, B1)" "handle_ack C t3 ack A1 = (Inr (), A2)"
    and m: "map_of (sessions A2) (our_pub C B) = Some a" "map_of (sessions B1) (our_pub C A) = Some b"
    and f: "fresh_pair C a b"
    using handshake_completes[OF C(1-3) _ _ _ _ _ _ _ clock init] AB unfolding can_shake_def by metis
  let ?k = "packet_key C (local_x25519_priv a) (remote_x25519_pub a) (pq_shared a)"
  have inv: "dh_inv C a" "dh_inv C b" "linked a b" "linked b a" "local_seq a = 0" "local_seq b = 0"
    using f by (simp_all add: fresh_pair_def)
  have k: "packet_key C (local_x25519_priv b) (remote_x25519_pub b) (pq_shared b) = ?k"
    by (rule linked_same_key[OF C(4) inv(1-4), symmetric])
  have "aead_seal C ?k (packet_nonce 0) (local_x25519_pub a) p = Some (drop 40 cp) \<and>
        aead_seal C ?k (packet_nonce 0) (local_x25519_pub b) q = Some (drop 40 cq)"
    if e: "SessionManager_encrypt C n (our_pub C B) p A2 = (Inr cp, A3)" "SessionManager_encrypt C n' (our_pub C A) q B1 = (Inr cq, B2)"
    for n n' p q cp cq A3 B2
  proof -
    have "\<exists>s. SessionInfo_encrypt C n a p = (Inr cp, s)" "\<exists>s. SessionInfo_encrypt C n' b q = (Inr cq, s)"
      using e m by (auto simp: SessionManager_encrypt_def split: if_splits prod.splits)
    then show ?thesis
      using packet_body[OF inv(1) C(3)] packet_body[OF inv(2) C(3)] k inv(5,6) by metis
  qed
  then show ?thesis using h by blast
qed

theorem both_directions_one_nonce_witness:
  "\<exists>ack B1 A2. handle_init ex 0 0 0 [8] [9] (fst (initiate ex 0 0 [7] (our_pub ex exB) exA)) exB = (Inr ack, B1) \<and>
    handle_ack ex 0 ack (snd (initiate ex 0 0 [7] (our_pub ex exB) exA)) = (Inr (), A2) \<and>
    (\<exists>key nonce aad aad'. \<forall>n n' p q cp cq A3 B2.
       SessionManager_encrypt ex n (our_pub ex exB) p A2 = (Inr cp, A3) \<and>
       SessionManager_encrypt ex n' (our_pub ex exA) q B1 = (Inr cq, B2) \<longrightarrow>
       aead_seal ex key nonce aad p = Some (drop 40 cp) \<and> aead_seal ex key nonce aad' q = Some (drop 40 cq))"
proof -
  have c: "clock_skew 0 0 \<le> HANDSHAKE_TIME_WINDOW_MS" by code_simp
  obtain init A1 where i: "initiate ex 0 0 [7] (our_pub ex exB) exA = (init, A1)" by force
  from both_directions_one_nonce[OF ex_sigs ex_kem ex_key_sizes ex_dh ex_can_shake c c i, of 0 "[8]" "[9]"]
  show ?thesis unfolding i fst_conv snd_conv .
qed

section \<open>A replayed SessionInit replaces the secret\<close>

lemma handle_init_frame:
  assumes h: "handle_init C t1 t2 n x r data m = (Inr ack, m')" and d: "SessionInit_decode data = Inr init"
  shows "our_signing_key m' = our_signing_key m" "init_rate_log m' = init_rate_log (snd (rate_limited n (si_ed_pub init) m))"
proof -
  obtain l m1 where l: "rate_limited n (si_ed_pub init) m = (l, m1)" by force
  obtain p m2 where p: "pq_verify_and_pin C (si_ed_pub init) (si_ml_dsa_pub init) (SessionInit_signed_bytes init) (si_ml_dsa_sig init) m1 = (p, m2)"
    by force
  have "\<exists>s. m' = m2\<lparr>sessions := s\<rparr>"
    using h d l p by (auto simp: handle_init_def Let_def split: if_splits sum.splits option.splits)
  then show "our_signing_key m' = our_signing_key m" "init_rate_log m' = init_rate_log (snd (rate_limited n (si_ed_pub init) m))"
    using rate_limited_frame[OF l] pq_verify_and_pin_frame[OF p] l by auto
qed


definition ex_init :: SessionInit where
  "ex_init = SessionInit_create ex 0 (our_signing_key exA) (x25519_pub_of ex [7]) (our_pub ex exB)
     (pk_ek_bytes (pq_keys exA)) (own_coord exA) (pq_signer exA)"

lemma ex_init_decode: "SessionInit_decode (SessionInit_encode ex_init) = Inr ex_init"
proof -
  have "length (pk_ek_bytes (pq_keys exA)) = 1184" "length (our_pub ex exB) = 32" "length (own_coord exA) = 16"
    by (simp_all add: exA_def SessionManager_new_def PqKeys_generate_def ex_def our_pub_def)
  then show ?thesis unfolding ex_init_def using ex_sigs ex_key_sizes
    by (intro SessionInit_decode_encode SessionInit_create_ok) (auto simp: key_sizes_def)
qed

lemma ex_init_once:
  obtains ack1 B1 where "handle_init ex 0 0 0 [8] [9] (SessionInit_encode ex_init) exB = (Inr ack1, B1)" "\<not> fst (rate_limited 0 (our_pub ex exA) B1)"
proof -
  have c: "clock_skew 0 0 \<le> HANDSHAKE_TIME_WINDOW_MS" by code_simp
  have AB: "can_shake ex 0 exA exB" by (rule ex_can_shake)
  have keys: "keys_ok ex (pq_keys exA)" "length (own_coord exA) = 16" using AB by (simp_all add: can_shake_def)
  obtain ack1 B1 where h: "handle_init ex 0 0 0 [8] [9] (SessionInit_encode ex_init) exB = (Inr ack1, B1)"
    using handle_init_accepts[OF ex_sigs ex_kem ex_key_sizes ex_init_def keys c] AB unfolding can_shake_def by blast
  have e: "si_ed_pub ex_init = our_pub ex exA" by (simp add: ex_init_def our_pub_def)
  have "\<not> fst (rate_limited 0 (our_pub ex exA) B1)"
    using handle_init_frame(2)[OF h ex_init_decode] unfolding e
    by (simp add: rate_limited_def rate_room_def exB_def SessionManager_new_def Let_def MAX_INITS_PER_WINDOW_def
        MAX_INIT_RATE_LOG_ENTRIES_def)
  with h that show ?thesis by blast
qed


section \<open>Rotation and retransmission\<close>

text \<open>A rotation of the ML-KEM key loses no answer in flight. Whether or not \<^verbatim>\<open>rotate_if_due\<close> rotates, the new
  key record is consistent and a ciphertext encapsulated to the previous encapsulation key still decapsulates to its
  secret, under the current key or under the previous one that \<^verbatim>\<open>handle_ack\<close> keeps as fallback.\<close>

theorem kem_rotation_keeps_answers:
  assumes "kem_correct C" "keys_ok C k" "kem_encap C r (pk_ek_bytes k) = Some (ct, secret)"
    and "rotate_if_due C accel rnd now k = (changed, k')"
  shows "keys_ok C k' \<and> (PqKeys_decap C k' ct = secret \<or> PqKeys_decap_prev C k' ct = Some secret)"
proof -
  obtain r0 where r0: "kem_keypair C r0 = (pk_dk k, pk_ek_bytes k)" using assms(2) by (auto simp: keys_ok_def)
  then have "kem_decap C (pk_dk k) ct = secret"
    using assms(1,3) unfolding kem_correct_def by (metis Pair_inject option.inject)
  then show ?thesis
    using assms(2,4) by (auto simp: rotate_if_due_def Let_def keys_ok_def PqKeys_decap_def PqKeys_decap_prev_def
        split: if_splits prod.splits)
qed

theorem kem_rotation_keeps_answers_witness:
  "\<exists>k'. rotate_if_due ex (Some 0) [2] 1000000000 (PqKeys_generate ex [1] 0) = (True, k') \<and>
     pk_prev_dk k' \<noteq> None \<and> keys_ok ex k'"
proof -
  let ?k = "PqKeys_generate ex [1] 0"
  have k: "keys_ok ex ?k" by (auto simp: keys_ok_def PqKeys_generate_def ex_def)
  have e: "kem_encap ex [3] (pk_ek_bytes ?k) = Some (pad_to 1088 (pad_to 32 [3]), pad_to 32 [3])" by (simp add: ex_def)
  obtain changed k' where rot: "rotate_if_due ex (Some 0) [2] 1000000000 ?k = (changed, k')" by force
  have "changed \<and> pk_prev_dk k' \<noteq> None"
    using rot by (auto simp: rotate_if_due_def PqKeys_generate_def ex_def effective_ml_kem_rotation_ms_def
        saturating_mul_def as_millis_def duration_since_def Let_def)
  then show ?thesis using kem_rotation_keeps_answers[OF ex_kem k e rot] rot by auto
qed

text \<open>Retransmission schedule. A maintenance pass resends the SessionInit of an entry exactly when the entry is not
  established and at least \<open>min (1000 * 2^min count 5) 30000\<close> milliseconds have passed since the last one, where \<open>count\<close> is
  the number of retransmissions so far: the interval doubles from one second up to thirty.\<close>

theorem retransmission_schedule:
  assumes "as_millis (duration_since now (last_init_sent s)) < 2 ^ 64"
  shows "snd (retx_entry C t now m (peer, s)) \<noteq> None \<longleftrightarrow>
    \<not> established s \<and> min (1000 * 2 ^ min (unat (init_retx_count s)) 5) 30000 \<le> as_millis (duration_since now (last_init_sent s))"
  using assms retx_interval_nat[of "init_retx_count s"]
  by (auto simp: retx_entry_def word_less_nat_alt unat_of_nat_len)

theorem retransmission_schedule_witness:
  "snd (retx_entry ex 0 2000000000 exA ([6], (SessionInfo_new ex 0 [6] [7] [])\<lparr>init_retx_count := 1\<rparr>)) \<noteq> None"
proof -
  let ?s = "(SessionInfo_new ex 0 [6] [7] [])\<lparr>init_retx_count := 1\<rparr>"
  have "as_millis (duration_since 2000000000 (last_init_sent ?s)) = 2000"
    by (simp add: SessionInfo_new_def as_millis_def duration_since_def)
  then show ?thesis
    using retransmission_schedule[of 2000000000 ?s ex 0 exA "[6]"] by (simp add: SessionInfo_new_def)
qed

end
