(* ===== verification/Router_Delivery.thy ===== *)
theory Router_Delivery
  imports Packet_Conn Session_Protocol
begin

text \<open>
  The path of a data packet across the mesh: \<open>encrypt_and_dispatch\<close> at the sender, \<open>handle_traffic\<close> at any number of relays in any
  states, \<open>dispatch\<close> at the receiver. \<open>carried\<close> is the relation between a frame and the frame it has become after a number of relays,
  taken from what the handler of each relay really transmits.
\<close>

section \<open>One transmission\<close>

lemma send_sent_iff:
  assumes "map_of (rs_peers rs) k = Some p"
  shows "rs_sent (send_to_peer E now k d rs) = (if \<exists>tx \<in> set (pd_txs p). accepts E d tx then rs_sent rs @ [(k, d)] else rs_sent rs)"
proof (cases "\<exists>tx \<in> set (pd_txs p). accepts E d tx")
  case True
  let ?n = "length (pd_txs p)" and ?link = "\<lambda>j. (unat (pd_next_tx p) + j) mod length (pd_txs p)"
  obtain i where i: "i < ?n" "accepts E d (pd_txs p ! i)" using True by (auto simp: in_set_conv_nth)
  then have "0 < ?n" by linarith
  then have "i \<in> ?link ` {..<?n}" using i(1) rotation(2)[of ?n "unat (pd_next_tx p)"] by (simp add: lessThan_atLeast0)
  then obtain j where j: "j < ?n" "accepts E d (pd_txs p ! ?link j)" using i(2) by auto
  define m where "m = (LEAST j. accepts E d (pd_txs p ! ?link j))"
  have m: "accepts E d (pd_txs p ! ?link m)" "m \<le> j" unfolding m_def using j(2)
    LeastI[of "\<lambda>j. accepts E d (pd_txs p ! ?link j)" j] Least_le[of "\<lambda>j. accepts E d (pd_txs p ! ?link j)" j] by blast+
  have "\<forall>j < m. \<not> accepts E d (pd_txs p ! ?link j)" unfolding m_def using not_less_Least by blast
  then show ?thesis using m j True send_accepted[OF assms, of m E d now] by auto
next
  case False
  then show ?thesis using send_refused[OF assms, of E d now] by auto
qed

lemma send_cases:
  "rs_sent (send_to_peer E now k d rs) = rs_sent rs \<or> rs_sent (send_to_peer E now k d rs) = rs_sent rs @ [(k, d)]"
proof (cases "map_of (rs_peers rs) k")
  case None
  then show ?thesis by (simp add: send_to_peer_def)
next
  case (Some p)
  then show ?thesis using send_sent_iff[OF Some, of E now d] by simp
qed

section \<open>Relays\<close>

text \<open>The packet a relay passes on.\<close>

definition relayed_packet :: "bytes \<Rightarrow> Traffic \<Rightarrow> Traffic" where
  "relayed_packet pub_key t = t\<lparr>tr_watermark := tr_watermark t + 1, tr_from := pub_key\<rparr>"

lemma saturating_below: "w < (32 :: u64) \<Longrightarrow> saturating_add w 1 = w + 1"
  by (simp add: saturating_add_def word_less_nat_alt)

lemma forward_hop_peer:
  assumes "forward_hop E now from t rs = Some k"
  shows "k \<noteq> from" "k \<in> fst ` set (rs_peers rs)"
proof -
  have "k \<noteq> from \<and> k \<in> fst ` set (rs_peers rs)"
  proof (cases "Option.bind (map_option HypCoord_decode (tr_dest_coord t)) (\<lambda>dc. greedy_next_hop E now dc (Some from) rs)")
    case None
    then have "lookup_by_tag_excluding E now (tr_routing_tag t) (Some from) rs = Some k" using assms by (simp add: forward_hop_def)
    then show ?thesis by (rule lookup_by_tag_Some) (auto simp: claimer_def)
  next
    case (Some h)
    then obtain dc where "greedy_next_hop E now dc (Some from) rs = Some k"
      using assms by (auto simp: forward_hop_def bind_eq_Some_conv)
    then show ?thesis by (rule greedy_next_hop_Some) (force simp: greedy_cand_def)
  qed
  then show "k \<noteq> from" "k \<in> fst ` set (rs_peers rs)" by simp_all
qed

lemma transit_step:
  fixes E :: "'c env" and hr :: handler_rnd and now_ms :: u64 and now :: instant and "from" :: PeerId
  assumes "\<not> routing_tag_eq (tr_routing_tag t) (tag_of E (rs_pub_key rs))"
  defines "rs' \<equiv> handle_traffic E hr now_ms now from t rs"
  shows "rs_sessions rs' = rs_sessions rs \<and> rs_traffic rs' = rs_traffic rs"
    and "rs_sent rs' = rs_sent rs \<or> rs_sent rs' = rs_sent rs @ [(from, PathNegative_encode \<lparr>ng_routing_tag = tr_routing_tag t, ng_ttl = PATH_NEG_INITIAL_TTL\<rparr>)] \<or>
      tr_watermark t < 32 \<and> (\<exists>next_hop. next_hop \<noteq> from \<and> next_hop \<in> fst ` set (rs_peers rs) \<and>
        rs_sent rs' = rs_sent rs @ [(next_hop, Traffic_encode (relayed_packet (rs_pub_key rs) t))])"
proof -
  define rs1 where "rs1 = upd_peer from (\<lambda>peer. peer\<lparr>pd_last_rx_time := now,
                 pd_rx_bytes := pd_rx_bytes peer + of_nat (length (tr_payload t))\<rparr>) rs"
  let ?neg = "PathNegative_encode \<lparr>ng_routing_tag = tr_routing_tag t, ng_ttl = PATH_NEG_INITIAL_TTL\<rparr>"
  have rs': "rs' = forward_traffic E now from t rs1" using assms(1) by (simp add: rs'_def handle_traffic_def Let_def rs1_def)
  have same: "rs_sent rs1 = rs_sent rs" "rs_pub_key rs1 = rs_pub_key rs" "rs_sessions rs1 = rs_sessions rs" "rs_traffic rs1 = rs_traffic rs"
    "fst ` set (rs_peers rs1) = fst ` set (rs_peers rs)" unfolding rs1_def by (simp_all add: upd_peer_key_set)
  show "rs_sessions rs' = rs_sessions rs \<and> rs_traffic rs' = rs_traffic rs"
    using same by (simp add: rs' forward_traffic_def send_path_negative_def Let_def split: option.split)
  have neg: "rs_sent (send_path_negative E now from (tr_routing_tag t) PATH_NEG_INITIAL_TTL rs1) \<in> {rs_sent rs, rs_sent rs @ [(from, ?neg)]}"
    using send_cases[of E now "from" ?neg rs1] same by (auto simp: send_path_negative_def)
  show "rs_sent rs' = rs_sent rs \<or> rs_sent rs' = rs_sent rs @ [(from, ?neg)] \<or>
      tr_watermark t < 32 \<and> (\<exists>next_hop. next_hop \<noteq> from \<and> next_hop \<in> fst ` set (rs_peers rs) \<and>
        rs_sent rs' = rs_sent rs @ [(next_hop, Traffic_encode (relayed_packet (rs_pub_key rs) t))])"
  proof (cases "32 \<le> tr_watermark t")
    case True
    then have "rs' = send_path_negative E now from (tr_routing_tag t) PATH_NEG_INITIAL_TTL rs1" by (simp add: rs' forward_traffic_def MAX_FORWARD_HOPS_def)
    then show ?thesis using neg by blast
  next
    case False
    then have w: "tr_watermark t < 32" by simp
    show ?thesis
    proof (cases "forward_hop E now from t rs1")
      case None
      then have "rs' \<in> {send_path_negative E now from (tr_routing_tag t) PATH_NEG_INITIAL_TTL rs1, rs1}"
        using w by (simp add: rs' forward_traffic_def MAX_FORWARD_HOPS_def)
      then show ?thesis using neg same(1) by blast
    next
      case (Some k)
      have "rs' = send_to_peer E now k (Traffic_encode (relayed_packet (rs_pub_key rs) t)) rs1"
        using Some w same by (simp add: rs' forward_traffic_def MAX_FORWARD_HOPS_def relayed_packet_def saturating_below)
      then have "rs_sent rs' \<in> {rs_sent rs, rs_sent rs @ [(k, Traffic_encode (relayed_packet (rs_pub_key rs) t))]}"
        using send_cases[of E now k "Traffic_encode (relayed_packet (rs_pub_key rs) t)" rs1] same(1) by auto
      then show ?thesis using w same(5) forward_hop_peer[OF Some] by blast
    qed
  qed
qed

text \<open>A frame on its way: a node dispatches the frame it received, runs the task this spawns in whatever state it is then, and transmits a
  \<^verbatim>\<open>TRAFFIC\<close> frame.\<close>

inductive carried :: "'c env \<Rightarrow> bytes \<Rightarrow> bytes \<Rightarrow> nat \<Rightarrow> bool" for E :: "'c env" and frame :: bytes where
  start: "carried E frame frame 0"
| relay: "carried E frame g n \<Longrightarrow> snd (dispatch E hr now_ms now from g rs) = [TaskTraffic from' t] \<Longrightarrow>
    rs_pub_key rs' = rs_pub_key rs \<Longrightarrow> length (rs_pub_key rs) = 32 \<Longrightarrow>
    rs_sent (fst (run_task E hr' now_ms' now' (TaskTraffic from' t) rs')) = rs_sent rs' @ [(next_hop, TRAFFIC # data)] \<Longrightarrow>
    carried E frame (TRAFFIC # data) (Suc n)"

lemma dispatch_transit:
  assumes "Traffic_ok t" "snd (dispatch E hr now_ms now from (Traffic_encode t) rs) = [TaskTraffic from' t']"
  shows "t' = t" "from' = from" "\<not> routing_tag_eq (tr_routing_tag t) (tag_of E (rs_pub_key rs))"
proof -
  obtain data where e: "Traffic_encode t = TRAFFIC # data" using tr.enc_type[of t] by blast
  then have "Traffic_decode data = Inr t" using tr.dec_enc[OF assms(1), of "[]"] by simp
  then show "t' = t" "from' = from" "\<not> routing_tag_eq (tr_routing_tag t) (tag_of E (rs_pub_key rs))"
    using assms(2) by (simp_all add: e dispatch_def Let_def split: if_splits)
qed

text \<open>What the relays change of a packet.\<close>

lemma carried_packet:
  assumes "carried E (Traffic_encode t) g n" "Traffic_ok t"
  shows "\<exists>k. length k = 32 \<and> g = Traffic_encode (t\<lparr>tr_watermark := tr_watermark t + of_nat n, tr_from := k\<rparr>) \<and>
    (n \<noteq> 0 \<longrightarrow> unat (tr_watermark t) + n \<le> 32)"
  using assms(1)
proof (induction rule: carried.induct)
  case start
  then show ?case using assms(2) by (intro exI[of _ "tr_from t"]) (simp add: Traffic_ok_def)
next
  case (relay g n hr now_ms now "from" rs from' t' rs' hr' now_ms' now' next_hop data)
  then obtain k where k: "length k = 32" "g = Traffic_encode (t\<lparr>tr_watermark := tr_watermark t + of_nat n, tr_from := k\<rparr>)"
    "n \<noteq> 0 \<Longrightarrow> unat (tr_watermark t) + n \<le> 32" by auto
  let ?t = "t\<lparr>tr_watermark := tr_watermark t + of_nat n, tr_from := k\<rparr>"
  have ok: "Traffic_ok ?t" using assms(2) k(1) by (simp add: Traffic_ok_def)
  note d = dispatch_transit[OF ok relay.hyps(2)[unfolded k(2)]]
  have sent: "rs_sent (handle_traffic E hr' now_ms' now' from ?t rs') = rs_sent rs' @ [(next_hop, TRAFFIC # data)]"
    using relay.hyps(5) d by simp
  have neg: "PathNegative_encode x \<noteq> TRAFFIC # data" for x by (simp add: PathNegative_encode_def)
  have "\<not> routing_tag_eq (tr_routing_tag ?t) (tag_of E (rs_pub_key rs'))" using d(3) relay.hyps(3) by simp
  note transit_step(2)[OF this, of hr' now_ms' now' "from", unfolded sent]
  then have s: "tr_watermark ?t < 32" "TRAFFIC # data = Traffic_encode (relayed_packet (rs_pub_key rs') ?t)"
    by (auto simp: neg[symmetric] simp del: append.simps)
  have "unat (tr_watermark t + of_nat n) = unat (tr_watermark t) + n"
    using k(3) by (cases "n = 0") (simp_all add: unat_word_ariths unat_of_nat)
  then have "unat (tr_watermark t) + n < 32" using s(1) by (simp add: word_less_nat_alt)
  then show ?case using s(2) relay.hyps(3,4)
    by (intro exI[of _ "rs_pub_key rs'"]) (simp add: relayed_packet_def add.commute add.left_commute)
qed

section \<open>Delivery\<close>

text \<open>The laws of the suite that the data path relies on.\<close>

definition data_suite :: "crypto \<Rightarrow> bool" where
  "data_suite C \<longleftrightarrow> dh_commutes C \<and> aead_correct C \<and> aead_total C \<and> key_sizes C \<and> ed_x_consistent C \<and> digest_sizes C"

text \<open>A packet that \<open>s\<close> encrypts for the session \<open>b\<close> that the node \<open>rs\<close> keeps for \<open>src\<close>.\<close>

definition sealed_for :: "'c env \<Rightarrow> bytes \<Rightarrow> instant \<Rightarrow> SessionInfo \<Rightarrow> bytes \<Rightarrow> bytes \<Rightarrow> bytes \<Rightarrow> Traffic \<Rightarrow> bool" where
  "sealed_for E e now s src dst payload t \<longleftrightarrow> tr_path t = [] \<and>
     (tr_enc_header t, tr_routing_tag t) = encrypt_header (suite E) e src dst \<and> tr_pkt_type t = PKT_DATA \<and> tr_watermark t = 0 \<and>
     (\<forall>c. tr_dest_coord t = Some c \<longrightarrow> length c = 16) \<and> length (tr_from t) = 32 \<and>
     (\<exists>s'. SessionInfo_encrypt (suite E) now s (pad_payload payload) = (Inr (tr_payload t), s'))"

text \<open>The node has an identity key pair, a session for \<open>src\<close> that reads what \<open>s\<close> sends, and room in the channel to the application.\<close>

definition readable_by :: "'c env \<Rightarrow> SessionInfo \<Rightarrow> bytes \<Rightarrow> 'c RouterState \<Rightarrow> bool" where
  "readable_by E s src rs \<longleftrightarrow> rs_pub_key rs = ed_pub_of (suite E) (rs_signing_key rs) \<and> length (rs_pub_key rs) = 32 \<and>
     dh_inv (suite E) s \<and> traffic_room E (rs_traffic rs) \<and>
     (\<exists>b. map_of (sessions (rs_sessions rs)) src = Some b \<and> dh_inv (suite E) b \<and> linked s b \<and> window_ok (window_of b) (local_seq s))"

lemma padded_size: "length (pad_payload p) \<le> 66000"
proof -
  have "div_ceil (2 + min (length p) 65535) PAD_BLOCK \<le> 257" by (simp add: div_ceil_def PAD_BLOCK_def)
  then show ?thesis by (simp add: pad_payload_length PAD_BLOCK_def)
qed

lemma ciphertext_size:
  assumes "dh_inv C s" "aead_correct C" "key_sizes C" "SessionInfo_encrypt C now s p = (Inr ct, s')"
  shows "length ct = length p + 56"
proof -
  have "length (local_x25519_pub s) = 32" using assms(1,3) by (simp add: dh_inv_def key_sizes_def)
  then show ?thesis using assms(2,4) unfolding encrypt_eq[OF assms(1)] aead_correct_def by (auto simp: Let_def split: option.splits)
qed

lemma sealed_ok:
  assumes "data_suite (suite E)" "length src = 32" "readable_by E s src' rs" "sealed_for E e now s src (rs_pub_key rs) payload t"
  shows "Traffic_ok t"
proof -
  have len: "length (ed_pub_of (suite E) (rs_signing_key rs)) = 32" using assms(3) by (auto simp: readable_by_def)
  have "length (tr_enc_header t) = 128"
    using assms header_round_trip(1)[OF _ _ _ _ _ assms(2) len, of e "tr_enc_header t" "tr_routing_tag t"]
    by (auto simp: readable_by_def data_suite_def sealed_for_def)
  moreover have "length (tr_routing_tag t) = 16"
    using assms header_round_trip(2)[OF _ _ _ _ _ assms(2) len, of e "tr_enc_header t" "tr_routing_tag t"]
    by (auto simp: readable_by_def data_suite_def sealed_for_def routing_tag_def digest_sizes_def)
  moreover have "length (tr_payload t) < 2 ^ 63"
    using assms ciphertext_size[of "suite E" s now "pad_payload payload" "tr_payload t"] padded_size[of payload]
    by (auto simp: readable_by_def data_suite_def sealed_for_def)
  ultimately show ?thesis using assms(4) by (simp add: Traffic_ok_def sealed_for_def path_ok_def)
qed

lemma sealed_delivered:
  assumes C: "data_suite (suite E)" and len: "length src = 32"
    and ok: "readable_by E s src rs" "sealed_for E e now s src (rs_pub_key rs) payload t"
    and t': "t' = t\<lparr>tr_watermark := w, tr_from := k\<rparr>" "length k = 32"
  shows "\<exists>rs'. dispatch E hr now_ms now' from (Traffic_encode t') rs = (rs', []) \<and>
    rs_traffic rs' = rs_traffic rs @ [\<lparr>ip_from = src, ip_payload = take 65535 payload\<rparr>] \<and> rs_sent rs' = rs_sent rs"
proof -
  obtain b where b: "map_of (sessions (rs_sessions rs)) src = Some b" "dh_inv (suite E) b" "linked s b" "window_ok (window_of b) (local_seq s)"
    using ok(1) unfolding readable_by_def by blast
  obtain s' where s': "SessionInfo_encrypt (suite E) now s (pad_payload payload) = (Inr (tr_payload t), s')" using ok(2) unfolding sealed_for_def by blast
  have inv: "dh_inv (suite E) s" using ok(1) by (simp add: readable_by_def)
  obtain b' where dec: "SessionInfo_decrypt (suite E) now' b (tr_payload t) = (Inr (pad_payload payload), b')"
    using decrypt_encrypt[OF _ _ _ inv b(2,3) s' b(4)] C unfolding data_suite_def by blast
  have pk: "rs_pub_key rs = ed_pub_of (suite E) (rs_signing_key rs)" "length (ed_pub_of (suite E) (rs_signing_key rs)) = 32"
    using ok(1) by (auto simp: readable_by_def)
  have h: "encrypt_header (suite E) e src (ed_pub_of (suite E) (rs_signing_key rs)) = (tr_enc_header t, tr_routing_tag t)"
    using ok(2) pk(1) by (simp add: sealed_for_def)
  have hdr: "tr_routing_tag t = tag_of E (rs_pub_key rs)" "decrypt_source_from_header (suite E) (tr_enc_header t) (rs_signing_key rs) = Some src"
    using header_round_trip[OF _ _ _ _ _ len pk(2) h] C unfolding data_suite_def pk(1) by blast+
  have "Traffic_ok t'" using sealed_ok[OF C len ok] t' by (simp add: Traffic_ok_def)
  then obtain data where e: "Traffic_encode t' = TRAFFIC # data" "Traffic_decode data = Inr t'"
    using tr.enc_type[of t'] tr.dec_enc[of t' "[]"] by (metis append_Nil2 list.sel(3))
  have tg: "tr_routing_tag t' = tag_of E (rs_pub_key rs)" using hdr(1) t'(1) by simp
  have "dispatch E hr now_ms now' from (Traffic_encode t') rs = (handle_traffic E hr now_ms now' from t' rs, [])"
    by (simp add: e tg dispatch_def routing_tag_eq_def)
  moreover have "rs_traffic (handle_traffic E hr now_ms now' from t' rs) = rs_traffic rs @ [\<lparr>ip_from = src, ip_payload = take 65535 payload\<rparr>]"
    "rs_sent (handle_traffic E hr now_ms now' from t' rs) = rs_sent rs"
    using ok hdr b(1) dec unfolding handle_traffic_def deliver_data_def t'(1)
    by (simp_all add: routing_tag_eq_def sealed_for_def readable_by_def Let_def unpad_pad)
  ultimately show ?thesis by blast
qed

text \<open>Route selection does not read the sessions.\<close>

lemma combined_sessions [simp]: "combined_trust E now k q (rs\<lparr>rs_sessions := sm\<rparr>) = combined_trust E now k q rs"
  by (simp add: combined_trust_def consensus_trust_def)

lemma lookup_sessions [simp]: "lookup E now dst (rs\<lparr>rs_sessions := sm\<rparr>) = lookup E now dst rs"
proof -
  have "greedy_step E now c x (rs\<lparr>rs_sessions := sm\<rparr>) = greedy_step E now c x rs" for c x by (intro ext) (simp add: greedy_step_def Let_def split: prod.split option.split)
  moreover have "cuckoo_step E now tg (rs\<lparr>rs_sessions := sm\<rparr>) = cuckoo_step E now tg rs" for tg
    by (intro ext) (simp add: cuckoo_step_def route_cost_def split: prod.split)
  moreover have "xor_step E now dst (rs\<lparr>rs_sessions := sm\<rparr>) = xor_step E now dst rs"
    by (intro ext) (simp add: xor_step_def route_cost_def split: prod.split)
  ultimately show ?thesis by (simp add: lookup_def greedy_next_hop_def Let_def split: option.split)
qed

lemma length_HypCoord_encode: "length (HypCoord_encode c) = 16"
  by (simp add: HypCoord_encode_def)

lemma dispatch_seals:
  assumes C: "data_suite (suite E)" and a: "map_of (sessions (rs_sessions rs)) dst = Some a" "dh_inv (suite E) a"
    and len: "length pub_key = 32" and hop: "lookup E now dst rs = Some hop" "map_of (rs_peers rs) hop = Some p"
  shows "\<exists>t. sealed_for E e now a pub_key dst payload t \<and> tr_watermark t = 0 \<and>
    fst (encrypt_and_dispatch E e now pub_key payload dst rs) = Inr () \<and>
    rs_sent (snd (encrypt_and_dispatch E e now pub_key payload dst rs)) =
      rs_sent rs @ (if \<exists>tx \<in> set (pd_txs p). accepts E (Traffic_encode t) tx then [(hop, Traffic_encode t)] else [])"
proof -
  obtain ct a' where enc: "SessionInfo_encrypt (suite E) now a (pad_payload payload) = (Inr ct, a')"
    using encrypt_succeeds[OF _ a(2), of "pad_payload payload" now] C padded_size[of payload] by (auto simp: data_suite_def)
  obtain hdr tag where h: "encrypt_header (suite E) e pub_key dst = (hdr, tag)" by force
  let ?t = "\<lparr>tr_path = [], tr_from = pub_key, tr_enc_header = hdr, tr_routing_tag = tag, tr_pkt_type = PKT_DATA,
    tr_dest_coord = map_option HypCoord_encode (map_of (rs_coord_table rs) dst), tr_watermark = 0, tr_payload = ct\<rparr>"
  let ?rs = "rs\<lparr>rs_sessions := (rs_sessions rs)\<lparr>sessions := AList.update dst a' (sessions (rs_sessions rs))\<rparr>\<rparr>"
  have "encrypt_and_dispatch E e now pub_key payload dst rs = (Inr (), send_to_peer E now hop (Traffic_encode ?t) ?rs)"
    using a(1) enc h hop(1) by (simp add: encrypt_and_dispatch_def Let_def)
  moreover have "rs_sent (send_to_peer E now hop (Traffic_encode ?t) ?rs) =
      rs_sent rs @ (if \<exists>tx \<in> set (pd_txs p). accepts E (Traffic_encode ?t) tx then [(hop, Traffic_encode ?t)] else [])"
    using send_sent_iff[of ?rs hop p E now "Traffic_encode ?t"] hop(2) by simp
  moreover have "sealed_for E e now a pub_key dst payload ?t"
    using enc h len by (auto simp: sealed_for_def length_HypCoord_encode)
  ultimately show ?thesis by (intro exI[of _ ?t]) simp
qed

section \<open>A handshake that has only begun\<close>

lemma start_handshake_state:
  fixes E :: "'c env" and hr :: handler_rnd and now_ms :: u64 and now :: instant
  assumes "map_of (sessions (rs_sessions rs)) dst = None"
  defines "rs' \<equiv> start_handshake E hr now_ms now dst rs"
  shows "rs_pub_key rs' = rs_pub_key rs" "rs_signing_key rs' = rs_signing_key rs" "rs_traffic rs' = rs_traffic rs"
    and "map_of (sessions (rs_sessions rs')) dst = Some (SessionInfo_new (suite E) now dst (hr_session_priv hr) (replicate 32 0))"
  using assms(1) unfolding rs'_def
  by (simp_all add: start_handshake_def get_or_initiate_bytes_def initiate_def send_traffic_to_def Let_def
      update_conv' split: prod.split option.split)

section \<open>Examples\<close>

text \<open>Two neighbours with a session each way.\<close>

definition ex_alice :: "bytes list RouterState" where
  "ex_alice = (ex_router [1])\<lparr>rs_sessions := (rs_sessions (ex_router [1]))\<lparr>sessions := [(ed_pub_of ex [2], exSa)]\<rparr>,
     rs_peers := [(ed_pub_of ex [2], PeerData_new 0 (ed_pub_of ex [2]) [] 0)]\<rparr>"

definition ex_bob :: "bytes list RouterState" where
  "ex_bob = (ex_router [2])\<lparr>rs_sessions := (rs_sessions (ex_router [2]))\<lparr>sessions := [(ed_pub_of ex [1], exSb)]\<rparr>\<rparr>"

lemma ex_router_facts:
  "rs_pub_key (ex_router sk) = ed_pub_of ex sk" "rs_signing_key (ex_router sk) = sk" "rs_traffic (ex_router sk) = []" "rs_sent (ex_router sk) = []"
  "sessions (rs_sessions (ex_router sk)) = []" "rs_coord_table (ex_router sk) = [(ed_pub_of ex sk, HypCoord_origin)]"
  by (simp_all add: ex_router_def RouterState_new_def SessionManager_new_def Let_def)

lemma ex_data_suite: "data_suite (suite ex_env)"
  using ex_dh ex_aead ex_key_sizes ex_ed_x ex_digests by (simp add: data_suite_def ex_env_def)

definition ex_hr :: handler_rnd where
  "ex_hr = \<lparr>hr_session_priv = [3], hr_encap = [4], hr_header_priv = [5]\<rparr>"

text \<open>A packet in transit at a node with two claiming neighbours.\<close>

definition ex_transit :: Traffic where
  "ex_transit = \<lparr>tr_path = [], tr_from = replicate 32 9, tr_enc_header = replicate 128 0, tr_routing_tag = replicate 16 5, tr_pkt_type = PKT_DATA,
     tr_dest_coord = None, tr_watermark = 0, tr_payload = []\<rparr>"

lemma ex_transit_facts:
  "tr_routing_tag ex_transit \<noteq> tag_of ex_env (rs_pub_key (ex_two_peers (replicate 16 5)))" "Traffic_ok ex_transit"
proof -
  have "replicate 16 5 \<noteq> routing_tag (blake2b ex) (ed_pub_of ex [1])" by code_simp
  then show "tr_routing_tag ex_transit \<noteq> tag_of ex_env (rs_pub_key (ex_two_peers (replicate 16 5)))"
    by (simp add: ex_transit_def ex_two_peers_def ex_router_facts ex_env_def)
  show "Traffic_ok ex_transit" by (simp add: ex_transit_def Traffic_ok_def path_ok_def)
qed

lemma ex_transit_hop:
  obtains k p where "forward_hop ex_env 0 [9] ex_transit (ex_two_peers (replicate 16 5)) = Some k"
    "map_of (rs_peers (ex_two_peers (replicate 16 5))) k = Some p" "pd_txs p = [[]]"
proof -
  let ?rs = "ex_two_peers (replicate 16 5)"
  have f: "forward_hop ex_env 0 [9] ex_transit ?rs = lookup_by_tag_excluding ex_env 0 (replicate 16 5) (Some [9]) ?rs"
    by (simp add: forward_hop_def ex_transit_def)
  have "claimer ex_env (replicate 16 5) (Some [9]) ([8], ex_claiming (replicate 16 5) [8])" by (simp add: claimer_def ex_claims)
  then have "lookup_by_tag_excluding ex_env 0 (replicate 16 5) (Some [9]) ?rs \<noteq> None"
    unfolding lookup_by_tag_None by (auto simp: ex_two_peers_def)
  then obtain k where k: "forward_hop ex_env 0 [9] ex_transit ?rs = Some k" using f by auto
  then have "k \<in> {[7], [8]}" using forward_hop_peer(2)[OF k] by (simp add: ex_two_peers_def)
  then show ?thesis using that[OF k] by (auto simp: ex_two_peers_def ex_claiming_def PeerData_new_def)
qed

lemma ex_pair:
  "map_of (sessions (rs_sessions ex_alice)) (rs_pub_key ex_bob) = Some exSa" "readable_by ex_env exSa (rs_pub_key ex_alice) ex_bob"
  "lookup ex_env 0 (rs_pub_key ex_bob) ex_alice = Some (ed_pub_of ex [2])"
  "map_of (rs_peers ex_alice) (ed_pub_of ex [2]) = Some (PeerData_new 0 (ed_pub_of ex [2]) [] 0)"
  "rs_pub_key ex_alice = ed_pub_of ex [1]" "rs_pub_key ex_bob = ed_pub_of ex [2]" "rs_sent ex_alice = []" "rs_traffic ex_bob = []"
  "length (ed_pub_of ex [1]) = 32" "pd_txs (PeerData_new 0 (ed_pub_of ex [2]) [] 0) = [[]]"
proof -
  show k: "rs_pub_key ex_alice = ed_pub_of ex [1]" "rs_pub_key ex_bob = ed_pub_of ex [2]" "rs_sent ex_alice = []" "rs_traffic ex_bob = []"
    by (simp_all add: ex_alice_def ex_bob_def ex_router_facts)
  show "map_of (sessions (rs_sessions ex_alice)) (rs_pub_key ex_bob) = Some exSa"
    "map_of (rs_peers ex_alice) (ed_pub_of ex [2]) = Some (PeerData_new 0 (ed_pub_of ex [2]) [] 0)"
    by (simp_all add: k) (simp_all add: ex_alice_def)
  show l: "length (ed_pub_of ex [1]) = 32" "pd_txs (PeerData_new 0 (ed_pub_of ex [2]) [] 0) = [[]]"
    using ex_sigs by (simp_all add: sigs_correct_def PeerData_new_def)
  have "window_ok (0, 0) 0" by (simp add: window_ok_def replay_check_def saturating_sub_def)
  then show "readable_by ex_env exSa (rs_pub_key ex_alice) ex_bob"
    using ex_linked ex_sigs by (simp add: readable_by_def k) (simp add: ex_bob_def ex_router_facts ex_env_def sigs_correct_def)
  have "ed_pub_of ex [2] \<noteq> ed_pub_of ex [1]" by code_simp
  then show "lookup ex_env 0 (rs_pub_key ex_bob) ex_alice = Some (ed_pub_of ex [2])"
    by (simp add: k lookup_def ex_alice_def ex_router_facts cuckoo_step_def xor_step_def keep_min_def Let_def)
qed

section \<open>Delivery\<close>

lemma sealed_delivery:
  fixes E :: "'c env"
  assumes C: "data_suite (suite E)" and len: "length (rs_pub_key rsA) = 32" "length payload \<le> 65535"
    and a: "map_of (sessions (rs_sessions rsA)) (rs_pub_key rsB) = Some a" "readable_by E a (rs_pub_key rsA) rsB"
    and hop: "lookup E now (rs_pub_key rsB) rsA = Some hop" "map_of (rs_peers rsA) hop = Some p"
  shows "\<exists>t. fst (encrypt_and_dispatch E e now (rs_pub_key rsA) payload (rs_pub_key rsB) rsA) = Inr () \<and>
    rs_sent (snd (encrypt_and_dispatch E e now (rs_pub_key rsA) payload (rs_pub_key rsB) rsA)) =
      rs_sent rsA @ (if \<exists>tx \<in> set (pd_txs p). accepts E (Traffic_encode t) tx then [(hop, Traffic_encode t)] else []) \<and>
    (\<forall>g n from hr now_ms now'. carried E (Traffic_encode t) g n \<longrightarrow>
      (\<exists>rsB'. dispatch E hr now_ms now' from g rsB = (rsB', []) \<and>
         rs_traffic rsB' = rs_traffic rsB @ [\<lparr>ip_from = rs_pub_key rsA, ip_payload = payload\<rparr>]))"
proof -
  have "dh_inv (suite E) a" using a(2) by (simp add: readable_by_def)
  from dispatch_seals[OF C a(1) this len(1) hop, of e payload]
  obtain t where t: "sealed_for E e now a (rs_pub_key rsA) (rs_pub_key rsB) payload t"
    "fst (encrypt_and_dispatch E e now (rs_pub_key rsA) payload (rs_pub_key rsB) rsA) = Inr ()"
    "rs_sent (snd (encrypt_and_dispatch E e now (rs_pub_key rsA) payload (rs_pub_key rsB) rsA)) =
      rs_sent rsA @ (if \<exists>tx \<in> set (pd_txs p). accepts E (Traffic_encode t) tx then [(hop, Traffic_encode t)] else [])" by blast
  have ok: "Traffic_ok t" by (rule sealed_ok[OF C len(1) a(2) t(1)])
  have "\<exists>rsB'. dispatch E hr now_ms now' from g rsB = (rsB', []) \<and>
         rs_traffic rsB' = rs_traffic rsB @ [\<lparr>ip_from = rs_pub_key rsA, ip_payload = payload\<rparr>]"
    if c: "carried E (Traffic_encode t) g n" for g n "from" hr now_ms now'
  proof -
    obtain k where "length k = 32" "g = Traffic_encode (t\<lparr>tr_watermark := tr_watermark t + of_nat n, tr_from := k\<rparr>)"
      using carried_packet[OF c ok] by blast
    then show ?thesis using sealed_delivered[OF C len(1) a(2) t(1) HOL.refl, of k hr now_ms now' "from"] len(2) by auto
  qed
  then show ?thesis using t by blast
qed

section \<open>Properties\<close>

text \<open>C9. Packets die out. A node that is not the destination of a data packet touches neither its sessions nor the channel to the application; it
  transmits at most one frame, which is either a dead-end notice to the peer the packet came from or the packet with its hop counter increased by
  one and its sender restamped, to a known peer other than the one it came from. Whatever relays a packet meets, in whatever states and at
  whatever times, it differs from the original only in those two fields and is relayed at most 32 times.\<close>

theorem transit_bounded:
  fixes E :: "'c env"
  assumes "Traffic_ok t"
  shows "(\<forall>rs. tr_routing_tag t \<noteq> tag_of E (rs_pub_key rs) \<longrightarrow>
      (let rs' = handle_traffic E hr now_ms now from t rs in
       rs_sessions rs' = rs_sessions rs \<and> rs_traffic rs' = rs_traffic rs \<and>
       (rs_sent rs' = rs_sent rs \<or>
        rs_sent rs' = rs_sent rs @ [(from, PathNegative_encode \<lparr>ng_routing_tag = tr_routing_tag t, ng_ttl = PATH_NEG_INITIAL_TTL\<rparr>)] \<or>
        (\<exists>next_hop. next_hop \<noteq> from \<and> next_hop \<in> fst ` set (rs_peers rs) \<and> tr_watermark t < 32 \<and>
           rs_sent rs' = rs_sent rs @ [(next_hop, Traffic_encode (t\<lparr>tr_watermark := tr_watermark t + 1, tr_from := rs_pub_key rs\<rparr>))])))) \<and>
    (carried E (Traffic_encode t) g n \<longrightarrow> n \<le> 32 - unat (tr_watermark t) \<and>
      (\<exists>k. g = Traffic_encode (t\<lparr>tr_watermark := tr_watermark t + of_nat n, tr_from := k\<rparr>)))"
proof (intro conjI allI impI)
  fix rs :: "'c RouterState"
  assume "tr_routing_tag t \<noteq> tag_of E (rs_pub_key rs)"
  then have "\<not> routing_tag_eq (tr_routing_tag t) (tag_of E (rs_pub_key rs))" by (simp add: routing_tag_eq_def)
  note s = transit_step[OF this, of hr now_ms now "from", unfolded relayed_packet_def]
  show "let rs' = handle_traffic E hr now_ms now from t rs in
       rs_sessions rs' = rs_sessions rs \<and> rs_traffic rs' = rs_traffic rs \<and>
       (rs_sent rs' = rs_sent rs \<or>
        rs_sent rs' = rs_sent rs @ [(from, PathNegative_encode \<lparr>ng_routing_tag = tr_routing_tag t, ng_ttl = PATH_NEG_INITIAL_TTL\<rparr>)] \<or>
        (\<exists>next_hop. next_hop \<noteq> from \<and> next_hop \<in> fst ` set (rs_peers rs) \<and> tr_watermark t < 32 \<and>
           rs_sent rs' = rs_sent rs @ [(next_hop, Traffic_encode (t\<lparr>tr_watermark := tr_watermark t + 1, tr_from := rs_pub_key rs\<rparr>))]))"
    unfolding Let_def using s by blast
next
  assume c: "carried E (Traffic_encode t) g n"
  show "n \<le> 32 - unat (tr_watermark t)" using carried_packet[OF c assms] by (cases "n = 0") auto
  show "\<exists>k. g = Traffic_encode (t\<lparr>tr_watermark := tr_watermark t + of_nat n, tr_from := k\<rparr>)" using carried_packet[OF c assms] by blast
qed

theorem transit_bounded_witness:
  "\<exists>k. k \<noteq> [9] \<and> rs_sent (handle_traffic ex_env ex_hr 0 0 [9] ex_transit (ex_two_peers (replicate 16 5))) =
     [(k, Traffic_encode (ex_transit\<lparr>tr_watermark := 1, tr_from := ed_pub_of ex [1]\<rparr>))]"
proof -
  let ?rs = "ex_two_peers (replicate 16 5)"
  have tag: "tr_routing_tag ex_transit \<noteq> tag_of ex_env (rs_pub_key ?rs)" and ok: "Traffic_ok ex_transit" by (simp_all add: ex_transit_facts)
  obtain k p where k: "forward_hop ex_env 0 [9] ex_transit ?rs = Some k" "map_of (rs_peers ?rs) k = Some p" "pd_txs p = [[]]"
    by (rule ex_transit_hop)
  have "handle_traffic ex_env ex_hr 0 0 [9] ex_transit ?rs =
      send_to_peer ex_env 0 k (Traffic_encode (ex_transit\<lparr>tr_watermark := 1, tr_from := ed_pub_of ex [1]\<rparr>)) ?rs"
    using tag k(1) by (simp add: handle_traffic_def upd_peer_def ex_two_peers_def routing_tag_eq_def forward_traffic_def
        MAX_FORWARD_HOPS_def ex_transit_def saturating_add_def ex_router_def RouterState_new_def Let_def)
  then have sent: "rs_sent (handle_traffic ex_env ex_hr 0 0 [9] ex_transit ?rs) =
      [(k, Traffic_encode (ex_transit\<lparr>tr_watermark := 1, tr_from := ed_pub_of ex [1]\<rparr>))]"
    using send_sent_iff[OF k(2), of ex_env 0] k(3) by (simp add: ex_env_def accepts_def ex_two_peers_def ex_router_def RouterState_new_def Let_def)
  moreover have "k \<noteq> [9]"
    using conjunct1[OF transit_bounded[OF ok, of ex_env ex_hr 0 0 "[9]"], rule_format, OF tag] forward_hop_peer(1)[OF k(1)] by blast
  ultimately show ?thesis by blast
qed

text \<open>C2. End-to-end delivery. When the sender's session and the receiver's session belong together and the packet's number is new to the
  receiver, \<^verbatim>\<open>encrypt_and_dispatch\<close> succeeds and transmits one frame to the next hop it looked up (unless no link of that peer takes
  it), and that frame, after any chain of relays, makes the receiver hand exactly the payload, attributed to the sender, to the application.\<close>

theorem packet_delivery:
  fixes E :: "'c env"
  assumes C: "data_suite (suite E)" and len: "length (rs_pub_key rsA) = 32" "length payload \<le> 65535"
    and a: "map_of (sessions (rs_sessions rsA)) (rs_pub_key rsB) = Some a" "readable_by E a (rs_pub_key rsA) rsB"
    and hop: "lookup E now (rs_pub_key rsB) rsA = Some hop" "map_of (rs_peers rsA) hop = Some p"
  shows "\<exists>t. fst (encrypt_and_dispatch E e now (rs_pub_key rsA) payload (rs_pub_key rsB) rsA) = Inr () \<and>
    rs_sent (snd (encrypt_and_dispatch E e now (rs_pub_key rsA) payload (rs_pub_key rsB) rsA)) =
      rs_sent rsA @ (if \<exists>tx \<in> set (pd_txs p). accepts E (Traffic_encode t) tx then [(hop, Traffic_encode t)] else []) \<and>
    (\<forall>g n from hr now_ms now'. carried E (Traffic_encode t) g n \<longrightarrow>
      (\<exists>rsB'. dispatch E hr now_ms now' from g rsB = (rsB', []) \<and>
         rs_traffic rsB' = rs_traffic rsB @ [\<lparr>ip_from = rs_pub_key rsA, ip_payload = payload\<rparr>]))"
  by (rule sealed_delivery[OF assms])

theorem packet_delivery_witness:
  "\<exists>frame rsB'. rs_sent (snd (encrypt_and_dispatch ex_env [5] 0 (ed_pub_of ex [1]) [42] (ed_pub_of ex [2]) ex_alice)) = [(ed_pub_of ex [2], frame)] \<and>
     dispatch ex_env ex_hr 0 0 (ed_pub_of ex [1]) frame ex_bob = (rsB', []) \<and>
     rs_traffic rsB' = [\<lparr>ip_from = ed_pub_of ex [1], ip_payload = [42]\<rparr>]"
proof -
  obtain t where t: "rs_sent (snd (encrypt_and_dispatch ex_env [5] 0 (ed_pub_of ex [1]) [42] (ed_pub_of ex [2]) ex_alice)) = [(ed_pub_of ex [2], Traffic_encode t)]"
    "\<forall>g n from hr now_ms now'. carried ex_env (Traffic_encode t) g n \<longrightarrow> (\<exists>rsB'. dispatch ex_env hr now_ms now' from g ex_bob = (rsB', []) \<and>
       rs_traffic rsB' = rs_traffic ex_bob @ [\<lparr>ip_from = ed_pub_of ex [1], ip_payload = [42]\<rparr>])"
    using packet_delivery[OF ex_data_suite _ _ ex_pair(1,2) ex_pair(3,4), of "[42]" "[5]"] by (auto simp: ex_pair accepts_def ex_env_def)
  moreover have "carried ex_env (Traffic_encode t) (Traffic_encode t) 0" by (rule carried.start)
  ultimately show ?thesis by (fastforce simp: ex_pair)
qed

text \<open>C30. Data before authentication. After a node has begun a handshake with \<open>victim\<close>, and before any answer, a data packet built by anyone from
  public values alone (the X25519 key of the handshake message, which is sent in the clear, and the two identity keys) is handed to the
  application as data from \<open>victim\<close>, although the session is not established.\<close>

theorem forged_data_before_handshake:
  fixes E :: "'c env" and now_ms :: u64 and now :: instant
  assumes C: "data_suite (suite E)" and len: "length victim = 32" "length sender = 32" "length payload \<le> 65535"
    and rs: "rs_pub_key rs = ed_pub_of (suite E) (rs_signing_key rs)" "length (rs_pub_key rs) = 32" "traffic_room E (rs_traffic rs)"
    and none: "map_of (sessions (rs_sessions rs)) victim = None"
    and forge: "SessionInfo_encrypt (suite E) t0 (SessionInfo_new (suite E) t0 [] own_key (x25519_pub_of (suite E) (hr_session_priv hr)))
      (pad_payload payload) = (Inr ct, m')" "encrypt_header (suite E) own_key victim (rs_pub_key rs) = (hdr, tag)"
  defines "rs' \<equiv> start_handshake E hr now_ms now victim rs"
    and "frame \<equiv> Traffic_encode \<lparr>tr_path = [], tr_from = sender, tr_enc_header = hdr, tr_routing_tag = tag, tr_pkt_type = PKT_DATA,
      tr_dest_coord = None, tr_watermark = 0, tr_payload = ct\<rparr>"
  shows "\<not> is_established victim (rs_sessions rs') \<and>
    (\<exists>rs''. dispatch E hr' now_ms' now' from frame rs' = (rs'', []) \<and>
      rs_traffic rs'' = rs_traffic rs' @ [\<lparr>ip_from = victim, ip_payload = payload\<rparr>])"
proof -
  let ?m = "SessionInfo_new (suite E) t0 [] own_key (x25519_pub_of (suite E) (hr_session_priv hr))"
  let ?t = "\<lparr>tr_path = [], tr_from = sender, tr_enc_header = hdr, tr_routing_tag = tag, tr_pkt_type = PKT_DATA,
      tr_dest_coord = None, tr_watermark = 0, tr_payload = ct\<rparr>"
  note st = start_handshake_state[OF none, of E hr now_ms now, folded rs'_def]
  have r: "readable_by E ?m victim rs'"
    unfolding readable_by_def using rs st by (simp add: dh_inv_new linked_def window_of_def window_ok_def SessionInfo_new_def replay_check_def dh_inv_def saturating_sub_def)
  have s: "sealed_for E own_key t0 ?m victim (rs_pub_key rs') payload ?t" using forge len(2) st(1) by (simp add: sealed_for_def)
  have "\<not> is_established victim (rs_sessions rs')" using st(4) by (simp add: is_established_def SessionInfo_new_def)
  moreover have "?t = ?t\<lparr>tr_watermark := 0, tr_from := sender\<rparr>" by simp
  from sealed_delivered[OF C len(1) r s this len(2), of hr' now_ms' now' "from"] len(3)
  have "\<exists>rs''. dispatch E hr' now_ms' now' from frame rs' = (rs'', []) \<and>
      rs_traffic rs'' = rs_traffic rs' @ [\<lparr>ip_from = victim, ip_payload = payload\<rparr>]" unfolding frame_def by auto
  ultimately show ?thesis by blast
qed

theorem forged_data_before_handshake_witness:
  "\<exists>ct m' hdr tag rs''. SessionInfo_encrypt ex 0 (SessionInfo_new ex 0 [] [6] (x25519_pub_of ex (hr_session_priv ex_hr))) (pad_payload [42]) = (Inr ct, m') \<and>
     encrypt_header ex [6] (replicate 32 7) (ed_pub_of ex [2]) = (hdr, tag) \<and>
     dispatch ex_env ex_hr 0 0 [9] (Traffic_encode \<lparr>tr_path = [], tr_from = replicate 32 9, tr_enc_header = hdr, tr_routing_tag = tag, tr_pkt_type = PKT_DATA,
       tr_dest_coord = None, tr_watermark = 0, tr_payload = ct\<rparr>) (start_handshake ex_env ex_hr 0 0 (replicate 32 7) (ex_router [2])) = (rs'', []) \<and>
     rs_traffic rs'' = [\<lparr>ip_from = replicate 32 7, ip_payload = [42]\<rparr>]"
proof -
  obtain ct m' where enc: "SessionInfo_encrypt ex 0 (SessionInfo_new ex 0 [] [6] (x25519_pub_of ex (hr_session_priv ex_hr))) (pad_payload [42]) = (Inr ct, m')"
    by (rule encrypt_succeeds[OF ex_aead(2) dh_inv_new, of "pad_payload [42]" 0]) (use padded_size[of "[42]"] in auto)
  obtain hdr tag where h: "encrypt_header ex [6] (replicate 32 7) (ed_pub_of ex [2]) = (hdr, tag)" by force
  have rs: "rs_pub_key (ex_router [2]) = ed_pub_of (suite ex_env) (rs_signing_key (ex_router [2]))" "length (rs_pub_key (ex_router [2])) = 32"
    "traffic_room ex_env (rs_traffic (ex_router [2]))" "map_of (sessions (rs_sessions (ex_router [2]))) (replicate 32 7) = None"
    using ex_sigs by (simp_all add: ex_router_facts sigs_correct_def ex_env_def)
  have "rs_traffic (start_handshake ex_env ex_hr 0 0 (replicate 32 7) (ex_router [2])) = []"
    using start_handshake_state(3)[OF rs(4)] by (simp add: ex_router_facts)
  then show ?thesis
    using forged_data_before_handshake[OF ex_data_suite, of "replicate 32 7" "replicate 32 9" "[42]" "ex_router [2]" 0 "[6]" ex_hr ct m' hdr tag 0 0 ex_hr 0 0 "[9]"]
      rs enc h by (simp add: ex_router_facts ex_env_def)
qed

end
