(* ===== verification/Tcp_Info.thy ===== *)
theory Tcp_Info
  imports Link_Metrics
begin

text \<open>
  \<^verbatim>\<open>src/src/tcp_info.rs\<close>: link statistics from the kernel. The system call is not modelled; \<open>parse_tcp_info\<close> is what \<^verbatim>\<open>read_tcp_info\<close> makes of the
  buffer of 512 bytes and the length the call returns, on a little-endian machine.
\<close>

record TcpLinkStats =
  tl_rtt_us :: u32
  tl_rttvar_us :: u32
  tl_segs_out :: u32
  tl_total_retrans :: u32

definition loss_rate :: "TcpLinkStats \<Rightarrow> fl" where
  "loss_rate s =
     (if tl_segs_out s = 0 then Fin 0
      else fclamp (fdiv F32 (of_int_fl F32 (uint (tl_total_retrans s))) (of_int_fl F32 (uint (tl_segs_out s)))) (Fin 0) (Fin 1))"

definition rtt :: "TcpLinkStats \<Rightarrow> nat" where
  "rtt s = unat (tl_rtt_us s) * 1000"

definition read_u32 :: "bytes \<Rightarrow> nat \<Rightarrow> nat \<Rightarrow> u32 option" where
  "read_u32 buf len off = (if len < off + 4 then None else Some (from_le (take 4 (drop off buf))))"

definition unwrap_or :: "'a option \<Rightarrow> 'a \<Rightarrow> 'a" where
  "unwrap_or x d = (case x of Some v \<Rightarrow> v | None \<Rightarrow> d)"

definition parse_tcp_info :: "bytes \<Rightarrow> nat \<Rightarrow> TcpLinkStats" where
  "parse_tcp_info buf len =
     (let rtt_us = unwrap_or (read_u32 buf len 68) 0;
          rttvar_us = unwrap_or (read_u32 buf len 72) 0;
          cur_retrans = unwrap_or (read_u32 buf len 36) 0;
          total_retrans = unwrap_or (read_u32 buf len 100) cur_retrans;
          segs_out = unwrap_or (read_u32 buf len 112) (if unat total_retrans + 1024 < 2 ^ 32 then total_retrans + 1024 else - 1) in
      \<lparr>tl_rtt_us = rtt_us, tl_rttvar_us = rttvar_us, tl_segs_out = segs_out, tl_total_retrans = total_retrans\<rparr>)"

text \<open>The ratio is a loss rate whatever the kernel reports.\<close>

lemma u32_as_f32:
  obtains z where "of_int_fl F32 (uint (w :: u32)) = Fin z" "of_bool (w \<noteq> 0) \<le> z"
proof -
  have c: "rnd F32 (2 ^ 32) = Fin (2 ^ 32)" "rnd F32 1 = Fin 1" "rnd F32 0 = Fin 0" by code_simp+
  have "w \<noteq> 0 \<Longrightarrow> 1 \<le> uint w" using uint_ge_0[of w] uint_0_iff[of w] by linarith
  then have "of_bool (w \<noteq> 0) \<le> uint w" by (cases "w = 0") simp_all
  then have lo: "(of_bool (w \<noteq> 0) :: rat) \<le> of_int (uint w)" by (metis of_int_le_iff of_int_of_bool)
  have "uint w \<le> 2 ^ 32" using uint_bounded[of w] by simp
  then have hi: "(of_int (uint w) :: rat) \<le> 2 ^ 32" by (metis of_int_le_iff of_int_numeral of_int_power)
  show ?thesis
    using rnd_mono[OF hi, of F32] rnd_mono[OF lo, of F32] that c
    by (cases "of_int_fl F32 (uint w)"; cases "w = 0") (simp_all add: of_int_fl_def F32_def)
qed

lemma loss_rate_ok: "loss_ok (loss_rate s)"
proof (cases "tl_segs_out s = 0")
  case True
  then show ?thesis by (simp add: loss_rate_def loss_ok_def)
next
  case False
  obtain a where a: "of_int_fl F32 (uint (tl_total_retrans s)) = Fin a" by (rule u32_as_f32)
  obtain b where b: "of_int_fl F32 (uint (tl_segs_out s)) = Fin b" "1 \<le> b" using False by (rule_tac u32_as_f32[of "tl_segs_out s"]) auto
  have "fclamp x (Fin 0) (Fin 1) \<noteq> NaN \<longrightarrow> loss_ok (fclamp x (Fin 0) (Fin 1))" for x
    by (cases x) (auto simp: fclamp_def loss_ok_def)
  moreover have "fclamp (rnd F32 (a / b)) (Fin 0) (Fin 1) \<noteq> NaN" using rnd_not_NaN[of F32 "a / b"] by (auto simp: fclamp_def Let_def)
  ultimately show ?thesis using False b(2) unfolding loss_rate_def a b(1) by simp
qed

end
