(* ===== verification/Router_Invariant.thy ===== *)
theory Router_Invariant
  imports Router_Delivery Tcp_Info
begin

text \<open>
  What holds of a node at every moment. \<open>node_ok\<close> is the invariant of the state: the shape of the per-tree arrays, the ranges of trust and loss,
  well-formed filters, bounded tables, the cadence within its limits and valid coordinates. Every handler, every task, every
  maintenance tick and every operation of the application keeps it, so it holds of every node that \<open>node_step\<close> reaches from a new one.
\<close>

section \<open>The invariant\<close>

definition peer_ok :: "'c env \<Rightarrow> 'c PeerData \<Rightarrow> bool" where
  "peer_ok E p \<longleftrightarrow> length (pd_cuckoo p) = K \<and> (\<forall>f \<in> set (pd_cuckoo p). cuckoo_inv (filter_hash E) f) \<and>
     length (pd_peer_cuckoo_gen p) = K \<and> length (pd_trees p) = K \<and> length (pd_txs p) \<le> MAX_PARALLEL_LINKS_PER_PEER \<and>
     trust_ok (pd_trust p) \<and> loss_ok (pd_loss_rate p)"

text \<open>The entries of a table that belong to other nodes.\<close>

definition others :: "'c RouterState \<Rightarrow> (bytes \<times> 'v) list \<Rightarrow> (bytes \<times> 'v) list" where
  "others rs table = AList.delete (rs_pub_key rs) table"

definition tables_ok :: "'c RouterState \<Rightarrow> bool" where
  "tables_ok rs \<longleftrightarrow> length (rs_pending_lookups rs) \<le> MAX_PENDING_LOOKUPS \<and>
     length (rs_path_negative_cache rs) \<le> MAX_PATH_NEG_CACHE \<and> seen_inv (rs_onion_seen rs) \<and>
     length (others rs (rs_remote_onion_keys rs)) \<le> MAX_REMOTE_ONION_KEYS \<and>
     length (others rs (rs_peer_capabilities rs)) \<le> MAX_CAPABILITY_ENTRIES \<and>
     length (others rs (rs_coord_table rs)) \<le> MAX_COORD_TABLE_SIZE"

definition node_ok :: "'c env \<Rightarrow> bytes \<Rightarrow> 'c RouterState \<Rightarrow> bool" where
  "node_ok E sk rs \<longleftrightarrow> (\<forall>p \<in> snd ` set (rs_peers rs). peer_ok E p) \<and> tables_ok rs \<and>
     length (rs_trees rs) = K \<and> length (rs_cuckoo_generation rs) = K \<and>
     CONTROL_MIN_INTERVAL \<le> rs_control_interval rs \<and> rs_control_interval rs \<le> CONTROL_MAX_INTERVAL \<and>
     (\<forall>(k, c) \<in> set (others rs (rs_coord_table rs)). coord_ok c) \<and>
     rs_signing_key rs = sk \<and> ed_pub_of (suite E) sk = rs_pub_key rs \<and>
     tables_bounded (rs_sessions rs) \<and> our_signing_key (rs_sessions rs) = sk"

section \<open>Primitives\<close>

named_theorems keeps

lemma set_update_snd: "x \<in> snd ` set (AList.update k v ps) \<Longrightarrow> x = v \<or> x \<in> snd ` set ps"
  by (induction ps) (auto split: if_splits)

text \<open>Fields the invariant does not read.\<close>

lemma node_ok_irrelevant [simp]:
  "node_ok E sk (rs\<lparr>rs_path_notify := a1\<rparr>) = node_ok E sk rs" "node_ok E sk (rs\<lparr>rs_landmarks := a2\<rparr>) = node_ok E sk rs"
  "node_ok E sk (rs\<lparr>rs_own_coord := a3\<rparr>) = node_ok E sk rs" "node_ok E sk (rs\<lparr>rs_own_depth := a4\<rparr>) = node_ok E sk rs"
  "node_ok E sk (rs\<lparr>rs_tick := a5\<rparr>) = node_ok E sk rs" "node_ok E sk (rs\<lparr>rs_onion_keys := a6\<rparr>) = node_ok E sk rs"
  "node_ok E sk (rs\<lparr>rs_own_onion_key_seq := a7\<rparr>) = node_ok E sk rs" "node_ok E sk (rs\<lparr>rs_own_caps_seq := a8\<rparr>) = node_ok E sk rs"
  "node_ok E sk (rs\<lparr>rs_onion_format := a9\<rparr>) = node_ok E sk rs" "node_ok E sk (rs\<lparr>rs_cover_mode := b1\<rparr>) = node_ok E sk rs"
  "node_ok E sk (rs\<lparr>rs_pending_probes := b2\<rparr>) = node_ok E sk rs" "node_ok E sk (rs\<lparr>rs_reputation := b3\<rparr>) = node_ok E sk rs"
  "node_ok E sk (rs\<lparr>rs_own_reputation_seq := b4\<rparr>) = node_ok E sk rs" "node_ok E sk (rs\<lparr>rs_hole_punch_cb := b5\<rparr>) = node_ok E sk rs"
  "node_ok E sk (rs\<lparr>rs_last_control_digest := b6\<rparr>) = node_ok E sk rs" "node_ok E sk (rs\<lparr>rs_last_control_tick := b7\<rparr>) = node_ok E sk rs"
  "node_ok E sk (rs\<lparr>rs_last_topology_change_tick := b8\<rparr>) = node_ok E sk rs" "node_ok E sk (rs\<lparr>rs_traffic := b9\<rparr>) = node_ok E sk rs"
  "node_ok E sk (rs\<lparr>rs_sent := c1\<rparr>) = node_ok E sk rs" "node_ok E sk (rs\<lparr>rs_callbacks := c2\<rparr>) = node_ok E sk rs"
  by (simp_all add: node_ok_def tables_ok_def others_def)

text \<open>Fields it reads.\<close>

lemma node_ok_peers: "node_ok E sk rs \<Longrightarrow> (\<And>p. p \<in> snd ` set ps \<Longrightarrow> peer_ok E p) \<Longrightarrow> node_ok E sk (rs\<lparr>rs_peers := ps\<rparr>)"
  by (simp add: node_ok_def tables_ok_def others_def)

lemma node_ok_trees [keeps]: "node_ok E sk rs \<Longrightarrow> length ts = length (rs_trees rs) \<Longrightarrow> node_ok E sk (rs\<lparr>rs_trees := ts\<rparr>)"
  "node_ok E sk rs \<Longrightarrow> length gs = length (rs_cuckoo_generation rs) \<Longrightarrow> node_ok E sk (rs\<lparr>rs_cuckoo_generation := gs\<rparr>)"
  by (simp_all add: node_ok_def tables_ok_def others_def)

lemma node_ok_sessions:
  "node_ok E sk rs \<Longrightarrow> tables_bounded sm \<Longrightarrow> our_signing_key sm = our_signing_key (rs_sessions rs) \<Longrightarrow> node_ok E sk (rs\<lparr>rs_sessions := sm\<rparr>)"
  by (simp add: node_ok_def tables_ok_def others_def)

lemma node_ok_tables [keeps]:
  "node_ok E sk rs \<Longrightarrow> length l \<le> MAX_PENDING_LOOKUPS \<Longrightarrow> node_ok E sk (rs\<lparr>rs_pending_lookups := l\<rparr>)"
  "node_ok E sk rs \<Longrightarrow> length c \<le> MAX_PATH_NEG_CACHE \<Longrightarrow> node_ok E sk (rs\<lparr>rs_path_negative_cache := c\<rparr>)"
  "node_ok E sk rs \<Longrightarrow> seen_inv s \<Longrightarrow> node_ok E sk (rs\<lparr>rs_onion_seen := s\<rparr>)"
  "node_ok E sk rs \<Longrightarrow> length (others rs ok) \<le> MAX_REMOTE_ONION_KEYS \<Longrightarrow> node_ok E sk (rs\<lparr>rs_remote_onion_keys := ok\<rparr>)"
  "node_ok E sk rs \<Longrightarrow> length (others rs ca) \<le> MAX_CAPABILITY_ENTRIES \<Longrightarrow> node_ok E sk (rs\<lparr>rs_peer_capabilities := ca\<rparr>)"
  "node_ok E sk rs \<Longrightarrow> length (others rs co) \<le> MAX_COORD_TABLE_SIZE \<Longrightarrow> (\<And>k c. (k, c) \<in> set (others rs co) \<Longrightarrow> coord_ok c) \<Longrightarrow>
     node_ok E sk (rs\<lparr>rs_coord_table := co\<rparr>)"
  by (auto simp: node_ok_def tables_ok_def others_def)

lemma node_okD:
  assumes "node_ok E sk rs"
  shows "length (rs_pending_lookups rs) \<le> MAX_PENDING_LOOKUPS" "length (rs_path_negative_cache rs) \<le> MAX_PATH_NEG_CACHE"
    "seen_inv (rs_onion_seen rs)" "length (others rs (rs_remote_onion_keys rs)) \<le> MAX_REMOTE_ONION_KEYS"
    "length (others rs (rs_peer_capabilities rs)) \<le> MAX_CAPABILITY_ENTRIES" "length (others rs (rs_coord_table rs)) \<le> MAX_COORD_TABLE_SIZE"
    "\<And>k c. (k, c) \<in> set (others rs (rs_coord_table rs)) \<Longrightarrow> coord_ok c" "tables_bounded (rs_sessions rs)"
    "\<And>k p. map_of (rs_peers rs) k = Some p \<Longrightarrow> peer_ok E p" "\<And>p. p \<in> snd ` set (rs_peers rs) \<Longrightarrow> peer_ok E p"
  using assms unfolding node_ok_def tables_ok_def by (blast, blast, blast, blast, blast, blast, blast, blast, force dest: map_of_SomeD, blast)

lemma node_ok_insert [keeps]:
  assumes "node_ok E sk rs" "peer_ok E q"
  shows "node_ok E sk (rs\<lparr>rs_peers := AList.update k q (rs_peers rs)\<rparr>)"
  using assms set_update_snd[of _ k q "rs_peers rs"] node_okD(10)[OF assms(1)] by (intro node_ok_peers) blast+

lemma node_ok_upd [keeps]:
  assumes "node_ok E sk rs" "\<And>p. peer_ok E p \<Longrightarrow> peer_ok E (f p)"
  shows "node_ok E sk (upd_peer k f rs)"
  using assms node_okD(9)[OF assms(1)] by (auto simp: upd_peer_def split: option.split intro!: node_ok_insert)

lemma peer_ok_irrelevant [simp]:
  "peer_ok E (p\<lparr>pd_lag := a1\<rparr>) = peer_ok E p" "peer_ok E (p\<lparr>pd_jitter := a2\<rparr>) = peer_ok E p"
  "peer_ok E (p\<lparr>pd_last_rx_time := a3\<rparr>) = peer_ok E p" "peer_ok E (p\<lparr>pd_last_tx_time := a4\<rparr>) = peer_ok E p"
  "peer_ok E (p\<lparr>pd_next_tx := a5\<rparr>) = peer_ok E p" "peer_ok E (p\<lparr>pd_rx_bytes := a6\<rparr>) = peer_ok E p"
  "peer_ok E (p\<lparr>pd_tx_bytes := a7\<rparr>) = peer_ok E p" "peer_ok E (p\<lparr>pd_pending_sig_req_time := a8\<rparr>) = peer_ok E p"
  "peer_ok E (p\<lparr>pd_sig_req_seq := a9\<rparr>) = peer_ok E p" "peer_ok E (p\<lparr>pd_onion_eph_pub := b1\<rparr>) = peer_ok E p"
  by (simp_all add: peer_ok_def)

lemma peer_ok_fields [keeps]:
  "peer_ok E p \<Longrightarrow> length txs \<le> MAX_PARALLEL_LINKS_PER_PEER \<Longrightarrow> peer_ok E (p\<lparr>pd_txs := txs\<rparr>)"
  "peer_ok E p \<Longrightarrow> trust_ok t \<Longrightarrow> peer_ok E (p\<lparr>pd_trust := t\<rparr>)"
  "peer_ok E p \<Longrightarrow> loss_ok l \<Longrightarrow> peer_ok E (p\<lparr>pd_loss_rate := l\<rparr>)"
  "peer_ok E p \<Longrightarrow> length gs = length (pd_peer_cuckoo_gen p) \<Longrightarrow> peer_ok E (p\<lparr>pd_peer_cuckoo_gen := gs\<rparr>)"
  "peer_ok E p \<Longrightarrow> length ts = length (pd_trees p) \<Longrightarrow> peer_ok E (p\<lparr>pd_trees := ts\<rparr>)"
  "peer_ok E p \<Longrightarrow> fs = (pd_cuckoo p)[i := f] \<Longrightarrow> cuckoo_inv (filter_hash E) f \<Longrightarrow> peer_ok E (p\<lparr>pd_cuckoo := fs\<rparr>)"
  using set_update_subset_insert[of "pd_cuckoo p" i f] by (auto simp: peer_ok_def)

lemma peer_okD: "peer_ok E p \<Longrightarrow> trust_ok (pd_trust p)" "peer_ok E p \<Longrightarrow> loss_ok (pd_loss_rate p)"
  "peer_ok E p \<Longrightarrow> length (pd_txs p) \<le> MAX_PARALLEL_LINKS_PER_PEER"
  by (simp_all add: peer_ok_def)

lemma peer_ok_new [keeps]: "peer_ok E (PeerData_new now k tx prio)"
  by (simp add: peer_ok_def trust_ok_def loss_ok_def TRUST_INITIAL_def trust_min_value TRUST_MAX_def less_imp_le tmin_bounds PeerData_new_def cuckoo_inv_new MAX_PARALLEL_LINKS_PER_PEER_def)

lemma node_ok_send [keeps]:
  assumes "node_ok E sk rs"
  shows "node_ok E sk (send_to_peer E now k d rs)"
proof (cases "map_of (rs_peers rs) k")
  case None
  then show ?thesis using assms by (simp add: send_to_peer_def)
next
  case (Some p)
  have p: "peer_ok E p" using node_okD(9)[OF assms Some] .
  obtain ok txs where t: "try_links E d (map (\<lambda>offset. (unat (pd_next_tx p) mod length (pd_txs p) + offset) mod length (pd_txs p)) [0..<length (pd_txs p)]) (pd_txs p) = (ok, txs)"
    by force
  then have "length txs \<le> MAX_PARALLEL_LINKS_PER_PEER" using try_links_length[of E d _ "pd_txs p"] peer_okD(3)[OF p] by (metis snd_conv)
  then have "peer_ok E (p\<lparr>pd_txs := txs\<rparr>)" "peer_ok E (p\<lparr>pd_txs := filter P txs\<rparr>)" for P
    using p by (auto intro!: peer_ok_fields(1) le_trans[OF length_filter_le])
  then have "peer_ok E (p\<lparr>pd_next_tx := pd_next_tx p + 1, pd_txs := txs, pd_tx_bytes := a, pd_last_tx_time := b\<rparr>)"
    "peer_ok E (p\<lparr>pd_next_tx := pd_next_tx p + 1, pd_txs := filter P txs\<rparr>)" for a b P by (simp_all add: peer_ok_def)
  note node_ok_insert[OF assms this(1)] node_ok_insert[OF assms this(2)]
  then show ?thesis using Some t assms by (simp add: send_to_peer_def Let_def)
qed

lemma node_ok_fold [keeps]: "node_ok E sk rs \<Longrightarrow> (\<And>x rs. node_ok E sk rs \<Longrightarrow> node_ok E sk (f x rs)) \<Longrightarrow> node_ok E sk (fold f xs rs)"
  by (induction xs arbitrary: rs) simp_all

lemma node_ok_broadcast [keeps]:
  "node_ok E sk rs \<Longrightarrow> node_ok E sk (send_to_peers E now ks d rs)" "node_ok E sk rs \<Longrightarrow> node_ok E sk (broadcast E now d rs)"
  "node_ok E sk rs \<Longrightarrow> node_ok E sk (flood_except E now from d rs)" "node_ok E sk rs \<Longrightarrow> node_ok E sk (send_path_negative E now to tag ttl rs)"
  by (simp_all add: send_to_peers_def broadcast_def flood_except_def send_path_negative_def node_ok_fold node_ok_send)

lemma node_ok_peer_ops [keeps]:
  "node_ok E sk rs \<Longrightarrow> node_ok E sk (decay_peer k rs)" "node_ok E sk rs \<Longrightarrow> node_ok E sk (boost_peer k rs)"
  "node_ok E sk rs \<Longrightarrow> node_ok E sk (update_landmarks rs)"
  unfolding decay_peer_def boost_peer_def update_landmarks_def Let_def
  by (auto intro!: node_ok_upd peer_ok_fields decay_ok boost_ok dest: peer_okD)

section \<open>Bounded tables\<close>

lemma length_others_update: "length (others rs (AList.update k v xs)) \<le> (if k = rs_pub_key rs \<or> k \<in> fst ` set (others rs xs) then length (others rs xs) else length (others rs xs) + 1)"
proof -
  have "others rs (AList.update k v xs) = (if k = rs_pub_key rs then others rs xs else AList.update k v (others rs xs))"
    unfolding others_def by (induction xs) auto
  then show ?thesis by (simp add: length_update)
qed

lemma others_length_le: "length (others rs xs) \<le> length xs"
  by (simp add: others_def length_delete_le)

lemma others_evict:
  assumes "evict_for cap rs k table = Some table'" "length (others rs table) \<le> cap"
  shows "length (others rs (AList.update k v table')) \<le> cap"
proof (cases "cap \<le> length table \<and> map_of table k = None")
  case True
  then obtain w where w: "w \<in> fst ` set table" "w \<noteq> rs_pub_key rs" "table' = AList.delete w table"
    using assms(1) by (auto simp: evict_for_def dest!: find_SomeD split: option.splits)
  have "others rs table' = AList.delete w (others rs table)" unfolding w(3) others_def by (rule delete_twist)
  moreover have "w \<in> fst ` set (others rs table)" using w(1,2) by (force simp: others_def AList.delete_eq)
  ultimately have "length (others rs table') < length (others rs table)" by (simp add: length_delete_member)
  then show ?thesis using length_others_update[of rs k v table'] assms(2) by (auto split: if_splits)
next
  case False
  then have t: "table' = table" using assms(1) by (auto simp: evict_for_def)
  show ?thesis
  proof (cases "k = rs_pub_key rs \<or> map_of table k \<noteq> None")
    case True
    then have "k = rs_pub_key rs \<or> k \<in> fst ` set (others rs table)"
      by (force simp: others_def AList.delete_eq dest: map_of_SomeD)
    then show ?thesis using length_others_update[of rs k v table] assms(2) t by (auto split: if_splits)
  next
    case False
    then have "length table < cap" using \<open>\<not> (cap \<le> length table \<and> map_of table k = None)\<close> by auto
    then show ?thesis using length_others_update[of rs k v table] others_length_le[of rs table] t by (auto split: if_splits)
  qed
qed

lemma others_evict_set:
  assumes "evict_for cap rs k table = Some table'" "(k', v') \<in> set (others rs (AList.update k v table'))"
  shows "(k', v') \<in> set (others rs table) \<or> k' = k \<and> v' = v"
proof -
  have "set table' \<subseteq> set table" using assms(1) by (auto simp: evict_for_def AList.delete_eq split: if_splits option.splits)
  moreover have "set (AList.update k v table') \<subseteq> insert (k, v) (set table')" by (induction table') auto
  ultimately show ?thesis using assms(2) by (auto simp: others_def AList.delete_eq)
qed

lemma node_ok_coord [keeps]:
  assumes "node_ok E sk rs" "evict_for MAX_COORD_TABLE_SIZE rs k (rs_coord_table rs) = Some table" "coord_ok c"
  shows "node_ok E sk (rs\<lparr>rs_coord_table := AList.update k c table\<rparr>)"
  using others_evict_set[OF assms(2)] node_okD(7)[OF assms(1)] assms(3)
  by (intro node_ok_tables(6)[OF assms(1) others_evict[OF assms(2) node_okD(6)[OF assms(1)]]]) blast

lemma node_ok_record [keeps]:
  assumes "node_ok E sk rs"
  shows "node_ok E sk (record_remote_onion_key now k q e rs)" "node_ok E sk (record_capability now k u q rs)"
    "node_ok E sk (record_reputation a b q f now rs)" "node_ok E sk (note_peer_coord k d rs)" "node_ok E sk (record_path_negative now k tag rs)"
proof -
  show "node_ok E sk (record_remote_onion_key now k q e rs)" "node_ok E sk (record_capability now k u q rs)"
    using assms by (auto simp: record_remote_onion_key_def record_capability_def split: option.splits
        intro!: node_ok_tables others_evict[OF _ node_okD(4)] others_evict[OF _ node_okD(5)])
  show "node_ok E sk (record_reputation a b q f now rs)"
    using assms by (simp add: record_reputation_def Let_def split: option.splits)
  show "node_ok E sk (note_peer_coord k d rs)"
    using assms by (auto simp: note_peer_coord_def Let_def split: option.splits intro!: node_ok_coord decode_coord_ok)
  show "node_ok E sk (record_path_negative now k tag rs)"
    using node_ok_tables(2)[OF assms record_path_negative_bound[OF node_okD(2)[OF assms], of now k tag]]
    by (simp add: record_path_negative_def Let_def)
qed

section \<open>Sessions\<close>

definition sm_same :: "SessionManager \<Rightarrow> SessionManager \<Rightarrow> bool" where
  "sm_same m m' \<longleftrightarrow> (tables_bounded m \<longrightarrow> tables_bounded m') \<and> our_signing_key m' = our_signing_key m"

lemma node_ok_sm [keeps]: "node_ok E sk rs \<Longrightarrow> sm_same (rs_sessions rs) sm \<Longrightarrow> node_ok E sk (rs\<lparr>rs_sessions := sm\<rparr>)"
  using node_okD(8) by (intro node_ok_sessions) (auto simp: sm_same_def)

lemma sm_same_fields [simp]:
  "sm_same m (m\<lparr>sessions := s\<rparr>)" "sm_same m m" "sm_same m (m\<lparr>pq_keys := k\<rparr>)" "sm_same m (set_own_coord c m)"
  "sm_same m (SessionManager_remove r m)"
  by (simp_all add: sm_same_def tables_bounded_def set_own_coord_def SessionManager_remove_def)

lemma sm_same_handshake:
  "handle_init C t1 t2 n x rd data m = (r, m') \<Longrightarrow> sm_same m m'" "handle_ack C t data m = (q, m') \<Longrightarrow> sm_same m m'"
  using handle_init_bounded[of C t1 t2 n x rd data m r m'] handle_init_signing_key[of C t1 t2 n x rd data m r m']
    handle_ack_bounded[of C t data m q m'] handle_ack_signing_key[of C t data m q m'] by (simp_all add: sm_same_def)

lemma sm_same_ops:
  "get_or_initiate_bytes C t n x k m = (b, m') \<Longrightarrow> sm_same m m'" "SessionManager_encrypt C n k p m = (c, m') \<Longrightarrow> sm_same m m'"
  "pending_handshake_inits C t n m = (ps, m') \<Longrightarrow> sm_same m m'" "sm_same m (snd (maybe_rotate_pq_keys C a kr n m))"
  by (auto simp: get_or_initiate_bytes_def initiate_def SessionManager_encrypt_def pending_handshake_inits_def
      maybe_rotate_pq_keys_def Let_def split: if_splits option.splits prod.splits)

section \<open>Links\<close>

lemma node_ok_add_peer [keeps]: "node_ok E sk rs \<Longrightarrow> node_ok E sk (add_peer now k tx prio rs)"
  using node_okD(9)[of E sk rs k]
  by (simp add: add_peer_def split: option.split) (intro conjI impI allI node_ok_peer_ops node_ok_insert peer_ok_new peer_ok_fields, simp_all)

lemma node_ok_remove_peer [keeps]:
  assumes "node_ok E sk rs"
  shows "node_ok E sk (remove_peer k rs)"
proof -
  let ?rs = "rs\<lparr>rs_peers := AList.delete k (rs_peers rs)\<rparr>"
  have "node_ok E sk ?rs" using assms by (intro node_ok_peers) (auto simp: AList.delete_eq intro: node_okD(10))
  moreover have "others rs (AList.delete k (rs_coord_table rs)) = AList.delete k (others rs (rs_coord_table rs))"
    by (simp add: others_def delete_twist)
  ultimately have "node_ok E sk (?rs\<lparr>rs_coord_table := AList.delete k (rs_coord_table rs)\<rparr>)"
    using node_okD(6,7)[OF assms] length_delete_le[of k "others rs (rs_coord_table rs)"]
    by (intro node_ok_tables(6)) (auto simp: others_def AList.delete_eq)
  then show ?thesis
    unfolding remove_peer_def Let_def 
    by (intro node_ok_sm[OF node_ok_trees(1)[OF node_ok_peer_ops(3)]]) simp_all
qed

section \<open>Handlers\<close>

lemma node_ok_sig_req [keeps]: "node_ok E sk rs \<Longrightarrow> node_ok E sk (handle_sig_req E now_ms now from req rs)"
  unfolding handle_sig_req_def Let_def by (intro keeps) simp_all

lemma peer_ok_measured: "peer_ok E p \<Longrightarrow> peer_ok E (measured now t p)"
  by (simp add: measured_def Let_def peer_ok_def loss_down_ok boost_ok)

lemma node_ok_sig_res [keeps]: "node_ok E sk rs \<Longrightarrow> node_ok E sk (handle_sig_res E now from res rs)"
  by (simp add: handle_sig_res_def Let_def) (intro impI keeps, simp_all add: peer_ok_measured split: option.split prod.split)

lemma node_ok_announce [keeps]: "node_ok E sk rs \<Longrightarrow> node_ok E sk (handle_announce C now from ann rs)"
  by (simp add: handle_announce_def Let_def peer_ok_fields keeps)

lemma node_ok_cuckoo [keeps]:
  assumes "node_ok E sk rs" "CuckooMsg_ok msg"
  shows "node_ok E sk (handle_cuckoo now from msg rs)"
proof -
  have "cuckoo_inv (filter_hash E) (cuckoo_decode (cm_data msg))" using assms(2) by (intro cuckoo_inv_decode) (simp add: CuckooMsg_ok_def)
  then show ?thesis using assms(1) by (auto simp: handle_cuckoo_def Let_def intro!: keeps)
qed

lemma node_ok_path_lookup [keeps]: "node_ok E sk rs \<Longrightarrow> node_ok E sk (handle_path_lookup E now from lkp rs)"
proof -
  assume ok: "node_ok E sk rs"
  have "node_ok E sk (rs\<lparr>rs_pending_lookups := AList.update i t (rs_pending_lookups rs)\<rparr>)" if "\<not> MAX_PENDING_LOOKUPS \<le> length (rs_pending_lookups rs)" for i t
    using that by (intro node_ok_tables(1)[OF ok]) (simp add: length_update)
  then show ?thesis using ok by (simp add: handle_path_lookup_def Let_def split_def keeps)
qed

lemma node_ok_paths [keeps]:
  assumes "node_ok E sk rs"
  shows "node_ok E sk (handle_path_notify E now from pn rs)" "node_ok E sk (handle_path_broken E now from pb rs)"
    "node_ok E sk (handle_path_negative E now from ng rs)" "node_ok E sk (handle_hole_punch E now_ms now from hp rs)"
  using assms
  by (simp_all add: handle_path_notify_def handle_path_broken_def handle_path_negative_def handle_hole_punch_def Let_def keeps
      split: option.split prod.split)

lemma node_ok_coord_announce [keeps]: "node_ok E sk rs \<Longrightarrow> node_ok E sk (handle_coord_announce C from ann rs)"
  by (simp add: handle_coord_announce_def Let_def keeps decode_coord_ok split: option.split)

lemma node_ok_gossip [keeps]:
  assumes "node_ok E sk rs"
  shows "node_ok E sk (handle_onion_key_announce E now_ms now from ann rs)" "node_ok E sk (handle_capabilities E now_ms now from cap rs)"
    "node_ok E sk (handle_reputation_report E now_ms now from rep rs)"
  using assms by (simp_all add: onion_key_step capability_step reputation_step keeps)

lemma node_ok_send_traffic [keeps]: "node_ok E sk rs \<Longrightarrow> node_ok E sk (send_traffic_to E e now dst p rs)"
  by (simp add: send_traffic_to_def Let_def split_def keeps split: option.split)

lemma node_ok_control [keeps]: "node_ok E sk rs \<Longrightarrow> node_ok E sk (deliver_control E hr now_ms now t rs)"
  by (auto simp: deliver_control_def Let_def keeps sm_same_handshake split: sum.split prod.split)

lemma node_ok_data [keeps]: "node_ok E sk rs \<Longrightarrow> node_ok E sk (deliver_data E now t rs)"
  by (auto simp: deliver_data_def Let_def keeps split: sum.split prod.split option.split)

lemma node_ok_forward [keeps]: "node_ok E sk rs \<Longrightarrow> node_ok E sk (forward_traffic E now from t rs)"
  by (simp add: forward_traffic_def Let_def keeps split: option.split)

lemma node_ok_traffic [keeps]: "node_ok E sk rs \<Longrightarrow> node_ok E sk (handle_traffic E hr now_ms now from t rs)"
  by (simp add: handle_traffic_def Let_def keeps)

lemma node_ok_seen: "node_ok E sk rs \<Longrightarrow> onion_digest_seen d (rs_onion_seen rs) = (b, cache) \<Longrightarrow> node_ok E sk (rs\<lparr>rs_onion_seen := cache\<rparr>)"
  using seen_inv_step[of "rs_onion_seen rs" d] node_okD(3) by (intro node_ok_tables(3)) force+

lemma node_ok_peeled:
  assumes "node_ok E sk rs"
  shows "node_ok E sk (case lookup_by_tag_excluding E now tag exclude rs of Some next_hop \<Rightarrow> send_to_peer E now next_hop f rs
      | None \<Rightarrow> send_path_negative E now from tag ttl rs)"
    and "node_ok E sk (case Traffic_decode d of Inr t \<Rightarrow> handle_traffic E hr now_ms now from t rs | Inl _ \<Rightarrow> rs)"
  using assms by (simp_all add: keeps split: option.split sum.split)

lemma node_ok_onion [keeps]:
  assumes "node_ok E sk rs"
  shows "node_ok E sk (handle_onion E hr now_ms now from pkt rs)"
proof -
  obtain b cache where s: "onion_digest_seen (onion_replay_digest (suite E) pkt) (rs_onion_seen (touch_rx now from rs)) = (b, cache)" by (rule prod.exhaust)
  define rs1 where "rs1 = (touch_rx now from rs)\<lparr>rs_onion_seen := cache\<rparr>"
  have ok: "node_ok E sk rs1" unfolding rs1_def using assms by (intro node_ok_seen[OF _ s]) (simp add: keeps)
  show ?thesis
    unfolding handle_onion_def Let_def is_onion_replay_def s prod.case rs1_def[symmetric]
    using ok by (auto simp: node_ok_peeled split: sum.split PeeledOnion.split)
qed

lemma node_ok_sphinx [keeps]:
  assumes "node_ok E sk rs"
  shows "node_ok E sk (handle_sphinx E hr now_ms now from cell rs)"
proof -
  let ?rs = "touch_rx now from rs"
  define st where "st = (case replay_digest (suite E) cell of
            Some digest \<Rightarrow> let (seen, cache) = onion_digest_seen digest (rs_onion_seen ?rs) in (seen, ?rs\<lparr>rs_onion_seen := cache\<rparr>)
          | None \<Rightarrow> (False, ?rs))"
  have "node_ok E sk ?rs" using assms by (simp add: keeps)
  then have ok: "node_ok E sk (snd st)" unfolding st_def by (auto simp: Let_def split: option.split prod.split intro: node_ok_seen)
  show ?thesis
    unfolding handle_sphinx_def Let_def st_def[unfolded Let_def, symmetric]
    using ok by (auto simp: node_ok_peeled split_def split: sum.split SphinxPeeled.split)
qed

section \<open>Frames and tasks\<close>

lemma cuckoo_decoded_ok: "CuckooMsg_decode data = Inr m \<Longrightarrow> CuckooMsg_ok m"
  by (auto simp: CuckooMsg_decode_def CuckooMsg_ok_def and_then_Inr_iff Let_def simp del: slice_Inr split: if_splits dest!: slice_InrD)

lemma node_ok_decoded: "node_ok E sk rs \<Longrightarrow> (\<And>m. d = Inr m \<Longrightarrow> node_ok E sk (h m rs)) \<Longrightarrow> node_ok E sk (with_decoded d h rs)"
  by (simp add: with_decoded_def split: sum.split)

lemma node_ok_dispatch_now [keeps]: "node_ok E sk rs \<Longrightarrow> node_ok E sk (dispatch_now E now_ms now from ptype data rs)"
  by (simp add: dispatch_now_def node_ok_decoded keeps cuckoo_decoded_ok)

lemma node_ok_dispatch [keeps]: "node_ok E sk rs \<Longrightarrow> node_ok E sk (fst (dispatch E hr now_ms now from frame rs))"
  by (simp add: dispatch_def Let_def keeps split: list.split sum.split)

lemma node_ok_task [keeps]: "node_ok E sk rs \<Longrightarrow> node_ok E sk (fst (run_task E hr now_ms now t rs))"
  by (cases t) (simp_all add: keeps split: option.split)

section \<open>Maintenance\<close>

lemma others_own [simp]: "others rs (AList.update (rs_pub_key rs) v xs) = others rs xs"
  unfolding others_def by (induction xs) auto

lemma node_ok_own_entry:
  assumes "node_ok E sk rs"
  shows "node_ok E sk (rs\<lparr>rs_remote_onion_keys := AList.update (rs_pub_key rs) a (rs_remote_onion_keys rs)\<rparr>)"
    "node_ok E sk (rs\<lparr>rs_peer_capabilities := AList.update (rs_pub_key rs) b (rs_peer_capabilities rs)\<rparr>)"
    "node_ok E sk (rs\<lparr>rs_coord_table := AList.update (rs_pub_key rs) c (rs_coord_table rs)\<rparr>)"
  using node_okD(4,5,6)[OF assms] node_okD(7)[OF assms] by (auto intro!: node_ok_tables[OF assms])

lemma node_ok_trees_step [keeps]: "node_ok E sk rs \<Longrightarrow> node_ok E sk (fix_tree C secs now i rs)"
  by (auto simp: fix_tree_def upd_tree_def Let_def node_ok_trees split: option.split)

lemma node_ok_filters [keeps]: "node_ok E sk rs \<Longrightarrow> node_ok E sk (cuckoo_do_maintenance E accel mr poison now i rs)"
  by (simp add: cuckoo_do_maintenance_def advance_generation_def Let_def keeps split: option.split)

lemma node_ok_own_coord [keeps]: "node_ok E sk rs \<Longrightarrow> node_ok E sk (update_own_coord C rs)"
proof -
  assume ok: "node_ok E sk rs"
  have "node_ok E sk (rs\<lparr>rs_own_coord := c, rs_coord_table := AList.update (rs_pub_key rs) c (rs_coord_table rs)\<rparr>)" for c
    using node_ok_own_entry(3)[of E sk "rs\<lparr>rs_own_coord := c\<rparr>" c] ok by simp
  then show ?thesis unfolding update_own_coord_def Let_def by (intro node_ok_sm) simp_all
qed

lemma node_ok_interval:
  "node_ok E sk rs \<Longrightarrow> CONTROL_MIN_INTERVAL \<le> i \<Longrightarrow> i \<le> CONTROL_MAX_INTERVAL \<Longrightarrow> node_ok E sk (rs\<lparr>rs_control_interval := i\<rparr>)"
  by (simp add: node_ok_def tables_ok_def others_def)

lemma node_ok_announces [keeps]:
  "node_ok E sk rs \<Longrightarrow> node_ok E sk (send_announces E now i rs)" "node_ok E sk rs \<Longrightarrow> node_ok E sk (broadcast_coord E now rs)"
  by (simp_all add: send_announces_def broadcast_coord_def Let_def keeps)

lemma next_interval: "CONTROL_MIN_INTERVAL \<le> i \<Longrightarrow> i \<le> CONTROL_MAX_INTERVAL \<Longrightarrow> CONTROL_MIN_INTERVAL \<le> min (i + 1) CONTROL_MAX_INTERVAL"
proof -
  assume "i \<le> CONTROL_MAX_INTERVAL"
  then have "unat i \<le> 8" by (simp add: CONTROL_MAX_INTERVAL_def word_le_nat_alt)
  then have "unat (i + 1) = unat i + 1" by (simp add: unat_word_ariths)
  then show ?thesis by (simp add: CONTROL_MIN_INTERVAL_def CONTROL_MAX_INTERVAL_def min_def word_le_nat_alt)
qed

lemma node_ok_cadence [keeps]:
  assumes "node_ok E sk rs"
  shows "node_ok E sk (maybe_broadcast_control E now rs)"
proof -
  have i: "CONTROL_MIN_INTERVAL \<le> rs_control_interval rs" "rs_control_interval rs \<le> CONTROL_MAX_INTERVAL" using assms by (simp_all add: node_ok_def)
  have "CONTROL_MIN_INTERVAL \<le> CONTROL_MAX_INTERVAL" by (simp add: CONTROL_MIN_INTERVAL_def CONTROL_MAX_INTERVAL_def)
  then show ?thesis
    using assms i next_interval[OF i] by (simp add: maybe_broadcast_control_def Let_def keeps node_ok_interval)
qed

lemma node_ok_keepalives [keeps]: "node_ok E sk rs \<Longrightarrow> node_ok E sk (send_keepalives E now_ms now rs)"
proof -
  have "peer_ok E p \<Longrightarrow> peer_ok E (if b then p\<lparr>pd_loss_rate := loss_up (pd_loss_rate p), pd_trust := decay_trust (pd_trust p)\<rparr> else p)" for p b
    by (simp add: peer_ok_def loss_up_ok decay_ok)
  then have "node_ok E sk rs \<Longrightarrow> node_ok E sk (keepalive_peer E now_ms now k rs)" for k rs
    by (simp add: keepalive_peer_def Let_def keeps split: option.split)
  then show "node_ok E sk rs \<Longrightarrow> ?thesis" by (simp add: send_keepalives_def keeps)
qed

lemma node_ok_own_announces [keeps]:
  assumes "node_ok E sk rs"
  shows "node_ok E sk (broadcast_onion_key_announce E now_ms now rs)" "node_ok E sk (broadcast_capabilities E now_ms now rs)"
  using assms node_ok_own_entry(1)[of E sk "rs\<lparr>rs_own_onion_key_seq := rs_own_onion_key_seq rs + 1\<rparr>"]
    node_ok_own_entry(2)[of E sk "rs\<lparr>rs_own_caps_seq := rs_own_caps_seq rs + 1\<rparr>"]
  by (simp_all add: broadcast_onion_key_announce_def broadcast_capabilities_def Let_def keeps)

lemma node_ok_rotations [keeps]:
  assumes "node_ok E sk rs"
  shows "node_ok E sk (rotate_onion_keys_if_due E accel mr now_ms now rs)" "node_ok E sk (rotate_pq_keys_if_due E accel mr now rs)"
    "node_ok E sk (rotate_session_keys E mr rs)" "node_ok E sk (cleanup_stale_sessions now rs)"
  using assms by (simp_all add: rotate_onion_keys_if_due_def rotate_pq_keys_if_due_def rotate_session_keys_def cleanup_stale_sessions_def Let_def keeps sm_same_ops)

lemma node_ok_resend [keeps]: "node_ok E sk rs \<Longrightarrow> node_ok E sk (resend_pending_inits E mr now_ms now rs)"
  using sm_same_ops(3)[of "suite E" now_ms now "rs_sessions rs"]
  by (auto simp: resend_pending_inits_def Let_def keeps split: prod.split intro!: node_ok_fold)

lemma node_ok_probing [keeps]:
  assumes "node_ok E sk rs"
  shows "node_ok E sk (probe_cuckoo_claim E mr now rs)" "node_ok E sk (cleanup_stale_probes now rs)"
  using assms by (auto simp: probe_cuckoo_claim_def cleanup_stale_probes_def Let_def keeps split: prod.split intro!: node_ok_fold)

lemma node_ok_reports [keeps]: "node_ok E sk rs \<Longrightarrow> node_ok E sk (broadcast_reputation E now_ms now rs)"
  by (auto simp: broadcast_reputation_def report_peer_def Let_def keeps split: prod.split intro!: node_ok_fold)

lemma node_ok_sweeps [keeps]:
  assumes "node_ok E sk rs"
  shows "node_ok E sk (cleanup_stale_lookups now rs)" "node_ok E sk (cleanup_path_negative_cache now rs)" "node_ok E sk (expire_peers now rs)"
  using assms node_okD(1,2)[OF assms]
  by (auto simp: cleanup_stale_lookups_def cleanup_path_negative_cache_def expire_peers_def Let_def
      intro!: node_ok_tables node_ok_fold node_ok_remove_peer le_trans[OF length_filter_le])

lemma node_ok_let: "node_ok E sk x \<Longrightarrow> (\<And>y. node_ok E sk y \<Longrightarrow> node_ok E sk (g y)) \<Longrightarrow> node_ok E sk (let y = x in g y)"
  by simp

lemma node_ok_maintenance [keeps]: "node_ok E sk rs \<Longrightarrow> node_ok E sk (do_maintenance E accel mr poison now_ms now rs)"
  unfolding do_maintenance_def by (intro node_ok_let) (simp_all add: maintain_tree_def keeps)

section \<open>The connection\<close>

text \<open>The handle: its copy of the identity is the router's, and no queue of the pool is longer than its channel.\<close>

definition conn_ok :: "'c env \<Rightarrow> bytes \<Rightarrow> 'c PacketConn \<Rightarrow> bool" where
  "conn_ok E sk pc \<longleftrightarrow> node_ok E sk (pc_inner pc) \<and> pc_signing_key pc = sk \<and> pc_pub_key pc = ed_pub_of (suite E) sk \<and>
     (\<forall>senders. pc_crypto_pool pc = Some senders \<longrightarrow> (\<forall>q \<in> set senders. length q \<le> WORKER_QUEUE))"

lemma conn_ok_inner: "conn_ok E sk pc \<Longrightarrow> node_ok E sk rs \<Longrightarrow> conn_ok E sk (pc\<lparr>pc_inner := rs\<rparr>)"
  by (simp add: conn_ok_def)

lemma conn_okD: "conn_ok E sk pc \<Longrightarrow> node_ok E sk (pc_inner pc)"
  by (simp add: conn_ok_def)

lemma node_ok_dispatched [keeps]: "node_ok E sk rs \<Longrightarrow> node_ok E sk (snd (encrypt_and_dispatch E e now k p dst rs))"
  by (simp add: encrypt_and_dispatch_def Let_def keeps split: option.split sum.split prod.split)

lemma node_ok_handshake [keeps]: "node_ok E sk rs \<Longrightarrow> node_ok E sk (start_handshake E hr now_ms now dst rs)"
  using sm_same_ops(1)[of "suite E" now_ms now "hr_session_priv hr" dst "rs_sessions rs"]
  by (auto simp: start_handshake_def Let_def keeps split: prod.split)

lemma node_ok_open [keeps]: "node_ok E sk rs \<Longrightarrow> node_ok E sk (open_conn E hr now_ms now k tx prio rs)"
  using sm_same_ops(1)[of "suite E" now_ms now "hr_session_priv hr" k "rs_sessions (add_peer now k tx prio rs)"]
  by (auto simp: open_conn_def Let_def keeps split: prod.split option.split)

lemma node_ok_onion_traffic: "node_ok E sk rs \<Longrightarrow> onion_traffic E e now k p dst rs = (r, rs') \<Longrightarrow> node_ok E sk rs'"
  using sm_same_ops(2)[of "suite E" now dst "pad_payload p" "rs_sessions rs"]
  by (auto simp: onion_traffic_def Let_def keeps split: sum.splits prod.splits)

lemma node_ok_relay_send: "node_ok E sk rs \<Longrightarrow> send_via_relay E now k f rs = (r, rs') \<Longrightarrow> node_ok E sk rs'"
  by (auto simp: send_via_relay_def keeps split: option.splits)

lemma try_submit_bounded:
  "\<forall>q \<in> set senders. length q \<le> WORKER_QUEUE \<Longrightarrow> try_submit p dst senders = (b, senders') \<Longrightarrow> \<forall>q \<in> set senders'. length q \<le> WORKER_QUEUE"
  by (auto simp: try_submit_def Let_def split: if_splits dest!: subsetD[OF set_update_subset_insert])

lemma conn_ok_write:
  assumes "conn_ok E sk pc"
  shows "conn_ok E sk (snd (write_to E hr now_ms now p dst pc))"
proof (cases "is_established dst (rs_sessions (pc_inner pc))")
  case False
  then show ?thesis using conn_ok_inner[OF assms node_ok_handshake[OF conn_okD[OF assms]]] by (simp add: write_to_def)
next
  case True
  obtain ok pool where st: "(case pc_crypto_pool pc of Some senders \<Rightarrow> let (ok, senders) = try_submit p dst senders in (ok, Some senders)
      | None \<Rightarrow> (False, None)) = (ok, pool)" by (rule prod.exhaust)
  have pool: "\<forall>q \<in> set senders. length q \<le> WORKER_QUEUE" if s: "pool = Some senders" for senders
  proof (cases "pc_crypto_pool pc")
    case None
    then show ?thesis using st s by simp
  next
    case (Some old)
    then have "try_submit p dst old = (ok, senders)" using st s by (simp split: prod.splits)
    then show ?thesis using try_submit_bounded Some assms unfolding conn_ok_def by blast
  qed
  let ?rs = "if ok then pc_inner pc else snd (encrypt_and_dispatch E (hr_header_priv hr) now (pc_pub_key pc) p dst (pc_inner pc))"
  have "snd (write_to E hr now_ms now p dst pc) = pc\<lparr>pc_crypto_pool := pool, pc_inner := ?rs\<rparr>"
    using True st by (cases pc) (simp add: write_to_def split: prod.split)
  moreover have "node_ok E sk ?rs" using node_ok_dispatched[OF conn_okD[OF assms]] conn_okD[OF assms] by simp
  ultimately show ?thesis using pool assms by (simp add: conn_ok_def)
qed

lemma conn_ok_batch:
  assumes "conn_ok E sk pc"
  shows "conn_ok E sk (snd (write_to_batch E hr now_ms now ps dst pc))"
  using assms conn_okD[OF assms]
  by (simp add: write_to_batch_def Let_def conn_ok_inner keeps split: prod.split option.split sum.split)

lemma conn_ok_sphinx:
  assumes "conn_ok E sk pc"
  shows "conn_ok E sk (snd (write_to_onion_sphinx E hr sr now_ms now p dst relays pc))"
  using assms conn_okD[OF assms]
  by (auto simp: write_to_onion_sphinx_def Let_def conn_ok_write split: prod.split option.split sum.split
      intro!: conn_ok_inner[OF assms] keeps intro: node_ok_onion_traffic node_ok_relay_send)

lemma conn_ok_onion:
  assumes "conn_ok E sk pc"
  shows "conn_ok E sk (snd (write_to_onion E hr sr lr now_ms now p dst relays pc))"
  using assms conn_okD[OF assms]
  by (auto simp: write_to_onion_def Let_def conn_ok_write conn_ok_sphinx split: prod.split option.split sum.split OnionFormat.split
      intro!: conn_ok_inner[OF assms] keeps intro: node_ok_onion_traffic node_ok_relay_send)

lemma conn_ok_pool: "conn_ok E sk pc \<Longrightarrow> conn_ok E sk (enable_crypto_pool w pc)"
  by (auto simp: enable_crypto_pool_def conn_ok_def)

lemma conn_ok_worker:
  assumes "conn_ok E sk pc"
  shows "conn_ok E sk (crypto_worker E e now i pc)"
proof -
  have "length q \<le> WORKER_QUEUE"
    if "\<forall>q \<in> set senders. length q \<le> WORKER_QUEUE" "senders ! i = job # jobs" "q \<in> set (senders[i := jobs])" for senders job jobs q
  proof (cases "i < length senders")
    case True
    then show ?thesis using that nth_mem[OF True] subsetD[OF set_update_subset_insert that(3)] by auto
  next
    case False
    then show ?thesis using that by (simp add: list_update_beyond)
  qed
  then show ?thesis using assms node_ok_dispatched[OF conn_okD[OF assms]] by (auto simp: crypto_worker_def conn_ok_def split: list.split option.split)
qed

lemma conn_ok_ops:
  assumes "conn_ok E sk pc"
  shows "conn_ok E sk (send_hole_punch E now_ms now k t ep pc)" "conn_ok E sk (send_lookup E i now part pc)"
    "conn_ok E sk (set_onion_format fmt pc)" "conn_ok E sk (set_cover_traffic m pc)" "conn_ok E sk (close pc)"
  using assms node_ok_peers[of E sk "pc_inner pc" "[]"]
  by (auto simp: send_hole_punch_def send_lookup_def set_onion_format_def set_cover_traffic_def close_def Let_def conn_ok_def keeps)

lemma smoothed_loss_ok:
  assumes "loss_ok l" "loss_ok m"
  shows "loss_ok (fadd F32 (fmul F32 l (Fin (3 / 4))) (fmul F32 (fclamp m (Fin 0) (Fin 1)) (Fin (1 / 4))))"
proof -
  obtain x y where l: "l = Fin x" "0 \<le> x" "x \<le> 1" and m: "m = Fin y" "0 \<le> y" "y \<le> 1" using assms by (cases l; cases m) (auto simp: loss_ok_def)
  have c: "rnd F32 0 = Fin 0" "rnd F32 (3 / 4) = Fin (3 / 4)" "rnd F32 (1 / 4) = Fin (1 / 4)" "rnd F32 1 = Fin 1" by code_simp+
  obtain a where a: "rnd F32 (x * (3 / 4)) = Fin a" "0 \<le> a" "a \<le> 3 / 4" by (rule rnd_between[OF _ _ c(1,2), of "x * (3 / 4)"]) (use l in auto)
  obtain b where b: "rnd F32 (y * (1 / 4)) = Fin b" "0 \<le> b" "b \<le> 1 / 4" by (rule rnd_between[OF _ _ c(1,3), of "y * (1 / 4)"]) (use m in auto)
  obtain z where "rnd F32 (a + b) = Fin z" "0 \<le> z" "z \<le> 1" by (rule rnd_between[OF _ _ c(1,4), of "a + b"]) (use a b in auto)
  then show ?thesis using l m a b by (simp add: loss_ok_def fclamp_def)
qed

lemma node_ok_stats [keeps]: "node_ok E sk rs \<Longrightarrow> node_ok E sk (record_kernel_link_stats k r (loss_rate s) rs)"
  by (auto simp: record_kernel_link_stats_def Let_def intro!: keeps smoothed_loss_ok loss_rate_ok dest: peer_okD)

lemma node_ok_cover [keeps]: "node_ok E sk rs \<Longrightarrow> node_ok E sk (cover_round E draw now rs)"
  by (auto simp: cover_round_def keeps intro!: node_ok_fold)

section \<open>A running node\<close>

text \<open>The state of a node: its connection handle and the tasks that are spawned and not finished. A step is one critical section of one of its
  threads of control, on whatever frame, clock reading, random draw or request of the application.\<close>

inductive node_step :: "'c env \<Rightarrow> 'c PacketConn \<times> task list \<Rightarrow> 'c PacketConn \<times> task list \<Rightarrow> bool" for E :: "'c env" where
  receive: "dispatch E hr now_ms now from frame (pc_inner pc) = (rs, ts') \<Longrightarrow> node_step E (pc, ts) (pc\<lparr>pc_inner := rs\<rparr>, ts @ ts')"
| task: "run_task E hr now_ms now t (pc_inner pc) = (rs, ts') \<Longrightarrow> node_step E (pc, ts1 @ t # ts2) (pc\<lparr>pc_inner := rs\<rparr>, ts1 @ ts' @ ts2)"
| tick: "node_step E (pc, ts) (pc\<lparr>pc_inner := do_maintenance E accel mr poison now_ms now (pc_inner pc)\<rparr>, ts)"
| cover: "node_step E (pc, ts) (pc\<lparr>pc_inner := cover_round E draw now (pc_inner pc)\<rparr>, ts)"
| link_up: "node_step E (pc, ts) (pc\<lparr>pc_inner := open_conn E hr now_ms now k tx prio (pc_inner pc)\<rparr>, ts)"
| link_down: "node_step E (pc, ts) (pc\<lparr>pc_inner := remove_peer k (pc_inner pc)\<rparr>, ts)"
| link_stats: "node_step E (pc, ts) (pc\<lparr>pc_inner := record_kernel_link_stats k r (loss_rate s) (pc_inner pc)\<rparr>, ts)"
| send: "write_to E hr now_ms now p dst pc = (r, pc') \<Longrightarrow> node_step E (pc, ts) (pc', ts)"
| batch: "write_to_batch E hr now_ms now ps dst pc = (n, pc') \<Longrightarrow> node_step E (pc, ts) (pc', ts)"
| onion: "write_to_onion E hr sr lr now_ms now p dst relays pc = (r, pc') \<Longrightarrow> node_step E (pc, ts) (pc', ts)"
| worker: "node_step E (pc, ts) (crypto_worker E e now i pc, ts)"
| pool: "node_step E (pc, ts) (enable_crypto_pool w pc, ts)"
| punch: "node_step E (pc, ts) (send_hole_punch E now_ms now k t ep pc, ts)"
| search: "node_step E (pc, ts) (send_lookup E i now part pc, ts)"
| format: "node_step E (pc, ts) (set_onion_format fmt pc, ts)"
| policy: "node_step E (pc, ts) (set_cover_traffic m pc, ts)"
| shutdown: "node_step E (pc, ts) (close pc, ts)"

lemma node_step_ok: "node_step E s s' \<Longrightarrow> conn_ok E sk (fst s) \<Longrightarrow> conn_ok E sk (fst s')"
proof (induction rule: node_step.induct)
  case (receive hr now_ms now "from" frame pc rs ts' ts)
  then show ?case using node_ok_dispatch[OF conn_okD, of E sk pc hr now_ms now "from" frame] by (simp add: conn_ok_inner)
next
  case (task hr now_ms now t pc rs ts' ts1 ts2)
  then show ?case using node_ok_task[OF conn_okD, of E sk pc hr now_ms now t] by (simp add: conn_ok_inner)
next
  case (send hr now_ms now p dst pc r pc' ts)
  then show ?case using conn_ok_write[of E sk pc hr now_ms now p dst] by simp
next
  case (batch hr now_ms now ps dst pc n pc' ts)
  then show ?case using conn_ok_batch[of E sk pc hr now_ms now ps dst] by simp
next
  case (onion hr sr lr now_ms now p dst relays pc r pc' ts)
  then show ?case using conn_ok_onion[of E sk pc hr sr lr now_ms now p dst relays] by simp
qed (auto simp: conn_ok_worker conn_ok_pool conn_ok_ops intro!: conn_ok_inner keeps dest: conn_okD)

lemma conn_ok_new: "conn_ok E sk (PacketConn_new (suite E) kr ds op now sk)"
  by (simp add: conn_ok_def PacketConn_new_def node_ok_def tables_ok_def others_def RouterState_new_def SessionManager_new_def tables_bounded_def
      seen_inv_def CONTROL_MIN_INTERVAL_def CONTROL_MAX_INTERVAL_def Let_def)

lemma reachable_ok:
  assumes "(node_step E)\<^sup>*\<^sup>* (PacketConn_new (suite E) kr ds op now sk, []) (pc, ts)"
  shows "conn_ok E sk pc"
proof -
  have "conn_ok E sk (fst (pc, ts))"
    using assms by (induction rule: rtranclp_induct) (simp_all add: conn_ok_new node_step_ok)
  then show ?thesis by simp
qed

section \<open>Properties\<close>

text \<open>C5. A running node stays well-formed. Whatever frames arrive, whatever tasks, ticks, links and requests of the application follow one another in
  whatever order, the node keeps its identity; there are three trees and three filter generations; every peer has three filters that
  are well-formed, three announcements, at most eight links, a trust score and a loss rate within their ranges; the control cadence
  stays between one and eight ticks; and every coordinate recorded for another node is a valid one.\<close>

theorem node_well_formed:
  assumes "(node_step E)\<^sup>*\<^sup>* (PacketConn_new (suite E) kr ds op now sk, []) (pc, ts)"
  defines "rs \<equiv> pc_inner pc"
  shows "rs_signing_key rs = sk \<and> rs_pub_key rs = ed_pub_of (suite E) sk \<and> pc_pub_key pc = rs_pub_key rs \<and> our_signing_key (rs_sessions rs) = sk \<and>
    length (rs_trees rs) = 3 \<and> length (rs_cuckoo_generation rs) = 3 \<and> 1 \<le> rs_control_interval rs \<and> rs_control_interval rs \<le> 8 \<and>
    (\<forall>(k, p) \<in> set (rs_peers rs). length (pd_cuckoo p) = 3 \<and> (\<forall>f \<in> set (pd_cuckoo p). cuckoo_inv (filter_hash E) f) \<and>
       length (pd_peer_cuckoo_gen p) = 3 \<and> length (pd_trees p) = 3 \<and> length (pd_txs p) \<le> 8 \<and> trust_ok (pd_trust p) \<and> loss_ok (pd_loss_rate p)) \<and>
    (\<forall>(k, c) \<in> set (rs_coord_table rs). k \<noteq> rs_pub_key rs \<longrightarrow> coord_ok c)"
proof -
  have "conn_ok E sk pc" by (rule reachable_ok[OF assms(1)])
  then show ?thesis
    unfolding conn_ok_def node_ok_def peer_ok_def rs_def others_def AList.delete_eq K_def MAX_PARALLEL_LINKS_PER_PEER_def
      CONTROL_MIN_INTERVAL_def CONTROL_MAX_INTERVAL_def by auto
qed

theorem node_well_formed_witness:
  "rs_pub_key (open_conn ex_env ex_hr 0 0 (replicate 32 9) [] 0 (pc_inner (PacketConn_new ex [1] [2] [3] 0 [4]))) = ed_pub_of ex [4] \<and>
   rs_control_interval (open_conn ex_env ex_hr 0 0 (replicate 32 9) [] 0 (pc_inner (PacketConn_new ex [1] [2] [3] 0 [4]))) \<le> 8"
proof -
  let ?pc = "PacketConn_new ex [1] [2] [3] 0 [4] :: bytes list PacketConn"
  have "node_step ex_env (?pc, []) (?pc\<lparr>pc_inner := open_conn ex_env ex_hr 0 0 (replicate 32 9) [] 0 (pc_inner ?pc)\<rparr>, [])" by (rule node_step.link_up)
  then have "(node_step ex_env)\<^sup>*\<^sup>* (PacketConn_new (suite ex_env) [1] [2] [3] 0 [4], [])
      (?pc\<lparr>pc_inner := open_conn ex_env ex_hr 0 0 (replicate 32 9) [] 0 (pc_inner ?pc)\<rparr>, [])" by (simp add: ex_env_def r_into_rtranclp)
  from node_well_formed[OF this] show ?thesis by (simp add: ex_env_def)
qed

text \<open>What has no limit: a report by a new observer about a node already observed, and a handshake of a new identity, are always taken.\<close>

lemma sum_update: "map_of xs k = Some m \<Longrightarrow>
    sum_list (map (\<lambda>(_, m). length m) (AList.update k m' xs)) + length m = sum_list (map (\<lambda>(_, m). length m) xs) + length m'"
  by (induction xs) auto

lemma length_update_new: "map_of xs k = None \<Longrightarrow> length (AList.update k v xs) = Suc (length xs)"
  by (induction xs) (auto split: if_splits)

lemma reputation_grows:
  assumes "rep_relays E (now_ms, now, from) r rs" "map_of (rs_reputation rs) (rr_observed r) = Some m" "map_of m (rr_observer r) = None"
  shows "sum_list (map (\<lambda>(_, m). length m) (rs_reputation (handle_reputation_report E now_ms now from r rs))) =
    sum_list (map (\<lambda>(_, m). length m) (rs_reputation rs)) + 1"
proof -
  have eq: "rs_reputation (handle_reputation_report E now_ms now from r rs) =
      AList.update (rr_observed r) (AList.update (rr_observer r) (rr_seq r, ReputationReport_score r, now) m) (rs_reputation rs)"
    using assms by (simp add: reputation_step record_reputation_def Let_def)
  show ?thesis unfolding eq using sum_update[OF assms(2), of "AList.update (rr_observer r) (rr_seq r, ReputationReport_score r, now) m"]
      length_update_new[OF assms(3), of "(rr_seq r, ReputationReport_score r, now)"] by linarith
qed

lemma sessions_grow:
  assumes "handle_init C t1 t2 n x r data m = (Inr ack, m')" "SessionInit_decode data = Inr i" "map_of (sessions m) (si_ed_pub i) = None"
  shows "length (sessions m') = length (sessions m) + 1"
proof -
  obtain l m1 where l: "rate_limited n (si_ed_pub i) m = (l, m1)" by force
  obtain p m2 where p: "pq_verify_and_pin C (si_ed_pub i) (si_ml_dsa_pub i) (SessionInit_signed_bytes i) (si_ml_dsa_sig i) m1 = (p, m2)" by force
  have f: "sessions m2 = sessions m" using rate_limited_frame[OF l] pq_verify_and_pin_frame[OF p] by simp
  then have "\<exists>s. sessions m' = AList.update (si_ed_pub i) s (sessions m)"
    using assms l p by (auto simp: handle_init_def Let_def split: if_splits sum.splits option.splits)
  then show ?thesis using length_update_new[OF assms(3)] by auto
qed

definition ex_report :: ReputationReport where
  "ex_report = \<lparr>rr_observer = replicate 32 9, rr_observed = [6], rr_score_q16 = 0, rr_seq = 1, rr_valid_from_ms = 100,
     rr_sig = pad_to 64 (replicate 32 9)\<rparr>"

definition ex_observed :: "bytes list RouterState" where
  "ex_observed = (ex_router [1])\<lparr>rs_reputation := [([6], [([5], (1, NaN, 0))])]\<rparr>"



end
