(* ===== verification/Tun.thy ===== *)
theory Tun
  imports Router_Delivery Address
begin

text \<open>
  The adapter between the kernel's TUN interface and the mesh (\<^verbatim>\<open>tun.rs\<close>): the store of known keys by address, the ICMPv6 answer to
  packets without a route with its checksum, and the two loops of \<^verbatim>\<open>start\<close>, one packet per step. The device itself is the list of
  packets written to it; the packets read from it are arguments.
\<close>

section \<open>The key store\<close>

record KeyStore =
  addr_to_key :: "(bytes \<times> bytes) list"

definition KeyStore_new :: KeyStore where
  "KeyStore_new = \<lparr>addr_to_key = []\<rparr>"

definition register :: "crypto \<Rightarrow> bytes \<Rightarrow> KeyStore \<Rightarrow> (bytes \<times> KeyStore) result" where
  "register C pub_key ks =
     and_then (address_from_key C pub_key) (\<lambda>addr. Inr (addr, ks\<lparr>addr_to_key := AList.update addr pub_key (addr_to_key ks)\<rparr>))"

definition key_for_addr :: "bytes \<Rightarrow> KeyStore \<Rightarrow> bytes option" where
  "key_for_addr addr ks = map_of (addr_to_key ks) addr"

section \<open>ICMPv6\<close>

text \<open>The loop over the two-byte chunks with the trailing odd byte, then the loop that folds the carries.\<close>

fun checksum_words :: "bytes \<Rightarrow> u32 \<Rightarrow> u32" where
  "checksum_words (b0 # b1 # data) acc = checksum_words data (acc + ucast (from_be [b0, b1] :: u16))"
| "checksum_words [b] acc = acc + push_bit 8 (ucast b)"
| "checksum_words [] acc = acc"

function fold_carries :: "u32 \<Rightarrow> u32" where
  "fold_carries acc = (if drop_bit 16 acc \<noteq> 0 then fold_carries ((acc AND 0xFFFF) + drop_bit 16 acc) else acc)"
  by pat_completeness auto

lemma unat_fold_step: "unat ((acc AND 0xFFFF) + drop_bit 16 acc :: u32) = unat acc mod 65536 + unat acc div 65536"
proof -
  have "acc AND 0xFFFF = take_bit 16 acc" by (simp add: take_bit_eq_mask mask_eq_exp_minus_1)
  then have a: "unat (acc AND 0xFFFF) = unat acc mod 65536" by (simp add: take_bit_eq_mod unat_mod)
  have d: "unat (drop_bit 16 acc) = unat acc div 65536" by (simp add: drop_bit_eq_div unat_div)
  have "unat acc < 2 ^ 32" using unsigned_less[of acc] by simp
  then have "unat acc mod 65536 + unat acc div 65536 < 2 ^ 32" by linarith
  then show ?thesis using a d by (simp add: unat_word_ariths)
qed

termination fold_carries
proof (relation "measure unat")
  fix acc :: u32
  assume "drop_bit 16 acc \<noteq> 0"
  then have "unat (drop_bit 16 acc) \<noteq> 0" by (simp add: unat_eq_0)
  then have "0 < unat acc div 65536" by (simp add: drop_bit_eq_div unat_div)
  then have "unat acc mod 65536 + unat acc div 65536 < unat acc" using div_mult_mod_eq[of "unat acc" 65536] by linarith
  then show "((acc AND 0xFFFF) + drop_bit 16 acc, acc) \<in> measure unat" by (simp add: unat_fold_step)
qed simp

declare fold_carries.simps [simp del]

definition internet_checksum :: "bytes \<Rightarrow> u16" where
  "internet_checksum data = NOT (ucast (fold_carries (checksum_words data 0)))"

definition icmpv6_dest_unreachable :: "bytes \<Rightarrow> bytes \<Rightarrow> bytes option" where
  "icmpv6_dest_unreachable our_addr orig_pkt =
     (if length orig_pkt < 40 then None else
      let orig_src = take 16 (drop 8 orig_pkt);
          max_orig = 1280 - 40 - 8;
          orig_len = min (length orig_pkt) max_orig;
          icmpv6_len = 8 + orig_len;
          pkt = [0x60] @ [0, 0, 0] @ be_bytes 2 (of_nat icmpv6_len :: u16) @ [58] @ [64] @ our_addr @ orig_src;
          icmp_start = length pkt;
          pkt = pkt @ [1] @ [0] @ [0, 0] @ [0, 0, 0, 0] @ take orig_len orig_pkt;
          csum_buf = our_addr @ orig_src @ be_bytes 4 (of_nat icmpv6_len :: u32) @ [0, 0, 0, 58] @ drop icmp_start pkt;
          checksum = internet_checksum csum_buf in
      Some (pkt[icmp_start + 2 := ucast (drop_bit 8 checksum), icmp_start + 3 := ucast (checksum AND 0xFF)]))"

section \<open>The adapter\<close>

record PeerStats =
  ps_key :: bytes
  ps_lag :: nat
  ps_jitter :: nat
  ps_loss_rate :: fl
  ps_priority :: u8
  ps_rx_bytes :: u64
  ps_tx_bytes :: u64
  ps_uptime :: nat
  ps_trust :: fl

definition get_peer_stats :: "instant \<Rightarrow> 'c PacketConn \<Rightarrow> PeerStats list" where
  "get_peer_stats now pc = map (\<lambda>(_, p). \<lparr>ps_key = pd_pub_key p, ps_lag = pd_lag p, ps_jitter = pd_jitter p, ps_loss_rate = pd_loss_rate p,
     ps_priority = pd_priority p, ps_rx_bytes = pd_rx_bytes p, ps_tx_bytes = pd_tx_bytes p, ps_uptime = duration_since now (pd_connected_at p),
     ps_trust = pd_trust p\<rparr>) (rs_peers (pc_inner pc))"

text \<open>\<^verbatim>\<open>read_from\<close> takes the oldest packet of the channel; it waits, here \<open>None\<close>, while there is none.\<close>

definition read_from :: "'c PacketConn \<Rightarrow> (InboundPacket \<times> 'c PacketConn) option" where
  "read_from pc = (case rs_traffic (pc_inner pc) of [] \<Rightarrow> None
     | p # ps \<Rightarrow> Some (p, pc\<lparr>pc_inner := (pc_inner pc)\<lparr>rs_traffic := ps\<rparr>\<rparr>))"

definition mtu :: u64 where "mtu = 65000"

definition tun_mtu :: u16 where
  "tun_mtu = ucast (max (saturating_sub mtu 300) 1280)"

record 'c adapter =
  tn_our_addr :: bytes
  tn_key_store :: KeyStore
  tn_conn :: "'c PacketConn"
  tn_written :: "bytes list"

definition tun_start :: "crypto \<Rightarrow> KeyStore \<Rightarrow> 'c PacketConn \<Rightarrow> 'c adapter result" where
  "tun_start C key_store conn =
     and_then (register C (pc_pub_key conn) key_store) (\<lambda>(our_addr, key_store).
     Inr \<lparr>tn_our_addr = our_addr, tn_key_store = key_store, tn_conn = conn, tn_written = []\<rparr>)"

text \<open>A read of the device, at least one byte, with or without the four bytes some platforms prepend.\<close>

definition tun_packet :: "bytes \<Rightarrow> bytes option" where
  "tun_packet buf =
     (if drop_bit 4 (buf ! 0) = 6 then Some buf
      else if 4 < length buf \<and> drop_bit 4 (buf ! 4) = 6 then Some (drop 4 buf)
      else None)"

fun find_peer :: "crypto \<Rightarrow> bytes \<Rightarrow> bytes list \<Rightarrow> KeyStore \<Rightarrow> (bytes option \<times> KeyStore) result" where
  "find_peer C dest_addr [] ks = Inr (None, ks)"
| "find_peer C dest_addr (key # keys) ks =
     and_then (address_from_key C key) (\<lambda>addr.
     if addr = dest_addr then and_then (register C key ks) (\<lambda>(_, ks). Inr (Some key, ks))
     else find_peer C dest_addr keys ks)"

definition resolve_dest :: "crypto \<Rightarrow> bytes \<Rightarrow> PeerStats list \<Rightarrow> KeyStore \<Rightarrow> (bytes option \<times> KeyStore) result" where
  "resolve_dest C dest_addr peers ks =
     (case key_for_addr dest_addr ks of Some key \<Rightarrow> Inr (Some key, ks) | None \<Rightarrow> find_peer C dest_addr (map ps_key peers) ks)"

definition tun_outbound :: "'c env \<Rightarrow> handler_rnd \<Rightarrow> u64 \<Rightarrow> instant \<Rightarrow> bytes \<Rightarrow> 'c adapter \<Rightarrow> 'c adapter result" where
  "tun_outbound E hr now_ms now buf t =
     (case tun_packet buf of None \<Rightarrow> Inr t | Some pkt \<Rightarrow>
      if length pkt < 40 then Inr t else
      let dest_addr = take 16 (drop 24 pkt) in
      if dest_addr ! 0 \<noteq> 2 then Inr t else
      and_then (resolve_dest (suite E) dest_addr (get_peer_stats now (tn_conn t)) (tn_key_store t)) (\<lambda>(pub_key, ks).
      let t = t\<lparr>tn_key_store := ks\<rparr> in
      case pub_key of
        Some key \<Rightarrow> Inr (t\<lparr>tn_conn := snd (write_to E hr now_ms now pkt key (tn_conn t))\<rparr>)
      | None \<Rightarrow> (case icmpv6_dest_unreachable (tn_our_addr t) pkt of
                    Some icmp \<Rightarrow> Inr (t\<lparr>tn_written := tn_written t @ [icmp]\<rparr>)
                  | None \<Rightarrow> Inr t)))"

definition tun_inbound :: "crypto \<Rightarrow> 'c adapter \<Rightarrow> 'c adapter result" where
  "tun_inbound C t =
     (case read_from (tn_conn t) of None \<Rightarrow> Inr t
      | Some (pkt, conn) \<Rightarrow>
          and_then (register C (ip_from pkt) (tn_key_store t)) (\<lambda>(_, ks).
          Inr (t\<lparr>tn_key_store := ks, tn_conn := conn, tn_written := tn_written t @ [ip_payload pkt]\<rparr>)))"

section \<open>The checksum\<close>

text \<open>The sum of the big-endian words as a natural number.\<close>

fun words_sum :: "bytes \<Rightarrow> nat" where
  "words_sum (b0 # b1 # data) = 256 * unat b0 + unat b1 + words_sum data"
| "words_sum [b] = 256 * unat b"
| "words_sum [] = 0"

lemma unat_from_be_two: "unat (from_be [b0, b1] :: u16) = 256 * unat b0 + unat b1"
proof -
  have l: "unat b0 < 256" "unat b1 < 256" using unsigned_less[of b0] unsigned_less[of b1] by simp_all
  have "push_bit 8 (ucast b0 :: u16) OR ucast b1 = push_bit 8 (ucast b0) + ucast b1"
  proof (rule disjunctive_add_eq_or[symmetric], rule bit_eqI)
    fix n
    have "\<not> bit b1 n" if "8 \<le> n" using that bit_imp_le_length[of b1 n] by auto
    then show "bit (push_bit 8 (ucast b0 :: u16) AND ucast b1) n = bit 0 n" by (auto simp: bit_and_iff bit_push_bit_iff bit_ucast_iff)
  qed
  then have "(from_be [b0, b1] :: u16) = push_bit 8 (ucast b0) + ucast b1" by (simp add: from_be_def or.commute)
  also have "unat \<dots> = 256 * unat b0 + unat b1"
    using l by (simp add: push_bit_eq_mult unat_word_ariths unsigned_ucast_eq take_bit_nat_eq_self mult.commute)
  finally show ?thesis .
qed

lemma unat_ucast_u32: "unat (ucast (w :: u16) :: u32) = unat w" "unat (ucast (b :: u8) :: u32) = unat b"
proof -
  have "unat w < 65536" "unat b < 256" using unsigned_less[of w] unsigned_less[of b] by simp_all
  then show "unat (ucast w :: u32) = unat w" "unat (ucast b :: u32) = unat b" by (simp_all add: unsigned_ucast_eq take_bit_nat_eq_self)
qed

lemma checksum_words:
  "unat s + words_sum data < 2 ^ 32 \<Longrightarrow> unat (checksum_words data s) = unat s + words_sum data"
proof (induction data s rule: checksum_words.induct)
  case (1 b0 b1 data s)
  have "unat (s + ucast (from_be [b0, b1] :: u16)) = unat s + (256 * unat b0 + unat b1)"
    using "1.prems" by (simp add: unat_word_ariths unat_ucast_u32 unat_from_be_two)
  then show ?case using 1 by simp
next
  case (2 b s)
  have "unat b < 256" using unsigned_less[of b] by simp
  then show ?case using 2 by (simp add: push_bit_eq_mult unat_word_ariths unat_ucast_u32 mult.commute)
qed simp

lemma words_sum_append: "even (length xs) \<Longrightarrow> words_sum (xs @ ys) = words_sum xs + words_sum ys"
  by (induction xs rule: words_sum.induct) auto

lemma words_sum_bound: "words_sum xs \<le> 65535 * length xs"
proof (induction xs rule: words_sum.induct)
  case (1 b0 b1 data)
  have "unat b0 < 256" "unat b1 < 256" using unsigned_less[of b0] unsigned_less[of b1] by simp_all
  then show ?case using 1 by simp
next
  case (2 b)
  have "unat b < 256" using unsigned_less[of b] by simp
  then show ?case by simp
qed simp

lemma fold_carries: "unat (fold_carries s) \<le> 65535 \<and> unat (fold_carries s) mod 65535 = unat s mod 65535 \<and> (0 < unat s \<longrightarrow> 0 < unat (fold_carries s))"
proof (induction s rule: fold_carries.induct)
  case (1 s)
  show ?case
  proof (cases "drop_bit 16 s = 0")
    case True
    then have "unat (drop_bit 16 s) = 0" by simp
    then have "unat s div 65536 = 0" by (simp add: drop_bit_eq_div unat_div)
    then have "unat s \<le> 65535" by (simp add: div_eq_0_iff)
    then show ?thesis using True by (simp add: fold_carries.simps[of s])
  next
    case False
    let ?n = "unat s"
    have step: "unat ((s AND 0xFFFF) + drop_bit 16 s) = ?n mod 65536 + ?n div 65536" by (rule unat_fold_step)
    have "?n = (?n mod 65536 + ?n div 65536) + 65535 * (?n div 65536)" using div_mult_mod_eq[of ?n 65536] by linarith
    then have "(?n mod 65536 + ?n div 65536) mod 65535 = ?n mod 65535" by (metis mod_mult_self2)
    moreover have "0 < ?n \<longrightarrow> 0 < ?n mod 65536 + ?n div 65536" using div_mult_mod_eq[of ?n 65536] by linarith
    moreover have "fold_carries s = fold_carries ((s AND 0xFFFF) + drop_bit 16 s)" using False by (simp add: fold_carries.simps[of s])
    ultimately show ?thesis using "1.IH"[OF False] unfolding step by metis
  qed
qed

lemma unat_not: "unat (NOT (w :: u16)) = 65535 - unat w"
proof -
  have "NOT w = - 1 - w" unfolding not_eq_complement by (simp only: minus_diff_commute)
  then have "unat (NOT w) = unat (- 1 - w)" by (rule arg_cong)
  also have "\<dots> = unat (- 1 :: u16) - unat w" by (rule unat_sub) (rule word_order.extremum)
  also have "unat (- 1 :: u16) = 65535" by (simp only: unsigned_minus_1_eq_mask mask_eq_exp_minus_1) simp
  finally show ?thesis .
qed

lemma unat_checksum:
  assumes "words_sum data < 2 ^ 32"
  shows "unat (internet_checksum data) = 65535 - unat (fold_carries (checksum_words data 0))"
    "unat (checksum_words data 0) = words_sum data"
proof -
  show "unat (checksum_words data 0) = words_sum data" using checksum_words[of 0 data] assms by simp
  let ?f = "fold_carries (checksum_words data 0)"
  have "unat ?f \<le> 65535" using fold_carries by blast
  then have "unat (ucast ?f :: u16) = unat ?f" by (simp add: unsigned_ucast_eq take_bit_nat_eq_self)
  then show "unat (internet_checksum data) = 65535 - unat ?f"
    unfolding internet_checksum_def by (simp add: unat_not)
qed

text \<open>Writing the checksum into its zeroed field makes the whole verify.\<close>

lemma checksum_bytes: "256 * unat (ucast (drop_bit 8 c) :: u8) + unat (ucast (c AND 0xFF) :: u8) = unat (c :: u16)"
proof -
  have l: "unat c < 65536" using unsigned_less[of c] by simp
  have "unat (drop_bit 8 c) = unat c div 256" by (simp add: drop_bit_eq_div unat_div)
  moreover have "unat c div 256 < 256" using l by linarith
  ultimately have h: "unat (ucast (drop_bit 8 c) :: u8) = unat c div 256" by (simp add: unsigned_ucast_eq take_bit_nat_eq_self)
  have "c AND 0xFF = take_bit 8 c" by (simp add: take_bit_eq_mask mask_eq_exp_minus_1)
  then have "unat (c AND 0xFF) = unat c mod 256" by (simp add: take_bit_eq_mod unat_mod)
  then have "unat (ucast (c AND 0xFF) :: u8) = unat c mod 256" by (simp add: unsigned_ucast_eq take_bit_nat_eq_self)
  then show ?thesis using h by (simp add: div_mult_mod_eq mult.commute)
qed

lemma complement_mod:
  fixes s f :: nat
  assumes "f \<le> 65535" "f mod 65535 = s mod 65535"
  shows "(s + (65535 - f)) mod 65535 = 0"
proof -
  have "(s + (65535 - f)) mod 65535 = (f mod 65535 + (65535 - f)) mod 65535" unfolding assms(2) by (simp only: mod_add_left_eq)
  also have "\<dots> = 0" using assms(1) by (cases "f = 65535") simp_all
  finally show ?thesis .
qed

lemma checksum_verifies:
  assumes "even (length pre)" "0 < words_sum (pre @ [0, 0] @ post)" "length (pre @ post) \<le> 60000"
  defines "c \<equiv> internet_checksum (pre @ [0, 0] @ post)"
  shows "internet_checksum (pre @ [ucast (drop_bit 8 c), ucast (c AND 0xFF)] @ post) = 0"
proof -
  let ?new = "pre @ [ucast (drop_bit 8 c), ucast (c AND 0xFF)] @ post" and ?s = "words_sum (pre @ [0, 0] @ post)"
  let ?f = "unat (fold_carries (checksum_words (pre @ [0, 0] @ post) 0))"
  have s: "?s = words_sum pre + words_sum post" "words_sum ?new = ?s + unat c"
    using assms(1) checksum_bytes[of c] by (simp_all add: words_sum_append)
  have b: "?s \<le> 65535 * 60000" using words_sum_bound[of pre] words_sum_bound[of post] assms(3) unfolding s(1) by simp
  then have "?s < 2 ^ 32" by simp
  from unat_checksum[OF this] have c: "unat c = 65535 - ?f" and u: "unat (checksum_words (pre @ [0, 0] @ post) 0) = ?s" by (simp_all add: c_def)
  have f: "?f \<le> 65535" "?f mod 65535 = ?s mod 65535"
    using fold_carries[of "checksum_words (pre @ [0, 0] @ post) 0"] unfolding u by blast+
  have new: "words_sum ?new < 2 ^ 32" using b c unfolding s(2) by simp
  have z: "words_sum ?new mod 65535 = 0" unfolding s(2) c by (rule complement_mod[OF f])
  let ?g = "unat (fold_carries (checksum_words ?new 0))"
  have "?g \<le> 65535" "?g mod 65535 = 0" "0 < ?g"
    using fold_carries[of "checksum_words ?new 0"] z assms(2) unfolding unat_checksum(2)[OF new] s(2) by auto
  then have "?g = 65535" by (metis le_neq_implies_less mod_less not_less_zero less_irrefl)
  then show ?thesis using unat_checksum(1)[OF new] by (simp add: unat_eq_0)
qed

lemma update_two: "(h @ x0 # x1 # x2 # x3 # r)[length h + 2 := b0, length h + 3 := b1] = h @ x0 # x1 # b0 # b1 # r"
  by (simp add: list_update_append eval_nat_numeral)

text \<open>The layout of the answer.\<close>

lemma unreachable_layout:
  assumes "length our_addr = 16" "40 \<le> length orig"
  defines "src \<equiv> take 16 (drop 8 orig)" and "quoted \<equiv> take 1232 orig"
  defines "body \<equiv> \<lambda>b0 b1. [1, 0, b0, b1, 0, 0, 0, 0] @ quoted"
  defines "pseudo \<equiv> our_addr @ src @ be_bytes 4 (of_nat (8 + length quoted) :: u32) @ [0, 0, 0, 58]"
  defines "c \<equiv> internet_checksum (pseudo @ body 0 0)"
  shows "icmpv6_dest_unreachable our_addr orig = Some ([0x60, 0, 0, 0] @ be_bytes 2 (of_nat (8 + length quoted) :: u16) @ [58, 64] @ our_addr @ src @
      body (ucast (drop_bit 8 c)) (ucast (c AND 0xFF)))"
    "internet_checksum (pseudo @ body (ucast (drop_bit 8 c)) (ucast (c AND 0xFF))) = 0"
proof -
  have l: "length src = 16" "length quoted = min (length orig) 1232" using assms(2) by (simp_all add: src_def quoted_def)
  let ?hdr = "[0x60, 0, 0, 0] @ be_bytes 2 (of_nat (8 + length quoted) :: u16) @ [58, 64] @ our_addr @ src"
  have hdr: "length ?hdr = 40" using assms(1) l by simp
  have upd: "(?hdr @ body 0 0)[length ?hdr + 2 := b0, length ?hdr + 3 := b1] = ?hdr @ body b0 b1" for b0 b1
    using update_two[of ?hdr 1 0 0 0 "[0, 0, 0, 0] @ quoted" b0 b1] by (simp add: body_def)
  have "take (min (length orig) 1232) orig = quoted" by (simp add: quoted_def min_def)
  then show "icmpv6_dest_unreachable our_addr orig = Some ([0x60, 0, 0, 0] @ be_bytes 2 (of_nat (8 + length quoted) :: u16) @ [58, 64] @ our_addr @ src @
      body (ucast (drop_bit 8 c)) (ucast (c AND 0xFF)))"
    using assms(2) upd[of "ucast (drop_bit 8 c)" "ucast (c AND 0xFF)"] hdr l(2)
    by (simp add: icmpv6_dest_unreachable_def Let_def src_def[symmetric] c_def body_def pseudo_def)
  have "0 < words_sum (pseudo @ body 0 0)" using assms(1) l by (simp add: pseudo_def body_def words_sum_append)
  moreover have "pseudo @ body b0 b1 = (pseudo @ [1, 0]) @ [b0, b1] @ [0, 0, 0, 0] @ quoted" for b0 b1 by (simp add: body_def)
  moreover have "even (length (pseudo @ [1, 0]))" using assms(1) l by (simp add: pseudo_def)
  ultimately show "internet_checksum (pseudo @ body (ucast (drop_bit 8 c)) (ucast (c AND 0xFF))) = 0"
    using checksum_verifies[of "pseudo @ [1, 0]" "[0, 0, 0, 0] @ quoted"] assms(1) l by (simp add: c_def pseudo_def)
qed

section \<open>Addresses\<close>

lemma copy_bits_head: "copy_bits h n is addr = Inr a \<Longrightarrow> a ! 0 = addr ! 0"
proof (induction "is" arbitrary: addr)
  case (Cons i "is")
  then show ?case by (auto simp: Let_def and_then_Inr_iff)
qed simp

lemma copy_bits_length: "copy_bits h n is addr = Inr a \<Longrightarrow> length a = length addr"
proof (induction "is" arbitrary: addr)
  case (Cons i "is")
  then show ?case by (fastforce simp: Let_def and_then_Inr_iff)
qed simp

lemma address_length: "address_from_key C k = Inr a \<Longrightarrow> length a = 16"
  by (auto simp: address_from_key_def addr_from_hash_def Let_def dest: copy_bits_length)

lemma address_head: "address_from_key C k = Inr a \<Longrightarrow> a ! 0 = 2"
  by (auto simp: address_from_key_def addr_from_hash_def Let_def dest: copy_bits_head)

lemma register_Inr:
  "register C k ks = Inr (a, ks') \<longleftrightarrow> address_from_key C k = Inr a \<and> ks' = ks\<lparr>addr_to_key := AList.update a k (addr_to_key ks)\<rparr>"
  by (auto simp: register_def and_then_Inr_iff)

text \<open>Every key is stored under its own address.\<close>

definition store_ok :: "crypto \<Rightarrow> KeyStore \<Rightarrow> bool" where
  "store_ok C ks \<longleftrightarrow> (\<forall>a k. key_for_addr a ks = Some k \<longrightarrow> address_from_key C k = Inr a)"

lemma store_ok_register: "store_ok C ks \<Longrightarrow> register C k ks = Inr (a, ks') \<Longrightarrow> store_ok C ks'"
  by (auto simp: store_ok_def register_Inr key_for_addr_def)

lemma find_peer_cases:
  assumes "find_peer C d keys ks = Inr (r, ks')"
  shows "(case r of None \<Rightarrow> ks' = ks \<and> (\<forall>k \<in> set keys. address_from_key C k \<noteq> Inr d)
    | Some k \<Rightarrow> k \<in> set keys \<and> address_from_key C k = Inr d \<and> (\<exists>a. register C k ks = Inr (a, ks')))"
  using assms
proof (induction keys)
  case (Cons key keys)
  then obtain addr where addr: "address_from_key C key = Inr addr" by (auto simp: and_then_Inr_iff)
  show ?case
  proof (cases "addr = d")
    case True
    then show ?thesis using Cons.prems addr by (auto simp: and_then_Inr_iff)
  next
    case False
    then have "find_peer C d keys ks = Inr (r, ks')" using Cons.prems addr by simp
    then show ?thesis using Cons.IH addr False by (cases r) auto
  qed
qed simp

lemma find_peer_total:
  "\<forall>k \<in> set keys. \<exists>a. address_from_key C k = Inr a \<Longrightarrow> \<exists>r. find_peer C d keys ks = Inr r"
  by (induction keys) (auto simp: register_def)

lemma resolve_dest_cases:
  assumes "resolve_dest C d peers ks = Inr (r, ks')" "store_ok C ks"
  shows "store_ok C ks'" "(case r of
      None \<Rightarrow> key_for_addr d ks = None \<and> (\<forall>k \<in> ps_key ` set peers. address_from_key C k \<noteq> Inr d)
    | Some k \<Rightarrow> (key_for_addr d ks = Some k \<or> k \<in> ps_key ` set peers) \<and> address_from_key C k = Inr d)"
proof -
  have "store_ok C ks' \<and> (case r of
      None \<Rightarrow> key_for_addr d ks = None \<and> (\<forall>k \<in> ps_key ` set peers. address_from_key C k \<noteq> Inr d)
    | Some k \<Rightarrow> (key_for_addr d ks = Some k \<or> k \<in> ps_key ` set peers) \<and> address_from_key C k = Inr d)"
  proof (cases "key_for_addr d ks")
    case None
    then have "find_peer C d (map ps_key peers) ks = Inr (r, ks')" using assms(1) by (simp add: resolve_dest_def)
    from find_peer_cases[OF this] show ?thesis
      using None assms(2) by (cases r) (auto intro: store_ok_register)
  next
    case (Some k)
    then have "r = Some k" "ks' = ks" using assms(1) by (simp_all add: resolve_dest_def)
    then show ?thesis using Some assms(2) by (simp add: store_ok_def)
  qed
  then show "store_ok C ks'" "(case r of
      None \<Rightarrow> key_for_addr d ks = None \<and> (\<forall>k \<in> ps_key ` set peers. address_from_key C k \<noteq> Inr d)
    | Some k \<Rightarrow> (key_for_addr d ks = Some k \<or> k \<in> ps_key ` set peers) \<and> address_from_key C k = Inr d)" by blast+
qed

section \<open>Histories of the adapter\<close>

text \<open>The two tasks of the adapter interleave with everything else that changes the connection.\<close>

inductive tun_step :: "'c env \<Rightarrow> 'c adapter \<Rightarrow> 'c adapter \<Rightarrow> bool" for E :: "'c env" where
  outbound: "tun_outbound E hr now_ms now buf t = Inr t' \<Longrightarrow> tun_step E t t'"
| inbound: "tun_inbound (suite E) t = Inr t' \<Longrightarrow> tun_step E t t'"
| mesh: "tun_step E t (t\<lparr>tn_conn := conn\<rparr>)"

lemma outbound_cases:
  assumes "tun_outbound E hr now_ms now buf t = Inr t'"
  obtains "t' = t"
  | pkt r ks where "tun_packet buf = Some pkt" "40 \<le> length pkt" "take 16 (drop 24 pkt) ! 0 = 2"
      "resolve_dest (suite E) (take 16 (drop 24 pkt)) (get_peer_stats now (tn_conn t)) (tn_key_store t) = Inr (r, ks)"
      "t' = (case r of Some k \<Rightarrow> t\<lparr>tn_key_store := ks, tn_conn := snd (write_to E hr now_ms now pkt k (tn_conn t))\<rparr>
             | None \<Rightarrow> t\<lparr>tn_key_store := ks, tn_written := tn_written t @ [the (icmpv6_dest_unreachable (tn_our_addr t) pkt)]\<rparr>)"
proof (cases "tun_packet buf")
  case None
  then show ?thesis using assms that(1) by (simp add: tun_outbound_def)
next
  case (Some pkt)
  show ?thesis
  proof (cases "length pkt < 40 \<or> take 16 (drop 24 pkt) ! 0 \<noteq> 2")
    case True
    then have "t' = t" using assms Some by (auto simp: tun_outbound_def Let_def split: if_splits)
    then show ?thesis by (rule that(1))
  next
    case False
    then obtain r ks where r: "resolve_dest (suite E) (take 16 (drop 24 pkt)) (get_peer_stats now (tn_conn t)) (tn_key_store t) = Inr (r, ks)"
      using assms Some by (auto simp: tun_outbound_def Let_def and_then_Inr_iff)
    have "\<exists>icmp. icmpv6_dest_unreachable (tn_our_addr t) pkt = Some icmp" using False by (simp add: icmpv6_dest_unreachable_def Let_def)
    then show ?thesis using that(2)[OF Some _ _ r] assms Some False r
      by (cases r) (auto simp: tun_outbound_def Let_def)
  qed
qed

definition adapter_ok :: "crypto \<Rightarrow> bytes \<Rightarrow> 'c adapter \<Rightarrow> bool" where
  "adapter_ok C pub_key t \<longleftrightarrow> store_ok C (tn_key_store t) \<and> address_from_key C pub_key = Inr (tn_our_addr t)"

lemma adapter_ok_step: "tun_step E t t' \<Longrightarrow> adapter_ok (suite E) k t \<Longrightarrow> adapter_ok (suite E) k t'"
proof (induction rule: tun_step.induct)
  case (outbound hr now_ms now buf t t')
  from outbound(1) show ?case
  proof (cases rule: outbound_cases)
    case 1
    then show ?thesis using outbound by simp
  next
    case (2 pkt r ks)
    have "store_ok (suite E) ks" using resolve_dest_cases(1)[OF 2(4)] outbound by (simp add: adapter_ok_def)
    then show ?thesis using 2(5) outbound by (cases r) (simp_all add: adapter_ok_def)
  qed
next
  case (inbound t t')
  then show ?case
    by (auto simp: tun_inbound_def adapter_ok_def and_then_Inr_iff split: option.splits prod.splits intro: store_ok_register)
next
  case (mesh t conn)
  then show ?case by (simp add: adapter_ok_def)
qed

lemma adapter_ok_reachable:
  assumes "tun_start (suite E) ks0 conn0 = Inr t0" "store_ok (suite E) ks0" "(tun_step E)\<^sup>*\<^sup>* t0 t"
  shows "adapter_ok (suite E) (pc_pub_key conn0) t"
  using assms(3)
proof (induction rule: rtranclp_induct)
  case base
  show ?case using assms(1,2) by (auto simp: tun_start_def adapter_ok_def and_then_Inr_iff register_Inr intro: store_ok_register)
next
  case (step t t')
  show ?case by (rule adapter_ok_step[OF step.hyps(2) step.IH])
qed

section \<open>Properties\<close>

text \<open>C12. Packets from the interface go to the owner of the address. In every reachable state of the adapter keys are stored under their own
  address only. An IPv6 packet to an address outside the node's range changes nothing; one to the address of a stored key or of a connected
  peer is given to \<^verbatim>\<open>write_to\<close> with a key that has exactly that address; any other is answered with an ICMPv6 message on the
  interface and leaves the mesh alone. Nothing panics while the keys of the connected peers have addresses.\<close>

theorem tun_routes_by_address:
  fixes now :: instant
  assumes "tun_start (suite E) KeyStore_new conn0 = Inr t0" "(tun_step E)\<^sup>*\<^sup>* t0 t" "tun_packet buf = Some pkt" "40 \<le> length pkt"
  defines "d \<equiv> take 16 (drop 24 pkt)" and "peers \<equiv> ps_key ` set (get_peer_stats now (tn_conn t))"
  shows "((\<forall>k \<in> peers. \<exists>a. address_from_key (suite E) k = Inr a) \<longrightarrow> (\<exists>t'. tun_outbound E hr now_ms now buf t = Inr t')) \<and>
    (\<forall>t'. tun_outbound E hr now_ms now buf t = Inr t' \<longrightarrow>
      (if d ! 0 \<noteq> 2 then t' = t
       else if \<exists>k. (key_for_addr d (tn_key_store t) = Some k \<or> k \<in> peers) \<and> address_from_key (suite E) k = Inr d
       then (\<exists>k. address_from_key (suite E) k = Inr d \<and> tn_conn t' = snd (write_to E hr now_ms now pkt k (tn_conn t)) \<and> tn_written t' = tn_written t)
       else (\<exists>icmp. icmpv6_dest_unreachable (tn_our_addr t) pkt = Some icmp \<and> tn_written t' = tn_written t @ [icmp] \<and> tn_conn t' = tn_conn t)))"
proof (intro conjI impI allI)
  have "store_ok (suite E) KeyStore_new" by (simp add: store_ok_def KeyStore_new_def key_for_addr_def)
  then have ok: "store_ok (suite E) (tn_key_store t)" using adapter_ok_reachable[OF assms(1) _ assms(2)] by (simp add: adapter_ok_def)
  show "\<exists>t'. tun_outbound E hr now_ms now buf t = Inr t'" if "\<forall>k \<in> peers. \<exists>a. address_from_key (suite E) k = Inr a"
  proof -
    have "\<exists>r. resolve_dest (suite E) d (get_peer_stats now (tn_conn t)) (tn_key_store t) = Inr r"
      using find_peer_total[of "map ps_key (get_peer_stats now (tn_conn t))" "suite E" d "tn_key_store t"] that
      by (auto simp: resolve_dest_def peers_def split: option.split)
    then show ?thesis using assms(3,4) by (auto simp: tun_outbound_def Let_def d_def split: option.split)
  qed
  fix t' assume out: "tun_outbound E hr now_ms now buf t = Inr t'"
  show "if d ! 0 \<noteq> 2 then t' = t
       else if \<exists>k. (key_for_addr d (tn_key_store t) = Some k \<or> k \<in> peers) \<and> address_from_key (suite E) k = Inr d
       then (\<exists>k. address_from_key (suite E) k = Inr d \<and> tn_conn t' = snd (write_to E hr now_ms now pkt k (tn_conn t)) \<and> tn_written t' = tn_written t)
       else (\<exists>icmp. icmpv6_dest_unreachable (tn_our_addr t) pkt = Some icmp \<and> tn_written t' = tn_written t @ [icmp] \<and> tn_conn t' = tn_conn t)"
  proof (cases "d ! 0 = 2")
    case False
    then show ?thesis using out assms(3,4) by (simp add: tun_outbound_def d_def)
  next
    case True
    then obtain r ks where r: "resolve_dest (suite E) d (get_peer_stats now (tn_conn t)) (tn_key_store t) = Inr (r, ks)"
      using out assms(3,4) by (auto simp: tun_outbound_def Let_def and_then_Inr_iff d_def)
    note c = resolve_dest_cases(2)[OF r ok]
    obtain icmp where icmp: "icmpv6_dest_unreachable (tn_our_addr t) pkt = Some icmp" using assms(4) by (simp add: icmpv6_dest_unreachable_def Let_def)
    show ?thesis
    proof (cases r)
      case None
      then have "t' = t\<lparr>tn_key_store := ks, tn_written := tn_written t @ [icmp]\<rparr>"
        using out assms(3,4) True r icmp by (simp add: tun_outbound_def Let_def d_def)
      then show ?thesis using True c None icmp by (auto simp: peers_def)
    next
      case (Some k)
      then have "t' = t\<lparr>tn_key_store := ks, tn_conn := snd (write_to E hr now_ms now pkt k (tn_conn t))\<rparr>"
        using out assms(3,4) True r by (simp add: tun_outbound_def Let_def d_def)
      then show ?thesis using True c Some by (auto simp: peers_def)
    qed
  qed
qed

theorem tun_routes_by_address_witness:
  "\<exists>t0 t' icmp. tun_start ex KeyStore_new (PacketConn_new ex [1] [2] [3] 0 [4] :: bytes list PacketConn) = Inr t0 \<and>
     tun_outbound ex_env ex_hr 0 0 (0x60 # replicate 23 0 @ 2 # 0xFF # replicate 14 0) t0 = Inr t' \<and> tn_written t' = [icmp]"
proof -
  let ?conn = "PacketConn_new ex [1] [2] [3] 0 [4] :: bytes list PacketConn" and ?pkt = "0x60 # replicate 23 0 @ 2 # 0xFF # replicate 14 0 :: bytes"
  have "\<not> isl (address_from_key ex (ed_pub_of ex [4]))" "address_from_key ex (ed_pub_of ex [4]) \<noteq> Inr (2 # 0xFF # replicate 14 0)" by code_simp+
  then obtain a where a: "address_from_key ex (ed_pub_of ex [4]) = Inr a" "a \<noteq> 2 # 0xFF # replicate 14 0" by (cases "address_from_key ex (ed_pub_of ex [4])") auto
  let ?t0 = "\<lparr>tn_our_addr = a, tn_key_store = \<lparr>addr_to_key = [(a, ed_pub_of ex [4])]\<rparr>, tn_conn = ?conn, tn_written = []\<rparr>"
  have start: "tun_start (suite ex_env) KeyStore_new ?conn = Inr ?t0"
    using a by (simp add: tun_start_def register_def KeyStore_new_def PacketConn_new_def ex_env_def)
  have pkt: "tun_packet ?pkt = Some ?pkt" by code_simp
  have "get_peer_stats 0 ?conn = []" by (simp add: get_peer_stats_def PacketConn_new_def RouterState_new_def Let_def)
  moreover have "take 16 (drop 24 ?pkt) = 2 # 0xFF # replicate 14 0" by code_simp
  ultimately show ?thesis
    using tun_routes_by_address[OF start rtranclp.rtrancl_refl pkt, of 0 ex_hr 0] a start by (auto simp: key_for_addr_def ex_env_def)
qed

text \<open>C40. The answer to an unroutable packet is a correct ICMPv6 message: there is one for every packet that has an IPv6 header, it fits the minimum
  MTU, its header carries its length and the two addresses, it quotes the packet as far as it fits, and its checksum verifies over the
  pseudo-header and the whole message.\<close>

theorem icmp_unreachable_valid:
  assumes "length our_addr = 16"
  shows "(length orig < 40 \<longrightarrow> icmpv6_dest_unreachable our_addr orig = None) \<and>
    (40 \<le> length orig \<longrightarrow> (\<exists>pkt body sum0 sum1. icmpv6_dest_unreachable our_addr orig = Some pkt \<and> length pkt \<le> 1280 \<and>
      pkt = [0x60, 0, 0, 0] @ be_bytes 2 (of_nat (length body) :: u16) @ [58, 64] @ our_addr @ take 16 (drop 8 orig) @ body \<and>
      body = [1, 0, sum0, sum1, 0, 0, 0, 0] @ take 1232 orig \<and>
      internet_checksum (our_addr @ take 16 (drop 8 orig) @ be_bytes 4 (of_nat (length body) :: u32) @ [0, 0, 0, 58] @ body) = 0))"
proof (intro conjI impI)
  show "icmpv6_dest_unreachable our_addr orig = None" if "length orig < 40" using that by (simp add: icmpv6_dest_unreachable_def)
  assume l: "40 \<le> length orig"
  obtain b0 b1 where *: "icmpv6_dest_unreachable our_addr orig = Some ([0x60, 0, 0, 0] @ be_bytes 2 (of_nat (8 + length (take 1232 orig)) :: u16) @ [58, 64] @
      our_addr @ take 16 (drop 8 orig) @ [1, 0, b0, b1, 0, 0, 0, 0] @ take 1232 orig)"
    "internet_checksum ((our_addr @ take 16 (drop 8 orig) @ be_bytes 4 (of_nat (8 + length (take 1232 orig)) :: u32) @ [0, 0, 0, 58]) @
      [1, 0, b0, b1, 0, 0, 0, 0] @ take 1232 orig) = 0"
    using unreachable_layout[OF assms l] by blast
  let ?body = "[1, 0, b0, b1, 0, 0, 0, 0] @ take 1232 orig"
  have "length ?body = 8 + length (take 1232 orig)" by simp
  then show "\<exists>pkt body sum0 sum1. icmpv6_dest_unreachable our_addr orig = Some pkt \<and> length pkt \<le> 1280 \<and>
      pkt = [0x60, 0, 0, 0] @ be_bytes 2 (of_nat (length body) :: u16) @ [58, 64] @ our_addr @ take 16 (drop 8 orig) @ body \<and>
      body = [1, 0, sum0, sum1, 0, 0, 0, 0] @ take 1232 orig \<and>
      internet_checksum (our_addr @ take 16 (drop 8 orig) @ be_bytes 4 (of_nat (length body) :: u32) @ [0, 0, 0, 58] @ body) = 0"
    using * assms
    by - (rule exI[of _ "[0x60, 0, 0, 0] @ be_bytes 2 (of_nat (length ?body) :: u16) @ [58, 64] @ our_addr @ take 16 (drop 8 orig) @ ?body"], rule exI[of _ ?body],
        rule exI[of _ b0], rule exI[of _ b1], simp)
qed

theorem icmp_unreachable_valid_witness:
  "\<exists>pkt. icmpv6_dest_unreachable (replicate 16 2) (0x60 # replicate 39 0) = Some pkt \<and> length pkt \<le> 1280"
  using icmp_unreachable_valid[of "replicate 16 2" "0x60 # replicate 39 0"] by auto

text \<open>C1. From interface to interface. Let a node hold an established session with another whose key it has stored under the packet's destination
  address, know a next hop with a link that takes frames, and encrypt on the caller's task. An IPv6 packet read from its interface is
  transmitted as one frame, and that frame, after any chain of relays, makes the other node write exactly the packet to its own interface
  and remember the sender's key under the sender's address, so that the answer finds its way back.\<close>

theorem tun_end_to_end:
  fixes E :: "'c env" and tA tB :: "'c adapter"
  defines "rsA \<equiv> pc_inner (tn_conn tA)" and "rsB \<equiv> pc_inner (tn_conn tB)"
  assumes C: "data_suite (suite E)" and pub: "length (rs_pub_key rsA) = 32" "pc_pub_key (tn_conn tA) = rs_pub_key rsA" "pc_crypto_pool (tn_conn tA) = None"
    and pkt: "tun_packet buf = Some pkt" "40 \<le> length pkt" "length pkt \<le> 65535"
    and addr: "address_from_key (suite E) (rs_pub_key rsB) = Inr (take 16 (drop 24 pkt))" "address_from_key (suite E) (rs_pub_key rsA) = Inr addrA"
    and known: "key_for_addr (take 16 (drop 24 pkt)) (tn_key_store tA) = Some (rs_pub_key rsB)"
    and a: "map_of (sessions (rs_sessions rsA)) (rs_pub_key rsB) = Some a" "established a" "readable_by E a (rs_pub_key rsA) rsB"
    and hop: "lookup E now (rs_pub_key rsB) rsA = Some hop" "map_of (rs_peers rsA) hop = Some p" "\<forall>f. \<exists>tx \<in> set (pd_txs p). accepts E f tx"
    and B: "rs_traffic rsB = []"
  shows "\<exists>tA' frame. tun_outbound E hr now_ms now buf tA = Inr tA' \<and> tn_written tA' = tn_written tA \<and>
    rs_sent (pc_inner (tn_conn tA')) = rs_sent rsA @ [(hop, frame)] \<and>
    (\<forall>g n from hr' now_ms' now'. carried E frame g n \<longrightarrow>
      (\<exists>rsB' tB'. dispatch E hr' now_ms' now' from g rsB = (rsB', []) \<and>
         tun_inbound (suite E) (tB\<lparr>tn_conn := (tn_conn tB)\<lparr>pc_inner := rsB'\<rparr>\<rparr>) = Inr tB' \<and>
         tn_written tB' = tn_written tB @ [pkt] \<and> key_for_addr addrA (tn_key_store tB') = Some (rs_pub_key rsA)))"
proof -
  let ?d = "take 16 (drop 24 pkt)" and ?out = "encrypt_and_dispatch E (hr_header_priv hr) now (rs_pub_key rsA) pkt (rs_pub_key rsB) rsA"
  obtain t where t: "fst ?out = Inr ()"
    "rs_sent (snd ?out) = rs_sent rsA @ (if \<exists>tx \<in> set (pd_txs p). accepts E (Traffic_encode t) tx then [(hop, Traffic_encode t)] else [])"
    and del: "\<forall>g n from hr' now_ms' now'. carried E (Traffic_encode t) g n \<longrightarrow> (\<exists>rsB'. dispatch E hr' now_ms' now' from g rsB = (rsB', []) \<and>
         rs_traffic rsB' = rs_traffic rsB @ [\<lparr>ip_from = rs_pub_key rsA, ip_payload = pkt\<rparr>])"
    using sealed_delivery[OF C pub(1) pkt(3) a(1,3) hop(1,2), of "hr_header_priv hr"] by blast
  have "write_to E hr now_ms now pkt (rs_pub_key rsB) (tn_conn tA) = (Inr (), (tn_conn tA)\<lparr>pc_inner := snd ?out\<rparr>)"
    using a(1,2) pub(2,3) t(1) by (cases ?out) (simp add: write_to_def is_established_def rsA_def)
  then have out: "tun_outbound E hr now_ms now buf tA = Inr (tA\<lparr>tn_conn := (tn_conn tA)\<lparr>pc_inner := snd ?out\<rparr>\<rparr>)"
    using pkt known address_head[OF addr(1)] by (simp add: tun_outbound_def resolve_dest_def Let_def)
  have inb: "\<exists>tB'. tun_inbound (suite E) (tB\<lparr>tn_conn := (tn_conn tB)\<lparr>pc_inner := rsB'\<rparr>\<rparr>) = Inr tB' \<and>
      tn_written tB' = tn_written tB @ [pkt] \<and> key_for_addr addrA (tn_key_store tB') = Some (rs_pub_key rsA)"
    if "rs_traffic rsB' = [\<lparr>ip_from = rs_pub_key rsA, ip_payload = pkt\<rparr>]" for rsB'
    using that addr(2) by (simp add: tun_inbound_def read_from_def register_def key_for_addr_def)
  show ?thesis
    by (rule exI[of _ "tA\<lparr>tn_conn := (tn_conn tA)\<lparr>pc_inner := snd ?out\<rparr>\<rparr>"], rule exI[of _ "Traffic_encode t"])
      (use out t(2) hop(3) del inb B in \<open>fastforce simp: rsA_def\<close>)
qed

text \<open>The two nodes of the delivery example with their adapters.\<close>

definition ex_conn :: "bytes list RouterState \<Rightarrow> bytes list PacketConn" where
  "ex_conn rs = \<lparr>pc_inner = rs, pc_pub_key = rs_pub_key rs, pc_signing_key = rs_signing_key rs, pc_min_peer_difficulty_bits = 0, pc_crypto_pool = None, pc_obfs_key = None\<rparr>"

definition ex_adapter :: "(bytes \<times> bytes) list \<Rightarrow> bytes list RouterState \<Rightarrow> bytes list adapter" where
  "ex_adapter keys rs = \<lparr>tn_our_addr = [], tn_key_store = \<lparr>addr_to_key = keys\<rparr>, tn_conn = ex_conn rs, tn_written = []\<rparr>"

theorem tun_end_to_end_witness:
  "\<exists>pkt b tA' frame rsB' tB'. tun_outbound ex_env ex_hr 0 0 pkt (ex_adapter [(b, ed_pub_of ex [2])] ex_alice) = Inr tA' \<and>
     rs_sent (pc_inner (tn_conn tA')) = [(ed_pub_of ex [2], frame)] \<and> dispatch ex_env ex_hr 0 0 (ed_pub_of ex [1]) frame ex_bob = (rsB', []) \<and>
     tun_inbound ex ((ex_adapter [] ex_bob)\<lparr>tn_conn := (tn_conn (ex_adapter [] ex_bob))\<lparr>pc_inner := rsB'\<rparr>\<rparr>) = Inr tB' \<and> tn_written tB' = [pkt]"
proof -
  have "\<not> isl (address_from_key ex (ed_pub_of ex [1]))" "\<not> isl (address_from_key ex (ed_pub_of ex [2]))" by code_simp+
  then obtain b where b: "address_from_key ex (ed_pub_of ex [2]) = Inr b" and "\<exists>a. address_from_key ex (ed_pub_of ex [1]) = Inr a"
    by (cases "address_from_key ex (ed_pub_of ex [1])"; cases "address_from_key ex (ed_pub_of ex [2])") auto
  then obtain a where a: "address_from_key ex (ed_pub_of ex [1]) = Inr a" by blast
  let ?pkt = "0x60 # replicate 23 0 @ b" and ?tA = "ex_adapter [(b, ed_pub_of ex [2])] ex_alice" and ?tB = "ex_adapter [] ex_bob"
  have l: "length b = 16" by (rule address_length[OF b])
  then have d: "take 16 (drop 24 ?pkt) = b" "length ?pkt = 40" by simp_all
  have "drop_bit 4 (0x60 :: u8) = 6" by code_simp
  then have pkt: "tun_packet ?pkt = Some ?pkt" by (simp add: tun_packet_def)
  have est: "established exSa" by (simp add: exSa_def)
  have conds: "length (rs_pub_key (pc_inner (tn_conn ?tA))) = 32" "pc_pub_key (tn_conn ?tA) = rs_pub_key (pc_inner (tn_conn ?tA))"
    "pc_crypto_pool (tn_conn ?tA) = None" "40 \<le> length ?pkt" "length ?pkt \<le> 65535"
    "address_from_key (suite ex_env) (rs_pub_key (pc_inner (tn_conn ?tB))) = Inr (take 16 (drop 24 ?pkt))"
    "address_from_key (suite ex_env) (rs_pub_key (pc_inner (tn_conn ?tA))) = Inr a"
    "key_for_addr (take 16 (drop 24 ?pkt)) (tn_key_store ?tA) = Some (rs_pub_key (pc_inner (tn_conn ?tB)))"
    "rs_traffic (pc_inner (tn_conn ?tB)) = []"
    "\<forall>f. \<exists>tx \<in> set (pd_txs (PeerData_new 0 (ed_pub_of ex [2]) [] 0)). accepts ex_env f tx"
    using a b d by (simp_all add: ex_adapter_def ex_conn_def ex_pair key_for_addr_def accepts_def) (simp_all add: ex_env_def)
  have sess: "map_of (sessions (rs_sessions (pc_inner (tn_conn ?tA)))) (rs_pub_key (pc_inner (tn_conn ?tB))) = Some exSa"
    "readable_by ex_env exSa (rs_pub_key (pc_inner (tn_conn ?tA))) (pc_inner (tn_conn ?tB))"
    "lookup ex_env 0 (rs_pub_key (pc_inner (tn_conn ?tB))) (pc_inner (tn_conn ?tA)) = Some (ed_pub_of ex [2])"
    "map_of (rs_peers (pc_inner (tn_conn ?tA))) (ed_pub_of ex [2]) = Some (PeerData_new 0 (ed_pub_of ex [2]) [] 0)"
    using ex_pair(1-4) by (simp_all add: ex_adapter_def ex_conn_def)
  obtain tA' frame where out: "tun_outbound ex_env ex_hr 0 0 ?pkt ?tA = Inr tA'"
    "rs_sent (pc_inner (tn_conn tA')) = rs_sent (pc_inner (tn_conn ?tA)) @ [(ed_pub_of ex [2], frame)]"
    and inb: "\<forall>g n from hr' now_ms' now'. carried ex_env frame g n \<longrightarrow>
      (\<exists>rsB' tB'. dispatch ex_env hr' now_ms' now' from g (pc_inner (tn_conn ?tB)) = (rsB', []) \<and>
         tun_inbound (suite ex_env) (?tB\<lparr>tn_conn := (tn_conn ?tB)\<lparr>pc_inner := rsB'\<rparr>\<rparr>) = Inr tB' \<and>
         tn_written tB' = tn_written ?tB @ [?pkt] \<and> key_for_addr a (tn_key_store tB') = Some (rs_pub_key (pc_inner (tn_conn ?tA))))"
    using tun_end_to_end[OF ex_data_suite conds(1-3) pkt conds(4-8) sess(1) est sess(2-4) conds(10,9), of ex_hr 0] by blast
  obtain rsB' tB' where "dispatch ex_env ex_hr 0 0 (ed_pub_of ex [1]) frame (pc_inner (tn_conn ?tB)) = (rsB', [])"
    "tun_inbound (suite ex_env) (?tB\<lparr>tn_conn := (tn_conn ?tB)\<lparr>pc_inner := rsB'\<rparr>\<rparr>) = Inr tB'" "tn_written tB' = tn_written ?tB @ [?pkt]"
    using inb[rule_format, OF carried.start, of ex_hr 0 0 "ed_pub_of ex [1]"] by blast
  moreover have "suite ex_env = ex" "tn_written ?tB = []" "pc_inner (tn_conn ?tB) = ex_bob" "rs_sent (pc_inner (tn_conn ?tA)) = []"
    by (simp_all add: ex_env_def ex_adapter_def ex_conn_def ex_pair)
  ultimately show ?thesis using out
    by - (rule exI[of _ ?pkt], rule exI[of _ b], rule exI[of _ tA'], rule exI[of _ frame], rule exI[of _ rsB'], rule exI[of _ tB'], simp)
qed

end
