(* ===== verification/Obfs.thy ===== *)
theory Obfs
  imports Crypto_Example
begin

text \<open>
  The transport obfuscation of \<^verbatim>\<open>src/src/obfs.rs\<close>: the keystream, the nonce exchange and the reader and writer that apply it. The socket below is a
  parameter: a record of the poll functions of its writing half (\<open>sink\<close>) and of its reading half (\<open>source\<close>), with their states. The contract of
  \<^verbatim>\<open>AsyncWrite\<close> and \<^verbatim>\<open>AsyncRead\<close> is stated on the bytes that passed (\<open>sink_ok\<close>, \<open>source_ok\<close>).
\<close>

unbundle bit_operations_syntax

section \<open>Keystream\<close>

definition OBFS_NONCE_LEN :: nat where "OBFS_NONCE_LEN = 16"
definition PSK_DOMAIN :: bytes where "PSK_DOMAIN = ascii ''norn-obfs-v1-psk''"

definition derive_psk_key :: "crypto \<Rightarrow> bytes \<Rightarrow> bytes option" where
  "derive_psk_key C psk = (if psk = [] then None else Some (take 32 (blake2b C 64 (PSK_DOMAIN @ psk))))"

record KeyStream =
  ks_base :: bytes
  ks_counter :: u64
  ks_block :: bytes
  ks_pos :: nat

definition KeyStream_new :: "bytes \<Rightarrow> KeyStream" where
  "KeyStream_new conn_key = \<lparr>ks_base = conn_key, ks_counter = 0, ks_block = replicate 64 0, ks_pos = 64\<rparr>"

definition refill :: "crypto \<Rightarrow> KeyStream \<Rightarrow> KeyStream" where
  "refill C k = k\<lparr>ks_block := blake2b C 64 (ks_base k @ le_bytes 8 (ks_counter k)), ks_counter := ks_counter k + 1, ks_pos := 0\<rparr>"

fun ks_apply :: "crypto \<Rightarrow> KeyStream \<Rightarrow> bytes \<Rightarrow> bytes \<times> KeyStream" where
  "ks_apply C k [] = ([], k)"
| "ks_apply C k (b # data) =
     (let k = (if 64 \<le> ks_pos k then refill C k else k);
          b' = b XOR ks_block k ! ks_pos k;
          (data', k') = ks_apply C (k\<lparr>ks_pos := ks_pos k + 1\<rparr>) data in
      (b' # data', k'))"

definition conn_key :: "crypto \<Rightarrow> bytes \<Rightarrow> bytes \<Rightarrow> bytes" where
  "conn_key C psk_key nonce = take 32 (blake2b C 64 (psk_key @ nonce))"

section \<open>The socket\<close>

datatype 'a poll = Pending | Ready "'a result"

record 'w sink =
  snk_write :: "'w \<Rightarrow> bytes \<Rightarrow> nat poll \<times> 'w"
  snk_flush :: "'w \<Rightarrow> unit poll \<times> 'w"
  snk_shutdown :: "'w \<Rightarrow> unit poll \<times> 'w"

type_synonym 'r source = "'r \<Rightarrow> nat \<Rightarrow> bytes poll \<times> 'r"

section \<open>Reader and writer\<close>

record 'r CipherReader =
  cr_inner :: 'r
  cr_ks :: KeyStream

record 'w CipherWriter =
  cw_inner :: 'w
  cw_ks :: KeyStream
  cw_pending :: bytes
  cw_sent :: nat

datatype 'r ObfsReader = PlainReader 'r | CipheredReader "'r CipherReader"
datatype 'w ObfsWriter = PlainWriter 'w | CipheredWriter "'w CipherWriter"

record ObfsHandshake =
  oh_tx :: KeyStream
  oh_rx :: KeyStream

definition wrap :: "ObfsHandshake \<Rightarrow> 'r \<Rightarrow> 'w \<Rightarrow> 'r ObfsReader \<times> 'w ObfsWriter" where
  "wrap h reader writer =
     (CipheredReader \<lparr>cr_inner = reader, cr_ks = oh_rx h\<rparr>,
      CipheredWriter \<lparr>cw_inner = writer, cw_ks = oh_tx h, cw_pending = [], cw_sent = 0\<rparr>)"

text \<open>The nonce exchange: the nonce that was drawn and written, the bytes the peer sends; the keystreams and the rest of the peer's bytes.\<close>

definition obfs_handshake :: "crypto \<Rightarrow> bytes \<Rightarrow> bytes \<Rightarrow> bytes \<Rightarrow> (ObfsHandshake \<times> bytes) result" where
  "obfs_handshake C psk_key tx_nonce stream =
     (if length stream < OBFS_NONCE_LEN then Inl Eof
      else let rx_nonce = take OBFS_NONCE_LEN stream in
           Inr (\<lparr>oh_tx = KeyStream_new (conn_key C psk_key tx_nonce), oh_rx = KeyStream_new (conn_key C psk_key rx_nonce)\<rparr>,
                drop OBFS_NONCE_LEN stream))"

text \<open>\<^verbatim>\<open>poll_read\<close> into a buffer with the bytes filled so far and the remaining capacity.\<close>

fun poll_read :: "'r source \<Rightarrow> crypto \<Rightarrow> 'r ObfsReader \<Rightarrow> bytes \<Rightarrow> nat \<Rightarrow> bytes poll \<times> 'r ObfsReader" where
  "poll_read R C (PlainReader r) filled cap =
     (case R r cap of (Ready (Inr d), r) \<Rightarrow> (Ready (Inr (filled @ d)), PlainReader r) | (p, r) \<Rightarrow> (p, PlainReader r))"
| "poll_read R C (CipheredReader r) filled cap =
     (case R (cr_inner r) cap of
        (Ready (Inr d), inner) \<Rightarrow>
          let (d, ks) = ks_apply C (cr_ks r) d in (Ready (Inr (filled @ d)), CipheredReader \<lparr>cr_inner = inner, cr_ks = ks\<rparr>)
      | (p, inner) \<Rightarrow> (p, CipheredReader (r\<lparr>cr_inner := inner\<rparr>)))"

function drain :: "'w sink \<Rightarrow> 'w CipherWriter \<Rightarrow> unit poll \<times> 'w CipherWriter" where
  "drain S w =
     (if cw_sent w < length (cw_pending w)
      then case snk_write S (cw_inner w) (drop (cw_sent w) (cw_pending w)) of
             (Ready (Inr n), inner) \<Rightarrow>
               if n = 0 then (Ready (Inl (Bail ''obfs: inner writer accepted zero bytes'')), w\<lparr>cw_inner := inner\<rparr>)
               else drain S (w\<lparr>cw_inner := inner, cw_sent := cw_sent w + n\<rparr>)
           | (Ready (Inl e), inner) \<Rightarrow> (Ready (Inl e), w\<lparr>cw_inner := inner\<rparr>)
           | (Pending, inner) \<Rightarrow> (Pending, w\<lparr>cw_inner := inner\<rparr>)
      else (Ready (Inr ()), w\<lparr>cw_pending := [], cw_sent := 0\<rparr>))"
  by pat_completeness auto

termination
  by (relation "measure (\<lambda>(_, w). length (cw_pending w) - cw_sent w)") auto

declare drain.simps [simp del]

fun poll_write :: "'w sink \<Rightarrow> crypto \<Rightarrow> 'w ObfsWriter \<Rightarrow> bytes \<Rightarrow> nat poll \<times> 'w ObfsWriter" where
  "poll_write S C (PlainWriter w) buf = map_prod id PlainWriter (snk_write S w buf)"
| "poll_write S C (CipheredWriter w) buf =
     (case drain S w of
        (Ready (Inl e), w) \<Rightarrow> (Ready (Inl e), CipheredWriter w)
      | (Pending, w) \<Rightarrow> (Pending, CipheredWriter w)
      | (Ready (Inr _), w) \<Rightarrow>
          if buf = [] then (Ready (Inr 0), CipheredWriter w)
          else let (pending, ks) = ks_apply C (cw_ks w) (cw_pending w @ buf);
                   w = w\<lparr>cw_pending := pending, cw_ks := ks\<rparr> in
               case drain S w of
                 (Ready (Inl e), w) \<Rightarrow> (Ready (Inl e), CipheredWriter w)
               | (_, w) \<Rightarrow> (Ready (Inr (length buf)), CipheredWriter w))"

fun poll_flush :: "'w sink \<Rightarrow> 'w ObfsWriter \<Rightarrow> unit poll \<times> 'w ObfsWriter" where
  "poll_flush S (PlainWriter w) = map_prod id PlainWriter (snk_flush S w)"
| "poll_flush S (CipheredWriter w) =
     (case drain S w of
        (Ready (Inr _), w) \<Rightarrow> (let (p, inner) = snk_flush S (cw_inner w) in (p, CipheredWriter (w\<lparr>cw_inner := inner\<rparr>)))
      | (p, w) \<Rightarrow> (p, CipheredWriter w))"

fun poll_shutdown :: "'w sink \<Rightarrow> 'w ObfsWriter \<Rightarrow> unit poll \<times> 'w ObfsWriter" where
  "poll_shutdown S (PlainWriter w) = map_prod id PlainWriter (snk_shutdown S w)"
| "poll_shutdown S (CipheredWriter w) =
     (case drain S w of
        (Ready (Inr _), w) \<Rightarrow> (let (p, inner) = snk_shutdown S (cw_inner w) in (p, CipheredWriter (w\<lparr>cw_inner := inner\<rparr>)))
      | (p, w) \<Rightarrow> (p, CipheredWriter w))"

section \<open>The keystream as a sequence\<close>

text \<open>Byte number \<open>i\<close> of the keystream, and a text masked from position \<open>n\<close> on.\<close>

definition stream_byte :: "crypto \<Rightarrow> bytes \<Rightarrow> nat \<Rightarrow> u8" where
  "stream_byte C key i = blake2b C 64 (key @ le_bytes 8 (of_nat (i div 64) :: u64)) ! (i mod 64)"

fun masked :: "crypto \<Rightarrow> bytes \<Rightarrow> nat \<Rightarrow> bytes \<Rightarrow> bytes" where
  "masked C key n [] = []"
| "masked C key n (b # bs) = (b XOR stream_byte C key n) # masked C key (Suc n) bs"

lemma length_masked [simp]: "length (masked C key n bs) = length bs"
  by (induction bs arbitrary: n) auto

lemma masked_append: "masked C key n (as @ bs) = masked C key n as @ masked C key (n + length as) bs"
  by (induction as arbitrary: n) auto

lemma masked_twice [simp]: "masked C key n (masked C key n bs) = bs"
  by (induction bs arbitrary: n) (auto simp: xor.assoc)

lemma take_masked: "take m (masked C key n bs) = masked C key n (take m bs)"
  by (induction bs arbitrary: n m) (auto simp: take_Cons split: nat.split)

text \<open>A keystream that has produced \<open>n\<close> bytes.\<close>

definition ks_at :: "crypto \<Rightarrow> bytes \<Rightarrow> nat \<Rightarrow> KeyStream \<Rightarrow> bool" where
  "ks_at C key n k \<longleftrightarrow> ks_base k = key \<and> ks_counter k = of_nat ((n + 63) div 64) \<and>
     ks_pos k = (if n mod 64 = 0 then 64 else n mod 64) \<and>
     (n mod 64 \<noteq> 0 \<longrightarrow> ks_block k = blake2b C 64 (key @ le_bytes 8 (of_nat (n div 64) :: u64)))"

lemma ks_at_new: "ks_at C key 0 (KeyStream_new key)"
  by (simp add: ks_at_def KeyStream_new_def)

lemma block_arith:
  fixes q r :: nat
  assumes "r < 64"
  shows "(64 * q + r) div 64 = q" "(64 * q + r) mod 64 = r" "(64 * q + r + 63) div 64 = (if r = 0 then q else q + 1)"
    "Suc (64 * q + r) mod 64 = (if r = 63 then 0 else Suc r)" "r \<noteq> 63 \<Longrightarrow> Suc (64 * q + r) div 64 = q" "(Suc (64 * q + r) + 63) div 64 = q + 1"
proof -
  have d: "(64 * q + x) div 64 = q + x div 64" for x by simp
  have "0 < r \<Longrightarrow> (r + 63) div 64 = 1" using assms by (intro div_nat_eqI) simp_all
  then show "(64 * q + r + 63) div 64 = (if r = 0 then q else q + 1)" using d[of "r + 63"] by (simp add: add.assoc)
  show "(64 * q + r) div 64 = q" "(64 * q + r) mod 64 = r" using assms by simp_all
  then show "Suc (64 * q + r) mod 64 = (if r = 63 then 0 else Suc r)" by (simp add: mod_Suc)
  show "r \<noteq> 63 \<Longrightarrow> Suc (64 * q + r) div 64 = q" using assms d[of "Suc r"] by simp
  show "(Suc (64 * q + r) + 63) div 64 = q + 1" using assms d[of "r + 64"] by simp
qed

lemma ks_at_step:
  assumes "ks_at C key n k"
  defines "k' \<equiv> (if 64 \<le> ks_pos k then refill C k else k)"
  shows "ks_block k' ! ks_pos k' = stream_byte C key n" "ks_at C key (Suc n) (k'\<lparr>ks_pos := ks_pos k' + 1\<rparr>)"
proof -
  obtain q r where n: "n = 64 * q + r" "r < 64" using mod_less_divisor[of 64 n] mult_div_mod_eq[of 64 n] by (metis zero_less_numeral)
  note a = block_arith[OF n(2), of q]
  have k: "ks_base k = key" "ks_counter k = of_nat (if r = 0 then q else q + 1)" "ks_pos k = (if r = 0 then 64 else r)"
    "r \<noteq> 0 \<Longrightarrow> ks_block k = blake2b C 64 (key @ le_bytes 8 (of_nat q :: u64))" using assms(1) unfolding ks_at_def n(1) a by simp_all
  have k': "ks_base k' = key" "ks_counter k' = of_nat (q + 1)" "ks_pos k' = r" "ks_block k' = blake2b C 64 (key @ le_bytes 8 (of_nat q :: u64))"
    using k n(2) by (cases "r = 0"; simp add: k'_def refill_def)+
  show "ks_block k' ! ks_pos k' = stream_byte C key n" unfolding n(1) stream_byte_def a k' by simp
  show "ks_at C key (Suc n) (k'\<lparr>ks_pos := ks_pos k' + 1\<rparr>)"
    unfolding n(1) ks_at_def a(4,6) using k' a(5) by (cases "r = 63") simp_all
qed

lemma ks_apply_masked:
  "ks_at C key n k \<Longrightarrow> fst (ks_apply C k data) = masked C key n data \<and> ks_at C key (n + length data) (snd (ks_apply C k data))"
proof (induction data arbitrary: k n)
  case (Cons b data)
  let ?k = "if 64 \<le> ks_pos k then refill C k else k"
  note s = ks_at_step[OF Cons.prems]
  show ?case using s(1) Cons.IH[OF s(2)] by (simp add: Let_def split_def del: if_split)
qed simp

section \<open>Contracts\<close>

text \<open>\<open>wire\<close> is the sequence of bytes a sink has accepted, \<open>incoming\<close> the bytes a source is still going to deliver.\<close>

definition sink_ok :: "'w sink \<Rightarrow> ('w \<Rightarrow> bytes) \<Rightarrow> bool" where
  "sink_ok S wire \<longleftrightarrow>
     (\<forall>w d p w'. snk_write S w d = (p, w') \<longrightarrow>
        (case p of Ready (Inr n) \<Rightarrow> n \<le> length d \<and> wire w' = wire w @ take n d | _ \<Rightarrow> wire w' = wire w)) \<and>
     (\<forall>w. wire (snd (snk_flush S w)) = wire w \<and> wire (snd (snk_shutdown S w)) = wire w)"

definition source_ok :: "'r source \<Rightarrow> ('r \<Rightarrow> bytes) \<Rightarrow> bool" where
  "source_ok R incoming \<longleftrightarrow> (\<forall>r cap p r'. R r cap = (p, r') \<longrightarrow>
     (case p of Ready (Inr d) \<Rightarrow> incoming r = d @ incoming r' | _ \<Rightarrow> incoming r' = incoming r))"

lemma sink_okD:
  assumes "sink_ok S wire" "snk_write S w d = (p, w')"
  shows "p = Ready (Inr n) \<Longrightarrow> n \<le> length d" "p = Ready (Inr n) \<Longrightarrow> wire w' = wire w @ take n d"
    "(\<And>n. p \<noteq> Ready (Inr n)) \<Longrightarrow> wire w' = wire w"
  using assms unfolding sink_ok_def by (fastforce split: poll.splits sum.splits)+

lemma drain_step:
  assumes "cw_sent w < length (cw_pending w)" "snk_write S (cw_inner w) (drop (cw_sent w) (cw_pending w)) = (q, inner)"
  shows "drain S w = (case q of Ready (Inr n) \<Rightarrow> if n = 0 then (Ready (Inl (Bail ''obfs: inner writer accepted zero bytes'')), w\<lparr>cw_inner := inner\<rparr>)
      else drain S (w\<lparr>cw_inner := inner, cw_sent := cw_sent w + n\<rparr>) | Ready (Inl e) \<Rightarrow> (Ready (Inl e), w\<lparr>cw_inner := inner\<rparr>)
    | Pending \<Rightarrow> (Pending, w\<lparr>cw_inner := inner\<rparr>))"
  using assms by (simp add: drain.simps[of S w] split: poll.split sum.split)

text \<open>Draining moves bytes from the buffer to the wire and keeps their order.\<close>

lemma drain_wire:
  assumes "sink_ok S wire" "cw_sent w \<le> length (cw_pending w)" "drain S w = (p, w')"
  shows "wire (cw_inner w') @ drop (cw_sent w') (cw_pending w') = wire (cw_inner w) @ drop (cw_sent w) (cw_pending w) \<and>
    cw_ks w' = cw_ks w \<and> cw_sent w' \<le> length (cw_pending w') \<and> (p = Ready (Inr ()) \<longrightarrow> cw_pending w' = [] \<and> cw_sent w' = 0)"
  using assms(2,3)
proof (induction "length (cw_pending w) - cw_sent w" arbitrary: w rule: less_induct)
  case less
  show ?case
  proof (cases "cw_sent w < length (cw_pending w)")
    case False
    then show ?thesis using less.prems by (auto simp: drain.simps[of S w])
  next
    case True
    obtain q inner where q: "snk_write S (cw_inner w) (drop (cw_sent w) (cw_pending w)) = (q, inner)" by (rule prod.exhaust)
    note io = sink_okD[OF assms(1) q]
    show ?thesis
    proof (cases "\<exists>n. q = Ready (Inr n) \<and> n \<noteq> 0")
      case n: True
      then obtain n where n: "q = Ready (Inr n)" "n \<noteq> 0" by blast
      let ?w = "w\<lparr>cw_inner := inner, cw_sent := cw_sent w + n\<rparr>"
      have d: "drain S ?w = (p, w')" using less.prems(2) n by (simp add: drain_step[OF True q])
      have "take n (drop (cw_sent w) (cw_pending w)) @ drop (cw_sent w + n) (cw_pending w) = drop (cw_sent w) (cw_pending w)"
        using append_take_drop_id[of n "drop (cw_sent w) (cw_pending w)"] by (simp add: add.commute)
      then show ?thesis using less.hyps[of ?w] d io(1,2)[OF n(1)] n(2) True by auto
    next
      case False
      then have "p \<noteq> Ready (Inr ())" "w' = w\<lparr>cw_inner := inner\<rparr>" "wire inner = wire (cw_inner w)"
        using less.prems(2) io(2)[of 0] io(3) by (auto simp: drain_step[OF True q] split: poll.splits sum.splits if_splits)
      then show ?thesis using less.prems(1) by auto
    qed
  qed
qed

section \<open>Runs\<close>

text \<open>A sequence of calls on a writer without an error, and the bytes it has accepted; a sequence of reads, and the bytes it has produced.\<close>

inductive sends :: "'w sink \<Rightarrow> crypto \<Rightarrow> 'w ObfsWriter \<Rightarrow> bytes \<Rightarrow> 'w ObfsWriter \<Rightarrow> bool" for S C w0 where
  idle: "sends S C w0 [] w0"
| accepted: "sends S C w0 acc w \<Longrightarrow> poll_write S C w buf = (Ready (Inr n), w') \<Longrightarrow> sends S C w0 (acc @ take n buf) w'"
| blocked: "sends S C w0 acc w \<Longrightarrow> poll_write S C w buf = (Pending, w') \<Longrightarrow> sends S C w0 acc w'"
| flushing: "sends S C w0 acc w \<Longrightarrow> poll_flush S w = (p, w') \<Longrightarrow> (\<And>e. p \<noteq> Ready (Inl e)) \<Longrightarrow> sends S C w0 acc w'"
| closing: "sends S C w0 acc w \<Longrightarrow> poll_shutdown S w = (p, w') \<Longrightarrow> (\<And>e. p \<noteq> Ready (Inl e)) \<Longrightarrow> sends S C w0 acc w'"

inductive receives :: "'r source \<Rightarrow> crypto \<Rightarrow> 'r ObfsReader \<Rightarrow> bytes \<Rightarrow> 'r ObfsReader \<Rightarrow> bool" for R C r0 where
  none: "receives R C r0 [] r0"
| some: "receives R C r0 got r \<Longrightarrow> poll_read R C r [] cap = (Ready (Inr d), r') \<Longrightarrow> receives R C r0 (got @ d) r'"
| wait: "receives R C r0 got r \<Longrightarrow> poll_read R C r [] cap = (Pending, r') \<Longrightarrow> receives R C r0 got r'"

definition writer_inv :: "('w \<Rightarrow> bytes) \<Rightarrow> crypto \<Rightarrow> bytes \<Rightarrow> bytes \<Rightarrow> bytes \<Rightarrow> 'w CipherWriter \<Rightarrow> bool" where
  "writer_inv wire C key base acc w \<longleftrightarrow> wire (cw_inner w) @ drop (cw_sent w) (cw_pending w) = base @ masked C key 0 acc \<and>
     ks_at C key (length acc) (cw_ks w) \<and> cw_sent w \<le> length (cw_pending w)"

lemma writer_inv_drain:
  assumes "sink_ok S wire" "writer_inv wire C key base acc w" "drain S w = (p, w')"
  shows "writer_inv wire C key base acc w'" "p = Ready (Inr ()) \<Longrightarrow> cw_pending w' = [] \<and> cw_sent w' = 0"
  using drain_wire[OF assms(1) _ assms(3)] assms(2) by (simp_all add: writer_inv_def)

lemma writer_inv_write:
  assumes "sink_ok S wire" "writer_inv wire C key base acc w" "poll_write S C (CipheredWriter w) buf = (p, u)" "\<And>e. p \<noteq> Ready (Inl e)"
  obtains w' where "u = CipheredWriter w'"
    "writer_inv wire C key base (acc @ (case p of Ready (Inr n) \<Rightarrow> take n buf | _ \<Rightarrow> [])) w'"
proof -
  obtain q w1 where d: "drain S w = (q, w1)" by (rule prod.exhaust)
  note i1 = writer_inv_drain[OF assms(1,2) d]
  show ?thesis
  proof (cases "q = Ready (Inr ()) \<and> buf \<noteq> []")
    case False
    then show ?thesis using assms(3,4) d i1(1) that[of w1] by (auto split: poll.splits sum.splits)
  next
    case True
    define w2 where "w2 = w1\<lparr>cw_pending := fst (ks_apply C (cw_ks w1) buf), cw_ks := snd (ks_apply C (cw_ks w1) buf)\<rparr>"
    have e: "cw_pending w1 = []" "cw_sent w1 = 0" "ks_at C key (length acc) (cw_ks w1)" using i1 True by (auto simp: writer_inv_def)
    have "writer_inv wire C key base (acc @ buf) w2"
      using i1(1) e ks_apply_masked[OF e(3), of buf] by (simp add: writer_inv_def w2_def masked_append)
    moreover obtain q' w3 where d': "drain S w2 = (q', w3)" by (rule prod.exhaust)
    ultimately have i3: "writer_inv wire C key base (acc @ buf) w3" by (rule writer_inv_drain(1)[OF assms(1)])
    have "poll_write S C (CipheredWriter w) buf = (case q' of Ready (Inl e) \<Rightarrow> (Ready (Inl e), CipheredWriter w3)
        | _ \<Rightarrow> (Ready (Inr (length buf)), CipheredWriter w3))"
      using True d d' e by (simp add: w2_def split_def split: poll.split sum.split)
    then show ?thesis using i3 that[of w3] assms(3,4) by (auto split: poll.splits sum.splits)
  qed
qed

lemma writer_inv_finish:
  assumes "sink_ok S wire" "writer_inv wire C key base acc w"
    and "poll_flush S (CipheredWriter w) = (p, u) \<or> poll_shutdown S (CipheredWriter w) = (p, u)"
  obtains w' where "u = CipheredWriter w'" "writer_inv wire C key base acc w'" "p = Ready (Inr ()) \<longrightarrow> cw_pending w' = []"
proof -
  obtain q w1 where d: "drain S w = (q, w1)" by (rule prod.exhaust)
  note i1 = writer_inv_drain[OF assms(1,2) d]
  have keep: "wire (snd (snk_flush S x)) = wire x" "wire (snd (snk_shutdown S x)) = wire x" for x using assms(1) by (simp_all add: sink_ok_def)
  show ?thesis
  proof (cases "q = Ready (Inr ())")
    case False
    then have "u = CipheredWriter w1 \<and> p = q" using assms(3) d by (auto split: poll.splits sum.splits)
    then show ?thesis using that[of w1] i1(1) False by simp
  next
    case True
    obtain inner where "u = CipheredWriter (w1\<lparr>cw_inner := inner\<rparr>)" "wire inner = wire (cw_inner w1)"
      using assms(3) True d keep[of "cw_inner w1"] by (auto split: prod.splits)
    then show ?thesis using that[of "w1\<lparr>cw_inner := inner\<rparr>"] i1 True by (simp add: writer_inv_def)
  qed
qed

lemma sends_inv:
  assumes "sink_ok S wire" "sends S C w0 acc u" "w0 = CipheredWriter w" "writer_inv wire C key base [] w"
  shows "\<exists>w'. u = CipheredWriter w' \<and> writer_inv wire C key base acc w'"
  using assms(2)
proof (induction rule: sends.induct)
  case idle
  then show ?case using assms(3,4) by simp
next
  case (accepted acc u buf n u')
  then obtain v where v: "u = CipheredWriter v" "writer_inv wire C key base acc v" by blast
  show ?case by (rule writer_inv_write[OF assms(1) v(2) accepted.hyps(2)[unfolded v(1)]]) auto
next
  case (blocked acc u buf u')
  then obtain v where v: "u = CipheredWriter v" "writer_inv wire C key base acc v" by blast
  show ?case by (rule writer_inv_write[OF assms(1) v(2) blocked.hyps(2)[unfolded v(1)]]) auto
next
  case (flushing acc u p u')
  then obtain v where v: "u = CipheredWriter v" "writer_inv wire C key base acc v" by blast
  show ?case by (rule writer_inv_finish[OF assms(1) v(2) disjI1[OF flushing.hyps(2)[unfolded v(1)]]]) auto
next
  case (closing acc u p u')
  then obtain v where v: "u = CipheredWriter v" "writer_inv wire C key base acc v" by blast
  show ?case by (rule writer_inv_finish[OF assms(1) v(2) disjI2[OF closing.hyps(2)[unfolded v(1)]]]) auto
qed

lemma receives_inv:
  assumes "source_ok R incoming" "receives R C r0 got u" "r0 = CipheredReader r" "ks_at C key 0 (cr_ks r)"
  shows "\<exists>r' raw. u = CipheredReader r' \<and> incoming (cr_inner r) = raw @ incoming (cr_inner r') \<and> got = masked C key 0 raw \<and>
    ks_at C key (length raw) (cr_ks r')"
  using assms(2)
proof (induction rule: receives.induct)
  case none
  then show ?case using assms(3,4) by (intro exI[of _ r] exI[of _ "[]"]) simp
next
  case (some got u cap d u')
  then obtain v raw where v: "u = CipheredReader v" "incoming (cr_inner r) = raw @ incoming (cr_inner v)" "got = masked C key 0 raw"
    "ks_at C key (length raw) (cr_ks v)" by blast
  obtain d' inner where d': "R (cr_inner v) cap = (Ready (Inr d'), inner)" "d = fst (ks_apply C (cr_ks v) d')"
    "u' = CipheredReader \<lparr>cr_inner = inner, cr_ks = snd (ks_apply C (cr_ks v) d')\<rparr>"
    using some.hyps(2) v(1) by (auto split: prod.splits poll.splits sum.splits)
  have "incoming (cr_inner v) = d' @ incoming inner" using assms(1) d'(1) unfolding source_ok_def by fastforce
  then show ?case using v d' ks_apply_masked[OF v(4), of d']
    by (intro exI[of _ "\<lparr>cr_inner = inner, cr_ks = snd (ks_apply C (cr_ks v) d')\<rparr>"] exI[of _ "raw @ d'"]) (simp add: masked_append)
next
  case (wait got u cap u')
  then obtain v raw where v: "u = CipheredReader v" "incoming (cr_inner r) = raw @ incoming (cr_inner v)" "got = masked C key 0 raw"
    "ks_at C key (length raw) (cr_ks v)" by blast
  obtain inner where d': "R (cr_inner v) cap = (Pending, inner)" "u' = CipheredReader (v\<lparr>cr_inner := inner\<rparr>)"
    using wait.hyps(2) v(1) by (auto split: prod.splits poll.splits sum.splits)
  have "incoming inner = incoming (cr_inner v)" using assms(1) d'(1) unfolding source_ok_def by fastforce
  then show ?case using v d' by auto
qed

section \<open>Examples\<close>

text \<open>A socket that takes one byte at a time, and a source that delivers what it holds.\<close>

definition ex_sink :: "bytes sink" where
  "ex_sink = \<lparr>snk_write = (\<lambda>w d. (Ready (Inr (min 1 (length d))), w @ take 1 d)), snk_flush = (\<lambda>w. (Ready (Inr ()), w)),
     snk_shutdown = (\<lambda>w. (Ready (Inr ()), w))\<rparr>"

definition ex_source :: "bytes source" where
  "ex_source r cap = (Ready (Inr (take cap r)), drop cap r)"

lemma ex_socket_ok: "sink_ok ex_sink id" "source_ok ex_source id"
  by (auto simp: sink_ok_def source_ok_def ex_sink_def ex_source_def min_def)

section \<open>Properties\<close>

text \<open>C14. Obfuscation is transparent. Two nodes with the same pre-shared key exchange nonces. Whatever the sender writes in whatever portions, with whatever
  partial writes and backpressure of its socket, and however the receiver's reads cut the bytes that arrive, what the receiver reads is a
  prefix of what the sender's writer has accepted; when the writer has flushed and every byte on the wire has been read, it is all of it.\<close>

theorem obfuscation_transparent:
  assumes "sink_ok S wire" "source_ok R incoming"
    and "obfs_handshake C psk tx_nonce in_a = (Inr (ha, rest_a))" "obfs_handshake C psk rx_nonce (tx_nonce @ sent) = Inr (hb, rest_b)"
    and "length tx_nonce = 16"
    and "sends S C (snd (wrap ha ra wa)) acc (CipheredWriter wa')" "receives R C (fst (wrap hb rb wb)) got (CipheredReader rb')"
    and "wire (cw_inner wa') = wire wa @ incoming rb @ later"
  shows "(\<exists>rest. acc = got @ rest) \<and> (cw_pending wa' = [] \<and> later = [] \<and> incoming (cr_inner rb') = [] \<longrightarrow> got = acc)"
proof -
  let ?key = "conn_key C psk tx_nonce"
  have tx: "oh_tx ha = KeyStream_new ?key" and rx: "oh_rx hb = KeyStream_new ?key"
    using assms(3,4,5) by (auto simp: obfs_handshake_def OBFS_NONCE_LEN_def Let_def split: if_splits)
  have "writer_inv wire C ?key (wire wa) acc wa'"
    using sends_inv[OF assms(1,6) , of "\<lparr>cw_inner = wa, cw_ks = oh_tx ha, cw_pending = [], cw_sent = 0\<rparr>" ?key "wire wa"] tx
    by (simp add: wrap_def writer_inv_def ks_at_new)
  then have w: "incoming rb @ later @ drop (cw_sent wa') (cw_pending wa') = masked C ?key 0 acc" using assms(8) by (simp add: writer_inv_def)
  obtain raw where r: "incoming rb = raw @ incoming (cr_inner rb')" "got = masked C ?key 0 raw"
    using receives_inv[OF assms(2,7), of "\<lparr>cr_inner = rb, cr_ks = oh_rx hb\<rparr>" ?key] rx by (auto simp: wrap_def ks_at_new)
  have "raw = take (length raw) (masked C ?key 0 acc)" unfolding w[symmetric] r(1) by simp
  then have "got = take (length raw) acc" using r(2) by (metis take_masked masked_twice)
  moreover have "raw = masked C ?key 0 acc" if "cw_pending wa' = []" "later = []" "incoming (cr_inner rb') = []"
    using that w r(1) by simp
  ultimately show ?thesis using r(2) by (metis append_take_drop_id masked_twice)
qed

theorem obfuscation_transparent_witness:
  "\<exists>ha ra hb rb wa' rb'. obfs_handshake ex [1] (replicate 16 2) (replicate 16 3) = Inr (ha, ra) \<and>
     obfs_handshake ex [1] (replicate 16 3) (replicate 16 2) = Inr (hb, rb) \<and>
     sends ex_sink ex (snd (wrap ha ([] :: bytes) [])) [42] (CipheredWriter wa') \<and>
     receives ex_source ex (fst (wrap hb (cw_inner wa') ([] :: bytes))) [42] (CipheredReader rb')"
proof -
  obtain ha hb where h: "obfs_handshake ex [1] (replicate 16 2) (replicate 16 3) = Inr (ha, [])"
    "obfs_handshake ex [1] (replicate 16 3) (replicate 16 2) = Inr (hb, [])" by (simp add: obfs_handshake_def OBFS_NONCE_LEN_def Let_def)
  obtain c k where c: "ks_apply ex (oh_tx ha) [42] = ([c], k)" by (simp add: Let_def)
  let ?w = "\<lparr>cw_inner = [c], cw_ks = k, cw_pending = [], cw_sent = 0\<rparr>"
  have "poll_write ex_sink ex (snd (wrap ha ([] :: bytes) [])) [42] = (Ready (Inr 1), CipheredWriter ?w)"
    using c by (simp add: wrap_def drain.simps ex_sink_def del: ks_apply.simps)
  then have s: "sends ex_sink ex (snd (wrap ha ([] :: bytes) [])) [42] (CipheredWriter ?w)"
    using sends.accepted[OF sends.idle] by fastforce
  obtain d k' where d: "ks_apply ex (oh_rx hb) [c] = ([d], k')" by (simp add: Let_def)
  let ?r = "\<lparr>cr_inner = [], cr_ks = k'\<rparr>"
  have "poll_read ex_source ex (fst (wrap hb [c] ([] :: bytes))) [] 1 = (Ready (Inr [d]), CipheredReader ?r)"
    using d by (simp add: wrap_def ex_source_def del: ks_apply.simps)
  then have r: "receives ex_source ex (fst (wrap hb [c] ([] :: bytes))) [d] (CipheredReader ?r)"
    using receives.some[OF receives.none] by fastforce
  have "[d] = [42]"
    using obfuscation_transparent[OF ex_socket_ok h(1), of "replicate 16 3" "[]" hb "[]" "[]" "[]" "[42]" ?w "[c]" "[]" "[d]" ?r "[]"] h(2) s r by simp
  then show ?thesis using h s r
    by (rule_tac exI[of _ ha], rule_tac exI[of _ "[]"], rule_tac exI[of _ hb], rule_tac exI[of _ "[]"], rule_tac exI[of _ ?w], rule_tac exI[of _ ?r]) simp
qed

end
