(* ===== verification/Transport.thy ===== *)
theory Transport
  imports Obfs Router_State
begin

text \<open>
  \<^verbatim>\<open>src/src/transport.rs\<close>: the authenticated handshake of a link, the admission control of the listener and the retry loop of a dial. The handshake is
  a function of the bytes the peer sends: it gives what it writes and its outcome with the bytes left over. The listener is a state machine
  over the events of its tasks; a dial takes the outcome of each attempt as input. Socket options and logging are left out.
\<close>

section \<open>Handshake\<close>

definition HANDSHAKE_MAGIC :: bytes where "HANDSHAKE_MAGIC = ascii ''NRN1''"
definition HANDSHAKE_SIG_TAG :: bytes where "HANDSHAKE_SIG_TAG = ascii ''norn:handshake:v1''"
definition MAX_PENDING_HANDSHAKES :: nat where "MAX_PENDING_HANDSHAKES = 256"
definition MAX_PER_IP_HANDSHAKES :: nat where "MAX_PER_IP_HANDSHAKES = 4"
definition DISCOVERY_DIAL_MAX_ATTEMPTS :: u32 where "DISCOVERY_DIAL_MAX_ATTEMPTS = 4"

definition parse_tcp_uri :: "string \<Rightarrow> string result" where
  "parse_tcp_uri uri =
     (if take 6 uri = ''tcp://'' then Inr (drop 6 uri) else Inl (Bail ''unsupported URI scheme (expected tcp://)''))"

definition build_handshake_sig :: "crypto \<Rightarrow> bytes \<Rightarrow> bytes \<Rightarrow> bytes \<Rightarrow> bytes \<Rightarrow> bytes \<Rightarrow> bytes" where
  "build_handshake_sig C signing_key our_nonce their_nonce own_pub their_pub =
     ed_sign C signing_key (HANDSHAKE_SIG_TAG @ our_nonce @ their_nonce @ own_pub @ their_pub)"

text \<open>A public key is well formed when the point decompresses.\<close>

definition verify_handshake_sig :: "crypto \<Rightarrow> bytes \<Rightarrow> bytes \<Rightarrow> bytes \<Rightarrow> bytes \<Rightarrow> bytes \<Rightarrow> bytes \<Rightarrow> unit result" where
  "verify_handshake_sig C their_pub sig their_nonce our_nonce their_pub_for_msg our_pub_for_msg =
     (if ed_to_montgomery C their_pub = None then Inl (Bail ''handshake: invalid remote pub_key'')
      else if ed_verify C their_pub (HANDSHAKE_SIG_TAG @ their_nonce @ our_nonce @ their_pub_for_msg @ our_pub_for_msg) sig then Inr ()
      else Inl (Bail ''handshake: signature verification failed''))"

definition handshake_over_stream :: "crypto \<Rightarrow> bytes \<Rightarrow> bytes \<Rightarrow> bytes \<Rightarrow> bytes \<times> (bytes \<times> bytes) result" where
  "handshake_over_stream C signing_key our_nonce reader =
     (let own_pub = ed_pub_of C signing_key;
          hello = HANDSHAKE_MAGIC @ own_pub @ our_nonce in
      if length reader < 68 then (hello, Inl Eof)
      else let hello_in = take 68 reader; reader = drop 68 reader in
      if take 4 hello_in \<noteq> HANDSHAKE_MAGIC then (hello, Inl (Bail ''handshake: bad magic (peer using incompatible protocol?)''))
      else let their_pub = take 32 (drop 4 hello_in); their_nonce = take 32 (drop 36 hello_in) in
      if their_pub = own_pub then (hello, Inl (Bail ''handshake: peer announced our own pub_key (self-loop)''))
      else if ed_to_montgomery C their_pub = None then (hello, Inl (Bail ''handshake: malformed remote pub_key''))
      else let sig_out = build_handshake_sig C signing_key our_nonce their_nonce own_pub their_pub;
               written = hello @ sig_out in
      if length reader < 64 then (written, Inl Eof)
      else case verify_handshake_sig C their_pub (take 64 reader) their_nonce our_nonce their_pub own_pub of
             Inl e \<Rightarrow> (written, Inl e)
           | Inr _ \<Rightarrow> (written, Inr (their_pub, drop 64 reader)))"

definition establish :: "crypto \<Rightarrow> bytes option \<Rightarrow> bytes \<Rightarrow> bytes \<Rightarrow> 'r \<Rightarrow> 'w \<Rightarrow> ('r ObfsReader \<times> 'w ObfsWriter) result" where
  "establish C obfs_key tx_nonce stream r w =
     (case obfs_key of
        Some key \<Rightarrow> and_then (obfs_handshake C key tx_nonce stream) (\<lambda>(hs, _). Inr (wrap hs r w))
      | None \<Rightarrow> Inr (PlainReader r, PlainWriter w))"

section \<open>The listener\<close>

text \<open>Counts per key; an entry at zero is removed.\<close>

definition count_of :: "('k \<times> nat) list \<Rightarrow> 'k \<Rightarrow> nat" where
  "count_of m k = (case map_of m k of Some c \<Rightarrow> c | None \<Rightarrow> 0)"

definition count_up :: "'k \<Rightarrow> ('k \<times> nat) list \<Rightarrow> ('k \<times> nat) list" where
  "count_up k m = AList.update k (count_of m k + 1) m"

text \<open>\<^verbatim>\<open>Drop\<close> of \<^verbatim>\<open>PerIpGuard\<close>, and the same code for the link counts.\<close>

definition count_down :: "'k \<Rightarrow> ('k \<times> nat) list \<Rightarrow> ('k \<times> nat) list" where
  "count_down k m =
     (case map_of m k of
        None \<Rightarrow> m
      | Some c \<Rightarrow> if c - 1 = 0 then AList.delete k m else AList.update k (c - 1) m)"

datatype 'ip conn_task = Handshaking 'ip | Serving 'ip bytes

record 'ip listener =
  ln_permits :: nat
  ln_per_ip :: "('ip \<times> nat) list"
  ln_tasks :: "'ip conn_task list"
  ln_connected :: "(bytes \<times> nat) list"
  ln_dialing :: "bytes list"
  ln_dialed :: "bytes list"

definition listener_new :: "'ip listener" where
  "listener_new = \<lparr>ln_permits = MAX_PENDING_HANDSHAKES, ln_per_ip = [], ln_tasks = [], ln_connected = [], ln_dialing = [], ln_dialed = []\<rparr>"

definition accept_conn :: "'ip \<Rightarrow> 'ip listener \<Rightarrow> 'ip listener" where
  "accept_conn ip l =
     (if ln_permits l = 0 then l
      else if MAX_PER_IP_HANDSHAKES \<le> count_of (ln_per_ip l) ip then l
      else l\<lparr>ln_permits := ln_permits l - 1, ln_per_ip := count_up ip (ln_per_ip l), ln_tasks := ln_tasks l @ [Handshaking ip]\<rparr>)"

text \<open>The handshake of task \<open>ts1 @ [Handshaking ip] @ ts2\<close> ends with a key or an error: the permit is released; a refused peer ends the task,
  which drops the guard.\<close>

definition handshake_done :: "crypto \<Rightarrow> nat \<Rightarrow> 'ip conn_task list \<Rightarrow> 'ip \<Rightarrow> 'ip conn_task list \<Rightarrow> bytes result \<Rightarrow> 'ip listener \<Rightarrow> 'ip listener" where
  "handshake_done C min_bits ts1 ip ts2 r l =
     (let l = l\<lparr>ln_permits := ln_permits l + 1\<rparr>;
          ended = l\<lparr>ln_tasks := ts1 @ ts2, ln_per_ip := count_down ip (ln_per_ip l)\<rparr> in
      case r of
        Inl _ \<Rightarrow> ended
      | Inr remote_pub \<Rightarrow>
          if 0 < min_bits \<and> key_difficulty_bits C remote_pub < min_bits then ended
          else if MAX_PARALLEL_LINKS_PER_PEER \<le> count_of (ln_connected l) remote_pub then ended
          else l\<lparr>ln_connected := count_up remote_pub (ln_connected l), ln_tasks := ts1 @ Serving ip remote_pub # ts2\<rparr>)"

definition conn_closed :: "'ip conn_task list \<Rightarrow> 'ip \<Rightarrow> bytes \<Rightarrow> 'ip conn_task list \<Rightarrow> 'ip listener \<Rightarrow> 'ip listener" where
  "conn_closed ts1 ip remote_pub ts2 l =
     l\<lparr>ln_connected := count_down remote_pub (ln_connected l), ln_tasks := ts1 @ ts2, ln_per_ip := count_down ip (ln_per_ip l)\<rparr>"

section \<open>Dialing\<close>

datatype dial_outcome = ConnectFailed | HandshakeFailed | TooEasy | Yielded | AtCap | Linked

text \<open>What an attempt whose handshake gave \<open>remote_pub\<close> comes to: \<open>waited\<close> are the link counts after the wait for a crossing dial, \<open>now_map\<close> those at the
  check of the cap.\<close>

definition dial_verdict :: "crypto \<Rightarrow> nat \<Rightarrow> bytes \<Rightarrow> bytes \<Rightarrow> (bytes \<times> nat) list \<Rightarrow> (bytes \<times> nat) list \<Rightarrow> dial_outcome" where
  "dial_verdict C min_bits own_pub remote_pub waited now_map =
     (if 0 < min_bits \<and> key_difficulty_bits C remote_pub < min_bits then TooEasy
      else if remote_pub < own_pub \<and> 0 < count_of waited remote_pub then Yielded
      else if MAX_PARALLEL_LINKS_PER_PEER \<le> count_of now_map remote_pub then AtCap
      else Linked)"

text \<open>The dial loop reads the count under the lock, releases it, and takes it again to increment. \<open>ln_dialing\<close> are the dials in between. Another
  transport checks and increments under one lock.\<close>

definition dial_checked :: "bytes \<Rightarrow> 'ip listener \<Rightarrow> 'ip listener" where
  "dial_checked remote_pub l =
     (let count_now = count_of (ln_connected l) remote_pub in
      if MAX_PARALLEL_LINKS_PER_PEER \<le> count_now then l else l\<lparr>ln_dialing := ln_dialing l @ [remote_pub]\<rparr>)"

definition dial_linked :: "bytes list \<Rightarrow> bytes \<Rightarrow> bytes list \<Rightarrow> 'ip listener \<Rightarrow> 'ip listener" where
  "dial_linked ds1 remote_pub ds2 l =
     l\<lparr>ln_dialing := ds1 @ ds2, ln_connected := count_up remote_pub (ln_connected l), ln_dialed := ln_dialed l @ [remote_pub]\<rparr>"

definition link_added :: "bytes \<Rightarrow> 'ip listener \<Rightarrow> 'ip listener" where
  "link_added remote_pub l = l\<lparr>ln_connected := count_up remote_pub (ln_connected l), ln_dialed := ln_dialed l @ [remote_pub]\<rparr>"

definition dial_closed :: "bytes list \<Rightarrow> bytes \<Rightarrow> bytes list \<Rightarrow> 'ip listener \<Rightarrow> 'ip listener" where
  "dial_closed ds1 remote_pub ds2 l = l\<lparr>ln_connected := count_down remote_pub (ln_connected l), ln_dialed := ds1 @ ds2\<rparr>"

definition dial_jitter :: "fl \<Rightarrow> fl" where
  "dial_jitter r = fadd F64 (lit F64 (8 / 10)) (fmul F64 r (lit F64 (4 / 10)))"

text \<open>Milliseconds.\<close>

definition next_delay :: "nat \<Rightarrow> fl \<Rightarrow> nat" where
  "next_delay delay jitter =
     min (unat (as_uint (fmul F64 (fmul F64 (of_int_fl F64 (int delay)) (Fin 2)) jitter) :: u64)) 60000"

text \<open>The loop, on the outcomes and the random numbers of its attempts: whether it gave up within them, and the final delay and counter.\<close>

fun dial_inner :: "u32 option \<Rightarrow> (dial_outcome \<times> fl) list \<Rightarrow> nat \<Rightarrow> u32 \<Rightarrow> bool \<times> nat \<times> u32" where
  "dial_inner max_attempts attempts_in delay attempts =
     (if (case max_attempts of Some m \<Rightarrow> m \<le> attempts | None \<Rightarrow> False) then (True, delay, attempts)
      else case attempts_in of
        [] \<Rightarrow> (False, delay, attempts)
      | (outcome, r) # rest \<Rightarrow>
          let attempts = attempts + 1 in
          if outcome \<in> {TooEasy, Yielded, AtCap} then dial_inner max_attempts rest delay attempts
          else let (delay, attempts) = (if outcome = Linked then (5000, 0) else (delay, attempts)) in
               dial_inner max_attempts rest (next_delay delay (dial_jitter r)) attempts)"

declare dial_inner.simps [simp del]

definition dial :: "(dial_outcome \<times> fl) list \<Rightarrow> bool \<times> nat \<times> u32" where
  "dial attempts_in = dial_inner None attempts_in 1000 0"

definition dial_discovered :: "(dial_outcome \<times> fl) list \<Rightarrow> bool \<times> nat \<times> u32" where
  "dial_discovered attempts_in = dial_inner (Some DISCOVERY_DIAL_MAX_ATTEMPTS) attempts_in 1000 0"

section \<open>What a handshake proves\<close>

abbreviation handshake_msg :: "bytes \<Rightarrow> bytes \<Rightarrow> bytes \<Rightarrow> bytes \<Rightarrow> bytes" where
  "handshake_msg n n' k k' \<equiv> HANDSHAKE_SIG_TAG @ n @ n' @ k @ k'"

lemma length_magic [simp]: "length HANDSHAKE_MAGIC = 4"
  by (simp add: HANDSHAKE_MAGIC_def)

lemma handshake_honest:
  assumes "sigs_correct C" "ed_x_consistent C" "length nonce = 32" "length nonce' = 32" "ed_pub_of C sk \<noteq> ed_pub_of C sk'"
  shows "handshake_over_stream C sk nonce (HANDSHAKE_MAGIC @ ed_pub_of C sk' @ nonce' @
        build_handshake_sig C sk' nonce' nonce (ed_pub_of C sk') (ed_pub_of C sk) @ rest) =
      (HANDSHAKE_MAGIC @ ed_pub_of C sk @ nonce @ build_handshake_sig C sk nonce nonce' (ed_pub_of C sk) (ed_pub_of C sk'),
       Inr (ed_pub_of C sk', rest))"
proof -
  let ?sig = "build_handshake_sig C sk' nonce' nonce (ed_pub_of C sk') (ed_pub_of C sk)"
  have l: "length (ed_pub_of C sk') = 32" "length ?sig = 64" using assms(1) by (simp_all add: sigs_correct_def build_handshake_sig_def)
  have v: "verify_handshake_sig C (ed_pub_of C sk') ?sig nonce' nonce (ed_pub_of C sk') (ed_pub_of C sk) = Inr ()"
    using assms(1,2) by (simp add: verify_handshake_sig_def build_handshake_sig_def sigs_correct_def ed_x_consistent_def)
  have m: "ed_to_montgomery C (ed_pub_of C sk') \<noteq> None" using assms(2) by (simp add: ed_x_consistent_def)
  show ?thesis using l v m assms(3,4,5) by (simp add: handshake_over_stream_def Let_def)
qed

lemma handshake_accepts:
  assumes "handshake_over_stream C sk nonce reader = (written, Inr (k, rest))"
  obtains nonce' sig where "reader = HANDSHAKE_MAGIC @ k @ nonce' @ sig @ rest" "length k = 32" "length nonce' = 32" "length sig = 64"
    "k \<noteq> ed_pub_of C sk" "ed_verify C k (handshake_msg nonce' nonce k (ed_pub_of C sk)) sig"
    "written = HANDSHAKE_MAGIC @ ed_pub_of C sk @ nonce @ ed_sign C sk (handshake_msg nonce nonce' (ed_pub_of C sk) k)"
proof -
  define n' where "n' = take 32 (drop 36 (take 68 reader))"
  define sg where "sg = take 64 (drop 68 reader)"
  have len: "68 \<le> length reader" "64 \<le> length (drop 68 reader)"
    using assms by (auto simp: handshake_over_stream_def Let_def split: if_splits)
  have k: "k = take 32 (drop 4 (take 68 reader))" "take 4 (take 68 reader) = HANDSHAKE_MAGIC" "k \<noteq> ed_pub_of C sk" "rest = drop 64 (drop 68 reader)"
    "ed_verify C k (handshake_msg n' nonce k (ed_pub_of C sk)) sg"
    "written = HANDSHAKE_MAGIC @ ed_pub_of C sk @ nonce @ ed_sign C sk (handshake_msg nonce n' (ed_pub_of C sk) k)"
    using assms by (auto simp: handshake_over_stream_def verify_handshake_sig_def build_handshake_sig_def n'_def sg_def Let_def split: if_splits sum.splits)
  have "take 68 reader = HANDSHAKE_MAGIC @ k @ n'"
  proof -
    have "take 68 reader = take 4 (take 68 reader) @ take 32 (drop 4 (take 68 reader)) @ take 32 (drop 36 (take 68 reader))"
      using len(1) append_take_drop_id[of 4 "take 68 reader"] append_take_drop_id[of 32 "drop 4 (take 68 reader)"] by (simp add: min_def)
    then show ?thesis using k(1,2) n'_def by simp
  qed
  moreover have "drop 68 reader = sg @ rest" using append_take_drop_id[of 64 "drop 68 reader"] unfolding k(4) sg_def by simp
  ultimately have r: "reader = HANDSHAKE_MAGIC @ k @ n' @ sg @ rest" using append_take_drop_id[of 68 reader] by simp
  show ?thesis by (rule that[OF r _ _ _ k(3,5,6)]) (use len k(1) in \<open>simp_all add: n'_def sg_def\<close>)
qed

lemma handshake_msg_inj:
  assumes "handshake_msg n1 n2 k1 k2 = handshake_msg m1 m2 j1 j2" "length n1 = length m1" "length n2 = length m2" "length k1 = length j1"
  shows "n1 = m1 \<and> n2 = m2 \<and> k1 = j1 \<and> k2 = j2"
  using assms by simp

section \<open>The counts are exact\<close>

lemma count_of_up: "count_of (count_up k m) k' = count_of m k' + (if k' = k then 1 else 0)"
  by (simp add: count_of_def count_up_def update_conv')

lemma count_of_down: "count_of (count_down k m) k' = count_of m k' - (if k' = k then 1 else 0)"
  by (auto simp: count_of_def count_down_def update_conv' delete_conv' split: option.split)

fun task_ip :: "'ip conn_task \<Rightarrow> 'ip" where
  "task_ip (Handshaking ip) = ip" | "task_ip (Serving ip k) = ip"

definition links_to :: "bytes \<Rightarrow> 'ip listener \<Rightarrow> nat" where
  "links_to k l = length (filter (\<lambda>t. \<exists>ip. t = Serving ip k) (ln_tasks l)) + length (filter ((=) k) (ln_dialed l))"

text \<open>All that happens to the counts. \<open>P\<close> bounds the dials to one peer that are at once between their check and their increment.\<close>

inductive listener_step :: "nat \<Rightarrow> 'ip listener \<Rightarrow> 'ip listener \<Rightarrow> bool" for P :: nat where
  accept: "listener_step P l (accept_conn ip l)"
| finished: "ln_tasks l = ts1 @ Handshaking ip # ts2 \<Longrightarrow> listener_step P l (handshake_done C min_bits ts1 ip ts2 r l)"
| closed: "ln_tasks l = ts1 @ Serving ip k # ts2 \<Longrightarrow> listener_step P l (conn_closed ts1 ip k ts2 l)"
| checked: "length (filter ((=) k) (ln_dialing l)) < P \<Longrightarrow> listener_step P l (dial_checked k l)"
| dialed: "ln_dialing l = ds1 @ k # ds2 \<Longrightarrow> listener_step P l (dial_linked ds1 k ds2 l)"
| added: "count_of (ln_connected l) k < MAX_PARALLEL_LINKS_PER_PEER \<Longrightarrow> listener_step P l (link_added k l)"
| hangup: "ln_dialed l = ds1 @ k # ds2 \<Longrightarrow> listener_step P l (dial_closed ds1 k ds2 l)"

definition listener_inv :: "'ip listener \<Rightarrow> bool" where
  "listener_inv l \<longleftrightarrow> ln_permits l + length (filter (\<lambda>t. \<exists>ip. t = Handshaking ip) (ln_tasks l)) = MAX_PENDING_HANDSHAKES \<and>
     (\<forall>ip. count_of (ln_per_ip l) ip = length (filter (\<lambda>t. task_ip t = ip) (ln_tasks l))) \<and>
     (\<forall>ip. length (filter (\<lambda>t. task_ip t = ip) (ln_tasks l)) \<le> MAX_PER_IP_HANDSHAKES) \<and>
     (\<forall>k. count_of (ln_connected l) k = links_to k l)"

text \<open>Dials in between can each push the count past the cap once.\<close>

definition cap_inv :: "nat \<Rightarrow> bytes \<Rightarrow> 'ip listener \<Rightarrow> bool" where
  "cap_inv P k l \<longleftrightarrow> length (filter ((=) k) (ln_dialing l)) \<le> P \<and>
     count_of (ln_connected l) k + length (filter ((=) k) (ln_dialing l)) \<le> MAX_PARALLEL_LINKS_PER_PEER + P"

lemma cap_inv_step: "listener_step P l l' \<Longrightarrow> cap_inv P k l \<Longrightarrow> cap_inv P k l'"
  by (induction rule: listener_step.induct)
    (auto simp: cap_inv_def accept_conn_def handshake_done_def conn_closed_def dial_checked_def dial_linked_def link_added_def dial_closed_def
      count_of_up count_of_down Let_def split: sum.split)

lemma listener_inv_new: "listener_inv listener_new"
  by (simp add: listener_inv_def listener_new_def count_of_def links_to_def)

lemma listener_inv_ended:
  assumes "listener_inv l" "ln_tasks l = ts1 @ t # ts2" "task_ip t = ip"
    and "p = ln_permits l + (case t of Handshaking _ \<Rightarrow> 1 | Serving _ _ \<Rightarrow> 0)"
    and "c = (case t of Handshaking _ \<Rightarrow> ln_connected l | Serving _ k \<Rightarrow> count_down k (ln_connected l))"
  shows "listener_inv (l\<lparr>ln_permits := p, ln_tasks := ts1 @ ts2, ln_per_ip := count_down ip (ln_per_ip l), ln_connected := c\<rparr>)"
proof -
  have a: "count_of (ln_per_ip l) i = length (filter (\<lambda>t. task_ip t = i) ts1) + length (filter (\<lambda>t. task_ip t = i) ts2) + (if i = ip then 1 else 0)"
    "length (filter (\<lambda>t. task_ip t = i) ts1) + length (filter (\<lambda>t. task_ip t = i) ts2) + (if i = ip then 1 else 0) \<le> MAX_PER_IP_HANDSHAKES" for i
    using assms(1,2,3) unfolding listener_inv_def by (auto dest!: spec[of _ i])
  have b: "count_of (ln_connected l) k = length (filter (\<lambda>t. \<exists>ip. t = Serving ip k) ts1) + length (filter (\<lambda>t. \<exists>ip. t = Serving ip k) ts2) +
      length (filter ((=) k) (ln_dialed l)) + (case t of Handshaking _ \<Rightarrow> 0 | Serving _ k' \<Rightarrow> if k' = k then 1 else 0)" for k
    using assms(1,2) unfolding listener_inv_def links_to_def by (cases t) (auto dest!: spec[of _ k])
  have d: "p + length (filter (\<lambda>t. \<exists>ip. t = Handshaking ip) (ts1 @ ts2)) = MAX_PENDING_HANDSHAKES"
    using assms(1,2,4) unfolding listener_inv_def by (cases t) auto
  have "length (filter (\<lambda>t. task_ip t = i) (ts1 @ ts2)) \<le> MAX_PER_IP_HANDSHAKES" for i using a(2)[of i] by simp
  then show ?thesis using a(1) b d assms(5) by (cases t) (simp_all add: listener_inv_def count_of_down links_to_def)
qed

lemma listener_inv_serving:
  assumes "listener_inv l" "ln_tasks l = ts1 @ Handshaking ip # ts2"
  shows "listener_inv (l\<lparr>ln_permits := ln_permits l + 1, ln_connected := count_up k (ln_connected l), ln_tasks := ts1 @ Serving ip k # ts2\<rparr>)"
proof -
  have "length (filter (\<lambda>t. task_ip t = i) (ts1 @ Serving ip k # ts2)) = length (filter (\<lambda>t. task_ip t = i) (ln_tasks l))" for i
    by (simp add: assms(2))
  moreover have "links_to k' (l\<lparr>ln_permits := p, ln_connected := c, ln_tasks := ts1 @ Serving ip k # ts2\<rparr>) = links_to k' l + (if k' = k then 1 else 0)" for k' p c
    by (simp add: links_to_def assms(2))
  moreover have "length (filter (\<lambda>t. \<exists>ip. t = Handshaking ip) (ln_tasks l)) = 1 + length (filter (\<lambda>t. \<exists>ip. t = Handshaking ip) (ts1 @ Serving ip k # ts2))"
    by (simp add: assms(2))
  ultimately show ?thesis using assms(1) by (simp add: listener_inv_def count_of_up)
qed

lemma listener_inv_step: "listener_step P l l' \<Longrightarrow> listener_inv l \<Longrightarrow> listener_inv l'"
proof (induction rule: listener_step.induct)
  case (accept l ip)
  then show ?case by (auto simp: accept_conn_def listener_inv_def count_of_up links_to_def)
next
  case (finished l ts1 ip ts2 C min_bits r)
  then show ?case
    using listener_inv_ended[OF finished(2,1) _ HOL.refl HOL.refl] listener_inv_serving[OF finished(2,1)]
    by (simp add: handshake_done_def Let_def split: sum.split)
next
  case (closed l ts1 ip k ts2)
  then show ?case using listener_inv_ended[OF closed(2,1) _ HOL.refl HOL.refl] by (cases l) (simp add: conn_closed_def)
next
  case (checked k l)
  then show ?case by (auto simp: dial_checked_def listener_inv_def links_to_def Let_def)
next
  case (dialed l ds1 k ds2)
  then show ?case by (auto simp: dial_linked_def listener_inv_def count_of_up links_to_def)
next
  case (added l k)
  then show ?case by (auto simp: link_added_def listener_inv_def count_of_up links_to_def)
next
  case (hangup l ds1 k ds2)
  then show ?case by (auto simp: dial_closed_def listener_inv_def count_of_down links_to_def)
qed

lemma reachable_inv:
  fixes l :: "'a listener"
  assumes "(listener_step P)\<^sup>*\<^sup>* listener_new l"
  shows "listener_inv l" "cap_inv P k l" "links_to k l \<le> MAX_PARALLEL_LINKS_PER_PEER + P"
proof -
  show i: "listener_inv l" using assms by (induction rule: rtranclp_induct) (auto intro: listener_inv_new listener_inv_step)
  have new: "cap_inv P k (listener_new :: 'a listener)" by (simp add: cap_inv_def listener_new_def count_of_def)
  show "cap_inv P k l" using assms by (induction rule: rtranclp_induct) (auto intro: new cap_inv_step)
  then show "links_to k l \<le> MAX_PARALLEL_LINKS_PER_PEER + P" using i by (simp add: cap_inv_def listener_inv_def)
qed

text \<open>The bound is reached: \<open>P\<close> dials pass their check at seven links, an eighth link arrives, and then the dials are counted.\<close>

definition busy :: "nat \<Rightarrow> bytes \<Rightarrow> nat \<Rightarrow> nat \<Rightarrow> 'ip listener \<Rightarrow> bool" where
  "busy P k n m l \<longleftrightarrow> (listener_step P)\<^sup>*\<^sup>* listener_new l \<and> count_of (ln_connected l) k = n \<and> ln_dialing l = replicate m k"

lemma busy_link: "busy P k n m l \<Longrightarrow> n < MAX_PARALLEL_LINKS_PER_PEER \<Longrightarrow> busy P k (Suc n) m (link_added k l)"
  by (auto simp: busy_def link_added_def count_of_up intro: rtranclp.rtrancl_into_rtrancl listener_step.added[unfolded link_added_def])

lemma busy_check: "busy P k n m l \<Longrightarrow> n < MAX_PARALLEL_LINKS_PER_PEER \<Longrightarrow> m < P \<Longrightarrow> busy P k n (Suc m) (dial_checked k l)"
  using listener_step.checked[of k l P]
  by (auto simp: busy_def dial_checked_def Let_def replicate_append_same intro: rtranclp.rtrancl_into_rtrancl)

lemma busy_dial: "busy P k n (Suc m) l \<Longrightarrow> busy P k (Suc n) m (dial_linked [] k (replicate m k) l)"
  using listener_step.dialed[of l "[]" k "replicate m k" P]
  by (auto simp: busy_def dial_linked_def count_of_up intro: rtranclp.rtrancl_into_rtrancl)

lemma cap_exceeded: "\<exists>l :: 'ip listener. (listener_step P)\<^sup>*\<^sup>* listener_new l \<and> links_to k l = MAX_PARALLEL_LINKS_PER_PEER + P"
proof -
  have links: "n \<le> 7 \<Longrightarrow> \<exists>l :: 'ip listener. busy P k n 0 l" for n
  proof (induction n)
    case 0
    show ?case by (rule exI[of _ listener_new]) (simp add: busy_def listener_new_def count_of_def)
  next
    case (Suc n)
    then obtain l :: "'ip listener" where "busy P k n 0 l" by auto
    then show ?case using busy_link[of P k n 0 l] Suc.prems by (auto simp: MAX_PARALLEL_LINKS_PER_PEER_def)
  qed
  have checks: "m \<le> P \<Longrightarrow> \<exists>l :: 'ip listener. busy P k 7 m l" for m
  proof (induction m)
    case 0
    show ?case by (rule links) simp
  next
    case (Suc m)
    then obtain l :: "'ip listener" where "busy P k 7 m l" by auto
    then show ?case using busy_check[of P k 7 m l] Suc.prems by (auto simp: MAX_PARALLEL_LINKS_PER_PEER_def)
  qed
  have dials: "busy P k n m l \<Longrightarrow> \<exists>l' :: 'ip listener. busy P k (n + m) 0 l'" for n m and l :: "'ip listener"
  proof (induction m arbitrary: n l)
    case (Suc m)
    from Suc.IH[OF busy_dial[OF Suc.prems]] show ?case by simp
  qed auto
  obtain l :: "'ip listener" where "busy P k 7 P l" using checks[of P] by auto
  then have "busy P k (Suc 7) P (link_added k l)" by (intro busy_link) (simp_all add: MAX_PARALLEL_LINKS_PER_PEER_def)
  from dials[OF this] obtain l' :: "'ip listener" where "busy P k (8 + P) 0 l'" by auto
  then show ?thesis using reachable_inv(1)[of P l'] by (auto simp: busy_def listener_inv_def MAX_PARALLEL_LINKS_PER_PEER_def)
qed

section \<open>The retry loop\<close>

lemma rnd_int: "n < 2 ^ 53 \<Longrightarrow> rnd F64 (of_nat n) = Fin (of_nat n)"
  by (rule rnd_exact, unfold representable_def, rule exI[of _ "int n"], rule exI[of _ "0 :: int"]) (simp_all add: F64_def)

lemma rnd64_between:
  assumes "a \<le> x" "x \<le> b" "rnd F64 a = Fin a'" "rnd F64 b = Fin b'"
  obtains y where "rnd F64 x = Fin y" "a' \<le> y" "y \<le> b'"
  using assms rnd_mono[of a x F64] rnd_mono[of x b F64] by (cases "rnd F64 x") (auto simp: F64_def)

lemma dial_jitter_range:
  assumes "0 \<le> x" "x \<le> 1"
  obtains z where "dial_jitter (Fin x) = Fin z" "1 / 2 \<le> z" "z \<le> 2"
proof -
  have l: "fle (Fin (1 / 2)) (lit F64 (8 / 10))" "fle (lit F64 (8 / 10)) (Fin 1)" "fle (Fin 0) (lit F64 (4 / 10))" "fle (lit F64 (4 / 10)) (Fin 1)" by code_simp+
  obtain a b where ab: "lit F64 (8 / 10) = Fin a" "lit F64 (4 / 10) = Fin b" "1 / 2 \<le> a" "a \<le> 1" "0 \<le> b" "b \<le> 1"
    using l by (cases "lit F64 (8 / 10)"; cases "lit F64 (4 / 10)") auto
  have c: "rnd F64 0 = Fin 0" "rnd F64 1 = Fin 1" "rnd F64 (1 / 2) = Fin (1 / 2)" "rnd F64 2 = Fin 2" by code_simp+
  obtain y where y: "rnd F64 (x * b) = Fin y" "0 \<le> y" "y \<le> 1"
    by (rule rnd64_between[OF _ _ c(1,2), of "x * b"]) (use assms ab mult_le_one[of x b] in auto)
  obtain z where "rnd F64 (a + y) = Fin z" "1 / 2 \<le> z" "z \<le> 2" by (rule rnd64_between[OF _ _ c(3,4), of "a + y"]) (use ab y in auto)
  then show ?thesis using that ab y by (simp add: dial_jitter_def)
qed

text \<open>The delay never shrinks below its value and never exceeds a minute.\<close>

lemma next_delay_range:
  assumes "0 \<le> x" "x \<le> 1" "d \<le> 60000" "0 < d"
  shows "d \<le> next_delay d (dial_jitter (Fin x))" "next_delay d (dial_jitter (Fin x)) \<le> 60000"
proof -
  obtain z where z: "dial_jitter (Fin x) = Fin z" "1 / 2 \<le> z" "z \<le> 2" by (rule dial_jitter_range[OF assms(1,2)])
  have r: "rnd F64 (of_nat d) = Fin (of_nat d)" "rnd F64 (of_nat (2 * d)) = Fin (of_nat (2 * d))" "rnd F64 (of_nat (4 * d)) = Fin (of_nat (4 * d))"
    using assms(3) by (intro rnd_int; simp)+
  have "of_nat d \<le> of_nat (2 * d) * z" "of_nat (2 * d) * z \<le> of_nat (4 * d)"
    using mult_left_mono[OF z(2), of "of_nat (2 * d)"] mult_left_mono[OF z(3), of "of_nat (2 * d)"] by simp_all
  from rnd64_between[OF this r(1,3)] obtain y where y: "rnd F64 (of_nat (2 * d) * z) = Fin y" "of_nat d \<le> y" "y \<le> of_nat (4 * d)" .
  have f: "int d \<le> \<lfloor>y\<rfloor>" "\<lfloor>y\<rfloor> \<le> int (4 * d)" using y(2,3) by (simp_all add: le_floor_iff floor_le_iff)
  have "fmul F64 (fmul F64 (of_int_fl F64 (int d)) (Fin 2)) (Fin z) = Fin y"
    using r(1,2) y(1) by (simp add: of_int_fl_def mult.commute)
  moreover have "0 < (of_nat d :: rat)" "(of_nat (4 * d) :: rat) \<le> 240000" using assms(3,4) of_nat_mono[of "4 * d" 240000] by auto
  then have y': "0 < y" "y \<le> 240000" using y(2,3) by linarith+
  then have "y < of_int (2 ^ LENGTH(64) - 1)" by simp
  then have "uint (as_uint (Fin y) :: u64) = \<lfloor>y\<rfloor>" using y' as_uint_Fin[of y, where 'a = 64] by (simp add: as_uint_def)
  ultimately have "next_delay d (dial_jitter (Fin x)) = min (nat \<lfloor>y\<rfloor>) 60000" by (simp add: next_delay_def z(1) flip: nat_uint_eq)
  then show "d \<le> next_delay d (dial_jitter (Fin x))" "next_delay d (dial_jitter (Fin x)) \<le> 60000" using f(1) assms(3) by auto
qed

lemma dial_inner_Nil: "dial_inner mx [] d a = ((case mx of Some m \<Rightarrow> m \<le> a | None \<Rightarrow> False), d, a)"
  by (simp add: dial_inner.simps[of mx "[]" d a])

lemma dial_inner_Cons:
  "dial_inner mx ((out, r) # xs) d a =
     (if (case mx of Some m \<Rightarrow> m \<le> a | None \<Rightarrow> False) then (True, d, a)
      else if out \<in> {TooEasy, Yielded, AtCap} then dial_inner mx xs d (a + 1)
      else if out = Linked then dial_inner mx xs (next_delay 5000 (dial_jitter r)) 0
      else dial_inner mx xs (next_delay d (dial_jitter r)) (a + 1))"
  by (simp add: dial_inner.simps[of mx "(out, r) # xs" d a] Let_def)

lemma dial_gives_up:
  assumes "\<forall>(out, r) \<in> set xs. out \<noteq> Linked" "a \<le> m"
  shows "fst (dial_inner (Some m) xs d a) \<longleftrightarrow> unat m - unat a \<le> length xs"
  using assms
proof (induction xs arbitrary: d a)
  case Nil
  then show ?case by (simp add: dial_inner_Nil word_le_nat_alt)
next
  case (Cons x xs)
  obtain out r where x: "x = (out, r)" by (cases x)
  show ?case
  proof (cases "m \<le> a")
    case True
    then show ?thesis by (simp add: x dial_inner_Cons word_le_nat_alt)
  next
    case False
    then have a: "unat a < unat m" by (simp add: word_le_nat_alt not_le)
    then have s: "unat (a + 1) = unat a + 1" using unsigned_less[of m, where 'a = nat] by (simp add: unat_word_ariths)
    then have "a + 1 \<le> m" using a by (simp add: word_le_nat_alt)
    then have "fst (dial_inner (Some m) xs d' (a + 1)) \<longleftrightarrow> unat m - unat (a + 1) \<le> length xs" for d' using Cons.IH Cons.prems(1) by simp
    moreover have "out \<noteq> Linked" using Cons.prems(1) x by simp
    ultimately show ?thesis using False a s by (auto simp: x dial_inner_Cons)
  qed
qed

lemma dial_persists: "\<not> fst (dial_inner None xs d a)"
proof (induction xs arbitrary: d a)
  case (Cons x xs)
  then show ?case by (cases x) (simp add: dial_inner_Cons)
qed (simp add: dial_inner_Nil)

lemma dial_delay:
  assumes "\<forall>(out, r) \<in> set xs. \<exists>x. r = Fin x \<and> 0 \<le> x \<and> x \<le> 1" "1000 \<le> d" "d \<le> 60000"
  shows "1000 \<le> fst (snd (dial_inner mx xs d a)) \<and> fst (snd (dial_inner mx xs d a)) \<le> 60000"
  using assms
proof (induction xs arbitrary: d a)
  case Nil
  then show ?case by (simp add: dial_inner_Nil)
next
  case (Cons y xs)
  obtain out x where y: "y = (out, Fin x)" "0 \<le> x" "x \<le> 1" using Cons.prems(1) by (cases y) auto
  have IH: "1000 \<le> d' \<Longrightarrow> d' \<le> 60000 \<Longrightarrow> 1000 \<le> fst (snd (dial_inner mx xs d' a')) \<and> fst (snd (dial_inner mx xs d' a')) \<le> 60000" for d' a'
    using Cons.IH Cons.prems(1) by simp
  have n: "1000 \<le> next_delay d' (dial_jitter (Fin x)) \<and> next_delay d' (dial_jitter (Fin x)) \<le> 60000" if "1000 \<le> d'" "d' \<le> 60000" for d'
    using next_delay_range[OF y(2,3) that(2)] that(1) by auto
  show ?case using IH n Cons.prems(2,3) by (simp add: y(1) dial_inner_Cons)
qed

section \<open>Properties\<close>

text \<open>C11. The link handshake is mutual and bound to the session. Two nodes with different keys that run it against each other both end with the
  other's key and with exactly the bytes that follow the handshake. A node accepts a key only from a peer that announced it, differs from
  the node itself and presented a signature that verifies under that key over both nonces of this connection and both keys; the signed
  bytes determine all four, so what was signed for another connection or another peer is not what is verified here.\<close>

theorem link_handshake:
  assumes "sigs_correct C" "ed_x_consistent C" "length n = 32" "length n' = 32" "ed_pub_of C sk \<noteq> ed_pub_of C sk'"
  defines "out \<equiv> HANDSHAKE_MAGIC @ ed_pub_of C sk @ n @ build_handshake_sig C sk n n' (ed_pub_of C sk) (ed_pub_of C sk')"
    and "out' \<equiv> HANDSHAKE_MAGIC @ ed_pub_of C sk' @ n' @ build_handshake_sig C sk' n' n (ed_pub_of C sk') (ed_pub_of C sk)"
  shows "handshake_over_stream C sk n (out' @ frames') = (out, Inr (ed_pub_of C sk', frames')) \<and>
    handshake_over_stream C sk' n' (out @ frames) = (out', Inr (ed_pub_of C sk, frames)) \<and>
    (\<forall>reader written k rest. handshake_over_stream C sk n reader = (written, Inr (k, rest)) \<longrightarrow>
      k \<noteq> ed_pub_of C sk \<and> (\<exists>m sig. reader = HANDSHAKE_MAGIC @ k @ m @ sig @ rest \<and>
        ed_verify C k (HANDSHAKE_SIG_TAG @ m @ n @ k @ ed_pub_of C sk) sig \<and>
        (\<forall>m1 m2 k1 k2. length m1 = 32 \<and> length m2 = 32 \<and> length k1 = 32 \<and>
          HANDSHAKE_SIG_TAG @ m1 @ m2 @ k1 @ k2 = HANDSHAKE_SIG_TAG @ m @ n @ k @ ed_pub_of C sk \<longrightarrow>
          m1 = m \<and> m2 = n \<and> k1 = k \<and> k2 = ed_pub_of C sk)))"
proof (intro conjI allI impI)
  show "handshake_over_stream C sk n (out' @ frames') = (out, Inr (ed_pub_of C sk', frames'))"
    "handshake_over_stream C sk' n' (out @ frames) = (out', Inr (ed_pub_of C sk, frames))"
    using handshake_honest[OF assms(1-5), of frames'] handshake_honest[OF assms(1,2,4,3) assms(5)[symmetric], of frames]
    unfolding out_def out'_def by simp_all
next
  fix reader written k rest
  assume h: "handshake_over_stream C sk n reader = (written, Inr (k, rest))"
  show "k \<noteq> ed_pub_of C sk" by (rule handshake_accepts[OF h])
  show "\<exists>m sig. reader = HANDSHAKE_MAGIC @ k @ m @ sig @ rest \<and> ed_verify C k (HANDSHAKE_SIG_TAG @ m @ n @ k @ ed_pub_of C sk) sig \<and>
        (\<forall>m1 m2 k1 k2. length m1 = 32 \<and> length m2 = 32 \<and> length k1 = 32 \<and>
          HANDSHAKE_SIG_TAG @ m1 @ m2 @ k1 @ k2 = HANDSHAKE_SIG_TAG @ m @ n @ k @ ed_pub_of C sk \<longrightarrow>
          m1 = m \<and> m2 = n \<and> k1 = k \<and> k2 = ed_pub_of C sk)"
  proof (rule handshake_accepts[OF h])
    fix m sig
    assume r: "reader = HANDSHAKE_MAGIC @ k @ m @ sig @ rest" "length k = 32" "length m = 32"
      and v: "ed_verify C k (handshake_msg m n k (ed_pub_of C sk)) sig"
    have "m1 = m \<and> m2 = n \<and> k1 = k \<and> k2 = ed_pub_of C sk"
      if "length m1 = 32" "length m2 = 32" "length k1 = 32" "handshake_msg m1 m2 k1 k2 = handshake_msg m n k (ed_pub_of C sk)" for m1 m2 k1 k2
      using that(1-3) r(2,3) assms(3) by (intro handshake_msg_inj[OF that(4)]) simp_all
    then show ?thesis using r(1) v by blast
  qed
qed

theorem link_handshake_witness:
  "handshake_over_stream ex [1] (replicate 32 5) (HANDSHAKE_MAGIC @ ed_pub_of ex [2] @ replicate 32 6 @
     build_handshake_sig ex [2] (replicate 32 6) (replicate 32 5) (ed_pub_of ex [2]) (ed_pub_of ex [1]) @ [7]) =
   (HANDSHAKE_MAGIC @ ed_pub_of ex [1] @ replicate 32 5 @
     build_handshake_sig ex [1] (replicate 32 5) (replicate 32 6) (ed_pub_of ex [1]) (ed_pub_of ex [2]), Inr (ed_pub_of ex [2], [7]))"
proof -
  have "ed_pub_of ex [1] \<noteq> ed_pub_of ex [2]" by code_simp
  from link_handshake[OF ex_sigs ex_ed_x _ _ this, of "replicate 32 5" "replicate 32 6" "[7]"] show ?thesis by simp
qed

text \<open>C23. Admission control of the listener. However connections arrive, finish their handshakes, are refused or close, and whatever dials come and go, at
  most 256 handshakes are in progress, every permit and every slot of an address is returned, no address holds more than four
  connections, and the link count of a peer is exactly the number of its links. The four slots of an address cover established links too:
  no address ever has more than four inbound links, although a peer may have eight. A peer has at most eight links plus the number of dials to it that are
  at once between the check of the count and its increment, and this bound is reached, because the dial loop releases the lock in between.\<close>

theorem listener_limits:
  fixes l :: "'ip listener"
  assumes "(listener_step P)\<^sup>*\<^sup>* listener_new l"
  shows "length (filter (\<lambda>t. \<exists>ip. t = Handshaking ip) (ln_tasks l)) \<le> 256 \<and> (ln_tasks l = [] \<longrightarrow> ln_permits l = 256 \<and> count_of (ln_per_ip l) ip = 0) \<and>
    count_of (ln_per_ip l) ip = length (filter (\<lambda>t. task_ip t = ip) (ln_tasks l)) \<and>
    length (filter (\<lambda>t. \<exists>k. t = Serving ip k) (ln_tasks l)) \<le> 4 \<and> count_of (ln_connected l) k = links_to k l \<and> links_to k l \<le> 8 + P \<and>
    (\<exists>l' :: 'ip listener. (listener_step P)\<^sup>*\<^sup>* listener_new l' \<and> links_to k l' = 8 + P)"
proof -
  note i = reachable_inv[OF assms]
  have "length (filter (\<lambda>t. \<exists>k. t = Serving ip k) (ln_tasks l)) = length (filter (\<lambda>t. \<exists>k. t = Serving ip k) (filter (\<lambda>t. task_ip t = ip) (ln_tasks l)))"
    unfolding filter_filter by (rule arg_cong[of _ _ length], rule filter_cong) auto
  also have "\<dots> \<le> MAX_PER_IP_HANDSHAKES" using i(1) le_trans[OF length_filter_le] unfolding listener_inv_def by blast
  finally show ?thesis using i(1) i(3)[of k] cap_exceeded[of P k]
    by (auto simp: listener_inv_def MAX_PENDING_HANDSHAKES_def MAX_PER_IP_HANDSHAKES_def MAX_PARALLEL_LINKS_PER_PEER_def)
qed

theorem listener_limits_witness:
  "count_of (ln_per_ip (accept_conn (7 :: nat) (accept_conn 7 listener_new))) 7 = 2 \<and>
   length (filter (\<lambda>t. \<exists>ip. t = Handshaking ip) (ln_tasks (accept_conn (7 :: nat) (accept_conn 7 listener_new)))) \<le> 256"
proof -
  have "(listener_step 1)\<^sup>*\<^sup>* listener_new (accept_conn (7 :: nat) (accept_conn 7 listener_new))"
    by (meson converse_rtranclp_into_rtranclp listener_step.accept rtranclp.rtrancl_refl)
  from listener_limits[OF this, of 7 "[]"] show ?thesis
    by (simp add: accept_conn_def listener_new_def count_of_def count_up_def MAX_PENDING_HANDSHAKES_def MAX_PER_IP_HANDSHAKES_def)
qed

text \<open>Dials back off, and only discovered ones give up. A discovery dial that never links stops after exactly four attempts, counting every kind of
  failure; a configured dial never stops; and for any sequence of outcomes and random numbers in the unit interval the delay between
  attempts stays between one second and one minute.\<close>

theorem dial_retries:
  assumes "\<forall>(out, r) \<in> set xs. \<exists>x. r = Fin x \<and> 0 \<le> x \<and> x \<le> 1"
  shows "((\<forall>(out, r) \<in> set xs. out \<noteq> Linked) \<longrightarrow> (fst (dial_discovered xs) \<longleftrightarrow> 4 \<le> length xs)) \<and> \<not> fst (dial xs) \<and>
    1000 \<le> fst (snd (dial xs)) \<and> fst (snd (dial xs)) \<le> 60000 \<and>
    1000 \<le> fst (snd (dial_discovered xs)) \<and> fst (snd (dial_discovered xs)) \<le> 60000"
  using dial_gives_up[of xs 0 4 1000] dial_persists[of xs 1000 0] dial_delay[OF assms, of 1000]
  by (simp add: dial_def dial_discovered_def DISCOVERY_DIAL_MAX_ATTEMPTS_def)

theorem dial_retries_witness: "fst (dial_discovered (replicate 4 (ConnectFailed, Fin (1 / 2)))) \<and> \<not> fst (dial (replicate 4 (ConnectFailed, Fin (1 / 2))))"
proof -
  have "\<exists>x. Fin (1 / 2) = Fin x \<and> 0 \<le> x \<and> x \<le> 1" by (rule exI[of _ "1 / 2"]) simp
  then have "\<forall>(out, r) \<in> set (replicate 4 (ConnectFailed, Fin (1 / 2))). \<exists>x. r = Fin x \<and> 0 \<le> x \<and> x \<le> 1" by auto
  from dial_retries[OF this] show ?thesis by simp
qed

end
