(* ===== verification/Text.thy ===== *)
theory Text
  imports Norn_Prelude
begin

text \<open>
  The string operations of the standard library that configuration, discovery and diagnostics use: prefixes, the last piece of a split, decimal
  numbers with their overflow check, white space, and the printed form of IPv6 addresses. Strings are sequences of bytes.
\<close>

section \<open>Prefixes and pieces\<close>

definition strip_prefix :: "string \<Rightarrow> string \<Rightarrow> string option" where
  "strip_prefix p s = (if take (length p) s = p then Some (drop (length p) s) else None)"

definition starts_with :: "string \<Rightarrow> string \<Rightarrow> bool" where
  "starts_with p s \<longleftrightarrow> strip_prefix p s \<noteq> None"

text \<open>\<^verbatim>\<open>s.rsplit(c).next()\<close>: what follows the last occurrence.\<close>

definition rsplit_last :: "char \<Rightarrow> string \<Rightarrow> string" where
  "rsplit_last c s = rev (takeWhile (\<lambda>x. x \<noteq> c) (rev s))"

definition is_space :: "char \<Rightarrow> bool" where
  "is_space c \<longleftrightarrow> c = CHR '' '' \<or> (9 \<le> (of_char c :: nat) \<and> (of_char c :: nat) \<le> 13)"

definition trim :: "string \<Rightarrow> string" where
  "trim s = rev (dropWhile is_space (rev (dropWhile is_space s)))"

lemma strip_prefix_append [simp]: "strip_prefix p (p @ s) = Some s"
  by (simp add: strip_prefix_def)

lemma strip_prefix_Some: "strip_prefix p s = Some r \<longleftrightarrow> s = p @ r"
  unfolding strip_prefix_def by (auto intro: append_take_drop_id[symmetric]) (metis append_take_drop_id)

lemma rsplit_last_append: "c \<notin> set r \<Longrightarrow> rsplit_last c (s @ c # r) = r"
proof -
  assume "c \<notin> set r"
  then have "takeWhile (\<lambda>x. x \<noteq> c) (rev r @ c # rev s) = rev r" by (subst takeWhile_append2) auto
  then show ?thesis by (simp add: rsplit_last_def)
qed

section \<open>Decimal numbers\<close>

definition digit_value :: "char \<Rightarrow> nat option" where
  "digit_value c = (let n = of_char c :: nat in if 48 \<le> n \<and> n \<le> 57 then Some (n - 48) else None)"

text \<open>\<open>max_value\<close> is the largest value of the integer type; a step beyond it is the overflow error.\<close>

fun parse_digits :: "nat \<Rightarrow> string \<Rightarrow> nat \<Rightarrow> nat option" where
  "parse_digits max_value [] acc = Some acc"
| "parse_digits max_value (c # s) acc =
     (case digit_value c of
        None \<Rightarrow> None
      | Some d \<Rightarrow> if max_value < acc * 10 + d then None else parse_digits max_value s (acc * 10 + d))"

definition parse_uint :: "nat \<Rightarrow> string \<Rightarrow> nat option" where
  "parse_uint max_value s =
     (case s of
        [] \<Rightarrow> None
      | c # r \<Rightarrow> if c = CHR ''+'' then (if r = [] then None else parse_digits max_value r 0) else parse_digits max_value s 0)"

definition digit :: "nat \<Rightarrow> char" where
  "digit n = char_of (48 + n)"

fun show_nat :: "nat \<Rightarrow> string" where
  "show_nat n = (if n < 10 then [digit n] else show_nat (n div 10) @ [digit (n mod 10)])"

declare show_nat.simps [simp del]

lemma of_char_digit: "n < 10 \<Longrightarrow> (of_char (digit n) :: nat) = 48 + n"
  by (simp add: digit_def)

lemma digit_value_digit [simp]: "n < 10 \<Longrightarrow> digit_value (digit n) = Some n"
  by (simp add: digit_value_def of_char_digit Let_def)

lemma parse_digits_snoc:
  "parse_digits m (s @ [c]) acc = Option.bind (parse_digits m s acc)
     (\<lambda>a. Option.bind (digit_value c) (\<lambda>d. if m < a * 10 + d then None else Some (a * 10 + d)))"
  by (induction s arbitrary: acc) (auto split: option.split)

lemma show_nat_digits: "c \<in> set (show_nat n) \<Longrightarrow> \<exists>d < 10. c = digit d"
proof (induction n rule: show_nat.induct)
  case (1 n)
  show ?case
  proof (cases "n < 10")
    case True
    then show ?thesis using "1.prems" by (auto simp: show_nat.simps[of n])
  next
    case False
    then have "c \<in> set (show_nat (n div 10)) \<or> c = digit (n mod 10)" using "1.prems" by (auto simp: show_nat.simps[of n])
    then show ?thesis using "1.IH"[OF False]
    proof
      assume "c = digit (n mod 10)"
      then show ?thesis by (intro exI[of _ "n mod 10"]) simp
    qed blast
  qed
qed

lemma show_nat_nonempty: "show_nat n \<noteq> []"
  by (simp add: show_nat.simps[of n])

lemma parse_show: "n \<le> m \<Longrightarrow> parse_digits m (show_nat n) 0 = Some n"
proof (induction n rule: show_nat.induct)
  case (1 n)
  show ?case
  proof (cases "n < 10")
    case True
    then show ?thesis using "1.prems" by (simp add: show_nat.simps[of n])
  next
    case False
    have "n div 10 \<le> m" using "1.prems" by linarith
    then have "parse_digits m (show_nat (n div 10)) 0 = Some (n div 10)" using "1.IH"[OF False] by blast
    then show ?thesis using False "1.prems" by (simp add: show_nat.simps[of n] parse_digits_snoc)
  qed
qed

lemma parse_uint_show: "n \<le> m \<Longrightarrow> parse_uint m (show_nat n) = Some n"
proof -
  assume n: "n \<le> m"
  obtain c r where s: "show_nat n = c # r" by (cases "show_nat n") (auto simp: show_nat_nonempty)
  then obtain d where d: "d < 10" "c = digit d" using show_nat_digits[of c n] by auto
  have "c \<noteq> CHR ''+''"
  proof
    assume "c = CHR ''+''"
    then have "(of_char c :: nat) = 43" by simp
    then show False using d by (simp add: of_char_digit)
  qed
  then show ?thesis using parse_show[OF n] s by (simp add: parse_uint_def)
qed

lemma parse_digits_bound: "parse_digits m s acc = Some n \<Longrightarrow> acc \<le> m \<Longrightarrow> n \<le> m"
  by (induction s arbitrary: acc) (auto split: option.splits if_splits)

lemma parse_uint_bound: "parse_uint m s = Some n \<Longrightarrow> n \<le> m"
  by (auto simp: parse_uint_def simp del: parse_digits.simps split: list.splits if_splits dest: parse_digits_bound)

section \<open>IPv6 addresses\<close>

text \<open>\<^verbatim>\<open>Display\<close> of \<^verbatim>\<open>Ipv6Addr\<close>: the first longest run of at least two zero groups is written as \<open>::\<close>; an IPv4-mapped address in dotted form.\<close>

definition hex_digit :: "nat \<Rightarrow> char" where
  "hex_digit n = char_of (if n < 10 then 48 + n else 87 + n)"

fun show_hex :: "nat \<Rightarrow> string" where
  "show_hex n = (if n < 16 then [hex_digit n] else show_hex (n div 16) @ [hex_digit (n mod 16)])"

declare show_hex.simps [simp del]

fun join :: "string \<Rightarrow> string list \<Rightarrow> string" where
  "join sep [] = []"
| "join sep [s] = s"
| "join sep (s # t # ss) = s @ sep @ join sep (t # ss)"

definition zero_step :: "nat \<times> u16 \<Rightarrow> (nat \<times> nat) \<times> (nat \<times> nat) \<Rightarrow> (nat \<times> nat) \<times> (nat \<times> nat)" where
  "zero_step = (\<lambda>(i, segment) (longest, current).
     if segment = 0
     then let current = ((if snd current = 0 then i else fst current), snd current + 1) in
          ((if snd longest < snd current then current else longest), current)
     else (longest, (0, 0)))"

definition longest_zeros :: "u16 list \<Rightarrow> nat \<times> nat" where
  "longest_zeros segments = fst (fold zero_step (enumerate 0 segments) ((0, 0), (0, 0)))"

definition show_segments :: "u16 list \<Rightarrow> string" where
  "show_segments segments = join '':'' (map (\<lambda>s. show_hex (unat s)) segments)"

definition show_ipv4 :: "bytes \<Rightarrow> string" where
  "show_ipv4 octets = join ''.'' (map (\<lambda>b. show_nat (unat b)) octets)"

fun groups :: "bytes \<Rightarrow> u16 list" where
  "groups (b0 # b1 # bs) = from_be [b0, b1] # groups bs"
| "groups _ = []"

definition show_ipv6 :: "u16 list \<Rightarrow> bytes \<Rightarrow> string" where
  "show_ipv6 segments octets =
     (if take 6 segments = [0, 0, 0, 0, 0, 0xFFFF] then ''::ffff:'' @ show_ipv4 (drop 12 octets)
      else let (start, len) = longest_zeros segments in
           if 1 < len then show_segments (take start segments) @ ''::'' @ show_segments (drop (start + len) segments)
           else show_segments segments)"

definition ipv6_string :: "bytes \<Rightarrow> string" where
  "ipv6_string octets = show_ipv6 (groups octets) octets"

lemma ipv6_string_examples:
  "ipv6_string (replicate 15 0 @ [1]) = ''::1''" "ipv6_string (replicate 16 0) = ''::''" "ipv6_string (2 # replicate 14 0 @ [1]) = ''200::1''"
  by code_simp+

end
