(* ===== verification/Quic.thy ===== *)
theory Quic
  imports Transport Text
begin

text \<open>
  The QUIC transport (\<^verbatim>\<open>quic.rs\<close>) on top of the same link handshake as the TCP one: the common handling of an accepted or dialled stream, the
  listener, the retry loop and the adapters around the typed streams. The QUIC and TLS stacks are third-party code; what they deliver are
  arguments. Both transports share the table of link counts.
\<close>

section \<open>One stream\<close>

definition parse_quic_uri :: "string \<Rightarrow> string result" where
  "parse_quic_uri u = (case strip_prefix ''quic://'' u of Some s \<Rightarrow> Inr s | None \<Rightarrow> Inl (Bail ''unsupported URI scheme (expected quic://)''))"

text \<open>\<^verbatim>\<open>handle_one\<close> up to the call of \<^verbatim>\<open>handle_conn\<close>: the bytes written, the link with the rest of the stream, and the link counts. \<open>None\<close> is each of the
  early returns; a handshake that times out is one on the bytes received so far.\<close>

definition handle_one ::
  "crypto \<Rightarrow> bytes \<Rightarrow> bytes \<Rightarrow> nat \<Rightarrow> bytes \<Rightarrow> (bytes \<times> nat) list \<Rightarrow> bytes \<times> (bytes \<times> bytes) option \<times> (bytes \<times> nat) list" where
  "handle_one C signing_key nonce min_bits reader links =
     (case handshake_over_stream C signing_key nonce reader of
        (written, Inl _) \<Rightarrow> (written, None, links)
      | (written, Inr (remote_pub, reader)) \<Rightarrow>
          if 0 < min_bits \<and> key_difficulty_bits C remote_pub < min_bits then (written, None, links)
          else if MAX_PARALLEL_LINKS_PER_PEER \<le> count_of links remote_pub then (written, None, links)
          else (written, Some (remote_pub, reader), count_up remote_pub links))"

text \<open>The adapter around the send stream: its errors are renamed, flushing does nothing, finishing ignores its error.\<close>

definition QuicWriter :: "'w sink \<Rightarrow> 'w sink" where
  "QuicWriter S =
     \<lparr>snk_write = (\<lambda>w d. case snk_write S w d of
          (Pending, w) \<Rightarrow> (Pending, w)
        | (Ready (Inr n), w) \<Rightarrow> (Ready (Inr n), w)
        | (Ready (Inl e), w) \<Rightarrow> (Ready (Inl (Bail ''quic send'')), w)),
      snk_flush = (\<lambda>w. (Ready (Inr ()), w)),
      snk_shutdown = (\<lambda>w. (Ready (Inr ()), snd (snk_shutdown S w)))\<rparr>"

section \<open>Both transports\<close>

text \<open>The tasks of the QUIC side that are still in \<^verbatim>\<open>handle_one\<close>'s handshake, by address; its links are counted with the other links outside the TCP
  listener. A task starts with every accepted or dialled connection.\<close>

record 'ip transports =
  tp_tcp :: "'ip listener"
  tp_quic :: "'ip list"

definition quic_accept :: "'ip \<Rightarrow> 'ip transports \<Rightarrow> 'ip transports" where
  "quic_accept ip t = t\<lparr>tp_quic := tp_quic t @ [ip]\<rparr>"

definition quic_handled :: "crypto \<Rightarrow> bytes \<Rightarrow> bytes \<Rightarrow> nat \<Rightarrow> bytes \<Rightarrow> 'ip list \<Rightarrow> 'ip list \<Rightarrow> 'ip transports \<Rightarrow> 'ip transports" where
  "quic_handled C signing_key nonce min_bits reader ts1 ts2 t =
     (let l = tp_tcp t; (_, link, links) = handle_one C signing_key nonce min_bits reader (ln_connected l) in
      t\<lparr>tp_quic := ts1 @ ts2,
        tp_tcp := l\<lparr>ln_connected := links, ln_dialed := ln_dialed l @ (case link of None \<Rightarrow> [] | Some (k, _) \<Rightarrow> [k])\<rparr>\<rparr>)"

section \<open>Dialing\<close>

datatype quic_attempt = SetupFailed | ConnectTimeout | ConnectError | StreamTimeout | StreamError | Handled

text \<open>The sleeps of the loop, in milliseconds, on the attempts and the random numbers it meets.\<close>

fun quic_sleeps :: "(quic_attempt \<times> fl) list \<Rightarrow> nat \<Rightarrow> nat list" where
  "quic_sleeps [] delay = []"
| "quic_sleeps ((attempt, r) # rest) delay =
     (if attempt \<in> {StreamTimeout, StreamError} then quic_sleeps rest delay
      else let delay = (if attempt = Handled then 5000 else delay) in
           delay # quic_sleeps rest (next_delay delay (dial_jitter r)))"

definition quic_dial :: "(quic_attempt \<times> fl) list \<Rightarrow> nat list" where
  "quic_dial attempts = quic_sleeps attempts 1000"

section \<open>Simulation by the TCP listener\<close>

lemma handle_one_cases:
  assumes "handle_one C sk nonce min_bits reader links = (written, link, links')"
  obtains "link = None" "links' = links"
  | k rest where "link = Some (k, rest)" "links' = count_up k links" "count_of links k < MAX_PARALLEL_LINKS_PER_PEER"
      "handshake_over_stream C sk nonce reader = (written, Inr (k, rest))"
  using assms unfolding handle_one_def by (auto split: prod.splits sum.splits if_splits)

lemma quic_handled_cases:
  obtains "tp_tcp (quic_handled C sk nonce min_bits reader ts1 ts2 t) = tp_tcp t"
  | k written rest where "tp_tcp (quic_handled C sk nonce min_bits reader ts1 ts2 t) = link_added k (tp_tcp t)"
      "count_of (ln_connected (tp_tcp t)) k < MAX_PARALLEL_LINKS_PER_PEER" "handshake_over_stream C sk nonce reader = (written, Inr (k, rest))"
proof -
  obtain written link c where h: "handle_one C sk nonce min_bits reader (ln_connected (tp_tcp t)) = (written, link, c)" by (rule prod_cases3)
  from h show ?thesis
  proof (cases rule: handle_one_cases)
    case 1
    then show ?thesis using that(1) h by (simp add: quic_handled_def Let_def)
  next
    case (2 k rest)
    then show ?thesis using that(2)[of k written rest] h by (simp add: quic_handled_def link_added_def Let_def)
  qed
qed

inductive transport_step :: "nat \<Rightarrow> 'ip transports \<Rightarrow> 'ip transports \<Rightarrow> bool" for P :: nat where
  tcp: "listener_step P (tp_tcp t) l \<Longrightarrow> transport_step P t (t\<lparr>tp_tcp := l\<rparr>)"
| quic_start: "transport_step P t (quic_accept ip t)"
| quic_done: "tp_quic t = ts1 @ ip # ts2 \<Longrightarrow> transport_step P t (quic_handled C sk nonce min_bits reader ts1 ts2 t)"

lemma transport_sim: "(transport_step P)\<^sup>*\<^sup>* t t' \<Longrightarrow> (listener_step P)\<^sup>*\<^sup>* (tp_tcp t) (tp_tcp t')"
proof (induction rule: rtranclp_induct)
  case (step t' t'')
  from step.hyps(2) have "tp_tcp t'' = tp_tcp t' \<or> listener_step P (tp_tcp t') (tp_tcp t'')"
  proof (cases rule: transport_step.cases)
    case (quic_done ts1 ip ts2 C sk nonce min_bits reader)
    then show ?thesis by (cases rule: quic_handled_cases[of C sk nonce min_bits reader ts1 ts2 t']) (auto intro: listener_step.added)
  qed (simp_all add: quic_accept_def)
  then show ?case using step.IH by (auto intro: rtranclp.rtrancl_into_rtrancl)
qed simp

lemma quic_start_many: "(transport_step P)\<^sup>*\<^sup>* t (t\<lparr>tp_quic := tp_quic t @ replicate n ip\<rparr>)"
proof (induction n)
  case (Suc n)
  have "quic_accept ip (t\<lparr>tp_quic := tp_quic t @ replicate n ip\<rparr>) = t\<lparr>tp_quic := tp_quic t @ replicate (Suc n) ip\<rparr>"
    by (simp add: quic_accept_def replicate_append_same)
  then show ?case using Suc transport_step.quic_start[of P "t\<lparr>tp_quic := tp_quic t @ replicate n ip\<rparr>" ip] by (metis rtranclp.rtrancl_into_rtrancl)
qed simp

lemma sleeps_range:
  assumes "\<forall>(a, r) \<in> set xs. \<exists>x. r = Fin x \<and> 0 \<le> x \<and> x \<le> 1" "1000 \<le> d0" "d0 \<le> 60000"
  shows "\<forall>d \<in> set (quic_sleeps xs d0). 1000 \<le> d \<and> d \<le> 60000"
  using assms
proof (induction xs arbitrary: d0)
  case (Cons y xs)
  obtain a x where y: "y = (a, Fin x)" "0 \<le> x" "x \<le> 1" using Cons.prems(1) by (cases y) auto
  have IH: "\<forall>d \<in> set (quic_sleeps xs d'). 1000 \<le> d \<and> d \<le> 60000" if "1000 \<le> d'" "d' \<le> 60000" for d'
    by (rule Cons.IH[OF _ that]) (use Cons.prems(1) in simp)
  have n: "1000 \<le> next_delay d (dial_jitter (Fin x))" "next_delay d (dial_jitter (Fin x)) \<le> 60000" if "1000 \<le> d" "d \<le> 60000" for d
    using next_delay_range[OF y(2,3) that(2)] that(1) by auto
  have r: "(1000 :: nat) \<le> 5000" "(5000 :: nat) \<le> 60000" by simp_all
  show ?case
  proof (cases "a = StreamTimeout \<or> a = StreamError")
    case True
    then show ?thesis using IH[OF Cons.prems(2,3)] by (auto simp: y(1))
  next
    case False
    then show ?thesis using IH[OF n[OF Cons.prems(2,3)]] IH[OF n[OF r]] Cons.prems(2,3) by (simp add: y(1) Let_def)
  qed
qed simp

lemma sleeps_length: "length (quic_sleeps xs d) = length (filter (\<lambda>(a, r). a \<noteq> StreamTimeout \<and> a \<noteq> StreamError) xs)"
  by (induction xs d rule: quic_sleeps.induct) (simp_all add: Let_def)

lemma sleeps_stream: "\<forall>(a, r) \<in> set xs. a = StreamTimeout \<or> a = StreamError \<Longrightarrow> quic_sleeps xs d = []"
  by (induction xs d rule: quic_sleeps.induct) simp_all

lemma sleeps_handled: "\<forall>(a, r) \<in> set xs. a = Handled \<Longrightarrow> quic_sleeps xs d = replicate (length xs) 5000"
  by (induction xs d rule: quic_sleeps.induct) (simp_all add: Let_def)

lemma QuicWriter_ok: "sink_ok S wire \<Longrightarrow> sink_ok (QuicWriter S) wire"
proof -
  assume S: "sink_ok S wire"
  have "case p of Ready (Inr n) \<Rightarrow> n \<le> length d \<and> wire w' = wire w @ take n d | _ \<Rightarrow> wire w' = wire w"
    if "snk_write (QuicWriter S) w d = (p, w')" for w d p w'
  proof -
    obtain q v where q: "snk_write S w d = (q, v)" by (rule prod.exhaust)
    then have "case q of Ready (Inr n) \<Rightarrow> n \<le> length d \<and> wire v = wire w @ take n d | _ \<Rightarrow> wire v = wire w" using S by (simp add: sink_ok_def)
    then show ?thesis using that q by (auto simp: QuicWriter_def split: poll.splits sum.splits)
  qed
  then show ?thesis using S by (simp add: sink_ok_def QuicWriter_def)
qed

section \<open>Properties\<close>

text \<open>C24. One table of links for both transports. However TCP and QUIC connections, dials and handshakes interleave, the limits of the TCP listener hold
  and the count of a peer is the number of its links over both transports, at most eight and the TCP dials between check and increment; a QUIC stream becomes a link only with a key that the handshake
  proved and only while the peer has fewer than eight links. The QUIC side has none of the limits on handshakes in progress: one address
  can have any number of them.\<close>

theorem transports_share_limits:
  fixes t :: "'ip transports"
  assumes "(transport_step P)\<^sup>*\<^sup>* \<lparr>tp_tcp = listener_new, tp_quic = []\<rparr> t"
  shows "length (filter (\<lambda>c. \<exists>ip. c = Handshaking ip) (ln_tasks (tp_tcp t))) \<le> 256 \<and>
    length (filter (\<lambda>c. task_ip c = ip) (ln_tasks (tp_tcp t))) \<le> 4 \<and> count_of (ln_connected (tp_tcp t)) k = links_to k (tp_tcp t) \<and> links_to k (tp_tcp t) \<le> 8 + P \<and>
    (links_to k (tp_tcp (quic_handled C sk nonce min_bits reader ts1 ts2 t)) \<noteq> links_to k (tp_tcp t) \<longrightarrow>
       links_to k (tp_tcp t) < 8 \<and> (\<exists>written rest. handshake_over_stream C sk nonce reader = (written, Inr (k, rest)))) \<and>
    (\<exists>t'. (transport_step P)\<^sup>*\<^sup>* t t' \<and> length (filter ((=) ip) (tp_quic t')) = length (filter ((=) ip) (tp_quic t)) + n)"
proof -
  have r: "(listener_step P)\<^sup>*\<^sup>* listener_new (tp_tcp t)" using transport_sim[OF assms] by simp
  note i = reachable_inv(1)[OF r]
  have "links_to k (tp_tcp t) < 8 \<and> (\<exists>written rest. handshake_over_stream C sk nonce reader = (written, Inr (k, rest)))"
    if n: "links_to k (tp_tcp (quic_handled C sk nonce min_bits reader ts1 ts2 t)) \<noteq> links_to k (tp_tcp t)"
    by (cases rule: quic_handled_cases[of C sk nonce min_bits reader ts1 ts2 t])
      (use n i in \<open>auto simp: link_added_def links_to_def listener_inv_def MAX_PARALLEL_LINKS_PER_PEER_def split: if_splits\<close>)
  moreover have "\<exists>t'. (transport_step P)\<^sup>*\<^sup>* t t' \<and> length (filter ((=) ip) (tp_quic t')) = length (filter ((=) ip) (tp_quic t)) + n"
    by (rule exI[of _ "t\<lparr>tp_quic := tp_quic t @ replicate n ip\<rparr>"]) (simp add: quic_start_many)
  moreover have "length (filter (\<lambda>c. \<exists>ip. c = Handshaking ip) (ln_tasks (tp_tcp t))) \<le> 256" "length (filter (\<lambda>c. task_ip c = ip) (ln_tasks (tp_tcp t))) \<le> 4"
    "count_of (ln_connected (tp_tcp t)) k = links_to k (tp_tcp t)" "links_to k (tp_tcp t) \<le> 8 + P"
    using i reachable_inv(3)[OF r, of k] by (auto simp: listener_inv_def MAX_PENDING_HANDSHAKES_def MAX_PER_IP_HANDSHAKES_def MAX_PARALLEL_LINKS_PER_PEER_def)
  ultimately show ?thesis by blast
qed

theorem transports_share_limits_witness:
  "\<exists>t'. (transport_step 1)\<^sup>*\<^sup>* \<lparr>tp_tcp = listener_new, tp_quic = []\<rparr> t' \<and> length (filter ((=) (7 :: nat)) (tp_quic t')) = 1000"
  using transports_share_limits[OF rtranclp.rtrancl_refl[of "transport_step 1"], of "7 :: nat" "[]" ex "[]" "[]" 0 "[]" "[]" "[]" 1000] by auto

text \<open>C25. How a QUIC dial retries. Every sleep is between one second and one minute and no dial ever gives up. A connection whose stream cannot be opened is
  retried without any sleep, and an attempt that reached the link handshake is followed by a sleep of exactly five seconds, whether or
  not the handshake succeeded: a peer that refuses every handshake is dialled at that rate for ever.\<close>

theorem quic_dial_backoff:
  assumes "\<forall>(a, r) \<in> set xs. \<exists>x. r = Fin x \<and> 0 \<le> x \<and> x \<le> 1"
  shows "(\<forall>d \<in> set (quic_dial xs). 1000 \<le> d \<and> d \<le> 60000) \<and>
    length (quic_dial xs) = length (filter (\<lambda>(a, r). a \<noteq> StreamTimeout \<and> a \<noteq> StreamError) xs) \<and>
    ((\<forall>(a, r) \<in> set xs. a = StreamTimeout \<or> a = StreamError) \<longrightarrow> quic_dial xs = []) \<and>
    ((\<forall>(a, r) \<in> set xs. a = Handled) \<longrightarrow> quic_dial xs = replicate (length xs) 5000)"
  using sleeps_range[OF assms, of 1000] sleeps_length[of xs 1000] sleeps_stream[of xs 1000] sleeps_handled[of xs 1000] by (simp add: quic_dial_def)

theorem quic_dial_backoff_witness:
  "quic_dial (replicate 9 (StreamError, Fin 0)) = [] \<and> quic_dial (replicate 9 (Handled, Fin 0)) = replicate 9 5000"
proof -
  have "\<forall>(a, r) \<in> set (replicate 9 (q :: quic_attempt, Fin 0)). \<exists>x. r = Fin x \<and> 0 \<le> x \<and> x \<le> 1" for q by (auto intro: exI[of _ 0])
  then show ?thesis using quic_dial_backoff[of "replicate 9 (StreamError, Fin 0)"] quic_dial_backoff[of "replicate 9 (Handled, Fin 0)"] by auto
qed

end
