(* ===== verification/Config.thy ===== *)
theory Config
  imports Text Router_State
begin

text \<open>
  The configuration of a node (\<^verbatim>\<open>config.rs\<close>): its fields and defaults, loading with the check of the file's permissions, the two identities
  taken from it and the port announced by discovery. The TOML reader and the hex decoder are third-party code and arguments here, as are the
  file, the environment variable and fresh randomness.
\<close>

section \<open>The record and its defaults\<close>

record NodeConfig =
  nc_private_key :: "string option"
  nc_ml_dsa_seed :: "string option"
  nc_listen :: "string list"
  nc_peers :: "string list"
  nc_tun_name :: "string option"
  nc_admin_socket :: string
  nc_multicast_enabled :: bool
  nc_multicast_port :: u16
  nc_log_level :: string
  nc_peer_cache_path :: string
  nc_metrics_addr :: string
  nc_min_peer_difficulty_bits :: u32
  nc_mdns_enabled :: bool
  nc_crypto_workers :: u8
  nc_obfuscation_psk :: string
  nc_cover_traffic :: CoverTraffic
  nc_onion_format :: OnionFormat

definition default_listen :: "string list" where "default_listen = [''tcp://0.0.0.0:9001'']"
definition default_tun_name :: "string option" where "default_tun_name = Some ''norn0''"
definition default_admin_socket :: string where "default_admin_socket = ''/var/run/norn.sock''"
definition default_multicast_port :: u16 where "default_multicast_port = 9001"
definition default_log_level :: string where "default_log_level = ''info''"
definition default_peer_cache_path :: string where "default_peer_cache_path = ''/var/lib/norn/peers.json''"
definition default_metrics_addr :: string where "default_metrics_addr = []"

definition NodeConfig_default :: NodeConfig where
  "NodeConfig_default =
     \<lparr>nc_private_key = None, nc_ml_dsa_seed = None, nc_listen = default_listen, nc_peers = [], nc_tun_name = default_tun_name,
      nc_admin_socket = default_admin_socket, nc_multicast_enabled = True, nc_multicast_port = default_multicast_port,
      nc_log_level = default_log_level, nc_peer_cache_path = default_peer_cache_path, nc_metrics_addr = default_metrics_addr,
      nc_min_peer_difficulty_bits = 0, nc_mdns_enabled = True, nc_crypto_workers = 0, nc_obfuscation_psk = [], nc_cover_traffic = CoverLight,
      nc_onion_format = FormatAuto\<rparr>"

section \<open>Loading\<close>

text \<open>The file is looked at twice by its path: \<open>stat\<close> is the mode that \<^verbatim>\<open>metadata\<close> gives, \<open>contents\<close> the text that \<^verbatim>\<open>read_to_string\<close> gives afterwards, each \<open>None\<close> on
  failure (a missing file, a refused permission, text that is not UTF-8).\<close>

definition NodeConfig_load :: "(string \<Rightarrow> NodeConfig option) \<Rightarrow> u32 option \<Rightarrow> string option \<Rightarrow> NodeConfig result" where
  "NodeConfig_load from_toml stat contents =
     (case stat of
        None \<Rightarrow> Inl (Bail ''stat'ing config'')
      | Some file_mode \<Rightarrow>
          let mode = file_mode AND 0x1FF in
          if mode AND 0x3F \<noteq> 0 then Inl (Bail ''refusing to load config: it contains the private key'')
          else case contents of
                 None \<Rightarrow> Inl (Bail ''reading config'')
               | Some text \<Rightarrow>
                   (case from_toml text of
                      None \<Rightarrow> Inl (Bail ''parsing TOML config'')
                    | Some cfg \<Rightarrow> Inr cfg))"

section \<open>Identities\<close>

definition config_signing_key :: "(string \<Rightarrow> bytes option) \<Rightarrow> bool \<Rightarrow> bytes \<Rightarrow> NodeConfig \<Rightarrow> bytes result" where
  "config_signing_key hex_decode allow_ephemeral fresh cfg =
     (case nc_private_key cfg of
        Some hex_key \<Rightarrow>
          (case hex_decode hex_key of
             None \<Rightarrow> Inl (Bail ''decoding private_key hex'')
           | Some bytes \<Rightarrow> if length bytes \<noteq> 32 then Inl (Bail ''private_key must be 32 bytes (64 hex chars)'') else Inr bytes)
      | None \<Rightarrow> if \<not> allow_ephemeral then Inl (Bail ''no private_key in config and NORN_ALLOW_EPHEMERAL_KEY is not set'') else Inr fresh)"

definition ML_DSA_SEED_BYTES :: nat where "ML_DSA_SEED_BYTES = 32"

text \<open>The signer is determined by its seed.\<close>

definition config_pq_signer :: "(string \<Rightarrow> bytes option) \<Rightarrow> bytes \<Rightarrow> NodeConfig \<Rightarrow> bytes result" where
  "config_pq_signer hex_decode fresh cfg =
     (case nc_ml_dsa_seed cfg of
        Some hex_seed \<Rightarrow>
          (case hex_decode hex_seed of
             None \<Rightarrow> Inl (Bail ''decoding ml_dsa_seed hex'')
           | Some bytes \<Rightarrow> if length bytes \<noteq> ML_DSA_SEED_BYTES then Inl (Bail ''ml_dsa_seed must be 32 bytes (64 hex chars)'') else Inr bytes)
      | None \<Rightarrow> Inr fresh)"

section \<open>The announced port\<close>

definition tcp_listen_port :: "NodeConfig \<Rightarrow> u16 option" where
  "tcp_listen_port cfg =
     (case nc_listen cfg of
        [] \<Rightarrow> None
      | uri # _ \<Rightarrow> Option.bind (strip_prefix ''tcp://'' uri) (\<lambda>addr. map_option of_nat (parse_uint 65535 (rsplit_last CHR '':'' addr))))"

section \<open>Properties\<close>

lemma colon_not_in_show_nat: "CHR '':'' \<notin> set (show_nat n)"
proof
  assume "CHR '':'' \<in> set (show_nat n)"
  then obtain d where "d < 10" "CHR '':'' = digit d" using show_nat_digits by blast
  then have "(of_char CHR '':'' :: nat) = 48 + d" by (simp add: of_char_digit)
  then show False using \<open>d < 10\<close> by simp
qed

lemma listen_port_printed:
  assumes "nc_listen cfg = (''tcp://'' @ host @ '':'' @ show_nat (unat p)) # rest"
  shows "tcp_listen_port cfg = Some p"
proof -
  have "unat p \<le> 65535" using unsigned_less[of p, where 'a = nat] by simp
  then have "parse_uint 65535 (show_nat (unat p)) = Some (unat p)" by (rule parse_uint_show)
  moreover have "rsplit_last CHR '':'' (host @ CHR '':'' # show_nat (unat p)) = show_nat (unat p)"
    by (rule rsplit_last_append[OF colon_not_in_show_nat])
  ultimately show ?thesis using assms by (simp add: tcp_listen_port_def strip_prefix_def)
qed

lemma mode_bits: "(mode AND 0x1FF) AND 0x3F = (mode AND 0x3F :: u32)"
proof -
  have "(0x1FF AND 0x3F :: u32) = 0x3F" by code_simp
  then show ?thesis by (simp add: and.assoc)
qed

text \<open>C29. What a configuration is refused for. It is loaded exactly if the file has no permission for group or others when it is looked at, it can then be
  read, and the reader accepts the text; a file with such a permission is refused whatever it contains. A private key or an ML-DSA seed that is present but is not thirty-two bytes of
  hex is an error, never a silently different identity; a key or seed printed in hex is the identity. The two differ when they are absent: a missing private key
  is an error unless ephemeral keys are explicitly allowed, and then it is fresh; a missing seed is never an error but gives a fresh one. The port
  of the first address to listen on is read back.\<close>

theorem config_checks:
  assumes "\<forall>b. hex_decode (hex_encode b) = Some b" "length key = 32"
  shows "(NodeConfig_load from_toml stat contents = Inr cfg' \<longleftrightarrow>
      (\<exists>mode text. stat = Some mode \<and> mode AND 0x3F = 0 \<and> contents = Some text \<and> from_toml text = Some cfg')) \<and>
    (mode AND 0x3F \<noteq> 0 \<longrightarrow> NodeConfig_load from_toml (Some mode) contents = Inl (Bail ''refusing to load config: it contains the private key'')) \<and>
    (\<forall>k. nc_private_key cfg \<noteq> None \<and> config_signing_key hex_decode allow fresh cfg = Inr k \<longrightarrow> length k = 32 \<and> Option.bind (nc_private_key cfg) hex_decode = Some k) \<and>
    (\<forall>h. Option.bind (hex_decode h) (\<lambda>b. if length b = 32 then Some b else None) = None \<longrightarrow>
      (\<exists>e e'. config_signing_key hex_decode allow fresh (cfg\<lparr>nc_private_key := Some h\<rparr>) = Inl (Bail e) \<and>
        config_pq_signer hex_decode fresh (cfg\<lparr>nc_ml_dsa_seed := Some h\<rparr>) = Inl (Bail e'))) \<and>
    config_signing_key hex_decode allow fresh (cfg\<lparr>nc_private_key := Some (hex_encode key)\<rparr>) = Inr key \<and>
    (\<exists>e. config_signing_key hex_decode False fresh (cfg\<lparr>nc_private_key := None\<rparr>) = Inl (Bail e)) \<and>
    config_signing_key hex_decode True fresh (cfg\<lparr>nc_private_key := None\<rparr>) = Inr fresh \<and>
    (\<forall>s. nc_ml_dsa_seed cfg \<noteq> None \<and> config_pq_signer hex_decode fresh cfg = Inr s \<longrightarrow> length s = 32 \<and> Option.bind (nc_ml_dsa_seed cfg) hex_decode = Some s) \<and>
    config_pq_signer hex_decode fresh (cfg\<lparr>nc_ml_dsa_seed := Some (hex_encode key)\<rparr>) = Inr key \<and>
    config_pq_signer hex_decode fresh (cfg\<lparr>nc_ml_dsa_seed := None\<rparr>) = Inr fresh \<and>
    tcp_listen_port (cfg\<lparr>nc_listen := (''tcp://'' @ host @ '':'' @ show_nat (unat p)) # rest\<rparr>) = Some p"
proof (intro conjI)
  show "tcp_listen_port (cfg\<lparr>nc_listen := (''tcp://'' @ host @ '':'' @ show_nat (unat p)) # rest\<rparr>) = Some p"
    by (rule listen_port_printed[of _ host p rest]) simp
qed (use assms in \<open>auto simp: NodeConfig_load_def config_signing_key_def config_pq_signer_def ML_DSA_SEED_BYTES_def mode_bits Let_def split: option.splits if_splits\<close>)

text \<open>A hex codec of the kind assumed.\<close>

definition hex_value :: "char \<Rightarrow> nat option" where
  "hex_value c = (let n = of_char c :: nat in
     if 48 \<le> n \<and> n \<le> 57 then Some (n - 48) else if 97 \<le> n \<and> n \<le> 102 then Some (n - 87)
     else if 65 \<le> n \<and> n \<le> 70 then Some (n - 55) else None)"

definition ex_hex_encode :: "bytes \<Rightarrow> string" where
  "ex_hex_encode = concat \<circ> map (\<lambda>b. [hex_digit (unat b div 16), hex_digit (unat b mod 16)])"

fun ex_hex_decode :: "string \<Rightarrow> bytes option" where
  "ex_hex_decode (c # d # s) = Option.bind (hex_value c) (\<lambda>h. Option.bind (hex_value d) (\<lambda>l. map_option (Cons (of_nat (16 * h + l))) (ex_hex_decode s)))"
| "ex_hex_decode [] = Some []"
| "ex_hex_decode [c] = None"

lemma hex_value_digit: "n < 16 \<Longrightarrow> hex_value (hex_digit n) = Some n"
  by (auto simp: hex_value_def hex_digit_def Let_def)

lemma ex_hex: "ex_hex_decode (ex_hex_encode b) = Some b"
proof (induction b)
  case (Cons w b)
  have "unat w < 256" using unsigned_less[of w, where 'a = nat] by simp
  then have "unat w div 16 < 16" by linarith
  moreover have "(of_nat (16 * (unat w div 16) + unat w mod 16) :: u8) = w" by simp
  ultimately show ?case using Cons by (simp add: ex_hex_encode_def hex_value_digit del: of_nat_add of_nat_mult)
qed (simp add: ex_hex_encode_def)

theorem config_checks_witness:
  "config_signing_key ex_hex_decode False [] (NodeConfig_default\<lparr>nc_private_key := Some (ex_hex_encode (replicate 32 7))\<rparr>) = Inr (replicate 32 7) \<and>
   tcp_listen_port (NodeConfig_default\<lparr>nc_listen := [''tcp://'' @ ''0.0.0.0'' @ '':'' @ show_nat (unat (9001 :: u16))]\<rparr>) = Some 9001 \<and>
   NodeConfig_load (\<lambda>_. Some NodeConfig_default) (Some 0x8180) (Some []) = Inr NodeConfig_default"
proof -
  have h: "\<forall>b. ex_hex_decode (ex_hex_encode b) = Some b" "length (replicate 32 (7 :: u8)) = 32" by (simp_all add: ex_hex)
  from config_checks[OF h, where cfg = NodeConfig_default and allow = False and fresh = "[]" and host = "''0.0.0.0''" and p = 9001 and rest = "[]" and
      from_toml = "\<lambda>_. Some NodeConfig_default" and stat = "Some 0x8180" and contents = "Some []" and cfg' = NodeConfig_default]
  have *: "config_signing_key ex_hex_decode False [] (NodeConfig_default\<lparr>nc_private_key := Some (ex_hex_encode (replicate 32 7))\<rparr>) = Inr (replicate 32 7)"
    "tcp_listen_port (NodeConfig_default\<lparr>nc_listen := [''tcp://'' @ ''0.0.0.0'' @ '':'' @ show_nat (unat (9001 :: u16))]\<rparr>) = Some 9001"
    "NodeConfig_load (\<lambda>_. Some NodeConfig_default) (Some 0x8180) (Some []) = Inr NodeConfig_default \<longleftrightarrow>
      (\<exists>mode text. Some (0x8180 :: u32) = Some mode \<and> mode AND 0x3F = 0 \<and> Some ([] :: string) = Some text \<and> Some NodeConfig_default = Some NodeConfig_default)"
    by blast+
  have "(0x8180 :: u32) AND 0x3F = 0" by code_simp
  then show ?thesis using * by simp
qed

end
