(* ===== verification/Discovery.thy ===== *)
theory Discovery
  imports Tun Quic Config
begin

text \<open>
  Discovery of peers on the local network: the multicast beacons of \<^verbatim>\<open>discovery.rs\<close> and the service records of \<^verbatim>\<open>mdns.rs\<close>. Sockets and the mDNS
  library are third-party code: a received datagram with its source and a resolved service are arguments; the result is the URI that is given
  to \<^verbatim>\<open>dial_discovered\<close>, or nothing.
\<close>

section \<open>Addresses\<close>

datatype ip_addr = V4 bytes | V6 bytes

definition to_ipv6_mapped :: "bytes \<Rightarrow> bytes" where
  "to_ipv6_mapped ip = replicate 10 0 @ [0xFF, 0xFF] @ ip"

definition is_loopback :: "bytes \<Rightarrow> bool" where
  "is_loopback ip \<longleftrightarrow> ip = replicate 15 0 @ [1]"

section \<open>Beacons\<close>

definition BEACON_MAGIC :: bytes where "BEACON_MAGIC = ascii ''NORN''"

definition beacon :: "bytes \<Rightarrow> u16 \<Rightarrow> bytes" where
  "beacon own_pub port = BEACON_MAGIC @ own_pub @ le_bytes 2 port"

definition beacon_uri :: "ip_addr \<Rightarrow> u16 \<Rightarrow> string" where
  "beacon_uri src port =
     (let src_ip = (case src of V6 ip \<Rightarrow> ip | V4 ip \<Rightarrow> to_ipv6_mapped ip);
          src_ip_str = (if is_loopback src_ip then ''127.0.0.1'' else ipv6_string src_ip) in
      ''tcp://['' @ src_ip_str @ '']:'' @ show_nat (unat port))"

text \<open>The body of the receiver's loop; the buffer takes the first 256 bytes of a datagram.\<close>

definition handle_beacon :: "bytes \<Rightarrow> PeerStats list \<Rightarrow> bytes \<Rightarrow> ip_addr \<Rightarrow> string option" where
  "handle_beacon own_pub peers datagram src =
     (let data = take 256 datagram in
      if length data < 4 + 32 + 2 \<or> take 4 data \<noteq> BEACON_MAGIC then None
      else let remote_pub = take 32 (drop 4 data); port = from_le [data ! 36, data ! 37] in
      if remote_pub = own_pub then None
      else if \<exists>p \<in> set peers. ps_key p = remote_pub then None
      else Some (beacon_uri src port))"

section \<open>Services\<close>

definition SERVICE_TYPE :: string where "SERVICE_TYPE = ''_norn._tcp.local.''"
definition TXT_PUB_KEY :: string where "TXT_PUB_KEY = ''pub_key''"

text \<open>A resolved service: its text records, its port and its addresses in the order of the set's iteration.\<close>

record ServiceInfo =
  sv_properties :: "(string \<times> string) list"
  sv_port :: u16
  sv_addresses :: "ip_addr list"

definition instance_name :: "string \<Rightarrow> string" where
  "instance_name our_pub_hex = ''norn-'' @ take 8 our_pub_hex"

definition is_ipv6 :: "ip_addr \<Rightarrow> bool" where
  "is_ipv6 a = (case a of V6 _ \<Rightarrow> True | V4 _ \<Rightarrow> False)"

definition service_uri :: "ip_addr \<Rightarrow> u16 \<Rightarrow> string" where
  "service_uri a port =
     (case a of
        V4 v4 \<Rightarrow> ''tcp://'' @ show_ipv4 v4 @ '':'' @ show_nat (unat port)
      | V6 v6 \<Rightarrow> ''tcp://['' @ ipv6_string v6 @ '']:'' @ show_nat (unat port))"

definition choose_addr :: "ip_addr list \<Rightarrow> ip_addr option" where
  "choose_addr addrs =
     (case addrs of [] \<Rightarrow> None
      | first # _ \<Rightarrow> Some (case find is_ipv6 addrs of Some a \<Rightarrow> a | None \<Rightarrow> first))"

definition handle_event :: "(string \<Rightarrow> bytes option) \<Rightarrow> string \<Rightarrow> (bytes \<times> nat) list \<Rightarrow> ServiceInfo \<Rightarrow> string option" where
  "handle_event hex_decode our_pub_hex links info =
     (case map_of (sv_properties info) TXT_PUB_KEY of None \<Rightarrow> None
      | Some pub_hex \<Rightarrow>
          if pub_hex = our_pub_hex then None
          else case hex_decode pub_hex of None \<Rightarrow> None
          | Some pub_bytes \<Rightarrow>
              if length pub_bytes \<noteq> 32 then None
              else if map_of links pub_bytes \<noteq> None then None
              else case choose_addr (sv_addresses info) of None \<Rightarrow> None
              | Some addr_choice \<Rightarrow> Some (service_uri addr_choice (sv_port info)))"

definition label_char :: "char \<Rightarrow> bool" where
  "label_char c = (let n = of_char c :: nat in
     48 \<le> n \<and> n \<le> 57 \<or> 65 \<le> n \<and> n \<le> 90 \<or> 97 \<le> n \<and> n \<le> 122 \<or> c = CHR ''-'')"

definition hostname_label :: "string \<Rightarrow> string" where
  "hostname_label raw = (let cleaned = filter label_char raw in if cleaned = [] then ''norn'' else cleaned)"

section \<open>Properties\<close>

lemma choose_addr_Some:
  assumes "choose_addr addrs = Some a"
  shows "a \<in> set addrs \<and> (is_ipv6 a \<or> (\<forall>x \<in> set addrs. \<not> is_ipv6 x))"
proof (cases "find is_ipv6 addrs")
  case None
  then have "a \<in> set addrs" using assms by (cases addrs) (auto simp: choose_addr_def simp del: find.simps)
  then show ?thesis using None by (auto simp: find_None_iff)
next
  case (Some b)
  then have "a = b" using assms by (cases addrs) (auto simp: choose_addr_def simp del: find.simps)
  then show ?thesis using Some by (auto simp: find_Some_iff)
qed

lemma length_beacon_magic [simp]: "length BEACON_MAGIC = 4"
  by (simp add: BEACON_MAGIC_def)

lemma from_le_two_bytes: "length bs = 2 \<Longrightarrow> bs = le_bytes 2 (from_le bs :: u16)"
  using le_bytes_from_le[of bs, where 'a = 16] by simp

lemma handle_beacon_shape:
  assumes "handle_beacon own_pub peers datagram src = Some u"
  obtains k port rest where "take 256 datagram = BEACON_MAGIC @ k @ le_bytes 2 port @ rest" "length k = 32" "k \<noteq> own_pub"
    "\<forall>p \<in> set peers. ps_key p \<noteq> k" "u = beacon_uri src port"
proof -
  let ?d = "take 256 datagram"
  have l: "38 \<le> length ?d" "take 4 ?d = BEACON_MAGIC" using assms by (auto simp: handle_beacon_def Let_def split: if_splits)
  let ?k = "take 32 (drop 4 ?d)" and ?p = "from_le [?d ! 36, ?d ! 37] :: u16"
  have two: "take 2 (drop 36 ?d) = [?d ! 36, ?d ! 37]" using l(1) by (simp add: numeral_2_eq_2 take_Suc_conv_app_nth)
  have cut: "drop n xs = take m (drop n xs) @ drop (n + m) xs" for n m and xs :: bytes
    using append_take_drop_id[of m "drop n xs"] by (simp add: add.commute)
  have "?d = take 4 ?d @ ?k @ take 2 (drop 36 ?d) @ drop 38 ?d" using cut[of 0 ?d 4] cut[of 4 ?d 32] cut[of 36 ?d 2] by simp
  moreover have "take 2 (drop 36 ?d) = le_bytes 2 ?p" unfolding two by (rule from_le_two_bytes) simp
  ultimately have "?d = BEACON_MAGIC @ ?k @ le_bytes 2 ?p @ drop 38 ?d" using l(2) by metis
  then show ?thesis using that[of ?k ?p "drop 38 ?d"] assms l by (auto simp: handle_beacon_def Let_def split: if_splits)
qed

text \<open>C28. Who is dialled. The beacon of a node that is neither this one nor connected makes it dial the source of the datagram at the announced port;
  its own beacons, beacons of connected peers and every datagram that is not a beacon are ignored; and nothing else is ever dialled.
  A service record is dialled exactly when its key is given by a text that differs from the text of this node's key, decodes to 32 bytes and has
  no link, at one of its addresses, an IPv6 one when there is any. Only the texts are compared: a record that spells this node's own key another way, in upper
  case say, is dialled. The address handed to the connection is that of the source or of the record with the port, IPv6 in brackets, an IPv4 source of a
  beacon as a mapped IPv6 address. A beacon from the loopback address is the exception: it yields an IPv4 address in brackets, which is not a socket address.\<close>

theorem discovery_dials:
  assumes "length k = 32"
  shows "handle_beacon own peers (beacon k port) src =
      (if k = own \<or> (\<exists>p \<in> set peers. ps_key p = k) then None else Some (beacon_uri src port)) \<and>
    (\<forall>datagram u. handle_beacon own peers datagram src = Some u \<longrightarrow>
      (\<exists>k port rest. take 256 datagram = beacon k port @ rest \<and> length k = 32 \<and> k \<noteq> own \<and> (\<forall>p \<in> set peers. ps_key p \<noteq> k) \<and> u = beacon_uri src port)) \<and>
    (\<forall>u. handle_event hex_decode own_hex links info = Some u \<longleftrightarrow>
      (\<exists>h b a. map_of (sv_properties info) TXT_PUB_KEY = Some h \<and> h \<noteq> own_hex \<and> hex_decode h = Some b \<and> length b = 32 \<and> map_of links b = None \<and>
        choose_addr (sv_addresses info) = Some a \<and> a \<in> set (sv_addresses info) \<and> (is_ipv6 a \<or> (\<forall>x \<in> set (sv_addresses info). \<not> is_ipv6 x)) \<and>
        u = service_uri a (sv_port info))) \<and>
    (choose_addr addrs = None \<longleftrightarrow> addrs = []) \<and>
    (\<forall>h b. map_of (sv_properties info) TXT_PUB_KEY = Some h \<and> h \<noteq> own_hex \<and> hex_decode h = Some b \<and> hex_decode own_hex = Some b \<and> length b = 32 \<and>
      map_of links b = None \<and> sv_addresses info \<noteq> [] \<longrightarrow> handle_event hex_decode own_hex links info \<noteq> None) \<and>
    parse_tcp_uri (service_uri (V4 ip) port) = Inr (show_ipv4 ip @ '':'' @ show_nat (unat port)) \<and>
    parse_tcp_uri (service_uri (V6 ip) port) = Inr (''['' @ ipv6_string ip @ '']:'' @ show_nat (unat port)) \<and>
    parse_tcp_uri (beacon_uri (V4 ip) port) = Inr (''['' @ ipv6_string (to_ipv6_mapped ip) @ '']:'' @ show_nat (unat port)) \<and>
    parse_tcp_uri (beacon_uri (V6 ip) port) =
      Inr ((if is_loopback ip then ''[127.0.0.1]:'' else ''['' @ ipv6_string ip @ '']:'') @ show_nat (unat port))"
proof (intro conjI allI impI)
  have b: "take 256 (beacon k port) = beacon k port" using assms by (simp add: beacon_def)
  have p: "from_le [beacon k port ! 36, beacon k port ! 37] = port"
  proof -
    have "[beacon k port ! 36, beacon k port ! 37] = le_bytes 2 port" using assms by (simp add: beacon_def nth_append le_bytes_def upt_rec)
    then show ?thesis by (simp add: from_le_le_bytes)
  qed
  show "handle_beacon own peers (beacon k port) src = (if k = own \<or> (\<exists>p \<in> set peers. ps_key p = k) then None else Some (beacon_uri src port))"
  proof -
    have "length (beacon k port) = 38" "take 4 (beacon k port) = BEACON_MAGIC" "take 32 (drop 4 (beacon k port)) = k"
      using assms by (simp_all add: beacon_def)
    then show ?thesis unfolding handle_beacon_def Let_def b p by simp
  qed
  show "\<exists>k port rest. take 256 datagram = beacon k port @ rest \<and> length k = 32 \<and> k \<noteq> own \<and> (\<forall>p \<in> set peers. ps_key p \<noteq> k) \<and> u = beacon_uri src port"
    if h: "handle_beacon own peers datagram src = Some u" for datagram u
  proof -
    obtain k port rest where "take 256 datagram = BEACON_MAGIC @ k @ le_bytes 2 port @ rest" "length k = 32" "k \<noteq> own"
      "\<forall>p \<in> set peers. ps_key p \<noteq> k" "u = beacon_uri src port" by (rule handle_beacon_shape[OF h])
    then show ?thesis by (intro exI[of _ k] exI[of _ port] exI[of _ rest]) (simp add: beacon_def)
  qed
  show "handle_event hex_decode own_hex links info = Some u \<longleftrightarrow>
      (\<exists>h b a. map_of (sv_properties info) TXT_PUB_KEY = Some h \<and> h \<noteq> own_hex \<and> hex_decode h = Some b \<and> length b = 32 \<and> map_of links b = None \<and>
        choose_addr (sv_addresses info) = Some a \<and> a \<in> set (sv_addresses info) \<and> (is_ipv6 a \<or> (\<forall>x \<in> set (sv_addresses info). \<not> is_ipv6 x)) \<and>
        u = service_uri a (sv_port info))" for u
    using choose_addr_Some[of "sv_addresses info"] by (auto simp: handle_event_def split: option.splits)
  show "choose_addr addrs = None \<longleftrightarrow> addrs = []" by (simp add: choose_addr_def split: list.split)
  show "handle_event hex_decode own_hex links info \<noteq> None"
    if "map_of (sv_properties info) TXT_PUB_KEY = Some h \<and> h \<noteq> own_hex \<and> hex_decode h = Some b \<and> hex_decode own_hex = Some b \<and> length b = 32 \<and>
      map_of links b = None \<and> sv_addresses info \<noteq> []" for h b
    using that by (auto simp: handle_event_def choose_addr_def split: option.split list.splits)
  have m: "\<not> is_loopback (to_ipv6_mapped ip)"
  proof
    assume "is_loopback (to_ipv6_mapped ip)"
    then have "to_ipv6_mapped ip ! 10 = (replicate 15 0 @ [1]) ! 10" by (simp add: is_loopback_def)
    then show False by (simp add: to_ipv6_mapped_def nth_append)
  qed
  show "parse_tcp_uri (service_uri (V4 ip) port) = Inr (show_ipv4 ip @ '':'' @ show_nat (unat port))"
    "parse_tcp_uri (service_uri (V6 ip) port) = Inr (''['' @ ipv6_string ip @ '']:'' @ show_nat (unat port))"
    by (simp_all add: parse_tcp_uri_def service_uri_def)
  show "parse_tcp_uri (beacon_uri (V4 ip) port) = Inr (''['' @ ipv6_string (to_ipv6_mapped ip) @ '']:'' @ show_nat (unat port))"
    "parse_tcp_uri (beacon_uri (V6 ip) port) = Inr ((if is_loopback ip then ''[127.0.0.1]:'' else ''['' @ ipv6_string ip @ '']:'') @ show_nat (unat port))"
    using m by (simp_all add: parse_tcp_uri_def beacon_uri_def Let_def)
qed

theorem discovery_dials_witness:
  "handle_beacon (replicate 32 1) [] (beacon (replicate 32 2) 9001) (V6 (2 # replicate 14 0 @ [1])) = Some (''tcp://[200::1]:'' @ show_nat 9001) \<and>
   handle_event ex_hex_decode (concat (replicate 32 ''ab'')) []
     \<lparr>sv_properties = [(TXT_PUB_KEY, concat (replicate 32 ''AB''))], sv_port = 9001, sv_addresses = [V4 [10, 0, 0, 1]]\<rparr> \<noteq> None"
proof -
  define own up where "own = concat (replicate 32 ''ab'')" and "up = concat (replicate 32 ''AB'')"
  let ?i = "\<lparr>sv_properties = [(TXT_PUB_KEY, up)], sv_port = 9001, sv_addresses = [V4 [10, 0, 0, 1]]\<rparr>"
  have "\<not> is_loopback (2 # replicate 14 0 @ [1])" by code_simp
  moreover have "unat (9001 :: u16) = 9001" by simp
  ultimately have u: "beacon_uri (V6 (2 # replicate 14 0 @ [1])) 9001 = ''tcp://[200::1]:'' @ show_nat 9001"
    using ipv6_string_examples(3) by (simp add: beacon_uri_def)
  have h: "ex_hex_decode up = Some (replicate 32 0xAB)" "ex_hex_decode own = Some (replicate 32 0xAB)" "up \<noteq> own"
    unfolding own_def up_def by code_simp+
  note D = discovery_dials[of "replicate 32 2" "replicate 32 1" "[]" 9001 "V6 (2 # replicate 14 0 @ [1])" ex_hex_decode own "[]" ?i "[]" "[]"]
  have "handle_beacon (replicate 32 1) [] (beacon (replicate 32 2) 9001) (V6 (2 # replicate 14 0 @ [1])) = Some (''tcp://[200::1]:'' @ show_nat 9001)"
    using D u by (simp add: replicate_eq_replicate)
  moreover have "handle_event ex_hex_decode own [] ?i \<noteq> None" using D h by (simp, blast)
  ultimately show ?thesis unfolding own_def up_def by blast
qed

end
