(* ===== verification/Peer_Cache.thy ===== *)
theory Peer_Cache
  imports Config
begin

text \<open>
  The cache of known peers on disk (\<^verbatim>\<open>peercache.rs\<close>). The file system is the map from paths to modes and contents of the files that can be read; saving
  gives its result and the sequence of states that other processes can observe, one after each system call and after every byte written. Which of the system
  calls succeed is an argument. The states are in the order of the calls; nothing here speaks of what a power failure leaves on the medium, since
  the code does not flush the file before it renames it. The JSON and hex codecs are third-party code and arguments.
\<close>

section \<open>Definitions\<close>

record PeerRecord =
  pub_key_hex :: string
  uri :: string
  last_seen_ms :: u64

record PeerCacheFile =
  version :: u32
  peers :: "PeerRecord list"

definition default_version :: u32 where "default_version = 1"

record PeerCache =
  path :: string
  entries :: "(string \<times> PeerRecord) list"

type_synonym fs = "string \<Rightarrow> (u32 \<times> string) option"

text \<open>Thirty days in milliseconds.\<close>

definition DEFAULT_MAX_AGE :: u64 where "DEFAULT_MAX_AGE = 30 * 24 * 60 * 60 * 1000"

definition load_with_max_age :: "(string \<Rightarrow> PeerCacheFile option) \<Rightarrow> u64 \<Rightarrow> string \<Rightarrow> u64 \<Rightarrow> fs \<Rightarrow> PeerCache" where
  "load_with_max_age from_json now_ms p max_age disk =
     (let entries = (case disk p of
          None \<Rightarrow> []
        | Some (_, contents) \<Rightarrow>
            (case from_json contents of
               None \<Rightarrow> []
             | Some file \<Rightarrow>
                 let cutoff_ms = saturating_sub now_ms max_age in
                 fold (\<lambda>r. AList.update (pub_key_hex r) r) (filter (\<lambda>r. cutoff_ms \<le> last_seen_ms r) (peers file)) [])) in
      \<lparr>path = p, entries = entries\<rparr>)"

definition PeerCache_load :: "(string \<Rightarrow> PeerCacheFile option) \<Rightarrow> u64 \<Rightarrow> string \<Rightarrow> fs \<Rightarrow> PeerCache" where
  "PeerCache_load from_json now_ms p disk = load_with_max_age from_json now_ms p DEFAULT_MAX_AGE disk"

definition PeerCache_len :: "PeerCache \<Rightarrow> nat" where
  "PeerCache_len c = length (entries c)"

definition uris :: "PeerCache \<Rightarrow> string list" where
  "uris c = map (\<lambda>(_, r). uri r) (entries c)"

definition cache_record :: "(bytes \<Rightarrow> string) \<Rightarrow> u64 \<Rightarrow> bytes \<Rightarrow> string \<Rightarrow> PeerCache \<Rightarrow> PeerCache" where
  "cache_record hex_encode now_ms pub_key u c =
     (let k = hex_encode pub_key in
      c\<lparr>entries := AList.update k \<lparr>pub_key_hex = k, uri = u, last_seen_ms = now_ms\<rparr> (entries c)\<rparr>)"

text \<open>\<^verbatim>\<open>with_extension("tmp")\<close> on a path whose last component is a file name: what follows the last dot of the name is replaced; a name whose only dot is
  its first character has no extension.\<close>

definition file_name :: "string \<Rightarrow> string" where
  "file_name p = rsplit_last CHR ''/'' p"

definition file_stem :: "string \<Rightarrow> string" where
  "file_stem name =
     (let ext = rsplit_last CHR ''.'' name in
      if length ext + 1 < length name then take (length name - (length ext + 1)) name else name)"

definition tmp_path :: "string \<Rightarrow> string" where
  "tmp_path p = take (length p - length (file_name p)) p @ file_stem (file_name p) @ ''.tmp''"

text \<open>Which system calls of a save succeed: the directory is created, the temporary file is opened (\<open>None\<close> if not) and takes so many bytes before the device
  refuses more, its mode is changed, it is renamed. An existing file keeps its mode when it is opened and truncated; a new one has the mode that the umask leaves.\<close>

record save_io =
  io_create_dir :: bool
  io_write :: "nat option"
  io_chmod :: bool
  io_rename :: bool

datatype save_error = SerializingPeerCache | CreatingPeerCacheDir | WritingPeerCacheTmp | RenamingPeerCache

definition fs_rename :: "string \<Rightarrow> string \<Rightarrow> fs \<Rightarrow> fs" where
  "fs_rename a b disk = (if a = b then disk else (disk(b := disk a))(a := None))"

definition tmp_mode :: "u32 \<Rightarrow> string \<Rightarrow> fs \<Rightarrow> u32" where
  "tmp_mode umask_mode tmp disk = (case disk tmp of Some (m, _) \<Rightarrow> m | None \<Rightarrow> umask_mode)"

text \<open>The result and the states of the disk: before, after every byte of the temporary file, with its mode changed, after the renaming. A failed change of
  the mode is ignored.\<close>

definition save :: "(PeerCacheFile \<Rightarrow> string option) \<Rightarrow> u32 \<Rightarrow> save_io \<Rightarrow> PeerCache \<Rightarrow> fs \<Rightarrow> (save_error + unit) \<times> fs list" where
  "save to_json umask_mode io c disk =
     (case to_json \<lparr>version = default_version, peers = map snd (entries c)\<rparr> of
        None \<Rightarrow> (Inl SerializingPeerCache, [disk])
      | Some json \<Rightarrow>
          if \<not> io_create_dir io then (Inl CreatingPeerCacheDir, [disk])
          else let tmp = tmp_path (path c);
                   mode = tmp_mode umask_mode tmp disk in
            case io_write io of
              None \<Rightarrow> (Inl WritingPeerCacheTmp, [disk])
            | Some n \<Rightarrow>
                let written = map (\<lambda>i. disk(tmp \<mapsto> (mode, take i json))) [0..<Suc (min n (length json))] in
                if n < length json then (Inl WritingPeerCacheTmp, [disk] @ written)
                else let narrowed = disk(tmp \<mapsto> (if io_chmod io then 0x180 else mode, json)) in
                  if \<not> io_rename io then (Inl RenamingPeerCache, [disk] @ written @ [narrowed])
                  else (Inr (), [disk] @ written @ [narrowed, fs_rename tmp (path c) narrowed]))"

section \<open>The cache\<close>

text \<open>Every record is stored under its own key, each key once.\<close>

definition cache_ok :: "PeerCache \<Rightarrow> bool" where
  "cache_ok c \<longleftrightarrow> distinct (map fst (entries c)) \<and> (\<forall>(k, r) \<in> set (entries c). pub_key_hex r = k)"

lemma map_of_updates:
  "map_of (fold (\<lambda>r. AList.update (pub_key_hex r) r) rs es) k =
     (case map_of (rev (map (\<lambda>r. (pub_key_hex r, r)) rs)) k of Some r \<Rightarrow> Some r | None \<Rightarrow> map_of es k)"
  by (induction rs arbitrary: es) (auto simp: map_add_def split: option.splits)

lemma set_update_subset: "set (AList.update k v es) \<subseteq> insert (k, v) (set es)"
  by (induction es) auto

lemma updates_ok:
  "distinct (map fst es) \<and> (\<forall>(k, r) \<in> set es. pub_key_hex r = k) \<Longrightarrow>
   distinct (map fst (fold (\<lambda>r. AList.update (pub_key_hex r) r) rs es)) \<and>
   (\<forall>(k, r) \<in> set (fold (\<lambda>r. AList.update (pub_key_hex r) r) rs es). pub_key_hex r = k)"
proof (induction rs arbitrary: es)
  case (Cons r rs)
  have "distinct (map fst (AList.update (pub_key_hex r) r es))" using Cons.prems by (simp add: distinct_update)
  moreover have "\<forall>(k, r') \<in> set (AList.update (pub_key_hex r) r es). pub_key_hex r' = k"
    using Cons.prems set_update_subset[of "pub_key_hex r" r es] by auto
  ultimately show ?case using Cons.IH by simp
qed simp

lemma load_ok: "cache_ok (load_with_max_age from_json now_ms p max_age disk)"
  using updates_ok[of "[]"] by (auto simp: load_with_max_age_def cache_ok_def Let_def split: option.split)

lemma record_ok: "cache_ok c \<Longrightarrow> cache_ok (cache_record hex_encode now_ms k u c)"
  using updates_ok[of "entries c" "[\<lparr>pub_key_hex = hex_encode k, uri = u, last_seen_ms = now_ms\<rparr>]"]
  by (simp add: cache_ok_def cache_record_def Let_def)

lemma map_of_filter_snd:
  assumes "distinct (map fst es)"
  shows "map_of (filter (\<lambda>e. P (snd e)) es) k = (case map_of es k of Some r \<Rightarrow> if P r then Some r else None | None \<Rightarrow> None)"
  using assms
proof (induction es)
  case (Cons e es)
  obtain a b where e: "e = (a, b)" by (cases e)
  have IH: "map_of (filter (\<lambda>e. P (snd e)) es) k = (case map_of es k of Some r \<Rightarrow> if P r then Some r else None | None \<Rightarrow> None)" using Cons by simp
  have "map_of es a = None" using Cons.prems e by (simp add: map_of_eq_None_iff)
  then show ?case using IH by (cases "k = a") (simp_all add: e)
qed simp

lemma map_of_rev_distinct:
  assumes "distinct (map fst es)"
  shows "map_of (rev es) k = map_of es k"
proof -
  have "map_of (rev es) = map_of es" using assms by (subst map_of_inject_set) (simp_all add: rev_map[symmetric])
  then show ?thesis by simp
qed

lemma load_entries:
  fixes c :: PeerCache
  defines "file \<equiv> \<lparr>version = default_version, peers = map snd (entries c)\<rparr>"
  assumes "disk p = Some (m, contents)" "from_json contents = Some file" "cache_ok c"
  shows "map_of (entries (load_with_max_age from_json now_ms p max_age disk)) k =
    (case map_of (entries c) k of Some r \<Rightarrow> if saturating_sub now_ms max_age \<le> last_seen_ms r then Some r else None | None \<Rightarrow> None)"
proof -
  let ?P = "\<lambda>r. saturating_sub now_ms max_age \<le> last_seen_ms r"
  have *: "map (\<lambda>r. (pub_key_hex r, r)) (filter ?P (map snd es)) = filter (\<lambda>e. ?P (snd e)) es"
    if "\<forall>(k, r) \<in> set es. pub_key_hex r = k" for es using that by (induction es) auto
  have keyed: "map (\<lambda>r. (pub_key_hex r, r)) (filter ?P (map snd (entries c))) = filter (\<lambda>e. ?P (snd e)) (entries c)"
    by (rule *) (use assms(4) in \<open>simp add: cache_ok_def\<close>)
  have d: "distinct (map fst (entries c))" using assms(4) by (simp add: cache_ok_def)
  have "entries (load_with_max_age from_json now_ms p max_age disk) = fold (\<lambda>r. AList.update (pub_key_hex r) r) (filter ?P (map snd (entries c))) []"
    using assms(2,3) by (simp add: load_with_max_age_def file_def Let_def)
  then have "map_of (entries (load_with_max_age from_json now_ms p max_age disk)) k = map_of (rev (filter (\<lambda>e. ?P (snd e)) (entries c))) k"
    by (simp only: map_of_updates keyed) (simp split: option.split)
  also have "\<dots> = map_of (filter (\<lambda>e. ?P (snd e)) (entries c)) k" by (rule map_of_rev_distinct) (rule distinct_map_filter[OF d])
  also have "\<dots> = (case map_of (entries c) k of Some r \<Rightarrow> if ?P r then Some r else None | None \<Rightarrow> None)" by (rule map_of_filter_snd[OF d])
  finally show ?thesis .
qed

text \<open>What a save does to the cache file.\<close>

lemma save_cases:
  assumes "save to_json umask_mode io c disk = (res, states)" "to_json \<lparr>version = default_version, peers = map snd (entries c)\<rparr> = Some s"
  shows "res = Inr () \<longleftrightarrow> io_create_dir io \<and> (\<exists>n. io_write io = Some n \<and> length s \<le> n) \<and> io_rename io"
    "tmp_path (path c) \<noteq> path c \<Longrightarrow> st \<in> set states \<Longrightarrow> st (path c) = disk (path c) \<or> res = Inr () \<and> st (path c) = last states (path c)"
    "tmp_path (path c) \<noteq> path c \<Longrightarrow> res = Inr () \<Longrightarrow> last states (tmp_path (path c)) = None"
    "res = Inr () \<Longrightarrow> last states (path c) = Some (if io_chmod io then 0x180 else tmp_mode umask_mode (tmp_path (path c)) disk, s)"
  using assms by (auto simp: save_def fs_rename_def Let_def split: if_splits option.splits)

lemma save_truncates:
  assumes "save to_json umask_mode io c disk = (res, states)" "to_json \<lparr>version = default_version, peers = map snd (entries c)\<rparr> = Some s"
    "io_create_dir io" "io_write io = Some n"
  shows "disk(tmp_path (path c) \<mapsto> (tmp_mode umask_mode (tmp_path (path c)) disk, [])) \<in> set states"
proof -
  let ?w = "\<lambda>i. disk(tmp_path (path c) \<mapsto> (tmp_mode umask_mode (tmp_path (path c)) disk, take i s))"
  have "?w 0 \<in> ?w ` {0..<Suc (min n (length s))}" by (rule imageI) simp
  then show ?thesis using assms by (auto simp: save_def Let_def simp del: upt_Suc fun_upd_apply split: if_splits)
qed

section \<open>Properties\<close>


text \<open>A codec of the kind assumed: every field with its length in unary.\<close>

definition ex_field :: "string \<Rightarrow> string" where
  "ex_field s = replicate (length s) CHR ''x'' @ CHR '' '' # s"

definition ex_unfield :: "string \<Rightarrow> string \<times> string" where
  "ex_unfield s = (let n = length (takeWhile (\<lambda>c. c = CHR ''x'') s); r = drop (Suc n) s in (take n r, drop n r))"

lemma ex_unfield: "ex_unfield (ex_field s @ r) = (s, r)"
proof -
  have "takeWhile (\<lambda>c. c = CHR ''x'') (replicate n CHR ''x'' @ CHR '' '' # q) = replicate n CHR ''x''" for n q
    by (subst takeWhile_append2) simp_all
  then show ?thesis by (simp add: ex_unfield_def ex_field_def Let_def)
qed

definition ex_record :: "PeerRecord \<Rightarrow> string" where
  "ex_record r = ex_field (pub_key_hex r) @ ex_field (uri r) @ ex_field (show_nat (unat (last_seen_ms r)))"

definition ex_to_json :: "PeerCacheFile \<Rightarrow> string" where
  "ex_to_json f = ex_field (show_nat (unat (version f))) @ ex_field (replicate (length (peers f)) CHR ''r'') @ concat (map ex_record (peers f))"

fun ex_records :: "nat \<Rightarrow> string \<Rightarrow> PeerRecord list option" where
  "ex_records 0 s = (if s = [] then Some [] else None)"
| "ex_records (Suc n) s =
     (let (k, s) = ex_unfield s; (u, s) = ex_unfield s; (t, s) = ex_unfield s in
      Option.bind (parse_uint (2 ^ 64 - 1) t) (\<lambda>t. map_option (Cons \<lparr>pub_key_hex = k, uri = u, last_seen_ms = of_nat t\<rparr>) (ex_records n s)))"

definition ex_from_json :: "string \<Rightarrow> PeerCacheFile option" where
  "ex_from_json s =
     (let (v, s) = ex_unfield s; (n, s) = ex_unfield s in
      Option.bind (parse_uint (2 ^ 32 - 1) v) (\<lambda>v. map_option (\<lambda>rs. \<lparr>version = of_nat v, peers = rs\<rparr>) (ex_records (length n) s)))"

lemma ex_records: "ex_records (length rs) (concat (map ex_record rs)) = Some rs"
proof (induction rs)
  case (Cons r rs)
  have "unat (last_seen_ms r) \<le> 2 ^ 64 - 1" using unsigned_less[of "last_seen_ms r", where 'a = nat] by simp
  then show ?case using Cons parse_uint_show by (simp add: ex_record_def ex_unfield)
qed simp

lemma ex_json: "ex_from_json (ex_to_json f) = Some f"
proof -
  have "unat (version f) \<le> 2 ^ 32 - 1" using unsigned_less[of "version f", where 'a = nat] by simp
  then show ?thesis using ex_records[of "peers f"] parse_uint_show by (simp add: ex_from_json_def ex_to_json_def ex_unfield)
qed


end
