(* ===== verification/Node.thy ===== *)
theory Node
  imports Router_Invariant Discovery Peer_Cache
begin

text \<open>
  The node as a whole: its construction from a configuration and the subsystems it starts (\<^verbatim>\<open>node.rs\<close>), and the requests of the admin socket
  (\<^verbatim>\<open>admin.rs\<close>). A spawned task is a value of \<open>spawned\<close>; what the task does is the model of its subsystem. Randomness, the environment, the disk and
  the codecs are arguments.
\<close>

section \<open>Settings of the connection\<close>

definition set_min_peer_difficulty_bits :: "u32 \<Rightarrow> 'c PacketConn \<Rightarrow> 'c PacketConn" where
  "set_min_peer_difficulty_bits bits pc = pc\<lparr>pc_min_peer_difficulty_bits := bits\<rparr>"

text \<open>The key is a \<^verbatim>\<open>OnceLock\<close>: a second value is ignored.\<close>

definition set_obfuscation_psk :: "crypto \<Rightarrow> string \<Rightarrow> 'c PacketConn \<Rightarrow> 'c PacketConn" where
  "set_obfuscation_psk C psk pc =
     (case derive_psk_key C (ascii psk) of
        None \<Rightarrow> pc
      | Some key \<Rightarrow> if pc_obfs_key pc = None then pc\<lparr>pc_obfs_key := Some key\<rparr> else pc)"

definition conn_set_pq_signer :: "bytes \<Rightarrow> 'c PacketConn \<Rightarrow> 'c PacketConn" where
  "conn_set_pq_signer signer pc =
     (let rs = pc_inner pc in pc\<lparr>pc_inner := rs\<lparr>rs_sessions := set_pq_signer signer (rs_sessions rs)\<rparr>\<rparr>)"

section \<open>Construction\<close>

record 'c Node =
  nd_conn :: "'c PacketConn"
  nd_config :: NodeConfig
  nd_key_store :: KeyStore
  nd_connected :: "(bytes \<times> nat) list"

record node_rnd =
  nr_signing_key :: bytes
  nr_dsa_seed :: bytes
  nr_kem :: bytes
  nr_conn_dsa_seed :: bytes
  nr_onion_priv :: bytes

definition Node_new :: "crypto \<Rightarrow> (string \<Rightarrow> bytes option) \<Rightarrow> bool \<Rightarrow> node_rnd \<Rightarrow> instant \<Rightarrow> NodeConfig \<Rightarrow> 'c Node result" where
  "Node_new C hex_decode allow_ephemeral nr now cfg =
     and_then (config_signing_key hex_decode allow_ephemeral (nr_signing_key nr) cfg) (\<lambda>sk.
     let conn = PacketConn_new C (nr_kem nr) (nr_conn_dsa_seed nr) (nr_onion_priv nr) now sk;
         conn = set_min_peer_difficulty_bits (nc_min_peer_difficulty_bits cfg) conn in
     and_then (config_pq_signer hex_decode (nr_dsa_seed nr) cfg) (\<lambda>signer.
     let conn = conn_set_pq_signer signer conn;
         conn = enable_crypto_pool (unat (nc_crypto_workers cfg)) conn;
         conn = set_obfuscation_psk C (nc_obfuscation_psk cfg) conn;
         conn = set_cover_traffic (nc_cover_traffic cfg) conn;
         conn = set_onion_format (nc_onion_format cfg) conn in
     and_then (register C (pc_pub_key conn) KeyStore_new) (\<lambda>(_, key_store).
     Inr \<lparr>nd_conn = conn, nd_config = cfg, nd_key_store = key_store, nd_connected = []\<rparr>)))"

section \<open>Start\<close>

datatype spawned = TcpListen string | QuicListen string | TcpDial string | QuicDial string | MdnsTask "u16 option"
  | MulticastTask u16 "u16 option" | AdminTask string | MetricsTask string | TunTask string

definition listen_task :: "string \<Rightarrow> spawned" where
  "listen_task u = (if starts_with ''quic://'' u then QuicListen u else TcpListen u)"

definition dial_task :: "string \<Rightarrow> spawned" where
  "dial_task u = (if starts_with ''quic://'' u then QuicDial u else TcpDial u)"

definition Node_start :: "(string \<Rightarrow> PeerCacheFile option) \<Rightarrow> u64 \<Rightarrow> fs \<Rightarrow> 'c Node \<Rightarrow> spawned list" where
  "Node_start from_json now_ms disk n =
     (let cfg = nd_config n; tcp_port = tcp_listen_port cfg in
      map listen_task (nc_listen cfg) @
      map dial_task (nc_peers cfg) @
      (if nc_peer_cache_path cfg \<noteq> [] then map dial_task (uris (PeerCache_load from_json now_ms (nc_peer_cache_path cfg) disk)) else []) @
      (if nc_mdns_enabled cfg then [MdnsTask tcp_port] else []) @
      (if nc_multicast_enabled cfg then [MulticastTask (nc_multicast_port cfg) tcp_port] else []) @
      [AdminTask (nc_admin_socket cfg)] @
      (if nc_metrics_addr cfg \<noteq> [] then [MetricsTask (nc_metrics_addr cfg)] else []) @
      (case nc_tun_name cfg of Some name \<Rightarrow> [TunTask name] | None \<Rightarrow> []))"

definition register_peer :: "crypto \<Rightarrow> bytes \<Rightarrow> 'c Node \<Rightarrow> 'c Node result" where
  "register_peer C pub_key n = and_then (register C pub_key (nd_key_store n)) (\<lambda>(_, ks). Inr (n\<lparr>nd_key_store := ks\<rparr>))"

section \<open>The admin socket\<close>

record Request =
  rq_method :: string
  rq_uri :: "string option"

definition as_secs_f64 :: "nat \<Rightarrow> fl" where
  "as_secs_f64 ns = fadd F64 (of_int_fl F64 (int (ns div 10 ^ 9))) (fdiv F64 (of_int_fl F64 (int (ns mod 10 ^ 9))) (of_int_fl F64 (10 ^ 9)))"

record PeerInfo =
  pi_pub_key :: string
  pi_address :: string
  pi_lag_ms :: fl
  pi_jitter_ms :: fl
  pi_loss_rate :: fl
  pi_rx_bytes :: u64
  pi_tx_bytes :: u64
  pi_uptime_secs :: fl
  pi_priority :: u8
  pi_trust :: fl

datatype Response = GetSelf string string nat | GetPeers "PeerInfo list" | AddPeer string string | AdminError string

definition peer_info :: "crypto \<Rightarrow> (bytes \<Rightarrow> string) \<Rightarrow> PeerStats \<Rightarrow> PeerInfo result" where
  "peer_info C hex_encode p =
     and_then (address_from_key C (ps_key p)) (\<lambda>addr.
     Inr \<lparr>pi_pub_key = hex_encode (ps_key p), pi_address = ipv6_string addr, pi_lag_ms = fmul F64 (as_secs_f64 (ps_lag p)) (Fin 1000),
          pi_jitter_ms = fmul F64 (as_secs_f64 (ps_jitter p)) (Fin 1000), pi_loss_rate = ps_loss_rate p, pi_rx_bytes = ps_rx_bytes p,
          pi_tx_bytes = ps_tx_bytes p, pi_uptime_secs = as_secs_f64 (ps_uptime p), pi_priority = ps_priority p, pi_trust = ps_trust p\<rparr>)"

fun peer_infos :: "crypto \<Rightarrow> (bytes \<Rightarrow> string) \<Rightarrow> PeerStats list \<Rightarrow> PeerInfo list result" where
  "peer_infos C hex_encode [] = Inr []"
| "peer_infos C hex_encode (p # ps) = and_then (peer_info C hex_encode p) (\<lambda>i. and_then (peer_infos C hex_encode ps) (\<lambda>is. Inr (i # is)))"

text \<open>The response and the tasks spawned. \<^verbatim>\<open>addPeer\<close> calls the dialler of the TCP transport.\<close>

definition admin_dispatch :: "crypto \<Rightarrow> (bytes \<Rightarrow> string) \<Rightarrow> instant \<Rightarrow> Request \<Rightarrow> 'c PacketConn \<Rightarrow> (Response \<times> spawned list) result" where
  "admin_dispatch C hex_encode now req conn =
     (if rq_method req = ''getSelf'' then
        and_then (address_from_key C (pc_pub_key conn)) (\<lambda>addr.
        Inr (GetSelf (hex_encode (pc_pub_key conn)) (ipv6_string addr) (length (get_peer_stats now conn)), []))
      else if rq_method req = ''getPeers'' then
        and_then (peer_infos C hex_encode (get_peer_stats now conn)) (\<lambda>ps. Inr (GetPeers ps, []))
      else if rq_method req = ''addPeer'' then
        (case rq_uri req of
           None \<Rightarrow> Inr (AdminError ''missing \"uri\" field'', [])
         | Some u \<Rightarrow> Inr (AddPeer ''dialing'' u, [TcpDial u]))
      else Inr (AdminError (''unknown method: \"'' @ rq_method req @ ''\"''), []))"

section \<open>Properties\<close>

lemma conn_ok_settings:
  assumes "conn_ok E sk pc"
  shows "conn_ok E sk (set_min_peer_difficulty_bits b pc)" "conn_ok E sk (set_obfuscation_psk C psk pc)" "conn_ok E sk (conn_set_pq_signer s pc)"
proof -
  show "conn_ok E sk (set_min_peer_difficulty_bits b pc)" "conn_ok E sk (set_obfuscation_psk C psk pc)"
    using assms by (simp_all add: conn_ok_def set_min_peer_difficulty_bits_def set_obfuscation_psk_def split: option.split)
  have "sm_same (rs_sessions (pc_inner pc)) (set_pq_signer s (rs_sessions (pc_inner pc)))"
    by (simp add: sm_same_def set_pq_signer_def tables_bounded_def)
  then show "conn_ok E sk (conn_set_pq_signer s pc)"
    using conn_ok_inner[OF assms node_ok_sm[OF conn_okD[OF assms]]] by (simp add: conn_set_pq_signer_def Let_def)
qed

lemma quic_not_tcp: "starts_with ''quic://'' u \<longleftrightarrow> (\<exists>r. parse_quic_uri u = Inr r)" "starts_with ''quic://'' u \<Longrightarrow> \<exists>e. parse_tcp_uri u = Inl e"
proof -
  show "starts_with ''quic://'' u \<longleftrightarrow> (\<exists>r. parse_quic_uri u = Inr r)" by (simp add: starts_with_def parse_quic_uri_def split: option.split)
  show "starts_with ''quic://'' u \<Longrightarrow> \<exists>e. parse_tcp_uri u = Inl e" by (auto simp: starts_with_def strip_prefix_Some parse_tcp_uri_def)
qed

text \<open>The tasks by kind: the address a task dials or listens at.\<close>

definition dial_of :: "spawned \<Rightarrow> string option" where
  "dial_of t = (case t of TcpDial u \<Rightarrow> Some u | QuicDial u \<Rightarrow> Some u | _ \<Rightarrow> None)"

definition listen_of :: "spawned \<Rightarrow> string option" where
  "listen_of t = (case t of TcpListen u \<Rightarrow> Some u | QuicListen u \<Rightarrow> Some u | _ \<Rightarrow> None)"

lemma task_of [simp]:
  "dial_of (dial_task u) = Some u" "dial_of (listen_task u) = None" "listen_of (listen_task u) = Some u" "listen_of (dial_task u) = None"
  by (simp_all add: dial_task_def listen_task_def dial_of_def listen_of_def)

lemma map_filter_tasks:
  "List.map_filter dial_of (map dial_task us) = us" "List.map_filter listen_of (map dial_task us) = []"
  "List.map_filter dial_of (map listen_task us) = []" "List.map_filter listen_of (map listen_task us) = us"
  "filter (\<lambda>t. dial_of t = None \<and> listen_of t = None) (map dial_task us) = []"
  "filter (\<lambda>t. dial_of t = None \<and> listen_of t = None) (map listen_task us) = []"
  by (induction us) (simp_all add: List.map_filter_simps)

lemma map_filter_append: "List.map_filter f (xs @ ys) = List.map_filter f xs @ List.map_filter f ys"
  by (simp add: List.map_filter_def)

definition cached_uris :: "(string \<Rightarrow> PeerCacheFile option) \<Rightarrow> u64 \<Rightarrow> fs \<Rightarrow> NodeConfig \<Rightarrow> string list" where
  "cached_uris from_json now_ms disk cfg =
     (if nc_peer_cache_path cfg \<noteq> [] then uris (PeerCache_load from_json now_ms (nc_peer_cache_path cfg) disk) else [])"

lemma tasks_by_kind:
  fixes n :: "'c Node" and from_json now_ms disk
  defines "cfg \<equiv> nd_config n" and "tasks \<equiv> Node_start from_json now_ms disk n"
  shows "List.map_filter dial_of tasks = nc_peers cfg @ cached_uris from_json now_ms disk cfg"
    "List.map_filter listen_of tasks = nc_listen cfg"
    "filter (\<lambda>t. dial_of t = None \<and> listen_of t = None) tasks =
      (if nc_mdns_enabled cfg then [MdnsTask (tcp_listen_port cfg)] else []) @
      (if nc_multicast_enabled cfg then [MulticastTask (nc_multicast_port cfg) (tcp_listen_port cfg)] else []) @
      [AdminTask (nc_admin_socket cfg)] @
      (if nc_metrics_addr cfg \<noteq> [] then [MetricsTask (nc_metrics_addr cfg)] else []) @
      (case nc_tun_name cfg of Some name \<Rightarrow> [TunTask name] | None \<Rightarrow> [])"
  by (simp_all add: Node_start_def Let_def cfg_def tasks_def cached_uris_def map_filter_append map_filter_tasks List.map_filter_simps dial_of_def[of "MdnsTask _"]
      dial_of_def[of "MulticastTask _ _"] dial_of_def[of "AdminTask _"] dial_of_def[of "MetricsTask _"] dial_of_def[of "TunTask _"] listen_of_def[of "MdnsTask _"]
      listen_of_def[of "MulticastTask _ _"] listen_of_def[of "AdminTask _"] listen_of_def[of "MetricsTask _"] listen_of_def[of "TunTask _"] split: option.split)

lemma tasks_schemes:
  assumes "x \<in> set (Node_start from_json now_ms disk n)"
  shows "x = TcpDial u \<or> x = TcpListen u \<Longrightarrow> \<not> starts_with ''quic://'' u" "x = QuicDial u \<or> x = QuicListen u \<Longrightarrow> starts_with ''quic://'' u"
  using assms by (auto simp: Node_start_def Let_def dial_task_def listen_task_def split: if_splits option.splits)

lemma psk_key: "pc_obfs_key pc = None \<Longrightarrow> pc_obfs_key (set_obfuscation_psk C psk pc) = (if psk = [] then None else derive_psk_key C (ascii psk))"
  by (simp add: set_obfuscation_psk_def derive_psk_key_def ascii_def)

lemma psk_same [simp]:
  "pc_inner (set_obfuscation_psk C psk pc) = pc_inner pc" "pc_pub_key (set_obfuscation_psk C psk pc) = pc_pub_key pc"
  "pc_crypto_pool (set_obfuscation_psk C psk pc) = pc_crypto_pool pc"
  "pc_min_peer_difficulty_bits (set_obfuscation_psk C psk pc) = pc_min_peer_difficulty_bits pc"
  by (simp_all add: set_obfuscation_psk_def split: option.split)

lemma settings_pub_key [simp]:
  "pc_pub_key (set_onion_format fmt pc) = pc_pub_key pc" "pc_pub_key (set_cover_traffic m pc) = pc_pub_key pc"
  "pc_pub_key (enable_crypto_pool w pc) = pc_pub_key pc" "pc_pub_key (conn_set_pq_signer s pc) = pc_pub_key pc"
  "pc_pub_key (set_min_peer_difficulty_bits b pc) = pc_pub_key pc" "pc_pub_key (PacketConn_new C kr ds op now sk) = ed_pub_of C sk"
  by (simp_all add: set_onion_format_def set_cover_traffic_def enable_crypto_pool_def conn_set_pq_signer_def set_min_peer_difficulty_bits_def
      PacketConn_new_def Let_def)

text \<open>The construction, once its three fallible steps are known to have succeeded.\<close>

lemma Node_new_Inr:
  assumes "Node_new C hex_decode allow nr now cfg = Inr n"
  obtains sk signer a where "config_signing_key hex_decode allow (nr_signing_key nr) cfg = Inr sk"
    "config_pq_signer hex_decode (nr_dsa_seed nr) cfg = Inr signer" "address_from_key C (ed_pub_of C sk) = Inr a"
    "nd_conn n = set_onion_format (nc_onion_format cfg) (set_cover_traffic (nc_cover_traffic cfg) (set_obfuscation_psk C (nc_obfuscation_psk cfg)
       (enable_crypto_pool (unat (nc_crypto_workers cfg)) (conn_set_pq_signer signer (set_min_peer_difficulty_bits (nc_min_peer_difficulty_bits cfg)
         (PacketConn_new C (nr_kem nr) (nr_conn_dsa_seed nr) (nr_onion_priv nr) now sk))))))"
    "nd_config n = cfg" "nd_key_store n = \<lparr>addr_to_key = [(a, ed_pub_of C sk)]\<rparr>"
  using assms
  unfolding Node_new_def Let_def by (auto simp: and_then_Inr_iff register_Inr KeyStore_new_def)

lemma Node_new_ok:
  assumes "config_signing_key hex_decode allow (nr_signing_key nr) cfg = Inr sk" "config_pq_signer hex_decode (nr_dsa_seed nr) cfg = Inr signer"
    "address_from_key C (ed_pub_of C sk) = Inr a"
  shows "\<exists>n. Node_new C hex_decode allow nr now cfg = Inr n"
  using assms by (simp add: Node_new_def Let_def register_def)

text \<open>C13. What a configuration starts. A node that is constructed has the identity of the configured key and the post-quantum signer of the configured
  seed, is well-formed, carries every setting, masks its links with the key of the phrase exactly when one is set, and knows its own address.
  It then listens at the configured addresses and dials the static peers followed by the cached ones, in the listed order and each as often as it is listed (a peer listed
  several times is dialled over as many links), each with the transport its URI names, and dials and listens at nothing else. The remaining tasks are exactly mDNS and
  multicast discovery where enabled, always one admin socket at the configured path, the metrics endpoint where an address is given and the TUN interface
  where one is named.\<close>

theorem node_startup:
  fixes n :: "'c Node" and E :: "'c env" and from_json now_ms disk
  assumes "Node_new (suite E) hex_decode allow nr now cfg = Inr n"
  defines "tasks \<equiv> Node_start from_json now_ms disk n" and "conn \<equiv> nd_conn n"
  shows "(\<exists>sk a. config_signing_key hex_decode allow (nr_signing_key nr) cfg = Inr sk \<and> pc_pub_key conn = ed_pub_of (suite E) sk \<and> conn_ok E sk conn \<and>
      address_from_key (suite E) (pc_pub_key conn) = Inr a \<and> key_for_addr a (nd_key_store n) = Some (pc_pub_key conn)) \<and>
    config_pq_signer hex_decode (nr_dsa_seed nr) cfg = Inr (pq_signer (rs_sessions (pc_inner conn))) \<and>
    pc_min_peer_difficulty_bits conn = nc_min_peer_difficulty_bits cfg \<and> (pc_crypto_pool conn = None \<longleftrightarrow> nc_crypto_workers cfg = 0) \<and>
    pc_obfs_key conn = (if nc_obfuscation_psk cfg = [] then None else derive_psk_key (suite E) (ascii (nc_obfuscation_psk cfg))) \<and>
    rs_cover_mode (pc_inner conn) = nc_cover_traffic cfg \<and> rs_onion_format (pc_inner conn) = nc_onion_format cfg \<and>
    List.map_filter dial_of tasks = nc_peers cfg @ cached_uris from_json now_ms disk cfg \<and>
    List.map_filter listen_of tasks = nc_listen cfg \<and>
    (\<forall>u. TcpDial u \<in> set tasks \<or> TcpListen u \<in> set tasks \<longrightarrow> (\<nexists>r. parse_quic_uri u = Inr r)) \<and>
    (\<forall>u. QuicDial u \<in> set tasks \<or> QuicListen u \<in> set tasks \<longrightarrow> (\<exists>r. parse_quic_uri u = Inr r)) \<and>
    filter (\<lambda>t. dial_of t = None \<and> listen_of t = None) tasks =
      (if nc_mdns_enabled cfg then [MdnsTask (tcp_listen_port cfg)] else []) @
      (if nc_multicast_enabled cfg then [MulticastTask (nc_multicast_port cfg) (tcp_listen_port cfg)] else []) @
      [AdminTask (nc_admin_socket cfg)] @
      (if nc_metrics_addr cfg \<noteq> [] then [MetricsTask (nc_metrics_addr cfg)] else []) @
      (case nc_tun_name cfg of Some name \<Rightarrow> [TunTask name] | None \<Rightarrow> [])"
proof -
  obtain sk signer a where N: "config_signing_key hex_decode allow (nr_signing_key nr) cfg = Inr sk"
    "config_pq_signer hex_decode (nr_dsa_seed nr) cfg = Inr signer" "address_from_key (suite E) (ed_pub_of (suite E) sk) = Inr a"
    "conn = set_onion_format (nc_onion_format cfg) (set_cover_traffic (nc_cover_traffic cfg) (set_obfuscation_psk (suite E) (nc_obfuscation_psk cfg)
       (enable_crypto_pool (unat (nc_crypto_workers cfg)) (conn_set_pq_signer signer (set_min_peer_difficulty_bits (nc_min_peer_difficulty_bits cfg)
         (PacketConn_new (suite E) (nr_kem nr) (nr_conn_dsa_seed nr) (nr_onion_priv nr) now sk))))))"
    "nd_config n = cfg" "nd_key_store n = \<lparr>addr_to_key = [(a, ed_pub_of (suite E) sk)]\<rparr>"
    using assms(1) unfolding conn_def by (rule Node_new_Inr)
  have ok: "conn_ok E sk conn" unfolding N(4) by (intro conn_ok_ops conn_ok_settings conn_ok_pool conn_ok_new)
  have settings: "pc_pub_key conn = ed_pub_of (suite E) sk" "pq_signer (rs_sessions (pc_inner conn)) = signer"
    "pc_min_peer_difficulty_bits conn = nc_min_peer_difficulty_bits cfg" "pc_crypto_pool conn = None \<longleftrightarrow> nc_crypto_workers cfg = 0"
    "pc_obfs_key conn = (if nc_obfuscation_psk cfg = [] then None else derive_psk_key (suite E) (ascii (nc_obfuscation_psk cfg)))"
    "rs_cover_mode (pc_inner conn) = nc_cover_traffic cfg" "rs_onion_format (pc_inner conn) = nc_onion_format cfg"
    unfolding N(4) by (simp_all add: psk_key set_onion_format_def set_cover_traffic_def enable_crypto_pool_def conn_set_pq_signer_def
      set_min_peer_difficulty_bits_def set_pq_signer_def PacketConn_new_def Let_def unat_eq_0)
  note kinds = tasks_by_kind[of from_json now_ms disk n, folded tasks_def, unfolded N(5)]
  have schemes: "TcpDial u \<in> set tasks \<or> TcpListen u \<in> set tasks \<longrightarrow> (\<nexists>r. parse_quic_uri u = Inr r)"
    "QuicDial u \<in> set tasks \<or> QuicListen u \<in> set tasks \<longrightarrow> (\<exists>r. parse_quic_uri u = Inr r)" for u
    unfolding tasks_def quic_not_tcp(1)[symmetric] using tasks_schemes by blast+
  have "config_pq_signer hex_decode (nr_dsa_seed nr) cfg = Inr (pq_signer (rs_sessions (pc_inner conn)))"
    "address_from_key (suite E) (pc_pub_key conn) = Inr a" "key_for_addr a (nd_key_store n) = Some (pc_pub_key conn)"
    by (simp_all add: N(2,3,6) settings key_for_addr_def)
  note identity = this
  have "\<exists>sk a. config_signing_key hex_decode allow (nr_signing_key nr) cfg = Inr sk \<and> pc_pub_key conn = ed_pub_of (suite E) sk \<and> conn_ok E sk conn \<and>
      address_from_key (suite E) (pc_pub_key conn) = Inr a \<and> key_for_addr a (nd_key_store n) = Some (pc_pub_key conn)"
    using N(1) settings(1) ok identity(2,3) by blast
  with identity(1) show ?thesis using settings(3-) schemes kinds by (intro conjI allI) assumption+
qed

theorem node_startup_witness:
  "\<exists>n :: bytes list Node. Node_new ex ex_hex_decode True \<lparr>nr_signing_key = [4], nr_dsa_seed = [5], nr_kem = [1], nr_conn_dsa_seed = [2], nr_onion_priv = [3]\<rparr>
       0 (NodeConfig_default\<lparr>nc_peers := [''quic://10.0.0.1:9001'', ''quic://10.0.0.1:9001'']\<rparr>) = Inr n \<and>
     List.map_filter dial_of (Node_start ex_from_json 0 (\<lambda>_. None) n) = [''quic://10.0.0.1:9001'', ''quic://10.0.0.1:9001''] \<and>
     AdminTask ''/var/run/norn.sock'' \<in> set (Node_start ex_from_json 0 (\<lambda>_. None) n)"
proof -
  let ?u = "''quic://10.0.0.1:9001''"
  let ?cfg = "NodeConfig_default\<lparr>nc_peers := [?u, ?u]\<rparr>"
  let ?nr = "\<lparr>nr_signing_key = [4], nr_dsa_seed = [5], nr_kem = [1], nr_conn_dsa_seed = [2], nr_onion_priv = [3]\<rparr>"
  have c: "config_signing_key ex_hex_decode True (nr_signing_key ?nr) ?cfg = Inr [4]" "config_pq_signer ex_hex_decode (nr_dsa_seed ?nr) ?cfg = Inr [5]"
    by (simp_all add: config_signing_key_def config_pq_signer_def NodeConfig_default_def)
  have "\<not> isl (address_from_key ex (ed_pub_of ex [4]))" by code_simp
  then obtain a where "address_from_key (suite ex_env) (ed_pub_of (suite ex_env) [4]) = Inr a" by (cases "address_from_key ex (ed_pub_of ex [4])") (auto simp: ex_env_def)
  from Node_new_ok[OF c this] obtain n :: "bytes list Node" where n: "Node_new (suite ex_env) ex_hex_decode True ?nr 0 ?cfg = Inr n" by blast
  note started = node_startup[OF n, of ex_from_json 0 "\<lambda>_. None"]
  let ?tasks = "Node_start ex_from_json 0 (\<lambda>_. None) n"
  have "List.map_filter dial_of ?tasks = nc_peers ?cfg @ cached_uris ex_from_json 0 (\<lambda>_. None) ?cfg" using started by (elim conjE)
  moreover have "cached_uris ex_from_json 0 (\<lambda>_. None) ?cfg = []" by (simp add: cached_uris_def uris_def PeerCache_load_def load_with_max_age_def)
  ultimately have dials: "List.map_filter dial_of ?tasks = [?u, ?u]" by simp
  have "filter (\<lambda>t. dial_of t = None \<and> listen_of t = None) ?tasks =
      (if nc_mdns_enabled ?cfg then [MdnsTask (tcp_listen_port ?cfg)] else []) @
      (if nc_multicast_enabled ?cfg then [MulticastTask (nc_multicast_port ?cfg) (tcp_listen_port ?cfg)] else []) @ [AdminTask (nc_admin_socket ?cfg)] @
      (if nc_metrics_addr ?cfg \<noteq> [] then [MetricsTask (nc_metrics_addr ?cfg)] else []) @ (case nc_tun_name ?cfg of Some name \<Rightarrow> [TunTask name] | None \<Rightarrow> [])"
    using started by (elim conjE)
  then have "AdminTask (nc_admin_socket ?cfg) \<in> set (filter (\<lambda>t. dial_of t = None \<and> listen_of t = None) ?tasks)" by simp
  then have "AdminTask ''/var/run/norn.sock'' \<in> set ?tasks" by (simp add: NodeConfig_default_def default_admin_socket_def)
  then show ?thesis using n dials by (auto simp: ex_env_def)
qed

lemma peer_infos_ok:
  assumes "\<forall>b. hex_decode (hex_encode b) = Some b" "peer_infos C hex_encode ps = Inr is"
  shows "list_all2 (\<lambda>i p. hex_decode (pi_pub_key i) = Some (ps_key p) \<and> (\<exists>a. address_from_key C (ps_key p) = Inr a \<and> pi_address i = ipv6_string a)) is ps"
  using assms(2)
proof (induction ps arbitrary: "is")
  case (Cons p ps)
  then obtain i is' where "is = i # is'" "peer_info C hex_encode p = Inr i" "peer_infos C hex_encode ps = Inr is'" by (auto simp: and_then_Inr_iff)
  then show ?case using Cons.IH assms(1) by (auto simp: peer_info_def and_then_Inr_iff)
qed simp

text \<open>What the admin socket answers. Every request with an unknown method and every \<^verbatim>\<open>addPeer\<close> without an address is answered with an error and starts
  nothing; \<^verbatim>\<open>getSelf\<close> and \<^verbatim>\<open>getPeers\<close> report the node's own key and one entry per linked peer, in order, with the peer's key and the address of that key.
  \<^verbatim>\<open>addPeer\<close> always starts the TCP dialler, so that an address of the QUIC transport is answered as dialling although the dialler refuses it.\<close>

theorem admin_requests:
  assumes inv: "\<forall>b. hex_decode (hex_encode b) = Some b" and "admin_dispatch C hex_encode now req conn = Inr (resp, tasks)"
  shows "(rq_method req \<notin> {''getSelf'', ''getPeers'', ''addPeer''} \<or> rq_method req = ''addPeer'' \<and> rq_uri req = None \<longleftrightarrow> (\<exists>e. resp = AdminError e)) \<and>
    (tasks \<noteq> [] \<longleftrightarrow> rq_method req = ''addPeer'' \<and> rq_uri req \<noteq> None) \<and>
    (rq_method req = ''getSelf'' \<longrightarrow> (\<exists>k a. address_from_key C (pc_pub_key conn) = Inr a \<and> hex_decode k = Some (pc_pub_key conn) \<and>
       resp = GetSelf k (ipv6_string a) (length (rs_peers (pc_inner conn))))) \<and>
    (rq_method req = ''getPeers'' \<longrightarrow> (\<exists>ps. resp = GetPeers ps \<and>
       list_all2 (\<lambda>i (_, p). hex_decode (pi_pub_key i) = Some (pd_pub_key p) \<and>
         (\<exists>a. address_from_key C (pd_pub_key p) = Inr a \<and> pi_address i = ipv6_string a)) ps (rs_peers (pc_inner conn)))) \<and>
    (\<forall>u. rq_method req = ''addPeer'' \<and> rq_uri req = Some u \<longrightarrow> resp = AddPeer ''dialing'' u \<and> tasks = [TcpDial u] \<and>
       ((\<exists>r. parse_quic_uri u = Inr r) \<longrightarrow> (\<exists>e. parse_tcp_uri u = Inl e)))"
proof (cases "rq_method req \<in> {''getSelf'', ''getPeers'', ''addPeer''}")
  case True
  then consider "rq_method req = ''getSelf''" | "rq_method req = ''getPeers''" | "rq_method req = ''addPeer''" by blast
  then show ?thesis
  proof cases
    case 1
    then show ?thesis using assms by (auto simp: admin_dispatch_def and_then_Inr_iff get_peer_stats_def)
  next
    case 2
    then obtain ps where "peer_infos C hex_encode (get_peer_stats now conn) = Inr ps" "resp = GetPeers ps" "tasks = []"
      using assms(2) by (auto simp: admin_dispatch_def and_then_Inr_iff)
    with 2 peer_infos_ok[OF inv this(1)] show ?thesis by (auto simp: get_peer_stats_def list_all2_map2 case_prod_unfold)
  next
    case 3
    then show ?thesis using assms(2) quic_not_tcp by (auto simp: admin_dispatch_def split: option.splits)
  qed
next
  case False
  then show ?thesis using assms(2) by (auto simp: admin_dispatch_def)
qed

theorem admin_requests_witness:
  "admin_dispatch ex ex_hex_encode 0 \<lparr>rq_method = ''addPeer'', rq_uri = Some ''quic://10.0.0.1:9001''\<rparr> (PacketConn_new ex [1] [2] [3] 0 [4] :: bytes list PacketConn) =
     Inr (AddPeer ''dialing'' ''quic://10.0.0.1:9001'', [TcpDial ''quic://10.0.0.1:9001'']) \<and> (\<exists>e. parse_tcp_uri ''quic://10.0.0.1:9001'' = Inl e)"
proof -
  let ?req = "\<lparr>rq_method = ''addPeer'', rq_uri = Some ''quic://10.0.0.1:9001''\<rparr>"
  let ?pc = "PacketConn_new ex [1] [2] [3] 0 [4] :: bytes list PacketConn"
  have d: "admin_dispatch ex ex_hex_encode 0 ?req ?pc = Inr (AddPeer ''dialing'' ''quic://10.0.0.1:9001'', [TcpDial ''quic://10.0.0.1:9001''])"
    by (simp add: admin_dispatch_def)
  have "\<forall>b. ex_hex_decode (ex_hex_encode b) = Some b" by (simp add: ex_hex)
  from admin_requests[OF this d] have "(\<exists>r. parse_quic_uri ''quic://10.0.0.1:9001'' = Inr r) \<longrightarrow> (\<exists>e. parse_tcp_uri ''quic://10.0.0.1:9001'' = Inl e)" by simp
  moreover have "\<exists>r. parse_quic_uri ''quic://10.0.0.1:9001'' = Inr r" by (simp add: quic_not_tcp(1)[symmetric] starts_with_def strip_prefix_Some)
  ultimately show ?thesis using d by blast
qed

end
