(* ===== verification/Tools.thy ===== *)
theory Tools
  imports Node
begin

text \<open>
  What surrounds the node: the test knobs and byte counters (\<^verbatim>\<open>router/diagnostics.rs\<close>), the exchange of keys as words (\<^verbatim>\<open>keyshare.rs\<close>) and the
  commands of \<^verbatim>\<open>nornctl\<close> that share and resolve a key. The environment is a map; the word codec of BIP39 is a pair of arguments.
\<close>

section \<open>Test knobs\<close>

definition malicious_cuckoo_poison_tags :: "(string \<rightharpoonup> string) \<Rightarrow> nat" where
  "malicious_cuckoo_poison_tags env_var =
     (if env_var ''NORN_MALICIOUS_MODE'' \<noteq> Some ''cuckoo_poison'' then 0
      else case Option.bind (env_var ''NORN_MALICIOUS_POISON_TAGS'') (parse_uint (2 ^ 64 - 1)) of Some n \<Rightarrow> n | None \<Rightarrow> 64)"

definition accelerate_rotations_secs :: "(string \<rightharpoonup> string) \<Rightarrow> u64 option" where
  "accelerate_rotations_secs env_var =
     Option.bind (env_var ''NORN_ACCELERATE_ROTATIONS_SECS'') (\<lambda>raw.
     Option.bind (parse_uint (2 ^ 64 - 1) (trim raw)) (\<lambda>n. if n = 0 then None else Some (of_nat n)))"

section \<open>Bytes sent by message type\<close>

definition TX_TYPE_NAMES :: "string list" where
  "TX_TYPE_NAMES = [''sig'', ''announce'', ''cuckoo'', ''pathfind'', ''traffic'', ''coord'', ''onion'', ''onionkey'', ''reputation'', ''holepunch'', ''pathneg'',
     ''capabilities'', ''other'']"

definition tx_type_slot :: "u8 \<Rightarrow> nat" where
  "tx_type_slot b =
     (if b = 2 \<or> b = 3 then 0 else if b = 4 then 1 else if b = 5 then 2 else if 6 \<le> b \<and> b \<le> 8 then 3 else if b = 9 then 4 else if b = 10 then 5
      else if b = 11 then 6 else if b = 12 then 7 else if b = 13 then 8 else if b = 14 then 9 else if b = 15 then 10 else if b = 0x11 then 11 else 12)"

definition record_tx_bytes :: "u8 \<Rightarrow> u64 \<Rightarrow> u64 list \<Rightarrow> u64 list" where
  "record_tx_bytes first_byte len counters = (let i = tx_type_slot first_byte in counters[i := counters ! i + len])"

definition tx_bytes_by_type :: "u64 list \<Rightarrow> (string \<times> u64) list" where
  "tx_bytes_by_type counters = map (\<lambda>(i, n). (n, counters ! i)) (List.enumerate 0 TX_TYPE_NAMES)"

section \<open>Keys as words\<close>

definition to_mnemonic :: "(bytes \<Rightarrow> string) \<Rightarrow> bytes \<Rightarrow> string" where
  "to_mnemonic from_entropy key = from_entropy key"

definition from_mnemonic :: "(string \<Rightarrow> bytes option) \<Rightarrow> string \<Rightarrow> bytes result" where
  "from_mnemonic parse phrase =
     (case parse (trim phrase) of
        None \<Rightarrow> Inl (Bail ''not a valid BIP39 mnemonic'')
      | Some entropy \<Rightarrow> if length entropy \<noteq> 32 then Inl (Bail ''a norn key needs the full 24-word phrase'') else Inr entropy)"

definition parse_hex_key :: "(string \<Rightarrow> bytes option) \<Rightarrow> string \<Rightarrow> bytes result" where
  "parse_hex_key hex_decode hex_str =
     (case hex_decode (trim hex_str) of
        None \<Rightarrow> Inl (Bail ''public key must be hex'')
      | Some b \<Rightarrow> if length b \<noteq> 32 then Inl (Bail ''public key must decode to 32 bytes'') else Inr b)"

text \<open>\<^verbatim>\<open>nornctl share\<close> on the answer of \<^verbatim>\<open>getSelf\<close>: the key, the address and the words. \<^verbatim>\<open>nornctl resolve\<close> on the words of its command line: the key and the
  address. \<^verbatim>\<open>nornctl showaddr\<close>: the address.\<close>

definition nornctl_share :: "(string \<Rightarrow> bytes option) \<Rightarrow> (bytes \<Rightarrow> string) \<Rightarrow> Response \<Rightarrow> (string \<times> string \<times> string) result" where
  "nornctl_share hex_decode from_entropy resp =
     (case resp of
        GetSelf pub_key addr _ \<Rightarrow> and_then (parse_hex_key hex_decode pub_key) (\<lambda>key. Inr (pub_key, addr, to_mnemonic from_entropy key))
      | AdminError e \<Rightarrow> Inl (Bail (''daemon error: '' @ e))
      | _ \<Rightarrow> Inl (Bail ''parsing getSelf reply''))"

definition nornctl_resolve ::
  "crypto \<Rightarrow> (bytes \<Rightarrow> string) \<Rightarrow> (string \<Rightarrow> bytes option) \<Rightarrow> string list \<Rightarrow> (string \<times> string) result" where
  "nornctl_resolve C hex_encode parse mnemonic =
     and_then (from_mnemonic parse (join '' '' mnemonic)) (\<lambda>key.
     and_then (address_from_key C key) (\<lambda>addr. Inr (hex_encode key, ipv6_string addr)))"

definition nornctl_showaddr :: "crypto \<Rightarrow> (string \<Rightarrow> bytes option) \<Rightarrow> string \<Rightarrow> string result" where
  "nornctl_showaddr C hex_decode hex_key =
     and_then (parse_hex_key hex_decode hex_key) (\<lambda>key. and_then (address_from_key C key) (\<lambda>addr. Inr (ipv6_string addr)))"

section \<open>Properties\<close>

text \<open>The counters account for every byte, wrapping around as the atomics do, and each name has one counter.\<close>

lemma tx_slot_bound: "tx_type_slot b < 13"
  by (simp add: tx_type_slot_def)

lemma sum_list_add_at: "i < length xs \<Longrightarrow> sum_list (xs[i := xs ! i + d]) = sum_list xs + (d :: 'a :: comm_monoid_add)"
  by (induction xs arbitrary: i) (auto simp: ac_simps split: nat.split)

lemma tx_bytes_accounted:
  assumes "length counters = 13"
  shows "sum_list (map snd (tx_bytes_by_type (record_tx_bytes b n counters))) = sum_list counters + n"
    "map fst (tx_bytes_by_type counters) = TX_TYPE_NAMES" "length (record_tx_bytes b n counters) = 13"
proof -
  let ?c = "record_tx_bytes b n counters"
  have l: "length TX_TYPE_NAMES = 13" by (simp add: TX_TYPE_NAMES_def)
  have len: "length ?c = 13" using assms by (simp add: record_tx_bytes_def Let_def)
  then have "map snd (tx_bytes_by_type ?c) = ?c"
    by (intro nth_equalityI) (simp_all add: tx_bytes_by_type_def l nth_enumerate_eq)
  moreover have "sum_list ?c = sum_list counters + n"
    using sum_list_add_at[of "tx_type_slot b" counters n] assms tx_slot_bound[of b] by (simp add: record_tx_bytes_def Let_def)
  ultimately show "sum_list (map snd (tx_bytes_by_type ?c)) = sum_list counters + n" by simp
  show "map fst (tx_bytes_by_type counters) = TX_TYPE_NAMES"
    by (intro nth_equalityI) (simp_all add: tx_bytes_by_type_def nth_enumerate_eq)
  show "length ?c = 13" by (rule len)
qed

text \<open>Without the variables of the test modes nothing is injected and nothing accelerated.\<close>

lemma knobs_off: "env_var ''NORN_MALICIOUS_MODE'' = None \<Longrightarrow> malicious_cuckoo_poison_tags env_var = 0"
  "accelerate_rotations_secs env_var \<noteq> Some 0"
proof -
  show "env_var ''NORN_MALICIOUS_MODE'' = None \<Longrightarrow> malicious_cuckoo_poison_tags env_var = 0" by (simp add: malicious_cuckoo_poison_tags_def)
  have "n = 0" if "parse_uint (2 ^ 64 - 1) s = Some n" "(of_nat n :: u64) = 0" for s n
    using parse_uint_bound[OF that(1)] that(2) by (auto simp: word_of_nat_eq_0_iff dest: dvd_imp_le)
  then show "accelerate_rotations_secs env_var \<noteq> Some 0" by (auto simp: accelerate_rotations_secs_def bind_eq_Some_conv simp del: of_nat_numeral split: if_splits)
qed

text \<open>A key that a node shares as words is resolved, by whoever types the words, to the key and the address that the node itself reports.\<close>

theorem key_sharing:
  assumes "\<forall>b. hex_decode (hex_encode b) = Some b" "\<forall>b. trim (hex_encode b) = hex_encode b" "sigs_correct C"
    and "\<forall>k. length k = 32 \<longrightarrow> parse (from_entropy k) = Some k \<and> trim (from_entropy k) = from_entropy k"
    and "pc_pub_key conn = ed_pub_of C sk" "admin_dispatch C hex_encode now \<lparr>rq_method = ''getSelf'', rq_uri = u\<rparr> conn = Inr (resp, ts)"
  shows "\<exists>addr phrase. nornctl_share hex_decode from_entropy resp = Inr (hex_encode (pc_pub_key conn), addr, phrase) \<and>
    (\<forall>ws. join '' '' ws = phrase \<longrightarrow> nornctl_resolve C hex_encode parse ws = Inr (hex_encode (pc_pub_key conn), addr)) \<and>
    nornctl_showaddr C hex_decode (hex_encode (pc_pub_key conn)) = Inr addr"
proof -
  have l: "length (pc_pub_key conn) = 32" using assms(3,5) by (simp add: sigs_correct_def)
  obtain a where a: "address_from_key C (pc_pub_key conn) = Inr a"
    "resp = GetSelf (hex_encode (pc_pub_key conn)) (ipv6_string a) (length (get_peer_stats now conn))"
    using assms(6) by (auto simp: admin_dispatch_def and_then_Inr_iff)
  have k: "parse_hex_key hex_decode (hex_encode (pc_pub_key conn)) = Inr (pc_pub_key conn)" using assms(1,2) l by (simp add: parse_hex_key_def)
  have m: "from_mnemonic parse (from_entropy (pc_pub_key conn)) = Inr (pc_pub_key conn)" using assms(4) l by (simp add: from_mnemonic_def)
  show ?thesis using a k m by (auto simp: nornctl_share_def nornctl_resolve_def nornctl_showaddr_def to_mnemonic_def)
qed

end
